(* ===== verification/Prelude.thy ===== *)
theory Prelude
  imports Main "HOL-Library.Word" "HOL-Library.Code_Target_Numeral"
begin

text \<open>
  Shared vocabulary of the development.

  A Go function that returns \<open>(T, error)\<close> is modelled by a function into
  \<^typ>\<open>'e + 'a\<close> (\<^const>\<open>Inl\<close> carries the error).  A Go byte slice is a list of
  \<^typ>\<open>8 word\<close>; \<open>big.Int\<close> is \<^typ>\<open>int\<close>.  This theory holds the big-endian reading of byte
  lists, its inverse, bit masks on bytes, and the generic list facts the components share.
\<close>

named_theorems be_simps \<open>big-endian arithmetic on byte lists\<close>
named_theorems go_net \<open>laws of the modelled net package\<close>

type_synonym byte = "8 word"

subsection \<open>Results with errors\<close>

definition bind_result :: "'e + 'a \<Rightarrow> ('a \<Rightarrow> 'e + 'b) \<Rightarrow> 'e + 'b" where
  "bind_result m f = (case m of Inl e \<Rightarrow> Inl e | Inr x \<Rightarrow> f x)"

lemma bind_result_simps [simp]:
  "bind_result (Inl e) f = Inl e"
  "bind_result (Inr x) f = f x"
  by (simp_all add: bind_result_def)

lemma bind_result_Inr_iff: "bind_result m f = Inr y \<longleftrightarrow> (\<exists>x. m = Inr x \<and> f x = Inr y)"
  by (cases m) auto

subsection \<open>Integer division\<close>

lemma int_le_div_iff:
  fixes a c n :: int
  assumes "0 < c"
  shows "n \<le> a div c \<longleftrightarrow> c * n \<le> a"
proof
  assume "n \<le> a div c"
  then have "c * n \<le> c * (a div c)" using assms by simp
  also have "\<dots> \<le> a" using assms pos_mod_sign [OF assms, of a] mult_div_mod_eq [of c a] by linarith
  finally show "c * n \<le> a" .
next
  assume "c * n \<le> a"
  show "n \<le> a div c"
  proof (rule ccontr)
    assume "\<not> n \<le> a div c"
    then have "c * (a div c + 1) \<le> c * n" using assms by simp
    moreover have "a < c * (a div c + 1)"
      unfolding distrib_left using pos_mod_bound [OF assms, of a] mult_div_mod_eq [of c a] by linarith
    ultimately show False using \<open>c * n \<le> a\<close> by linarith
  qed
qed

lemma int_div_less_iff: "0 < c \<Longrightarrow> a div c < n \<longleftrightarrow> a < c * n" for a c n :: int
  using int_le_div_iff [of c n a] by linarith

lemma int_div_eq_iff: "0 < c \<Longrightarrow> a div c = k \<longleftrightarrow> c * k \<le> a \<and> a < c * k + c" for a c k :: int
  using int_le_div_iff [of c k a] int_div_less_iff [of c a "k + 1"] by (simp add: distrib_left) linarith

subsection \<open>Big-endian numbers\<close>

text \<open>\<open>big.Int.SetBytes\<close>: the unsigned big-endian value of a byte slice.\<close>

fun be_val :: "byte list \<Rightarrow> nat" where
  "be_val [] = 0"
| "be_val (b # bs) = unat b * 256 ^ length bs + be_val bs"

text \<open>\<open>big.Int.Bytes\<close>: the minimal big-endian representation; zero is the empty slice.\<close>

fun nat_bytes :: "nat \<Rightarrow> byte list" where
  "nat_bytes n = (if n = 0 then [] else nat_bytes (n div 256) @ [word_of_nat (n mod 256)])"

declare nat_bytes.simps [simp del]

text \<open>A number as exactly \<open>k\<close> big-endian bytes (higher bytes are dropped).\<close>

fun be_bytes :: "nat \<Rightarrow> nat \<Rightarrow> byte list" where
  "be_bytes 0 n = []"
| "be_bytes (Suc k) n = be_bytes k (n div 256) @ [word_of_nat (n mod 256)]"

lemma unat_byte_less [simp]: "unat (b :: byte) < 256"
  using unsigned_less [of b, where ?'a = nat] by simp

lemma be_val_less [simp]: "be_val bs < 256 ^ length bs"
proof (induction bs)
  case Nil
  show ?case by simp
next
  case (Cons b bs)
  have "be_val (b # bs) < unat b * 256 ^ length bs + 256 ^ length bs"
    using Cons.IH by simp
  also have "\<dots> = (unat b + 1) * 256 ^ length bs" by (simp add: algebra_simps)
  also have "\<dots> \<le> 256 * 256 ^ length bs"
    by (rule mult_right_mono) (use unat_byte_less [of b] in linarith, simp)
  finally show ?case by simp
qed

lemma be_val_append [be_simps]: "be_val (xs @ ys) = be_val xs * 256 ^ length ys + be_val ys"
  by (induction xs) (simp_all add: algebra_simps power_add)

lemma length_be_bytes [simp]: "length (be_bytes k n) = k"
  by (induction k arbitrary: n) simp_all

lemma be_val_be_bytes [be_simps]: "be_val (be_bytes k n) = n mod 256 ^ k"
proof (induction k arbitrary: n)
  case 0
  show ?case by simp
next
  case (Suc k)
  have "be_val (be_bytes (Suc k) n) = (n div 256 mod 256 ^ k) * 256 + n mod 256"
    by (simp add: Suc.IH be_val_append unat_of_nat)
  also have "\<dots> = n mod (256 * 256 ^ k)"
    by (simp add: mod_mult2_eq mult.commute add.commute)
  finally show ?case by simp
qed

lemma be_bytes_be_val [be_simps]: "be_bytes (length bs) (be_val bs) = bs"
proof (induction bs rule: rev_induct)
  case Nil
  show ?case by simp
next
  case (snoc b bs)
  have "(be_val bs * 256 + unat b) div 256 = be_val bs"
    and "(be_val bs * 256 + unat b) mod 256 = unat b"
    by simp_all
  then show ?case by (simp add: be_val_append snoc.IH)
qed

lemma be_val_inject: "length xs = length ys \<Longrightarrow> be_val xs = be_val ys \<longleftrightarrow> xs = ys"
  by (metis be_bytes_be_val)

lemma be_bytes_0: "be_bytes k 0 = replicate k 0"
  by (induction k) (simp_all add: replicate_append_same)

lemma be_val_replicate_0 [simp]: "be_val (replicate k 0) = 0"
  by (induction k) simp_all

lemma be_val_eq_0_iff: "be_val bs = 0 \<longleftrightarrow> bs = replicate (length bs) 0"
  by (metis be_val_inject be_val_replicate_0 length_replicate)

lemma be_val_nat_bytes [be_simps]: "be_val (nat_bytes n) = n"
proof (induction n rule: nat_bytes.induct)
  case (1 n)
  then show ?case
    by (cases "n = 0") (simp_all add: nat_bytes.simps [of 0] nat_bytes.simps [of n] be_val_append unat_of_nat)
qed

text \<open>Padding the minimal representation on the left gives the fixed-width one.\<close>

lemma be_bytes_conv_nat_bytes:
  "be_bytes (length (nat_bytes n) + z) n = replicate z 0 @ nat_bytes n"
proof -
  have "be_val (replicate z 0 @ nat_bytes n) = n" by (simp add: be_val_append be_val_nat_bytes)
  then show ?thesis
    by (metis be_bytes_be_val add.commute length_append length_replicate)
qed

lemma length_nat_bytes_le_iff: "length (nat_bytes n) \<le> k \<longleftrightarrow> n < 256 ^ k"
proof (induction n arbitrary: k rule: nat_bytes.induct)
  case (1 n)
  show ?case
  proof (cases "n = 0")
    case True
    then show ?thesis by (simp add: nat_bytes.simps)
  next
    case False
    show ?thesis
    proof (cases k)
      case 0
      with False show ?thesis by (simp add: nat_bytes.simps [of n])
    next
      case (Suc m)
      have "length (nat_bytes n) \<le> k \<longleftrightarrow> n div 256 < 256 ^ m"
        using False Suc "1.IH" [of m] by (simp add: nat_bytes.simps [of n])
      also have "\<dots> \<longleftrightarrow> n < 256 ^ k"
        by (simp add: Suc div_less_iff_less_mult mult.commute)
      finally show ?thesis .
    qed
  qed
qed

lemma find_found: "find P xs = Some x \<Longrightarrow> x \<in> set xs \<and> P x"
  by (induction xs) (auto split: if_splits)

end
