(* ===== verification/GoNet.thy ===== *)
theory GoNet
  imports Prelude
begin

unbundle bit_operations_syntax

text \<open>
  The part of Go's standard package \<open>net\<close> the program uses on binary addresses:
  \<open>net.IP\<close>, \<open>net.IPMask\<close> and \<open>net.IPNet\<close> with \<open>To4\<close>, \<open>To16\<close>, \<open>Equal\<close>, \<open>Mask\<close>, \<open>Size\<close>,
  \<open>CIDRMask\<close> and \<open>Contains\<close>.  A \<open>net.IP\<close> is a byte slice; the nil slice is the empty list (no
  function of the program tells a nil address from an empty one).  The textual forms are in
  theory \<open>GoNetText\<close>.  The lemmas relate masking to division by powers of two, which is what
  the interval reading of prefixes in the rest of the development rests on.
\<close>

type_synonym net_ip = "byte list"
type_synonym ip_mask = "byte list"

record IPNet =
  ipnIP :: net_ip
  ipnMask :: ip_mask

subsection \<open>Addresses\<close>

definition v4InV6Prefix :: "byte list" where
  "v4InV6Prefix = [0, 0, 0, 0, 0, 0, 0, 0, 0, 0, 255, 255]"

definition To4 :: "net_ip \<Rightarrow> net_ip" where
  "To4 ip =
     (if length ip = 4 then ip
      else if length ip = 16 \<and> take 12 ip = v4InV6Prefix then drop 12 ip
      else [])"

definition To16 :: "net_ip \<Rightarrow> net_ip" where
  "To16 ip =
     (if length ip = 4 then v4InV6Prefix @ ip
      else if length ip = 16 then ip
      else [])"

definition IP_Equal :: "net_ip \<Rightarrow> net_ip \<Rightarrow> bool" where
  "IP_Equal ip x =
     (if length ip = length x then ip = x
      else if length ip = 4 \<and> length x = 16 then take 12 x = v4InV6Prefix \<and> ip = drop 12 x
      else if length ip = 16 \<and> length x = 4 then take 12 ip = v4InV6Prefix \<and> drop 12 ip = x
      else False)"

definition IP_Mask :: "net_ip \<Rightarrow> ip_mask \<Rightarrow> net_ip" where
  "IP_Mask ip0 mask0 =
     (let mask = (if length mask0 = 16 \<and> length ip0 = 4 \<and> (\<forall>b \<in> set (take 12 mask0). b = 255)
                  then drop 12 mask0 else mask0);
          ip = (if length mask = 4 \<and> length ip0 = 16 \<and> take 12 ip0 = v4InV6Prefix
                then drop 12 ip0 else ip0)
      in if length ip \<noteq> length mask then [] else map2 (AND) ip mask)"

subsection \<open>Masks\<close>

fun mask_bytes :: "nat \<Rightarrow> nat \<Rightarrow> byte list" where
  "mask_bytes 0 n = []"
| "mask_bytes (Suc l) n =
     (if 8 \<le> n then 255 # mask_bytes l (n - 8) else NOT (drop_bit n 255) # mask_bytes l 0)"

definition CIDRMask :: "int \<Rightarrow> int \<Rightarrow> ip_mask" where
  "CIDRMask ones bits =
     (if bits \<noteq> 32 \<and> bits \<noteq> 128 then []
      else if ones < 0 \<or> ones > bits then []
      else mask_bytes (nat bits div 8) (nat ones))"

text \<open>The loop that counts the leading one bits of a byte; eight shifts empty any byte.\<close>

fun lead_ones :: "nat \<Rightarrow> byte \<Rightarrow> nat \<times> byte" where
  "lead_ones 0 v = (0, v)"
| "lead_ones (Suc k) v =
     (if v AND 128 \<noteq> 0 then (case lead_ones k (push_bit 1 v) of (n, w) \<Rightarrow> (Suc n, w)) else (0, v))"

fun simpleMaskLength :: "ip_mask \<Rightarrow> nat option" where
  "simpleMaskLength [] = Some 0"
| "simpleMaskLength (v # vs) =
     (if v = 255 then map_option ((+) 8) (simpleMaskLength vs)
      else case lead_ones 8 v of (n, w) \<Rightarrow>
        if w \<noteq> 0 then None else if \<exists>x \<in> set vs. x \<noteq> 0 then None else Some n)"

definition Mask_Size :: "ip_mask \<Rightarrow> int \<times> int" where
  "Mask_Size m = (case simpleMaskLength m of None \<Rightarrow> (0, 0) | Some n \<Rightarrow> (int n, int (8 * length m)))"

subsection \<open>Networks\<close>

definition networkNumberAndMask :: "IPNet \<Rightarrow> net_ip \<times> ip_mask" where
  "networkNumberAndMask n =
     (let ip = (if To4 (ipnIP n) \<noteq> [] then To4 (ipnIP n) else ipnIP n); m = ipnMask n
      in if To4 (ipnIP n) = [] \<and> length ip \<noteq> 16 then ([], [])
         else if length m = 4 then (if length ip \<noteq> 4 then ([], []) else (ip, m))
         else if length m = 16 then (ip, if length ip = 4 then drop 12 m else m)
         else ([], []))"

definition IPNet_Contains :: "IPNet \<Rightarrow> net_ip \<Rightarrow> bool" where
  "IPNet_Contains n ip0 =
     (case networkNumberAndMask n of (nn, m) \<Rightarrow>
        let ip = (if To4 ip0 \<noteq> [] then To4 ip0 else ip0)
        in length ip = length nn \<and> map2 (AND) nn m = map2 (AND) ip m)"

subsection \<open>Laws\<close>

lemma length_v4InV6Prefix [simp]: "length v4InV6Prefix = 12"
  by (simp add: v4InV6Prefix_def)

lemma To4_length: "To4 ip = [] \<or> length (To4 ip) = 4"
  by (auto simp: To4_def)

lemma To4_v4 [simp]: "length ip = 4 \<Longrightarrow> To4 ip = ip"
  by (simp add: To4_def)

lemma To4_mapped [simp]: "length ip = 4 \<Longrightarrow> To4 (v4InV6Prefix @ ip) = ip"
  by (simp add: To4_def)

lemma To4_Nil [simp]: "To4 [] = []" and To16_Nil [simp]: "To16 [] = []"
  by (simp_all add: To4_def To16_def)

lemma To4_nonempty_iff:
  "To4 ip \<noteq> [] \<longleftrightarrow> length ip = 4 \<or> length ip = 16 \<and> take 12 ip = v4InV6Prefix"
  by (auto simp: To4_def)

lemma To4_bad_length: "length ip \<noteq> 4 \<Longrightarrow> length ip \<noteq> 16 \<Longrightarrow> To4 ip = []"
  by (simp add: To4_def)

lemma To16_length: "To16 ip = [] \<or> length (To16 ip) = 16"
  by (auto simp: To16_def)

lemma To4_To16 [simp]: "To4 (To16 ip) = To4 ip"
  by (auto simp: To4_def To16_def)

lemma To16_To16 [simp]: "To16 (To16 ip) = To16 ip"
  by (auto simp: To16_def)

lemma length_mask_bytes [simp]: "length (mask_bytes l n) = l"
  by (induction l n rule: mask_bytes.induct) auto

lemma int_and_not_mask: "(a :: int) AND NOT (mask k) = a div 2 ^ k * 2 ^ k"
proof -
  have "a AND NOT (mask k) = push_bit k (drop_bit k a)"
    by (rule bit_eqI) (auto simp: bit_simps)
  then show ?thesis by (simp add: push_bit_eq_mult drop_bit_eq_div)
qed

lemma drop_bit_255: "n < 8 \<Longrightarrow> drop_bit n (255 :: byte) = mask (8 - n)"
proof -
  assume "n < 8"
  then have "n \<in> {0, 1, 2, 3, 4, 5, 6, 7}" by auto
  then show ?thesis by (auto simp: mask_eq_exp_minus_1 drop_bit_eq_div)
qed

lemma uint_and_not_mask: "uint ((b :: byte) AND NOT (mask k)) = uint b div 2 ^ k * 2 ^ k"
proof -
  have "b AND NOT (mask k) = push_bit k (drop_bit k b)"
    by (rule bit_word_eqI) (auto simp: bit_simps)
  moreover have "uint (push_bit k (drop_bit k b)) = push_bit k (drop_bit k (uint b))"
  proof (rule bit_eqI)
    fix n
    have "bit (uint b) n \<Longrightarrow> n < 8" by (auto simp: bit_uint_iff)
    then show "bit (uint (push_bit k (drop_bit k b))) n = bit (push_bit k (drop_bit k (uint b))) n"
      by (auto simp: bit_simps)
  qed
  ultimately show ?thesis by (simp add: push_bit_eq_mult drop_bit_eq_div)
qed

lemma unat_and_mask_byte:
  assumes "n < 8"
  shows "unat ((b :: byte) AND NOT (drop_bit n 255)) = unat b div 2 ^ (8 - n) * 2 ^ (8 - n)"
proof -
  have "int (unat (b AND NOT (drop_bit n 255))) = int (unat b div 2 ^ (8 - n) * 2 ^ (8 - n))"
    by (simp add: drop_bit_255 [OF assms] uint_and_not_mask zdiv_int)
  then show ?thesis by (simp only: of_nat_eq_iff)
qed

lemma byte_and_255 [simp]: "(b :: byte) AND 255 = b"
proof -
  have "(255 :: byte) = - 1" by simp
  then show ?thesis by (metis word_and_max)
qed

lemma dvd_add_div_mult: "(m :: nat) dvd x \<Longrightarrow> (x + r) div m * m = x + r div m * m"
  by (metis add_mult_distrib div_plus_div_distrib_dvd_left dvd_div_mult_self)

lemma div_mult_add_cancel:
  fixes a r m q :: nat
  assumes "r < m"
  shows "(a * m + r) div (q * m) = a div q"
proof -
  have "(a * m + r) div (m * q) = (a * m + r) div m div q" by (simp add: div_mult2_eq)
  also have "(a * m + r) div m = a" using assms by simp
  finally show ?thesis by (simp add: mult.commute)
qed

text \<open>Masking with a prefix mask rounds the big-endian value down to a multiple of the
  prefix size.\<close>

lemma be_val_mask:
  "n \<le> 8 * length bs \<Longrightarrow>
   be_val (map2 (AND) bs (mask_bytes (length bs) n)) =
   be_val bs div 2 ^ (8 * length bs - n) * 2 ^ (8 * length bs - n)"
proof (induction bs arbitrary: n)
  case Nil
  then show ?case by simp
next
  case (Cons b bs)
  let ?L = "length bs"
  have P: "(256 :: nat) ^ ?L = 2 ^ (8 * ?L)" by (simp add: power_mult)
  show ?case
  proof (cases "8 \<le> n")
    case True
    define h where "h = 8 * ?L - (n - 8)"
    have h: "8 * length (b # bs) - n = h" and hle: "h \<le> 8 * ?L"
      using True Cons.prems by (simp_all add: h_def)
    have "(256 :: nat) ^ ?L = 2 ^ (8 * ?L - h) * 2 ^ h"
      unfolding P using hle by (simp flip: power_add)
    then have "(unat b * 256 ^ ?L + be_val bs) div 2 ^ h * 2 ^ h
      = unat b * 256 ^ ?L + be_val bs div 2 ^ h * 2 ^ h"
      by (intro dvd_add_div_mult) simp
    moreover have "be_val (map2 (AND) bs (mask_bytes ?L (n - 8))) = be_val bs div 2 ^ h * 2 ^ h"
      unfolding h_def by (rule Cons.IH) (use Cons.prems in simp)
    ultimately show ?thesis using True by (simp only: h) simp
  next
    case False
    then have n: "n < 8" by simp
    have h: "8 * length (b # bs) - n = (8 - n) + 8 * ?L" using n by simp
    have z: "be_val (map2 (AND) bs (mask_bytes ?L 0)) = 0"
      using Cons.IH [of 0] be_val_less [of bs] by (simp add: P)
    have "be_val (b # bs) div 2 ^ (8 * length (b # bs) - n) = unat b div 2 ^ (8 - n)"
      unfolding h power_add using div_mult_add_cancel [of "be_val bs" "256 ^ ?L" "unat b" "2 ^ (8 - n)"]
      by (simp add: P [symmetric])
    then have "be_val (b # bs) div 2 ^ (8 * length (b # bs) - n) * 2 ^ (8 * length (b # bs) - n)
      = unat b div 2 ^ (8 - n) * 2 ^ (8 - n) * 256 ^ ?L"
      unfolding h power_add P by simp
    with n z show ?thesis
      by (simp add: unat_and_mask_byte P [symmetric] del: mult_Suc_right)
  qed
qed

text \<open>A prefix mask knows its own length.\<close>

lemma set_mask_bytes_0: "x \<in> set (mask_bytes l 0) \<Longrightarrow> x = 0"
  by (induction l) (auto simp: drop_bit_eq_div)

lemma lead_ones_mask_byte: "n < 8 \<Longrightarrow> lead_ones 8 (NOT (drop_bit n 255)) = (n, 0)"
proof -
  assume "n < 8"
  then have n: "n \<in> {0, 1, 2, 3, 4, 5, 6, 7}" by auto
  have all: "\<forall>n \<in> set [0, 1, 2, 3, 4, 5, 6, 7]. lead_ones 8 (NOT (drop_bit n 255)) = (n, 0)"
    by code_simp
  from n have "n \<in> set [0, 1, 2, 3, 4, 5, 6, 7]" by simp
  with all show ?thesis by blast
qed

lemma simpleMaskLength_mask_bytes [simp]:
  "n \<le> 8 * l \<Longrightarrow> simpleMaskLength (mask_bytes l n) = Some n"
proof (induction l n rule: mask_bytes.induct)
  case (1 n)
  then show ?case by simp
next
  case (2 l n)
  have "NOT (drop_bit n (255 :: byte)) \<noteq> 255" if "n < 8"
  proof -
    from that have "drop_bit n (255 :: byte) \<noteq> 0"
      by (simp add: drop_bit_255 mask_eq_0_iff)
    then show ?thesis by (metis bit.double_compl byte_and_255 bit.conj_cancel_right and_zero_eq)
  qed
  with 2 show ?case
    by (auto simp: lead_ones_mask_byte dest: set_mask_bytes_0)
qed

end
