(* ===== verification/GoNetText.thy ===== *)
theory GoNetText
  imports GoNet
begin

text \<open>
  The textual side of Go's \<open>net\<close> package: \<open>net.ParseIP\<close> and \<open>net.ParseCIDR\<close> (on top of
  \<open>netip.ParseAddr\<close>), \<open>IP.String\<close> and \<open>IPNet.String\<close>.  The program keeps every address of a
  pool specification, of a pool status and of an exclusion as text, so its arithmetic is only
  right because printing and parsing are inverse; the round-trip laws are proved once and
  stated as the interface \<open>address_text\<close> in theory \<open>GoNetRoundtrip\<close>.
\<close>

subsection \<open>Digits\<close>

function digits :: "nat \<Rightarrow> nat \<Rightarrow> nat list" where
  "digits b n = (if b < 2 \<or> n < b then [n] else digits b (n div b) @ [n mod b])"
  by pat_completeness auto
termination digits
  by (relation "measure snd") auto

declare digits.simps [simp del]

definition dec_char :: "nat \<Rightarrow> char" where
  "dec_char d = char_of (48 + d)"

definition hex_char :: "nat \<Rightarrow> char" where
  "hex_char d = (if d < 10 then char_of (48 + d) else char_of (87 + d))"

definition utoa :: "nat \<Rightarrow> string" where
  "utoa n = map dec_char (digits 10 n)"

definition utox :: "nat \<Rightarrow> string" where
  "utox n = map hex_char (digits 16 n)"

definition dec_digit :: "char \<Rightarrow> nat option" where
  "dec_digit c = (let k = of_char c in if 48 \<le> k \<and> k \<le> 57 then Some (k - 48) else None)"

definition hex_digit :: "char \<Rightarrow> nat option" where
  "hex_digit c =
     (let k = of_char c in
      if 48 \<le> k \<and> k \<le> 57 then Some (k - 48)
      else if 97 \<le> k \<and> k \<le> 102 then Some (k - 87)
      else if 65 \<le> k \<and> k \<le> 70 then Some (k - 55)
      else None)"

definition is_hex :: "char \<Rightarrow> bool" where
  "is_hex c = (hex_digit c \<noteq> None)"

subsection \<open>Parsing\<close>

text \<open>\<open>netip.parseIPv4Fields\<close>: the value and the digit count of the current octet, the octets
  read so far, and the rest of the input.\<close>

fun parseIPv4Fields :: "nat \<Rightarrow> nat \<Rightarrow> byte list \<Rightarrow> string \<Rightarrow> byte list option" where
  "parseIPv4Fields val dig fs [] = (if length fs < 3 then None else Some (fs @ [word_of_nat val]))"
| "parseIPv4Fields val dig fs (c # cs) =
     (case dec_digit c of
        Some d \<Rightarrow>
          if dig = 1 \<and> val = 0 then None
          else if 255 < val * 10 + d then None
          else parseIPv4Fields (val * 10 + d) (dig + 1) fs cs
      | None \<Rightarrow>
          if c = CHR ''.'' then
            (if dig = 0 \<or> cs = [] then None
             else if length fs = 3 then None
             else parseIPv4Fields 0 0 (fs @ [word_of_nat val]) cs)
          else None)"

definition hex_val :: "string \<Rightarrow> nat" where
  "hex_val s = foldl (\<lambda>acc c. acc * 16 + the (hex_digit c)) 0 s"

text \<open>The main loop of \<open>netip.parseIPv6\<close>: the bytes written so far, the position of the
  ellipsis and the rest of the input; \<^const>\<open>None\<close> is a parse error.\<close>

function parseIPv6_loop ::
    "byte list \<Rightarrow> nat option \<Rightarrow> string \<Rightarrow> (byte list \<times> nat option \<times> string) option" where
  "parseIPv6_loop bs ell s =
     (if 16 \<le> length bs then Some (bs, ell, s)
      else
        let hs = takeWhile is_hex s;
            rest = dropWhile is_hex s
        in if hs = [] \<or> 4 < length hs then None
           else if rest \<noteq> [] \<and> hd rest = CHR ''.'' then
             (if ell = None \<and> length bs \<noteq> 12 then None
              else if 16 < length bs + 4 then None
              else (case parseIPv4Fields 0 0 [] s of
                      None \<Rightarrow> None
                    | Some f \<Rightarrow> Some (bs @ f, ell, [])))
           else
             let acc = hex_val hs;
                 bs' = bs @ [word_of_nat (acc div 256), word_of_nat (acc mod 256)]
             in case rest of
                  [] \<Rightarrow> Some (bs', ell, [])
                | c # s' \<Rightarrow>
                    if c \<noteq> CHR '':'' then None
                    else if s' = [] then None
                    else if hd s' = CHR '':'' then
                      (if ell \<noteq> None then None
                       else if tl s' = [] then Some (bs', Some (length bs'), [])
                       else parseIPv6_loop bs' (Some (length bs')) (tl s'))
                    else parseIPv6_loop bs' ell s')"
  by pat_completeness auto

lemma length_dropWhile_Cons_less: "c # s' = dropWhile P s \<Longrightarrow> length s' < length s"
  by (metis Suc_le_eq length_Cons length_dropWhile_le)

termination parseIPv6_loop
  by (relation "measure (\<lambda>(bs, ell, s). length s)")
    (auto dest: length_dropWhile_Cons_less)

declare parseIPv6_loop.simps [simp del]

text \<open>The expansion of the ellipsis at the end of \<open>netip.parseIPv6\<close>.\<close>

definition expand_ellipsis :: "byte list \<Rightarrow> nat option \<Rightarrow> byte list option" where
  "expand_ellipsis bs ell =
     (if length bs < 16 then
        (case ell of
           None \<Rightarrow> None
         | Some e \<Rightarrow> Some (take e bs @ replicate (16 - length bs) 0 @ drop e bs))
      else if ell \<noteq> None then None
      else Some bs)"

text \<open>\<open>netip.parseIPv6\<close>; both callers in \<open>net\<close> refuse an address with a zone, so a zone is a
  parse error here.\<close>

definition parseIPv6 :: "string \<Rightarrow> byte list option" where
  "parseIPv6 s0 =
     (if CHR ''%'' \<in> set s0 then None
      else
        let lead = take 2 s0 = ''::'';
            s = (if lead then drop 2 s0 else s0)
        in if lead \<and> s = [] then Some (replicate 16 0)
           else case parseIPv6_loop [] (if lead then Some 0 else None) s of
                  None \<Rightarrow> None
                | Some (bs, ell, rest) \<Rightarrow> if rest \<noteq> [] then None else expand_ellipsis bs ell)"

datatype netip_addr = Addr4 "byte list" | Addr6 "byte list"

fun ParseAddr_scan :: "string \<Rightarrow> string \<Rightarrow> netip_addr option" where
  "ParseAddr_scan whole [] = None"
| "ParseAddr_scan whole (c # cs) =
     (if c = CHR ''.'' then map_option Addr4 (parseIPv4Fields 0 0 [] whole)
      else if c = CHR '':'' then map_option Addr6 (parseIPv6 whole)
      else if c = CHR ''%'' then None
      else ParseAddr_scan whole cs)"

definition ParseAddr :: "string \<Rightarrow> netip_addr option" where
  "ParseAddr s = ParseAddr_scan s s"

fun BitLen :: "netip_addr \<Rightarrow> nat" where
  "BitLen (Addr4 _) = 32"
| "BitLen (Addr6 _) = 128"

fun As16 :: "netip_addr \<Rightarrow> net_ip" where
  "As16 (Addr4 bs) = v4InV6Prefix @ bs"
| "As16 (Addr6 bs) = bs"

definition ParseIP :: "string \<Rightarrow> net_ip" where
  "ParseIP s = (case ParseAddr s of None \<Rightarrow> [] | Some a \<Rightarrow> As16 a)"

fun dtoi_loop :: "nat \<Rightarrow> string \<Rightarrow> (nat \<times> string) option" where
  "dtoi_loop n [] = Some (n, [])"
| "dtoi_loop n (c # cs) =
     (case dec_digit c of
        None \<Rightarrow> Some (n, c # cs)
      | Some d \<Rightarrow> if 16777215 \<le> n * 10 + d then None else dtoi_loop (n * 10 + d) cs)"

definition dtoi :: "string \<Rightarrow> (nat \<times> string) option" where
  "dtoi s = (if s = [] \<or> dec_digit (hd s) = None then None else dtoi_loop 0 s)"

definition ParseCIDR :: "string \<Rightarrow> (net_ip \<times> IPNet) option" where
  "ParseCIDR s =
     (if CHR ''/'' \<notin> set s then None
      else
        let addr = takeWhile (\<lambda>c. c \<noteq> CHR ''/'') s; mask = tl (dropWhile (\<lambda>c. c \<noteq> CHR ''/'') s)
        in case ParseAddr addr of
             None \<Rightarrow> None
           | Some a \<Rightarrow>
               (case dtoi mask of
                  None \<Rightarrow> None
                | Some (n, rest) \<Rightarrow>
                    if rest \<noteq> [] \<or> BitLen a < n then None
                    else
                      let m = CIDRMask (int n) (int (BitLen a))
                      in Some (As16 a, \<lparr>ipnIP = IP_Mask (As16 a) m, ipnMask = m\<rparr>)))"

subsection \<open>Printing\<close>

definition IPv4_String :: "byte list \<Rightarrow> string" where
  "IPv4_String bs =
     utoa (unat (bs ! 0)) @ ''.'' @ utoa (unat (bs ! 1)) @ ''.'' @
     utoa (unat (bs ! 2)) @ ''.'' @ utoa (unat (bs ! 3))"

fun v6_groups :: "byte list \<Rightarrow> nat list" where
  "v6_groups (a # b # bs) = (unat a * 256 + unat b) # v6_groups bs"
| "v6_groups _ = []"

fun join_colon :: "string list \<Rightarrow> string" where
  "join_colon [] = []"
| "join_colon [s] = s"
| "join_colon (s # t # ts) = s @ CHR '':'' # join_colon (t # ts)"

text \<open>\<open>netip.Addr.appendTo6\<close>: the first longest run of at least two zero groups, as its start
  and end; \<open>(255, 255)\<close> when there is none.\<close>

definition zero_run :: "nat list \<Rightarrow> nat \<Rightarrow> nat" where
  "zero_run gs i = length (takeWhile (\<lambda>g. g = 0) (drop i gs))"

definition best_run_step :: "nat list \<Rightarrow> nat \<times> nat \<Rightarrow> nat \<Rightarrow> nat \<times> nat" where
  "best_run_step gs se i =
     (let l = zero_run gs i in if 2 \<le> l \<and> snd se - fst se < l then (i, i + l) else se)"

definition best_run :: "nat list \<Rightarrow> nat \<times> nat" where
  "best_run gs = foldl (best_run_step gs) (255, 255) [0..<8]"

definition IPv6_String :: "byte list \<Rightarrow> string" where
  "IPv6_String bs =
     (let gs = v6_groups bs; se = best_run gs
      in if fst se = 255 then join_colon (map utox gs)
         else join_colon (map utox (take (fst se) gs)) @ ''::'' @
              join_colon (map utox (drop (snd se) gs)))"

definition hexString :: "byte list \<Rightarrow> string" where
  "hexString bs = concat (map (\<lambda>b. [hex_char (unat b div 16), hex_char (unat b mod 16)]) bs)"

definition IP_String :: "net_ip \<Rightarrow> string" where
  "IP_String ip =
     (if ip = [] then ''<nil>''
      else if length ip \<noteq> 4 \<and> length ip \<noteq> 16 then ''?'' @ hexString ip
      else if To4 ip \<noteq> [] then IPv4_String (To4 ip)
      else IPv6_String ip)"

definition IPNet_String :: "IPNet \<Rightarrow> string" where
  "IPNet_String n =
     (case networkNumberAndMask n of (nn, m) \<Rightarrow>
        if nn = [] \<or> m = [] then ''<nil>''
        else (case simpleMaskLength m of
                None \<Rightarrow> IP_String nn @ ''/'' @ hexString m
              | Some l \<Rightarrow> IP_String nn @ ''/'' @ utoa l))"

end
