(* ===== verification/GoNetRoundtrip.thy ===== *)
theory GoNetRoundtrip
  imports GoNetText
begin

unbundle bit_operations_syntax

text \<open>
  The round-trip laws of the textual addresses and networks of theory \<open>GoNetText\<close>: printing an
  address and parsing the text gives the address back in 16-byte form, printing a canonical
  network and parsing it gives the network back.  The laws are packaged as the interface
  \<open>address_text\<close> and discharged for the modelled parser and printer.
\<close>

subsection \<open>Digits and characters\<close>

lemma of_char_dec_char [simp]: "d < 10 \<Longrightarrow> of_char (dec_char d) = (48 + d :: nat)"
  by (simp add: dec_char_def)

lemma dec_digit_dec_char [simp]: "d < 10 \<Longrightarrow> dec_digit (dec_char d) = Some d"
  by (simp add: dec_digit_def Let_def)

lemma hex_digit_hex_char [simp]: "d < 16 \<Longrightarrow> hex_digit (hex_char d) = Some d"
  by (simp add: hex_digit_def hex_char_def Let_def)

lemma dec_digit_separator [simp]:
  "dec_digit (CHR ''.'') = None" "dec_digit (CHR ''/'') = None" "dec_digit (CHR '':'') = None"
  by (simp_all add: dec_digit_def)

lemma hex_digit_separator [simp]:
  "hex_digit (CHR '':'') = None" "hex_digit (CHR ''/'') = None" "hex_digit (CHR ''.'') = None"
  "hex_digit (CHR ''%'') = None"
  by (simp_all add: hex_digit_def)

lemma digits_less: "2 \<le> b \<Longrightarrow> d \<in> set (digits b n) \<Longrightarrow> d < b"
proof (induction b n rule: digits.induct)
  case (1 b n)
  then show ?case by (auto simp: digits.simps [of b n] split: if_splits)
qed

lemma digits_foldl: "2 \<le> b \<Longrightarrow> foldl (\<lambda>acc d. acc * b + d) 0 (digits b n) = n"
proof (induction b n rule: digits.induct)
  case (1 b n)
  then show ?case by (cases "n < b") (auto simp: digits.simps [of b n])
qed

lemma digits_not_Nil [simp]: "digits b n \<noteq> []"
  by (subst digits.simps) simp

lemma length_digits_le: "2 \<le> b \<Longrightarrow> n < b ^ Suc k \<Longrightarrow> length (digits b n) \<le> Suc k"
proof (induction k arbitrary: n)
  case 0
  then show ?case by (simp add: digits.simps [of b n])
next
  case (Suc k)
  then have "n div b < b ^ Suc k" by (simp add: div_less_iff_less_mult mult.commute)
  with Suc show ?case by (auto simp: digits.simps [of b n])
qed

lemma utox_not_Nil [simp]: "utox n \<noteq> []" and utoa_not_Nil [simp]: "utoa n \<noteq> []"
  by (simp_all add: utox_def utoa_def)

lemma is_hex_utox: "c \<in> set (utox n) \<Longrightarrow> is_hex c"
  by (auto simp: utox_def is_hex_def dest!: digits_less [rotated])

lemma hex_val_utox [simp]: "hex_val (utox n) = n"
proof -
  have "foldl (\<lambda>acc c. acc * 16 + the (hex_digit c)) a (map hex_char ds)
      = foldl (\<lambda>acc d. acc * 16 + d) a ds" if "\<forall>d \<in> set ds. d < 16" for a ds
    using that by (induction ds arbitrary: a) simp_all
  then show ?thesis
    using digits_foldl [of 16 n] digits_less [of 16 _ n] by (simp add: hex_val_def utox_def)
qed

lemma length_utox: "n < 65536 \<Longrightarrow> length (utox n) \<le> 4"
  using length_digits_le [of 16 n 3] by (simp add: utox_def)

lemma digits_10_small:
  "n < 10 \<Longrightarrow> digits 10 n = [n]"
  "10 \<le> n \<Longrightarrow> n < 100 \<Longrightarrow> digits 10 n = [n div 10, n mod 10]"
  "100 \<le> n \<Longrightarrow> n < 1000 \<Longrightarrow> digits 10 n = [n div 100, n div 10 mod 10, n mod 10]"
  using div_less_iff_less_mult [of 100 n 10] div_less_iff_less_mult [of 10 n 10]
  by (simp_all add: digits.simps [of 10 n] digits.simps [of 10 "n div 10"]
      digits.simps [of 10 "n div 100"] flip: div_mult2_eq)

lemma dec_digits_cases:
  assumes "n < 1000"
  obtains "n < 10" "digits 10 n = [n]"
  | a b where "n = a * 10 + b" "0 < a" "a < 10" "b < 10" "digits 10 n = [a, b]"
  | a b c where "n = (a * 10 + b) * 10 + c" "0 < a" "a < 10" "b < 10" "c < 10" "digits 10 n = [a, b, c]"
proof -
  consider "n < 10" | "10 \<le> n" "n < 100" | "100 \<le> n" "n < 1000" using assms by linarith
  then show ?thesis
  proof cases
    case 1
    with that(1) show ?thesis by (simp add: digits_10_small)
  next
    case 2
    then show ?thesis by (intro that(2) [of "n div 10" "n mod 10"]) (auto simp: digits_10_small)
  next
    case 3
    have "n div 100 = n div 10 div 10" by (simp flip: div_mult2_eq)
    with 3 show ?thesis
      by (intro that(3) [of "n div 100" "n div 10 mod 10" "n mod 10"]) (auto simp: digits_10_small)
  qed
qed

subsection \<open>IPv4 round trip\<close>

lemma parseIPv4Fields_utoa:
  assumes "n < 256"
  shows "parseIPv4Fields 0 0 fs (utoa n @ rest) = parseIPv4Fields n (length (utoa n)) fs rest"
proof -
  have "n < 1000" using assms by simp
  then show ?thesis using assms by (cases rule: dec_digits_cases) (simp_all add: utoa_def)
qed

lemma parseIPv4Fields_octet:
  assumes "length fs < 3" and "rest \<noteq> []"
  shows "parseIPv4Fields 0 0 fs (utoa (unat (b :: byte)) @ CHR ''.'' # rest)
    = parseIPv4Fields 0 0 (fs @ [b]) rest"
  using assms by (simp add: parseIPv4Fields_utoa)

lemma parseIPv4Fields_IPv4_String:
  assumes "length bs = 4"
  shows "parseIPv4Fields 0 0 [] (IPv4_String bs) = Some bs"
proof -
  obtain a b c d where bs: "bs = [a, b, c, d]"
    using assms by (auto simp: length_Suc_conv numeral_eq_Suc)
  show ?thesis
    using parseIPv4Fields_utoa [of "unat d" "[a, b, c]" "[]"]
    by (simp add: bs IPv4_String_def parseIPv4Fields_octet)
qed

lemma dec_char_not_separator: "d < 10 \<Longrightarrow> dec_char d \<notin> {CHR ''.'', CHR '':'', CHR ''%'', CHR ''/''}"
  using of_char_dec_char [of d] by (auto dest: arg_cong [where f = "of_char :: char \<Rightarrow> nat"])

lemma set_utoa: "c \<in> set (utoa n) \<Longrightarrow> c \<notin> {CHR ''.'', CHR '':'', CHR ''%'', CHR ''/''}"
  unfolding utoa_def using dec_char_not_separator digits_less [of 10 _ n] by fastforce

lemma ParseAddr_scan_skip:
  "(\<And>c. c \<in> set xs \<Longrightarrow> c \<notin> {CHR ''.'', CHR '':'', CHR ''%''}) \<Longrightarrow>
   ParseAddr_scan whole (xs @ ys) = ParseAddr_scan whole ys"
  by (induction xs) auto

lemma ParseAddr_IPv4_String: "length bs = 4 \<Longrightarrow> ParseAddr (IPv4_String bs) = Some (Addr4 bs)"
  unfolding ParseAddr_def
  by (subst (2) IPv4_String_def, subst ParseAddr_scan_skip)
    (auto simp: parseIPv4Fields_IPv4_String dest: set_utoa)

subsection \<open>IPv6 round trip\<close>

definition group_bytes :: "nat \<Rightarrow> byte list" where
  "group_bytes g = [word_of_nat (g div 256), word_of_nat (g mod 256)]"

lemma length_group_bytes [simp]: "length (group_bytes g) = 2"
  by (simp add: group_bytes_def)

lemma length_concat_group_bytes [simp]: "length (concat (map group_bytes gs)) = 2 * length gs"
  by (induction gs) simp_all

lemma is_hex_separator [simp]: "\<not> is_hex (CHR '':'')" "\<not> is_hex (CHR ''.'')" "\<not> is_hex (CHR ''%'')"
  "\<not> is_hex (CHR ''/'')"
  by (simp_all add: is_hex_def)

lemma takeWhile_utox [simp]:
  assumes "rest = [] \<or> \<not> is_hex (hd rest)"
  shows "takeWhile is_hex (utox g @ rest) = utox g" "dropWhile is_hex (utox g @ rest) = rest"
  using assms is_hex_utox [of _ g] by (cases rest; auto simp: takeWhile_append dropWhile_append)+

lemma takeWhile_utox_end [simp]:
  "takeWhile is_hex (utox g) = utox g" "dropWhile is_hex (utox g) = []"
  using takeWhile_utox [of "[]" g] by (simp_all only: append_Nil2 simp_thms)

lemma parseIPv6_loop_group:
  assumes "length bs < 16" and "g < 65536"
  shows "parseIPv6_loop bs ell (utox g) = Some (bs @ group_bytes g, ell, [])"
    and "s \<noteq> [] \<Longrightarrow> hd s \<noteq> CHR '':'' \<Longrightarrow>
      parseIPv6_loop bs ell (utox g @ CHR '':'' # s) = parseIPv6_loop (bs @ group_bytes g) ell s"
    and "parseIPv6_loop bs None (utox g @ CHR '':'' # CHR '':'' # s) =
      (if s = [] then Some (bs @ group_bytes g, Some (length bs + 2), [])
       else parseIPv6_loop (bs @ group_bytes g) (Some (length bs + 2)) s)"
  using assms length_utox [of g]
  by (simp_all add: parseIPv6_loop.simps [of bs] group_bytes_def Let_def)

lemma join_colon_Cons: "join_colon (s # ss) = (if ss = [] then s else s @ CHR '':'' # join_colon ss)"
  by (cases ss) simp_all

lemma join_colon_nonempty: "gs \<noteq> [] \<Longrightarrow> join_colon (map utox gs) \<noteq> []"
  by (cases gs) (simp_all add: join_colon_Cons)

lemma hd_join_colon: "gs \<noteq> [] \<Longrightarrow> hd (join_colon (map utox gs) @ s) \<noteq> CHR '':''"
proof (cases gs)
  case (Cons g gs')
  have "is_hex (hd (utox g))" by (rule is_hex_utox) (rule hd_in_set, simp)
  with Cons show ?thesis by (auto simp: join_colon_Cons hd_append)
qed simp

lemma parseIPv6_loop_join:
  assumes "gs \<noteq> []" and "\<forall>g \<in> set gs. g < 65536" and "length bs + 2 * length gs \<le> 16"
  shows "parseIPv6_loop bs ell (join_colon (map utox gs)) =
    Some (bs @ concat (map group_bytes gs), ell, [])"
  using assms
proof (induction gs arbitrary: bs)
  case (Cons g gs)
  show ?case
  proof (cases "gs = []")
    case True
    with Cons.prems show ?thesis by (simp add: parseIPv6_loop_group)
  next
    case False
    with Cons show ?thesis
      using join_colon_nonempty [OF False] hd_join_colon [OF False, of "[]"]
      by (simp add: join_colon_Cons parseIPv6_loop_group)
  qed
qed simp

lemma parseIPv6_loop_join_ellipsis:
  assumes "gs \<noteq> []" and "\<forall>g \<in> set gs. g < 65536" and "length bs + 2 * length gs \<le> 16"
  shows "parseIPv6_loop bs None (join_colon (map utox gs) @ ''::'' @ s) =
    (let bs' = bs @ concat (map group_bytes gs)
     in if s = [] then Some (bs', Some (length bs'), []) else parseIPv6_loop bs' (Some (length bs')) s)"
  using assms
proof (induction gs arbitrary: bs)
  case (Cons g gs)
  show ?case
  proof (cases "gs = []")
    case True
    with Cons.prems show ?thesis by (simp add: parseIPv6_loop_group Let_def)
  next
    case False
    with Cons show ?thesis
      using join_colon_nonempty [OF False] hd_join_colon [OF False, of "''::'' @ s"]
      by (simp add: join_colon_Cons parseIPv6_loop_group Let_def add.assoc)
  qed
qed simp

lemma v6_groups_length: "length (v6_groups bs) = length bs div 2"
  by (induction bs rule: v6_groups.induct) simp_all

lemma v6_groups_less: "g \<in> set (v6_groups bs) \<Longrightarrow> g < 65536"
proof (induction bs rule: v6_groups.induct)
  case (1 a b bs)
  have "unat a * 256 + unat b < 65536"
    using unat_byte_less [of a] unat_byte_less [of b] by linarith
  with 1 show ?case by auto
qed simp_all

lemma concat_v6_groups: "even (length bs) \<Longrightarrow> concat (map group_bytes (v6_groups bs)) = bs"
  by (induction bs rule: v6_groups.induct) (simp_all add: group_bytes_def)

text \<open>The compressed run consists of zero groups.\<close>

definition run_ok :: "nat list \<Rightarrow> nat \<times> nat \<Rightarrow> bool" where
  "run_ok gs se \<longleftrightarrow> fst se = 255 \<or>
     fst se + 2 \<le> snd se \<and> snd se \<le> length gs \<and>
     gs = take (fst se) gs @ replicate (snd se - fst se) 0 @ drop (snd se) gs"

lemma takeWhile_zero_replicate: "takeWhile (\<lambda>g. g = 0) xs = replicate (length (takeWhile (\<lambda>g. g = (0::nat)) xs)) 0"
  by (induction xs) simp_all

lemma zero_run_split:
  assumes "i \<le> length gs"
  shows "i + zero_run gs i \<le> length gs \<and>
    gs = take i gs @ replicate (zero_run gs i) 0 @ drop (i + zero_run gs i) gs"
proof -
  let ?l = "zero_run gs i"
  have "length (takeWhile (\<lambda>g. g = 0) (drop i gs)) \<le> length (drop i gs)"
    by (rule length_takeWhile_le)
  then have "i + ?l \<le> length gs" using assms by (simp add: zero_run_def)
  moreover have "drop i gs = takeWhile (\<lambda>g. g = 0) (drop i gs) @ drop ?l (drop i gs)"
    unfolding zero_run_def by (metis dropWhile_eq_drop takeWhile_dropWhile_id)
  then have "drop i gs = replicate ?l 0 @ drop (i + ?l) gs"
    by (subst (asm) takeWhile_zero_replicate) (simp add: zero_run_def add.commute)
  ultimately show ?thesis by (metis append_take_drop_id)
qed

lemma run_ok_best_run: "length gs = 8 \<Longrightarrow> run_ok gs (best_run gs)"
proof -
  assume gs: "length gs = 8"
  have "run_ok gs (foldl (best_run_step gs) se is)" if "run_ok gs se" "\<forall>i \<in> set is. i < 8" for se "is"
    using that
  proof (induction "is" arbitrary: se)
    case (Cons i "is")
    have "run_ok gs (best_run_step gs se i)"
      using Cons.prems zero_run_split [of i gs] gs
      by (auto simp: best_run_step_def Let_def run_ok_def [of gs "(i, i + zero_run gs i)"])
    with Cons show ?case by simp
  qed simp
  then show ?thesis by (simp add: best_run_def run_ok_def)
qed

lemma percent_notin_join: "CHR ''%'' \<notin> set (join_colon (map utox gs))"
  by (induction gs) (auto simp: join_colon_Cons dest: is_hex_utox)

lemma no_leading_ellipsis: "gs \<noteq> [] \<Longrightarrow> take 2 (join_colon (map utox gs) @ s) \<noteq> ''::''"
  using hd_join_colon [of gs s] by (cases "join_colon (map utox gs) @ s") auto

lemma parseIPv6_plain:
  assumes "length gs = 8" and "\<forall>g \<in> set gs. g < 65536"
  shows "parseIPv6 (join_colon (map utox gs)) = Some (concat (map group_bytes gs))"
proof -
  have ne: "gs \<noteq> []" using assms(1) by auto
  show ?thesis
    using assms(1) parseIPv6_loop_join [OF ne assms(2), of "[]" None] percent_notin_join [of gs]
      no_leading_ellipsis [OF ne, of "[]"]
    by (simp add: parseIPv6_def Let_def expand_ellipsis_def)
qed

lemma parseIPv6_compressed:
  assumes "length pre + length post < 8"
    and "\<forall>g \<in> set pre. g < 65536" "\<forall>g \<in> set post. g < 65536"
  shows "parseIPv6 (join_colon (map utox pre) @ ''::'' @ join_colon (map utox post)) =
    Some (concat (map group_bytes pre) @ replicate (16 - 2 * (length pre + length post)) 0 @
          concat (map group_bytes post))" (is "parseIPv6 ?s = Some (?P @ _ @ ?Q)")
proof -
  have ex: "expand_ellipsis (?P @ ?Q) (Some (2 * length pre)) =
      Some (?P @ replicate (16 - 2 * (length pre + length post)) 0 @ ?Q)"
    using assms(1) by (simp add: expand_ellipsis_def)
  have tail: "parseIPv6_loop ?P (Some (2 * length pre)) (join_colon (map utox post)) =
      Some (?P @ ?Q, Some (2 * length pre), [])" if "post \<noteq> []"
    using parseIPv6_loop_join [OF that assms(3), of ?P "Some (2 * length pre)"] assms(1) by simp
  have pct: "CHR ''%'' \<notin> set ?s" by (simp add: percent_notin_join)
  show ?thesis
  proof (cases "pre = []")
    case True
    then show ?thesis
      using pct tail ex join_colon_nonempty [of post]
      by (cases "post = []") (auto simp: parseIPv6_def Let_def)
  next
    case False
    have "parseIPv6_loop [] None ?s = Some (?P @ ?Q, Some (2 * length pre), [])"
      using parseIPv6_loop_join_ellipsis [OF False assms(2), of "[]" "join_colon (map utox post)"]
        tail assms(1) join_colon_nonempty [of post]
      by (cases "post = []") (auto simp: Let_def)
    with pct ex no_leading_ellipsis [OF False, of "''::'' @ join_colon (map utox post)"]
    show ?thesis by (simp add: parseIPv6_def Let_def)
  qed
qed

lemma concat_zero_groups: "concat (replicate n (group_bytes 0)) = replicate (2 * n) 0"
  by (induction n) (simp_all add: group_bytes_def)

lemma parseIPv6_IPv6_String:
  assumes "length bs = 16"
  shows "parseIPv6 (IPv6_String bs) = Some bs"
proof -
  define gs where "gs = v6_groups bs"
  obtain s e where se: "best_run gs = (s, e)" by (cases "best_run gs")
  have gs: "length gs = 8" "\<forall>g \<in> set gs. g < 65536" "concat (map group_bytes gs) = bs"
    using assms by (auto simp: gs_def v6_groups_length v6_groups_less concat_v6_groups)
  show ?thesis
  proof (cases "s = 255")
    case True
    then show ?thesis
      using parseIPv6_plain [OF gs(1,2)] gs(3) by (simp add: IPv6_String_def se gs_def [symmetric] Let_def)
  next
    case False
    have run: "s + 2 \<le> e" "e \<le> 8" and split: "gs = take s gs @ replicate (e - s) 0 @ drop e gs"
      using run_ok_best_run [OF gs(1)] False gs(1) by (auto simp: run_ok_def se)
    have "\<forall>g \<in> set (take s gs). g < 65536" "\<forall>g \<in> set (drop e gs). g < 65536"
      using gs(2) by (auto dest: in_set_takeD in_set_dropD)
    then have "parseIPv6 (IPv6_String bs) = Some (concat (map group_bytes (take s gs)) @
        replicate (2 * (e - s)) 0 @ concat (map group_bytes (drop e gs)))"
      using parseIPv6_compressed [of "take s gs" "drop e gs"] False run gs(1)
      by (simp add: IPv6_String_def se gs_def [symmetric] Let_def diff_mult_distrib2)
    also have "concat (map group_bytes (take s gs)) @ replicate (2 * (e - s)) 0 @
        concat (map group_bytes (drop e gs)) = bs"
      using gs(3) by (subst (asm) split) (simp add: concat_zero_groups)
    finally show ?thesis .
  qed
qed

lemma ParseAddr_scan_colon:
  "\<forall>c \<in> set s. is_hex c \<or> c = CHR '':'' \<Longrightarrow> CHR '':'' \<in> set s \<Longrightarrow>
   ParseAddr_scan whole s = map_option Addr6 (parseIPv6 whole)"
  by (induction s) auto

lemma set_IPv6_String:
  assumes "length bs = 16"
  shows "CHR '':'' \<in> set (IPv6_String bs)" "\<forall>c \<in> set (IPv6_String bs). is_hex c \<or> c = CHR '':''"
proof -
  have chars: "\<forall>c \<in> set (join_colon (map utox gs)). is_hex c \<or> c = CHR '':''" for gs
    by (induction gs) (auto simp: join_colon_Cons is_hex_utox)
  then show "\<forall>c \<in> set (IPv6_String bs). is_hex c \<or> c = CHR '':''"
    by (auto simp: IPv6_String_def Let_def)
  have "CHR '':'' \<in> set (join_colon (map utox (v6_groups bs)))"
    using assms by (auto simp: length_Suc_conv numeral_eq_Suc)
  then show "CHR '':'' \<in> set (IPv6_String bs)" by (auto simp: IPv6_String_def Let_def)
qed

lemma ParseAddr_IPv6_String: "length bs = 16 \<Longrightarrow> ParseAddr (IPv6_String bs) = Some (Addr6 bs)"
  by (simp add: ParseAddr_def ParseAddr_scan_colon set_IPv6_String parseIPv6_IPv6_String)

subsection \<open>The round-trip laws\<close>

text \<open>Printing an address and parsing it back gives its 16-byte form.\<close>

lemma ParseIP_IP_String [go_net]:
  assumes "length ip = 4 \<or> length ip = 16"
  shows "ParseIP (IP_String ip) = To16 ip"
proof -
  have "To4 ip \<noteq> [] \<Longrightarrow> v4InV6Prefix @ To4 ip = To16 ip"
    using assms by (auto simp: To4_def To16_def) (metis append_take_drop_id)
  then show ?thesis
    using assms To4_length [of ip]
    by (auto simp: ParseIP_def IP_String_def ParseAddr_IPv4_String ParseAddr_IPv6_String To16_def To4_def)
qed


lemma parseIPv4Fields_length:
  "parseIPv4Fields val dig fs s = Some bs \<Longrightarrow> length fs \<le> 3 \<Longrightarrow> length bs = 4"
proof (induction val dig fs s rule: parseIPv4Fields.induct)
  case (2 val dig fs c cs)
  then show ?case by (auto split: option.splits if_splits)
qed (auto split: if_splits)

text \<open>One iteration of the loop: it stops, reads a trailing IPv4 part, or reads one group.\<close>

lemma parseIPv6_loop_step:
  assumes "parseIPv6_loop bs ell s = Some r"
  obtains (stop) "16 \<le> length bs" "r = (bs, ell, s)"
  | (tail) f where "length f = 4" "length bs + 4 \<le> 16" "r = (bs @ f, ell, [])"
  | (group) g ell' s' where "length bs < 16" "length g = 2" "ell' = ell \<or> ell' = Some (length bs + 2)"
      "r = (bs @ g, ell', []) \<or> length s' < length s \<and> parseIPv6_loop (bs @ g) ell' s' = Some r"
proof (cases "16 \<le> length bs")
  case True
  with assms stop show ?thesis by (simp add: parseIPv6_loop.simps [of bs])
next
  case False
  let ?rest = "dropWhile is_hex s"
  let ?g = "group_bytes (hex_val (takeWhile is_hex s))"
  have len: "length (tl s') < length s" "length s' < length s" if "?rest = c # s'" for c s'
    using length_dropWhile_Cons_less [OF that [symmetric]] by auto
  show ?thesis
  proof (cases "?rest \<noteq> [] \<and> hd ?rest = CHR ''.''")
    case True
    with assms False obtain f where "parseIPv4Fields 0 0 [] s = Some f" "r = (bs @ f, ell, [])"
      "length bs + 4 \<le> 16"
      by (auto simp: parseIPv6_loop.simps [of bs] Let_def split: if_splits option.splits)
    then show ?thesis by (intro tail [of f]) (simp_all add: parseIPv4Fields_length)
  next
    case F2: False
    show ?thesis
    proof (cases ?rest)
      case Nil
      with assms False F2 show ?thesis
        by (intro group [of ?g ell]) (auto simp: parseIPv6_loop.simps [of bs] group_bytes_def Let_def split: if_splits)
    next
      case (Cons c s')
      with assms False F2 len [OF Cons] show ?thesis
        by (cases "hd s' = CHR '':''")
          (intro group [of ?g "Some (length bs + 2)" "tl s'"] group [of ?g ell s'];
           auto simp: parseIPv6_loop.simps [of bs] group_bytes_def Let_def split: if_splits)+
    qed
  qed
qed

lemma parseIPv6_loop_length:
  assumes "parseIPv6_loop bs ell s = Some (bs', ell', rest)"
    and "length bs \<le> 16" "even (length bs)" "\<forall>e. ell = Some e \<longrightarrow> e \<le> length bs"
  shows "length bs' \<le> 16 \<and> (\<forall>e. ell' = Some e \<longrightarrow> e \<le> length bs')"
  using assms
proof (induction "length s" arbitrary: bs ell s rule: less_induct)
  case less
  show ?case
    using less.prems(1)
  proof (cases rule: parseIPv6_loop_step)
    case (group g ell2 s2)
    have "length bs + 2 \<le> 16" using group(1) less.prems(3) by presburger
    moreover have "\<forall>e. ell2 = Some e \<longrightarrow> e \<le> length (bs @ g)"
      using group(2,3) less.prems(4) by (auto simp: trans_le_add1)
    ultimately show ?thesis
      using group(2,4) less.prems(3) less.hyps [of s2 "bs @ g" ell2] by auto
  qed (use less.prems in auto)
qed

lemma parseIPv6_length: "parseIPv6 s = Some bs \<Longrightarrow> length bs = 16"
  using parseIPv6_loop_length [of "[]"]
  by (fastforce simp: parseIPv6_def expand_ellipsis_def Let_def split: if_splits option.splits prod.splits)

lemma ParseAddr_length: "ParseAddr s = Some a \<Longrightarrow> (\<exists>bs. a = Addr4 bs \<and> length bs = 4) \<or> (\<exists>bs. a = Addr6 bs \<and> length bs = 16)"
proof -
  have "ParseAddr_scan w s = Some a \<Longrightarrow>
    (\<exists>bs. a = Addr4 bs \<and> length bs = 4) \<or> (\<exists>bs. a = Addr6 bs \<and> length bs = 16)" for w
    by (induction s) (auto dest: parseIPv4Fields_length parseIPv6_length split: if_splits)
  then show "ParseAddr s = Some a \<Longrightarrow> ?thesis" by (simp add: ParseAddr_def)
qed

lemma ParseIP_length [go_net]: "ParseIP s = [] \<or> length (ParseIP s) = 16"
  by (auto simp: ParseIP_def dest!: ParseAddr_length split: option.splits)

text \<open>The interface of textual addresses: what the components may assume of the parser and the
  printer.\<close>

locale address_text =
  fixes parse :: "string \<Rightarrow> net_ip" and print :: "net_ip \<Rightarrow> string"
  assumes parse_print: "length ip = 4 \<or> length ip = 16 \<Longrightarrow> parse (print ip) = To16 ip"
    and parse_length: "parse s = [] \<or> length (parse s) = 16"
begin

lemma print_inject:
  assumes "length a = 4 \<or> length a = 16" and "length b = 4 \<or> length b = 16"
  shows "print a = print b \<Longrightarrow> To16 a = To16 b"
  using assms parse_print by metis

lemma parse_print_parse: "parse s \<noteq> [] \<Longrightarrow> parse (print (parse s)) = parse s"
  using parse_length [of s] by (auto simp: parse_print To16_def)

end

interpretation net_text: address_text ParseIP IP_String
  by unfold_locales (rule ParseIP_IP_String ParseIP_length; assumption?)+

subsection \<open>Networks as text\<close>

text \<open>A canonical network: a prefix mask of the width of the address, no host bits, and not an
  IPv4 address in 16-byte form.\<close>

definition wf_net :: "IPNet \<Rightarrow> bool" where
  "wf_net n \<longleftrightarrow>
     (length (ipnIP n) = 4 \<or> length (ipnIP n) = 16 \<and> To4 (ipnIP n) = []) \<and>
     (case simpleMaskLength (ipnMask n) of
        None \<Rightarrow> False
      | Some p \<Rightarrow> p \<le> 8 * length (ipnIP n) \<and> ipnMask n = mask_bytes (length (ipnIP n)) p) \<and>
     map2 (AND) (ipnIP n) (ipnMask n) = ipnIP n"

definition net_ones :: "IPNet \<Rightarrow> nat" where
  "net_ones n = (case simpleMaskLength (ipnMask n) of None \<Rightarrow> 0 | Some p \<Rightarrow> p)"

lemma wf_netD:
  assumes "wf_net n"
  shows "length (ipnIP n) = 4 \<or> length (ipnIP n) = 16 \<and> To4 (ipnIP n) = []"
    and "net_ones n \<le> 8 * length (ipnIP n)"
    and "ipnMask n = mask_bytes (length (ipnIP n)) (net_ones n)"
    and "map2 (AND) (ipnIP n) (ipnMask n) = ipnIP n"
  using assms by (auto simp: wf_net_def net_ones_def split: option.splits)

lemma wf_net_mask_length: "wf_net n \<Longrightarrow> simpleMaskLength (ipnMask n) = Some (net_ones n)"
  using wf_netD(2,3) [of n] by simp

lemma wf_net_mask_width: "wf_net n \<Longrightarrow> length (ipnMask n) = length (ipnIP n)"
  using wf_netD(3) [of n] by simp

lemma wf_net_Size: "wf_net n \<Longrightarrow> Mask_Size (ipnMask n) = (int (net_ones n), int (8 * length (ipnIP n)))"
  by (simp add: Mask_Size_def wf_net_mask_length wf_net_mask_width)

lemma networkNumberAndMask_wf: "wf_net n \<Longrightarrow> networkNumberAndMask n = (ipnIP n, ipnMask n)"
  using wf_netD(1,3) [of n] by (auto simp: networkNumberAndMask_def Let_def)

lemma dtoi_utoa: "n < 1000 \<Longrightarrow> dtoi (utoa n) = Some (n, [])"
proof -
  assume "n < 1000"
  then show ?thesis by (cases rule: dec_digits_cases) (simp_all add: utoa_def dtoi_def)
qed

lemma slash_notin_IP_String:
  assumes "length ip = 4 \<or> length ip = 16"
  shows "CHR ''/'' \<notin> set (IP_String ip)"
proof (cases "To4 ip = []")
  case True
  with assms have "length ip = 16" by auto
  then have "CHR ''/'' \<notin> set (IPv6_String ip)" using set_IPv6_String(2) [of ip] is_hex_separator(4) by blast
  with True \<open>length ip = 16\<close> show ?thesis by (auto simp: IP_String_def)
next
  case False
  have "CHR ''/'' \<notin> set (IPv4_String (To4 ip))" using set_utoa by (auto simp: IPv4_String_def)
  with False assms show ?thesis by (auto simp: IP_String_def)
qed

lemma IPNet_String_wf: "wf_net n \<Longrightarrow> IPNet_String n = IP_String (ipnIP n) @ ''/'' @ utoa (net_ones n)"
proof -
  assume wf: "wf_net n"
  have "ipnIP n \<noteq> []" using wf_netD(1) [OF wf] by auto
  moreover note wf_net_mask_width [OF wf]
  ultimately show ?thesis
    by (auto simp: IPNet_String_def networkNumberAndMask_wf [OF wf] wf_net_mask_length [OF wf])
qed

lemma takeWhile_slash: "CHR ''/'' \<notin> set s \<Longrightarrow>
   takeWhile (\<lambda>c. c \<noteq> CHR ''/'') (s @ CHR ''/'' # t) = s \<and>
   dropWhile (\<lambda>c. c \<noteq> CHR ''/'') (s @ CHR ''/'' # t) = CHR ''/'' # t"
  by (induction s) auto

text \<open>Printing a canonical network and parsing it back gives the network.\<close>

lemma ParseCIDR_IPNet_String [go_net]:
  assumes "wf_net n"
  shows "ParseCIDR (IPNet_String n) = Some (To16 (ipnIP n), n)"
proof -
  let ?ip = "ipnIP n" and ?p = "net_ones n"
  note len = wf_netD(1) [OF assms] and p = wf_netD(2) [OF assms]
    and m = wf_netD(3) [OF assms] and host = wf_netD(4) [OF assms]
  have addr: "ParseAddr (IP_String ?ip) = Some (if length ?ip = 4 then Addr4 ?ip else Addr6 ?ip)"
    using len by (auto simp: IP_String_def ParseAddr_IPv4_String ParseAddr_IPv6_String)
  have mask: "CIDRMask (int ?p) (int (8 * length ?ip)) = ipnMask n"
    using len p m by (auto simp: CIDRMask_def)
  have "IP_Mask (To16 ?ip) (ipnMask n) = ?ip"
    using len m host by (auto simp: IP_Mask_def To16_def Let_def)
  moreover have "n = \<lparr>ipnIP = ?ip, ipnMask = ipnMask n\<rparr>" by simp
  moreover have "?p < 1000" using p len by auto
  ultimately show ?thesis
    using len p mask addr slash_notin_IP_String [of ?ip] takeWhile_slash [of "IP_String ?ip" "utoa ?p"]
    by (auto simp: ParseCIDR_def IPNet_String_wf [OF assms] Let_def dtoi_utoa To16_def)
qed

lemma and_mask_idem: "map2 (AND) (map2 (AND) xs ys) ys = map2 (AND) xs (ys :: byte list)"
  by (induction xs ys rule: list_induct2') (simp_all add: and.assoc)

text \<open>What \<open>ParseCIDR\<close> returns is a canonical network, unless the text spells an IPv4 address
  in IPv6 notation.\<close>

lemma ParseCIDR_wf:
  assumes "ParseCIDR s = Some (ip, n)"
  shows "length ip = 16" and "length (ipnIP n) = 4 \<or> To4 (ipnIP n) = [] \<Longrightarrow> wf_net n"
    and "ipnIP n = IP_Mask ip (ipnMask n)"
proof -
  from assms obtain a p where a: "ParseAddr (takeWhile (\<lambda>c. c \<noteq> CHR ''/'') s) = Some a"
    and p: "p \<le> BitLen a"
    and ip: "ip = As16 a" and n: "n = \<lparr>ipnIP = IP_Mask (As16 a) (CIDRMask (int p) (int (BitLen a))),
                                    ipnMask = CIDRMask (int p) (int (BitLen a))\<rparr>"
    by (fastforce simp: ParseCIDR_def Let_def not_less split: if_splits option.splits)
  show "length ip = 16" using ParseAddr_length [OF a] ip by auto
  show "ipnIP n = IP_Mask ip (ipnMask n)" by (simp add: n ip)
  assume fam: "length (ipnIP n) = 4 \<or> To4 (ipnIP n) = []"
  show "wf_net n"
  proof (cases a)
    case (Addr4 bs)
    with ParseAddr_length [OF a] have "length bs = 4" by auto
    with Addr4 p show ?thesis by (simp add: n wf_net_def CIDRMask_def IP_Mask_def Let_def and_mask_idem)
  next
    case (Addr6 bs)
    with ParseAddr_length [OF a] have "length bs = 16" by auto
    with Addr6 p fam show ?thesis
      by (simp add: n wf_net_def CIDRMask_def IP_Mask_def Let_def and_mask_idem)
  qed
qed

end
