(* ===== verification/IpCidr.thy ===== *)
theory IpCidr
  imports GoNetRoundtrip
begin

unbundle bit_operations_syntax

text \<open>
  Package \<open>pkg/ip\<close> (\<open>src/pkg/ip/cidr.go\<close>): address arithmetic, comparison, broadcast and last
  address of a network, and the iterator over fixed-size prefixes of a network.  \<open>big.Int\<close>
  values are \<^typ>\<open>int\<close>, a nil address is the empty list, a nil pointer argument is \<^const>\<open>None\<close>.
  The iterator is a record with the fields of the Go struct; its methods return the updated
  record, and their receiver is not nil, as callers only use an iterator that was returned
  without an error.  The theorems give every operation its meaning on the numeric value of an address.
\<close>

subsection \<open>Definitions\<close>

datatype ip_error =
    OffsetMustBeNonNegative
  | InvalidIPAddress
  | IPAddressOverflow
  | FamiliesDoNotMatch
  | SecondPrecedesFirst
  | NetworkNil
  | InvalidMask
  | BadPrefixSize
  | NetworkMaskMismatch
  | HostBitsSet
  | IteratorFamilyMismatch

definition NormalizeIP :: "net_ip \<Rightarrow> net_ip" where
  "NormalizeIP ip = (if To4 ip \<noteq> [] then To4 ip else To16 ip)"

definition ipToInt :: "net_ip \<Rightarrow> int" where
  "ipToInt ip = int (be_val ip)"

definition intToIP :: "int \<Rightarrow> bool \<Rightarrow> net_ip" where
  "intToIP i isIPv6 =
     (if i < 0 then []
      else
        let intBytes = nat_bytes (nat i);
            ipLen = (if isIPv6 then 16 else 4)
        in if length intBytes = ipLen then intBytes
           else if ipLen < length intBytes then []
           else replicate (ipLen - length intBytes) 0 @ intBytes)"

definition NextIP :: "net_ip \<Rightarrow> net_ip" where
  "NextIP ip =
     (let normalizedIP = NormalizeIP ip
      in if normalizedIP = [] then []
         else intToIP (ipToInt normalizedIP + 1) (length normalizedIP = 16))"

definition NextIPWithOffset :: "net_ip \<Rightarrow> int option \<Rightarrow> ip_error + net_ip" where
  "NextIPWithOffset ip offset =
     (case offset of
        None \<Rightarrow> Inl OffsetMustBeNonNegative
      | Some off \<Rightarrow>
          if off < 0 then Inl OffsetMustBeNonNegative
          else
            let normalizedIP = NormalizeIP ip
            in if normalizedIP = [] then Inl InvalidIPAddress
               else
                 let nextIP = intToIP (ipToInt normalizedIP + off) (length normalizedIP = 16)
                 in if nextIP = [] then Inl IPAddressOverflow else Inr nextIP)"

definition PrevIP :: "net_ip \<Rightarrow> net_ip" where
  "PrevIP ip =
     (let normalizedIP = NormalizeIP ip
      in if normalizedIP = [] then []
         else intToIP (ipToInt normalizedIP - 1) (length normalizedIP = 16))"

definition Cmp :: "net_ip \<Rightarrow> net_ip \<Rightarrow> int" where
  "Cmp a b =
     (let normalizedA = NormalizeIP a; normalizedB = NormalizeIP b
      in if length normalizedA = length normalizedB \<and> length normalizedA \<noteq> 0
         then sgn (ipToInt normalizedA - ipToInt normalizedB)
         else - 2)"

definition Distance :: "net_ip \<Rightarrow> net_ip \<Rightarrow> ip_error + int" where
  "Distance a b =
     (let normalizedA = NormalizeIP a; normalizedB = NormalizeIP b
      in if length normalizedA = 0 \<or> length normalizedB = 0 then Inl InvalidIPAddress
         else if length normalizedA \<noteq> length normalizedB then Inl FamiliesDoNotMatch
         else
           let distance = ipToInt normalizedB - ipToInt normalizedA
           in if distance < 0 then Inl SecondPrecedesFirst else Inr distance)"

definition IsPointToPointSubnet :: "IPNet \<Rightarrow> bool" where
  "IsPointToPointSubnet network =
     (case Mask_Size (ipnMask network) of (ones, maskLen) \<Rightarrow> ones = maskLen - 1)"

definition IsSingleIPSubnet :: "IPNet \<Rightarrow> bool" where
  "IsSingleIPSubnet network =
     (case Mask_Size (ipnMask network) of (ones, maskLen) \<Rightarrow> ones = maskLen)"

text \<open>\<open>binary.BigEndian.Uint32\<close> panics on a slice of fewer than four bytes, which is what
  \<open>To4\<close> of a 16-byte mask is; \<^const>\<open>None\<close> is that panic.\<close>

definition IsBroadcast :: "net_ip \<Rightarrow> IPNet option \<Rightarrow> bool option" where
  "IsBroadcast ip networkPtr =
     (case networkPtr of
        None \<Rightarrow> Some False
      | Some network \<Rightarrow>
          if To4 ip = [] then Some False
          else if To4 (ipnIP network) = [] then Some False
          else if IsPointToPointSubnet network \<or> IsSingleIPSubnet network then Some False
          else if \<not> IPNet_Contains network ip then Some False
          else if length (To4 (ipnMask network)) < 4 then None
          else Some (IP_Equal ip (map2 (\<lambda>a m. a OR NOT m) (To4 (ipnIP network)) (To4 (ipnMask network)))))"

text \<open>\<open>LastIP\<close> is called with networks from \<open>net.ParseCIDR\<close> or from the prefix iterator, whose address
  and mask have the same width, so that indexing the mask is always in range.\<close>

definition LastIP :: "IPNet \<Rightarrow> net_ip" where
  "LastIP network =
     (if IsSingleIPSubnet network then ipnIP network
      else
        let end0 = map2 (\<lambda>a m. a OR NOT m) (ipnIP network) (ipnMask network)
        in if To4 (ipnIP network) \<noteq> [] \<and> \<not> IsPointToPointSubnet network
           then end0[3 := end0 ! 3 - 1]
           else end0)"

record SubnetIterator =
  siIsIPv6 :: bool
  siNetBitsTotal :: int
  siPrefixSize :: int
  siNetworkIPAsInt :: int
  siSubnetIPCount :: int
  siSubnetCount :: int
  siNextIndex :: int

definition NewSubnetIterator :: "IPNet option \<Rightarrow> int \<Rightarrow> ip_error + SubnetIterator" where
  "NewSubnetIterator networkPtr prefixSize =
     (case networkPtr of
        None \<Rightarrow> Inl NetworkNil
      | Some network \<Rightarrow>
          (case Mask_Size (ipnMask network) of (networkOnes, netBitsTotal) \<Rightarrow>
             if netBitsTotal \<noteq> 32 \<and> netBitsTotal \<noteq> 128 then Inl InvalidMask
             else if prefixSize < networkOnes \<or> prefixSize > netBitsTotal then Inl BadPrefixSize
             else
               let normalizedNetworkIP =
                     (if netBitsTotal = 32 then To4 (ipnIP network)
                      else if To4 (ipnIP network) = [] then To16 (ipnIP network)
                      else [])
               in if normalizedNetworkIP = [] then Inl NetworkMaskMismatch
                  else if \<not> IP_Equal normalizedNetworkIP (IP_Mask normalizedNetworkIP (ipnMask network))
                  then Inl HostBitsSet
                  else Inr \<lparr>
                    siIsIPv6 = (netBitsTotal = 128),
                    siNetBitsTotal = netBitsTotal,
                    siPrefixSize = prefixSize,
                    siNetworkIPAsInt = int (be_val normalizedNetworkIP),
                    siSubnetIPCount = 2 ^ nat (netBitsTotal - prefixSize),
                    siSubnetCount = 2 ^ nat (prefixSize - networkOnes),
                    siNextIndex = 0\<rparr>))"

definition SubnetIterator_Next :: "SubnetIterator \<Rightarrow> IPNet option \<times> SubnetIterator" where
  "SubnetIterator_Next i =
     (if siSubnetCount i \<le> siNextIndex i then (None, i)
      else
        let subnetOffset = siSubnetIPCount i * siNextIndex i;
            subnetIPAsInt = siNetworkIPAsInt i + subnetOffset;
            i' = i\<lparr>siNextIndex := siNextIndex i + 1\<rparr>;
            subnetIP = intToIP subnetIPAsInt (siIsIPv6 i)
        in if subnetIP = [] then (None, i')
           else (Some \<lparr>ipnIP = subnetIP, ipnMask = CIDRMask (siPrefixSize i) (siNetBitsTotal i)\<rparr>, i'))"

definition AdvancePastIP :: "SubnetIterator \<Rightarrow> net_ip \<Rightarrow> ip_error + SubnetIterator" where
  "AdvancePastIP i endIP =
     (let normalizedEnd =
            (if siIsIPv6 i then (if To4 endIP = [] then To16 endIP else []) else To4 endIP)
      in if normalizedEnd = [] then Inl IteratorFamilyMismatch
         else
           let nextIP = NextIP normalizedEnd
           in if nextIP = [] then Inr (i\<lparr>siNextIndex := siSubnetCount i\<rparr>)
              else
                let distance = ipToInt nextIP - siNetworkIPAsInt i
                in if distance < 0 then Inr i
                   else
                     let targetIndex = distance div siSubnetIPCount i;
                         i1 = (if siNextIndex i < targetIndex then i\<lparr>siNextIndex := targetIndex\<rparr> else i);
                         i2 = (if siSubnetCount i1 < siNextIndex i1
                               then i1\<lparr>siNextIndex := siSubnetCount i1\<rparr> else i1)
                     in Inr i2)"

subsection \<open>Addresses as numbers\<close>

text \<open>A valid address is determined by the width of its normal form (4 or 16 bytes) and its
  big-endian value.  The values of width 16 that read as IPv4 addresses are excluded by
  \<open>plain\<close>.\<close>

definition ip_len :: "net_ip \<Rightarrow> nat" where
  "ip_len ip = length (NormalizeIP ip)"

definition ip_val :: "net_ip \<Rightarrow> nat" where
  "ip_val ip = be_val (NormalizeIP ip)"

definition plain :: "nat \<Rightarrow> nat \<Rightarrow> bool" where
  "plain L v \<longleftrightarrow> (L = 4 \<or> L = 16) \<and> v < 256 ^ L \<and> (L = 16 \<longrightarrow> v div 2 ^ 32 \<noteq> 65535)"

lemma NormalizeIP_Nil [simp]: "NormalizeIP [] = []"
  by (simp add: NormalizeIP_def)

lemma ip_len_cases: "ip_len ip = 0 \<or> ip_len ip = 4 \<or> ip_len ip = 16"
  using To4_length [of ip] To16_length [of ip] by (auto simp: ip_len_def NormalizeIP_def)

lemma NormalizeIP_eq_Nil_iff: "NormalizeIP ip = [] \<longleftrightarrow> ip_len ip = 0"
  by (simp add: ip_len_def)

lemma NormalizeIP_conv: "NormalizeIP ip = be_bytes (ip_len ip) (ip_val ip)"
  by (simp add: ip_len_def ip_val_def be_bytes_be_val)

lemma be_bytes_eq_Nil_iff [simp]: "be_bytes k v = [] \<longleftrightarrow> k = 0"
  by (cases k) simp_all

lemma take_be_bytes: "take k (be_bytes (k + m) v) = be_bytes k (v div 256 ^ m)"
  by (induction m arbitrary: v) (simp_all add: div_mult2_eq)

lemma drop_be_bytes: "drop k (be_bytes (k + m) v) = be_bytes m v"
  by (induction m arbitrary: v) simp_all

lemma be_bytes_eq_iff: "length bs = k \<Longrightarrow> be_bytes k v = bs \<longleftrightarrow> v mod 256 ^ k = be_val bs"
  by (metis be_bytes_be_val be_val_be_bytes be_val_inject length_be_bytes)

lemma be_val_v4InV6Prefix: "be_val v4InV6Prefix = 65535"
  by (simp add: v4InV6Prefix_def)

lemma take_12_prefix_iff:
  assumes "v < 256 ^ 16"
  shows "take 12 (be_bytes 16 v) = v4InV6Prefix \<longleftrightarrow> v div 2 ^ 32 = 65535"
proof -
  have "v div 256 ^ 4 < 256 ^ 12" using assms by (simp add: div_less_iff_less_mult)
  then show ?thesis
    using take_be_bytes [of 12 4 v]
    by (simp add: be_bytes_eq_iff be_val_v4InV6Prefix)
qed

lemma NormalizeIP_be_bytes: "plain L v \<Longrightarrow> NormalizeIP (be_bytes L v) = be_bytes L v"
  using take_12_prefix_iff [of v]
  by (auto simp: plain_def NormalizeIP_def To4_def To16_def)

lemma NormalizeIP_not_plain:
  "v < 256 ^ 16 \<Longrightarrow> \<not> plain 16 v \<Longrightarrow> NormalizeIP (be_bytes 16 v) = be_bytes 4 v"
  using take_12_prefix_iff [of v] drop_be_bytes [of 12 4 v]
  by (auto simp: plain_def NormalizeIP_def To4_def To16_def)

lemma ip_len_be_bytes [simp]: "plain L v \<Longrightarrow> ip_len (be_bytes L v) = L"
  by (simp add: ip_len_def NormalizeIP_be_bytes)

lemma ip_val_be_bytes [simp]: "plain L v \<Longrightarrow> ip_val (be_bytes L v) = v"
  by (auto simp: ip_val_def NormalizeIP_be_bytes be_val_be_bytes plain_def)

lemma NormalizeIP_idem [simp]: "NormalizeIP (NormalizeIP ip) = NormalizeIP ip"
proof (cases "To4 ip = []")
  case True
  then show ?thesis by (simp add: NormalizeIP_def)
next
  case False
  with To4_length [of ip] show ?thesis by (simp add: NormalizeIP_def)
qed

lemma ip_len_NormalizeIP [simp]: "ip_len (NormalizeIP ip) = ip_len ip"
  and ip_val_NormalizeIP [simp]: "ip_val (NormalizeIP ip) = ip_val ip"
  by (simp_all add: ip_len_def ip_val_def)

lemma ip_val_less: "ip_val ip < 256 ^ ip_len ip"
  by (simp add: ip_len_def ip_val_def)

lemma ip_plain: "ip_len ip \<noteq> 0 \<Longrightarrow> plain (ip_len ip) (ip_val ip)"
proof (rule ccontr)
  assume "ip_len ip \<noteq> 0" and np: "\<not> plain (ip_len ip) (ip_val ip)"
  with ip_len_cases [of ip] ip_val_less [of ip] have len: "ip_len ip = 16"
    by (auto simp: plain_def)
  with np ip_val_less [of ip] NormalizeIP_not_plain [of "ip_val ip"]
  have "NormalizeIP (be_bytes 16 (ip_val ip)) = be_bytes 4 (ip_val ip)" by simp
  moreover have "be_bytes 16 (ip_val ip) = NormalizeIP ip" using len NormalizeIP_conv [of ip] by simp
  ultimately have "NormalizeIP ip = be_bytes 4 (ip_val ip)" by simp
  with len show False by (simp add: ip_len_def)
qed

lemma plain_not_0: "plain L v \<Longrightarrow> L \<noteq> 0"
  by (auto simp: plain_def)

lemma ip_valid_width: "length ip = 4 \<or> length ip = 16 \<Longrightarrow> ip_len ip \<noteq> 0"
  by (auto simp: ip_len_def NormalizeIP_def To16_def To4_def)

lemma ip_len_eq_16_iff: "(ip_len ip = 16) = (To4 ip = [] \<and> length ip = 16)"
  using To4_length [of ip] by (auto simp: ip_len_def NormalizeIP_def To16_def To4_def)

lemma ip_len_eq_4_iff: "(ip_len ip = 4) = (To4 ip \<noteq> [])"
  using To4_length [of ip] To16_length [of ip] by (auto simp: ip_len_def NormalizeIP_def)

lemma NormalizeIP_v4: "length a = 4 \<Longrightarrow> NormalizeIP a = a"
  by (auto simp: NormalizeIP_def)

lemma NormalizeIP_16:
  "length a = 16 \<Longrightarrow> NormalizeIP a = (if take 12 a = v4InV6Prefix then drop 12 a else a)"
  by (auto simp: NormalizeIP_def To4_def To16_def)

lemma IP_Equal_NormalizeIP:
  assumes la: "length a = 4 \<or> length a = 16" and lb: "length b = 4 \<or> length b = 16"
  shows "IP_Equal a b \<longleftrightarrow> NormalizeIP a = NormalizeIP b"
proof -
  consider "length a = 4" "length b = 4" | "length a = 4" "length b = 16"
    | "length a = 16" "length b = 4" | "length a = 16" "length b = 16" using la lb by blast
  then show ?thesis
  proof cases
    case 1
    then show ?thesis by (simp add: IP_Equal_def NormalizeIP_v4)
  next
    case 2
    then have "a \<noteq> b" by auto
    with 2 show ?thesis by (simp add: IP_Equal_def NormalizeIP_v4 NormalizeIP_16)
  next
    case 3
    then have "a \<noteq> b" by auto
    with 3 show ?thesis by (simp add: IP_Equal_def NormalizeIP_v4 NormalizeIP_16)
  next
    case 4
    then have "a \<noteq> drop 12 b" "drop 12 a \<noteq> b" by (auto dest: arg_cong [of _ _ length])
    moreover have "take 12 a = take 12 b \<Longrightarrow> drop 12 a = drop 12 b \<longleftrightarrow> a = b"
      by (metis append_take_drop_id)
    ultimately show ?thesis using 4 by (auto simp: IP_Equal_def NormalizeIP_16)
  qed
qed

lemma ip_len_width: "ip_len ip \<noteq> 0 \<longleftrightarrow> length ip = 4 \<or> length ip = 16"
proof
  show "ip_len ip \<noteq> 0 \<Longrightarrow> length ip = 4 \<or> length ip = 16"
    by (auto simp: ip_len_def NormalizeIP_def To4_def To16_def split: if_splits)
qed (rule ip_valid_width)

lemma IP_Equal_iff:
  assumes "ip_len a \<noteq> 0" "ip_len b \<noteq> 0"
  shows "IP_Equal a b \<longleftrightarrow> ip_len a = ip_len b \<and> ip_val a = ip_val b"
proof -
  have "IP_Equal a b \<longleftrightarrow> NormalizeIP a = NormalizeIP b"
    by (rule IP_Equal_NormalizeIP) (use assms in \<open>simp_all add: ip_len_width [symmetric]\<close>)
  also have "\<dots> \<longleftrightarrow> ip_len a = ip_len b \<and> ip_val a = ip_val b"
    by (metis NormalizeIP_conv ip_len_def ip_val_def)
  finally show ?thesis .
qed

subsection \<open>Arithmetic and comparison\<close>

lemma intToIP_conv:
  "intToIP i isIPv6 =
     (let L = if isIPv6 then 16 else 4
      in if 0 \<le> i \<and> nat i < 256 ^ L then be_bytes L (nat i) else [])"
proof -
  define L where "L = (if isIPv6 then 16 else 4 :: nat)"
  let ?n = "length (nat_bytes (nat i))"
  show ?thesis
  proof (cases "0 \<le> i \<and> ?n \<le> L")
    case True
    then have "be_bytes L (nat i) = replicate (L - ?n) 0 @ nat_bytes (nat i)"
      using be_bytes_conv_nat_bytes [of "nat i" "L - ?n"] by simp
    with True show ?thesis
      by (auto simp: intToIP_def Let_def L_def [symmetric] length_nat_bytes_le_iff [symmetric])
  next
    case False
    then show ?thesis
      by (auto simp: intToIP_def Let_def L_def [symmetric] length_nat_bytes_le_iff [symmetric])
  qed
qed

lemma intToIP_len: "L = 4 \<or> L = 16 \<Longrightarrow>
  intToIP i (L = 16) = (if 0 \<le> i \<and> nat i < 256 ^ L then be_bytes L (nat i) else [])"
  by (auto simp: intToIP_conv)

lemma ipToInt_NormalizeIP: "ipToInt (NormalizeIP ip) = int (ip_val ip)"
  by (simp add: ipToInt_def ip_val_def)

lemmas ip_folds = ip_len_def [symmetric] ipToInt_NormalizeIP NormalizeIP_eq_Nil_iff

lemma ip_len_4_16: "ip_len ip \<noteq> 0 \<Longrightarrow> ip_len ip = 4 \<or> ip_len ip = 16"
  using ip_len_cases [of ip] by simp

lemma NextIP_conv:
  "ip_len ip \<noteq> 0 \<Longrightarrow> NextIP ip = (if ip_val ip + 1 < 256 ^ ip_len ip then be_bytes (ip_len ip) (ip_val ip + 1) else [])"
  using intToIP_len [OF ip_len_4_16, of ip "int (ip_val ip) + 1"]
  by (simp add: NextIP_def Let_def ip_folds nat_add_distrib)

lemma NextIP_Nil: "ip_len ip = 0 \<Longrightarrow> NextIP ip = []"
  by (simp add: NextIP_def ip_folds)

lemma PrevIP_conv:
  assumes "ip_len ip \<noteq> 0"
  shows "PrevIP ip = (if 0 < ip_val ip then be_bytes (ip_len ip) (ip_val ip - 1) else [])"
proof -
  have "0 \<le> int (ip_val ip) - 1 \<longleftrightarrow> 0 < ip_val ip" and "nat (int (ip_val ip) - 1) = ip_val ip - 1"
    and "ip_val ip - 1 < 256 ^ ip_len ip"
    using ip_val_less [of ip] by linarith+
  with assms intToIP_len [OF ip_len_4_16, of ip "int (ip_val ip) - 1"]
  show ?thesis by (simp only: PrevIP_def Let_def ip_folds if_False simp_thms)
qed

lemma NextIPWithOffset_conv:
  "ip_len ip \<noteq> 0 \<Longrightarrow> 0 \<le> d \<Longrightarrow>
   NextIPWithOffset ip (Some d) =
     (if ip_val ip + nat d < 256 ^ ip_len ip then Inr (be_bytes (ip_len ip) (ip_val ip + nat d))
      else Inl IPAddressOverflow)"
  using intToIP_len [OF ip_len_4_16, of ip "int (ip_val ip) + d"]
  by (auto simp: NextIPWithOffset_def Let_def ip_folds nat_add_distrib)

lemma NextIPWithOffset_Inr_iff:
  "NextIPWithOffset ip (Some d) = Inr x \<longleftrightarrow>
     0 \<le> d \<and> ip_len ip \<noteq> 0 \<and> ip_val ip + nat d < 256 ^ ip_len ip \<and> x = be_bytes (ip_len ip) (ip_val ip + nat d)"
proof (cases "0 \<le> d \<and> ip_len ip \<noteq> 0")
  case True
  then show ?thesis by (auto simp: NextIPWithOffset_conv)
next
  case False
  then show ?thesis by (auto simp: NextIPWithOffset_def ip_folds Let_def)
qed

lemma Cmp_conv:
  "Cmp a b = (if ip_len a = ip_len b \<and> ip_len a \<noteq> 0 then sgn (int (ip_val a) - int (ip_val b)) else - 2)"
  by (simp add: Cmp_def Let_def ip_folds)

lemma Cmp_iffs:
  "0 \<le> Cmp a b \<longleftrightarrow> ip_len a = ip_len b \<and> ip_len a \<noteq> 0 \<and> ip_val b \<le> ip_val a"
  "Cmp a b = 0 \<longleftrightarrow> ip_len a = ip_len b \<and> ip_len a \<noteq> 0 \<and> ip_val b = ip_val a"
  "0 < Cmp a b \<longleftrightarrow> ip_len a = ip_len b \<and> ip_len a \<noteq> 0 \<and> ip_val b < ip_val a"
  "Cmp a b = - 1 \<longleftrightarrow> ip_len a = ip_len b \<and> ip_len a \<noteq> 0 \<and> ip_val a < ip_val b"
  "Cmp a b = 1 \<longleftrightarrow> ip_len a = ip_len b \<and> ip_len a \<noteq> 0 \<and> ip_val b < ip_val a"
  "Cmp a b = - 2 \<longleftrightarrow> ip_len a \<noteq> ip_len b \<or> ip_len a = 0"
  by (auto simp: Cmp_conv sgn_if)

lemma Distance_conv:
  "Distance a b =
     (if ip_len a = 0 \<or> ip_len b = 0 then Inl InvalidIPAddress
      else if ip_len a \<noteq> ip_len b then Inl FamiliesDoNotMatch
      else if ip_val b < ip_val a then Inl SecondPrecedesFirst
      else Inr (int (ip_val b) - int (ip_val a)))"
  by (simp add: Distance_def Let_def ip_folds)

text \<open>\<open>NextIPWithOffset\<close> and \<open>Distance\<close> are inverse: \<open>Distance a b\<close> succeeds with \<open>d\<close> on two valid
  addresses exactly when offsetting \<open>a\<close> by the non-negative \<open>d\<close> yields \<open>b\<close> (in normal form).\<close>

theorem NextIPWithOffset_Distance:
  assumes "NormalizeIP b \<noteq> []"
  shows "Distance a b = Inr d \<longleftrightarrow> NextIPWithOffset a (Some d) = Inr (NormalizeIP b)"
proof (cases "ip_len a = 0")
  case True
  then show ?thesis by (simp add: Distance_conv NextIPWithOffset_Inr_iff)
next
  case False
  have b: "ip_len b \<noteq> 0" using assms by (simp add: NormalizeIP_eq_Nil_iff)
  have "NormalizeIP b = be_bytes (ip_len a) (ip_val a + nat d) \<longleftrightarrow> ip_len a = ip_len b \<and> ip_val b = ip_val a + nat d"
    if "ip_val a + nat d < 256 ^ ip_len a"
    using that NormalizeIP_conv [of b]
    by (metis be_val_be_bytes ip_len_def ip_val_def length_be_bytes mod_less)
  with False b show ?thesis
    using ip_val_less [of b] by (auto simp: Distance_conv NextIPWithOffset_Inr_iff)
qed

theorem NextIPWithOffset_Distance_witness:
  "NormalizeIP [10, 0, 1, 4] \<noteq> [] \<and> Distance [10, 0, 0, 250] [10, 0, 1, 4] = Inr 10 \<and>
   NextIPWithOffset [10, 0, 0, 250] (Some 10) = Inr [10, 0, 1, 4]"
proof -
  have h: "NormalizeIP [10, 0, 1, 4] \<noteq> []" by code_simp
  have d: "Distance [10, 0, 0, 250] [10, 0, 1, 4] = Inr 10" by code_simp
  have n: "NormalizeIP [10, 0, 1, 4] = [10, 0, 1, 4]" by code_simp
  show ?thesis using NextIPWithOffset_Distance [OF h, of "[10, 0, 0, 250]" 10] h d n by simp
qed

text \<open>\<open>PrevIP\<close> undoes \<open>NextIP\<close>: whenever \<open>NextIP\<close> of a valid address returns an address of
  the same family, \<open>PrevIP\<close> leads back to the normal form of the original, and the result is
  strictly greater under \<open>Cmp\<close>.\<close>

theorem PrevIP_NextIP:
  assumes "length (NormalizeIP (NextIP ip)) = length (NormalizeIP ip)" and "NextIP ip \<noteq> []"
  shows "PrevIP (NextIP ip) = NormalizeIP ip \<and> Cmp (NextIP ip) ip = 1"
proof -
  have v: "ip_len ip \<noteq> 0" using assms(2) NextIP_Nil by blast
  with assms(2) have lt: "ip_val ip + 1 < 256 ^ ip_len ip"
    and nx: "NextIP ip = be_bytes (ip_len ip) (ip_val ip + 1)"
    by (auto simp: NextIP_conv split: if_splits)
  have len: "ip_len (NextIP ip) = ip_len ip" using assms(1) by (simp add: ip_len_def)
  have "plain (ip_len ip) (ip_val ip + 1)"
  proof (rule ccontr)
    assume np: "\<not> plain (ip_len ip) (ip_val ip + 1)"
    with lt ip_len_4_16 [OF v] have "ip_len ip = 16" by (auto simp: plain_def)
    with np lt nx have "NormalizeIP (NextIP ip) = be_bytes 4 (ip_val ip + 1)"
      by (simp add: NormalizeIP_not_plain)
    with len \<open>ip_len ip = 16\<close> show False by (simp add: ip_len_def)
  qed
  with nx have val: "ip_val (NextIP ip) = ip_val ip + 1" by simp
  have "PrevIP (NextIP ip) = NormalizeIP ip"
    using PrevIP_conv [of "NextIP ip"] v len val by (simp add: NormalizeIP_conv)
  then show ?thesis using v len val by (simp add: Cmp_iffs)
qed

theorem PrevIP_NextIP_witness:
  "PrevIP (NextIP [10, 0, 0, 255]) = [10, 0, 0, 255] \<and> Cmp (NextIP [10, 0, 0, 255]) [10, 0, 0, 255] = 1"
proof -
  have h1: "length (NormalizeIP (NextIP [10, 0, 0, 255])) = length (NormalizeIP [10, 0, 0, 255])" by code_simp
  have h2: "NextIP [10, 0, 0, 255] \<noteq> []" by code_simp
  have n: "NormalizeIP [10, 0, 0, 255] = [10, 0, 0, 255]" by code_simp
  show ?thesis using PrevIP_NextIP [OF h1 h2] n by simp
qed

text \<open>\<open>Cmp\<close> is a total order on the valid addresses of one family: it takes one of the four
  documented values, is antisymmetric up to normal form and transitive, and returns \<open>-2\<close> exactly
  for invalid addresses and mixed families.\<close>

theorem Cmp_total_order:
  "Cmp a b \<in> {- 2, - 1, 0, 1} \<and>
   (Cmp a b = - 2 \<longleftrightarrow> \<not> (NormalizeIP a \<noteq> [] \<and> NormalizeIP b \<noteq> [] \<and> length (NormalizeIP a) = length (NormalizeIP b))) \<and>
   (Cmp a b = 0 \<longleftrightarrow> NormalizeIP a \<noteq> [] \<and> NormalizeIP a = NormalizeIP b) \<and>
   (Cmp a b = 1 \<longleftrightarrow> Cmp b a = - 1) \<and>
   \<not> (Cmp a b = - 1 \<and> Cmp b c = - 1 \<and> Cmp a c \<noteq> - 1)"
proof (intro conjI)
  show "Cmp a b \<in> {- 2, - 1, 0, 1}" by (auto simp: Cmp_conv sgn_if)
  show "Cmp a b = - 2 \<longleftrightarrow> \<not> (NormalizeIP a \<noteq> [] \<and> NormalizeIP b \<noteq> [] \<and> length (NormalizeIP a) = length (NormalizeIP b))"
    by (auto simp: Cmp_iffs ip_folds)
  show "Cmp a b = 0 \<longleftrightarrow> NormalizeIP a \<noteq> [] \<and> NormalizeIP a = NormalizeIP b"
    unfolding Cmp_iffs NormalizeIP_eq_Nil_iff by (metis NormalizeIP_conv ip_len_def ip_val_def)
  show "Cmp a b = 1 \<longleftrightarrow> Cmp b a = - 1" by (auto simp: Cmp_iffs)
  show "\<not> (Cmp a b = - 1 \<and> Cmp b c = - 1 \<and> Cmp a c \<noteq> - 1)" by (auto simp: Cmp_iffs)
qed

subsection \<open>Networks as intervals\<close>

definition net_base :: "IPNet \<Rightarrow> nat" where
  "net_base n = be_val (ipnIP n)"

definition net_size :: "IPNet \<Rightarrow> nat" where
  "net_size n = 2 ^ (8 * length (ipnIP n) - net_ones n)"

lemma net_size_pos [simp]: "0 < net_size n"
  by (simp add: net_size_def)

lemma pow_256: "(256 :: nat) ^ k = 2 ^ (8 * k)"
  by (simp add: power_mult)

lemma wf_net_ip_len: "wf_net n \<Longrightarrow> ip_len (ipnIP n) = length (ipnIP n)"
  using wf_netD(1) [of n] by (auto simp: ip_len_def NormalizeIP_def To16_def)

lemma wf_net_Normalize: "wf_net n \<Longrightarrow> NormalizeIP (ipnIP n) = ipnIP n"
  using wf_netD(1) [of n] by (auto simp: NormalizeIP_def To16_def)

lemma wf_net_ip_val: "wf_net n \<Longrightarrow> ip_val (ipnIP n) = net_base n"
  by (simp add: ip_val_def net_base_def wf_net_Normalize)

lemma wf_net_width: "wf_net n \<Longrightarrow> length (ipnIP n) = 4 \<or> length (ipnIP n) = 16"
  using wf_netD(1) [of n] by blast

lemma net_masked_val:
  assumes "wf_net n" "length ip = length (ipnIP n)"
  shows "be_val (map2 (AND) ip (ipnMask n)) = be_val ip div net_size n * net_size n"
  using be_val_mask [of "net_ones n" ip] wf_netD(2,3) [OF assms(1)] assms(2) by (simp add: net_size_def)

lemma net_size_dvd: "wf_net n \<Longrightarrow> net_size n dvd net_base n"
  using net_masked_val [of n "ipnIP n"] wf_netD(4) [of n] dvd_triv_right [of "net_size n"]
  unfolding net_base_def by metis

lemma net_size_dvd_space: "wf_net n \<Longrightarrow> net_size n dvd 256 ^ length (ipnIP n)"
  using wf_netD(2) [of n] by (simp add: pow_256 net_size_def le_imp_power_dvd)

lemma dvd_less_add_le: "(m :: nat) dvd a \<Longrightarrow> m dvd b \<Longrightarrow> a < b \<Longrightarrow> a + m \<le> b"
  by (metis dvd_diff_nat dvd_imp_le le_add_diff_inverse less_imp_le nat_add_left_cancel_le zero_less_diff)

lemma net_end_le: "wf_net n \<Longrightarrow> net_base n + net_size n \<le> 256 ^ length (ipnIP n)"
  using dvd_less_add_le [OF net_size_dvd net_size_dvd_space] be_val_less [of "ipnIP n"] by (simp add: net_base_def)

lemma div_mult_eq_iff_interval:
  fixes v b m :: nat
  assumes "m dvd b" "0 < m"
  shows "b = v div m * m \<longleftrightarrow> b \<le> v \<and> v < b + m"
proof -
  obtain k where b: "b = k * m" using assms(1) by (auto simp: dvd_def mult.commute)
  have "v div m = k \<longleftrightarrow> k * m \<le> v \<and> v < k * m + m"
    using div_nat_eqI [of m k v] div_times_less_eq_dividend [of v m] dividend_less_times_div [of m v] assms(2)
    by (auto simp: algebra_simps)
  then show ?thesis using assms(2) by (auto simp: b)
qed

lemma IPNet_Contains_len: "wf_net n \<Longrightarrow> IPNet_Contains n ip \<longleftrightarrow>
   ip_len ip = ip_len (ipnIP n) \<and> map2 (AND) (ipnIP n) (ipnMask n) = map2 (AND) (NormalizeIP ip) (ipnMask n)"
proof -
  assume wf: "wf_net n"
  let ?ip = "if To4 ip \<noteq> [] then To4 ip else ip"
  have "length ?ip = length (ipnIP n) \<longleftrightarrow> ip_len ip = ip_len (ipnIP n)"
    and "length ?ip = length (ipnIP n) \<Longrightarrow> ?ip = NormalizeIP ip"
    using wf_net_width [OF wf] To4_length [of ip] wf_net_ip_len [OF wf]
    by (auto simp: ip_len_def NormalizeIP_def To16_def)
  then show ?thesis
    unfolding IPNet_Contains_def networkNumberAndMask_wf [OF wf] Let_def by auto
qed

text \<open>A canonical network contains exactly the addresses of its family in the interval from its
  base address, of the size of the network.\<close>

lemma IPNet_Contains_iff:
  assumes "wf_net n"
  shows "IPNet_Contains n ip \<longleftrightarrow>
    ip_len ip = ip_len (ipnIP n) \<and> net_base n \<le> ip_val ip \<and> ip_val ip < net_base n + net_size n"
proof (cases "ip_len ip = ip_len (ipnIP n)")
  case True
  then have len: "length (NormalizeIP ip) = length (ipnIP n)"
    using wf_net_ip_len [OF assms] by (simp add: ip_len_def)
  have "map2 (AND) (ipnIP n) (ipnMask n) = map2 (AND) (NormalizeIP ip) (ipnMask n) \<longleftrightarrow>
      net_base n = ip_val ip div net_size n * net_size n"
    using net_masked_val [OF assms len] wf_netD(4) [OF assms] len wf_net_mask_width [OF assms]
    by (simp add: be_val_inject [symmetric] net_base_def ip_val_def)
  with True show ?thesis
    by (simp add: IPNet_Contains_len [OF assms] div_mult_eq_iff_interval [OF net_size_dvd [OF assms] net_size_pos])
next
  case False
  then show ?thesis by (simp add: IPNet_Contains_len [OF assms])
qed

subsection \<open>First and last address\<close>

lemma IsSingle_wf: "wf_net n \<Longrightarrow> IsSingleIPSubnet n \<longleftrightarrow> net_size n = 1"
  using wf_netD(2) [of n] by (auto simp: IsSingleIPSubnet_def wf_net_Size net_size_def)

lemma IsPointToPoint_wf: "wf_net n \<Longrightarrow> IsPointToPointSubnet n \<longleftrightarrow> net_size n = 2"
proof -
  assume wf: "wf_net n"
  have "net_size n = 2 \<longleftrightarrow> 8 * length (ipnIP n) - net_ones n = 1"
    unfolding net_size_def using power_inject_exp [of "2 :: nat" _ 1] by simp
  then show ?thesis using wf_netD(2) [OF wf] by (auto simp: IsPointToPointSubnet_def wf_net_Size [OF wf])
qed

lemma unat_or_disjoint: "x AND y = 0 \<Longrightarrow> unat (x OR y) = unat x + unat (y :: byte)"
proof -
  assume "x AND y = 0"
  then have "unat x AND unat y = 0" by (metis unsigned_and_eq unsigned_0)
  then have "unat x + unat y = unat x OR unat y" by (rule disjunctive_add_eq_or)
  then show ?thesis by (simp add: unsigned_or_eq)
qed

lemma or_not_mask_split: "unat (a OR NOT m) = unat (a AND m) + unat (NOT m :: byte)"
proof -
  have "a OR NOT m = (a AND m) OR NOT m" by (rule bit_word_eqI) (auto simp: bit_simps)
  moreover have "(a AND m) AND NOT m = 0" by (rule bit_word_eqI) (auto simp: bit_simps)
  ultimately show ?thesis by (simp add: unat_or_disjoint)
qed

lemma unat_not_byte: "unat (b :: byte) + unat (NOT b) = 255"
proof -
  have "unat (b OR NOT b) = unat b + unat (NOT b)" by (rule unat_or_disjoint) simp
  moreover have "unat (b OR NOT b) = 255" by simp (simp add: unsigned_minus_1_eq_mask mask_eq_exp_minus_1)
  ultimately show ?thesis by linarith
qed

lemma be_val_or_not:
  "length bs = length ms \<Longrightarrow>
   be_val (map2 (\<lambda>a m. a OR NOT m) bs ms) = be_val (map2 (AND) bs ms) + be_val (map NOT ms)"
  by (induction bs ms rule: list_induct2) (simp_all add: or_not_mask_split algebra_simps)

lemma be_val_map_not: "be_val bs + be_val (map NOT bs) + 1 = 256 ^ length bs"
proof (induction bs)
  case (Cons b bs)
  have "be_val (b # bs) + be_val (map NOT (b # bs)) + 1 =
      (unat b + unat (NOT b)) * 256 ^ length bs + (be_val bs + be_val (map NOT bs) + 1)"
    by (simp add: algebra_simps)
  also have "\<dots> = 256 ^ length (b # bs)" unfolding Cons.IH unat_not_byte by simp
  finally show ?case .
qed simp

lemma be_val_mask_bytes:
  assumes "n \<le> 8 * l"
  shows "be_val (mask_bytes l n) + 2 ^ (8 * l - n) = 256 ^ l"
proof -
  let ?h = "8 * l - n" and ?ff = "replicate l (255 :: byte)"
  have "map2 (AND) ?ff (mask_bytes l n) = mask_bytes l n"
    by (rule nth_equalityI) (simp_all add: and.commute [of 255])
  then have m: "be_val (mask_bytes l n) = be_val ?ff div 2 ^ ?h * 2 ^ ?h"
    using be_val_mask [of n ?ff] assms by simp
  have z: "NOT (255 :: byte) = 0" by code_simp
  have "map NOT ?ff = replicate l 0" by (simp only: map_replicate z)
  then have ff: "be_val ?ff + 1 = 256 ^ l" using be_val_map_not [of ?ff] by (simp only: be_val_replicate_0 length_replicate)
  have "(2 :: nat) ^ ?h dvd 256 ^ l" by (simp add: pow_256 le_imp_power_dvd)
  then obtain k where k: "256 ^ l = k * (2 :: nat) ^ ?h" by (auto simp: dvd_def mult.commute)
  then obtain j where j: "k = Suc j" by (cases k) auto
  define p :: nat where "p = 2 ^ ?h"
  then have "0 < p" and "be_val ?ff + 1 = j * p + p" using ff k j by simp_all
  then have "be_val ?ff div p = j"
    by (intro div_nat_eqI) (simp_all add: mult.commute)
  then have "be_val ?ff div 2 ^ ?h = j" by (simp add: p_def)
  with m k j show ?thesis by (simp add: algebra_simps)
qed

lemma net_or_not_val:
  assumes "wf_net n"
  shows "be_val (map2 (\<lambda>a m. a OR NOT m) (ipnIP n) (ipnMask n)) = net_base n + net_size n - 1"
proof -
  have "be_val (ipnMask n) + net_size n = 256 ^ length (ipnMask n)"
    using be_val_mask_bytes [OF wf_netD(2) [OF assms]] wf_netD(3) [OF assms] wf_net_mask_width [OF assms]
    by (simp add: net_size_def)
  with be_val_map_not [of "ipnMask n"] have "be_val (map NOT (ipnMask n)) = net_size n - 1" by linarith
  then show ?thesis
    using be_val_or_not [of "ipnIP n" "ipnMask n"] wf_net_mask_width [OF assms] wf_netD(4) [OF assms] net_size_pos [of n]
    by (simp add: net_base_def)
qed

lemma net_or_not_conv:
  assumes "wf_net n"
  shows "map2 (\<lambda>a m. a OR NOT m) (ipnIP n) (ipnMask n) = be_bytes (length (ipnIP n)) (net_base n + net_size n - 1)"
proof -
  let ?e = "map2 (\<lambda>a m. a OR NOT m) (ipnIP n) (ipnMask n)"
  have "length ?e = length (ipnIP n)" using wf_net_mask_width [OF assms] by simp
  then show ?thesis using be_bytes_be_val [of ?e] net_or_not_val [OF assms] by metis
qed

text \<open>Decrementing the last byte of a four-byte address that is not a multiple of 256.\<close>

lemma be_bytes_4_decr:
  assumes "v mod 256 \<noteq> 0"
  shows "(be_bytes 4 v)[3 := be_bytes 4 v ! 3 - 1] = be_bytes 4 (v - 1)"
proof -
  have four: "(4 :: nat) = Suc 3" by simp
  have "(v - 1) div 256 = v div 256" and "(v - 1) mod 256 = v mod 256 - 1"
    using assms by (cases v; simp add: div_Suc mod_Suc split: if_splits)+
  moreover have "(word_of_nat (v mod 256) :: byte) - 1 = word_of_nat (v mod 256 - 1)"
    using assms by (simp add: of_nat_diff)
  ultimately show ?thesis
    unfolding four be_bytes.simps(2) by (simp add: nth_append list_update_append)
qed

lemma pred_mod_256:
  assumes "4 dvd x" "0 < (x :: nat)"
  shows "(x - 1) mod 256 \<noteq> 0"
proof -
  obtain k where k: "x = 4 * k" using assms(1) by (rule dvdE)
  with assms(2) obtain j where "k = Suc j" by (cases k) simp_all
  with k have "(x - 1) mod 4 = 3" by simp
  moreover have "(x - 1) mod 256 mod 4 = (x - 1) mod 4" by (rule mod_mod_cancel) simp
  ultimately show ?thesis by auto
qed

lemma LastIP_conv:
  assumes "wf_net n"
  shows "LastIP n = be_bytes (length (ipnIP n))
    (if length (ipnIP n) = 4 \<and> 2 < net_size n then net_base n + net_size n - 2 else net_base n + net_size n - 1)"
proof -
  let ?h = "8 * length (ipnIP n) - net_ones n"
  have cases2: "net_size n = 1 \<or> net_size n = 2 \<or> 4 dvd net_size n"
  proof -
    consider "?h = 0" | "?h = 1" | m where "?h = Suc (Suc m)" by (metis One_nat_def not0_implies_Suc)
    then show ?thesis by cases (simp_all add: net_size_def)
  qed
  have v4: "To4 (ipnIP n) \<noteq> [] \<longleftrightarrow> length (ipnIP n) = 4" using wf_netD(1) [OF assms] by auto
  have "(net_base n + net_size n - 1) mod 256 \<noteq> 0" if "2 < net_size n"
  proof -
    have "4 dvd net_size n" using cases2 that by auto
    moreover then have "4 dvd net_base n" using net_size_dvd [OF assms] dvd_trans by blast
    ultimately have "4 dvd net_base n + net_size n" by simp
    then show ?thesis using pred_mod_256 that by (metis add_is_0 less_nat_zero_code neq0_conv)
  qed
  moreover have "be_bytes (length (ipnIP n)) (net_base n) = ipnIP n" by (simp add: net_base_def be_bytes_be_val)
  ultimately show ?thesis
    using be_bytes_4_decr [of "net_base n + net_size n - 1"] cases2
    by (auto simp: LastIP_def IsSingle_wf [OF assms] IsPointToPoint_wf [OF assms] net_or_not_conv [OF assms] v4
        Let_def numeral_2_eq_2 dest: dvd_imp_le)
qed

lemma IsBroadcast_conv:
  assumes "wf_net n"
  shows "IsBroadcast ip (Some n) = Some (length (ipnIP n) = 4 \<and> 2 < net_size n \<and>
    ip_len ip = 4 \<and> ip_val ip = net_base n + net_size n - 1)"
proof (cases "length (ipnIP n) = 4 \<and> 2 < net_size n \<and> IPNet_Contains n ip")
  case True
  let ?b = "be_bytes 4 (net_base n + net_size n - 1)"
  have lt: "net_base n + net_size n - 1 < 256 ^ 4"
    using net_end_le [OF assms] net_size_pos [of n] True unfolding net_base_def by (simp del: net_size_pos)
  then have p: "plain 4 (net_base n + net_size n - 1)" by (simp add: plain_def)
  have ip: "ip_len ip = 4" using True by (simp add: IPNet_Contains_iff [OF assms] wf_net_ip_len [OF assms])
  have "IsBroadcast ip (Some n) = Some (IP_Equal ip ?b)"
    using True ip net_or_not_conv [OF assms] wf_net_mask_width [OF assms]
    by (auto simp: IsBroadcast_def ip_len_eq_4_iff IsSingle_wf [OF assms] IsPointToPoint_wf [OF assms])
  also have "IP_Equal ip ?b \<longleftrightarrow> ip_val ip = net_base n + net_size n - 1"
    using ip p by (subst IP_Equal_iff) simp_all
  finally show ?thesis using True ip by simp
next
  case False
  have "net_size n \<noteq> 1 \<Longrightarrow> net_size n \<noteq> 2 \<Longrightarrow> 2 < net_size n" using net_size_pos [of n] by linarith
  with False show ?thesis
    using wf_netD(1) [OF assms] wf_net_ip_len [OF assms]
    by (auto simp: IsBroadcast_def ip_len_eq_4_iff IsSingle_wf [OF assms] IsPointToPoint_wf [OF assms]
        IPNet_Contains_iff [OF assms])
qed

text \<open>A network that does not overlap the IPv4-mapped block \<open>::ffff:0:0/96\<close>: all its addresses
  are addresses of the family of the network.\<close>

definition net_clear :: "IPNet \<Rightarrow> bool" where
  "net_clear n \<longleftrightarrow> length (ipnIP n) = 4 \<or> net_base n + net_size n \<le> 65535 * 2 ^ 32 \<or> 65536 * 2 ^ 32 \<le> net_base n"

lemma net_clear_plain:
  assumes "wf_net n" "net_clear n" "net_base n \<le> v" "v < net_base n + net_size n"
  shows "plain (length (ipnIP n)) v"
proof -
  have "v < 256 ^ length (ipnIP n)" using net_end_le [OF assms(1)] assms(4) by linarith
  moreover have "v div 2 ^ 32 \<noteq> 65535" if "length (ipnIP n) \<noteq> 4"
    using that assms(2-4) by (auto simp: net_clear_def)
  ultimately show ?thesis using wf_net_width [OF assms(1)] by (auto simp: plain_def)
qed

lemma net_contains_val:
  assumes "wf_net n" "net_clear n"
  shows "IPNet_Contains n (be_bytes (length (ipnIP n)) v) \<Longrightarrow> plain (length (ipnIP n)) v \<Longrightarrow> net_base n \<le> v \<and> v < net_base n + net_size n"
    and "net_base n \<le> v \<Longrightarrow> v < net_base n + net_size n \<Longrightarrow> IPNet_Contains n (be_bytes (length (ipnIP n)) v)"
  using net_clear_plain [OF assms, of v]
  by (simp_all add: IPNet_Contains_iff [OF assms(1)] wf_net_ip_len [OF assms(1)])

text \<open>\<open>LastIP\<close> of a canonical network is the greatest address of the network that is not its
  broadcast address: it lies in the network, is not the broadcast address, and no other address
  of the network that is not the broadcast address is above it.\<close>

theorem LastIP_spec:
  assumes "wf_net n" "net_clear n"
  shows "IPNet_Contains n (LastIP n) \<and> IsBroadcast (LastIP n) (Some n) = Some False \<and>
    \<not> (\<exists>ip. IPNet_Contains n ip \<and> IsBroadcast ip (Some n) \<noteq> Some True \<and> Cmp ip (LastIP n) \<noteq> - 1 \<and> Cmp ip (LastIP n) \<noteq> 0)"
proof -
  define L where "L = length (ipnIP n)"
  define v where "v = (if L = 4 \<and> 2 < net_size n then net_base n + net_size n - 2 else net_base n + net_size n - 1)"
  have v: "net_base n \<le> v" "v < net_base n + net_size n"
    using net_size_pos [of n] by (auto simp: v_def simp del: net_size_pos)
  have last: "LastIP n = be_bytes L v" using LastIP_conv [OF assms(1)] by (simp add: L_def v_def)
  have p: "plain L v" using net_clear_plain [OF assms v] by (simp add: L_def)
  have nL: "ip_len (ipnIP n) = L" by (simp add: L_def wf_net_ip_len [OF assms(1)])
  have "IPNet_Contains n (LastIP n)" using p v by (simp add: last IPNet_Contains_iff [OF assms(1)] nL)
  moreover have "IsBroadcast (LastIP n) (Some n) = Some False"
    using p net_size_pos [of n] by (auto simp: IsBroadcast_conv [OF assms(1)] last L_def [symmetric] v_def simp del: net_size_pos)
  moreover have "Cmp ip (LastIP n) \<in> {- 1, 0}"
    if "IPNet_Contains n ip" "IsBroadcast ip (Some n) \<noteq> Some True" for ip
  proof -
    have "ip_len ip = L" "ip_val ip < net_base n + net_size n"
      using that(1) by (simp_all add: IPNet_Contains_iff [OF assms(1)] nL)
    moreover from this that(2) have "ip_val ip \<le> v"
      by (auto simp: v_def IsBroadcast_conv [OF assms(1)] L_def [symmetric])
    ultimately show ?thesis using p plain_not_0 [OF p] by (auto simp: Cmp_conv last sgn_if)
  qed
  ultimately show ?thesis by blast
qed

definition net_10_0_0_0_24 :: IPNet where
  "net_10_0_0_0_24 = \<lparr>ipnIP = [10, 0, 0, 0], ipnMask = [255, 255, 255, 0]\<rparr>"

theorem LastIP_spec_witness:
  "LastIP net_10_0_0_0_24 = [10, 0, 0, 254] \<and> IPNet_Contains net_10_0_0_0_24 [10, 0, 0, 254] \<and>
   IsBroadcast [10, 0, 0, 254] (Some net_10_0_0_0_24) = Some False"
proof -
  have h: "wf_net net_10_0_0_0_24" "net_clear net_10_0_0_0_24" by code_simp+
  have l: "LastIP net_10_0_0_0_24 = [10, 0, 0, 254]" by code_simp
  show ?thesis using LastIP_spec [OF h] by (simp add: l)
qed

subsection \<open>The prefix iterator\<close>

definition siWidth :: "SubnetIterator \<Rightarrow> nat" where
  "siWidth it = (if siIsIPv6 it then 16 else 4)"

text \<open>The representation invariant of the iterator: the prefixes it walks over are aligned and
  lie inside the address space of its family.\<close>

definition iter_ok :: "SubnetIterator \<Rightarrow> bool" where
  "iter_ok it \<longleftrightarrow>
     siNetBitsTotal it = 8 * int (siWidth it) \<and>
     0 \<le> siPrefixSize it \<and> siPrefixSize it \<le> siNetBitsTotal it \<and>
     siSubnetIPCount it = 2 ^ nat (siNetBitsTotal it - siPrefixSize it) \<and>
     0 \<le> siNetworkIPAsInt it \<and> siSubnetIPCount it dvd siNetworkIPAsInt it \<and>
     siNetworkIPAsInt it + siSubnetIPCount it * siSubnetCount it \<le> 256 ^ siWidth it \<and>
     0 \<le> siNextIndex it \<and> siNextIndex it \<le> siSubnetCount it"

lemma iter_okD:
  assumes "iter_ok it"
  shows "siNetBitsTotal it = 8 * int (siWidth it)"
    and "0 \<le> siPrefixSize it" "siPrefixSize it \<le> siNetBitsTotal it"
    and "siSubnetIPCount it = 2 ^ nat (siNetBitsTotal it - siPrefixSize it)"
    and "0 \<le> siNetworkIPAsInt it" "siSubnetIPCount it dvd siNetworkIPAsInt it"
    and "siNetworkIPAsInt it + siSubnetIPCount it * siSubnetCount it \<le> 256 ^ siWidth it"
    and "0 \<le> siNextIndex it" "siNextIndex it \<le> siSubnetCount it"
    and "0 < siSubnetIPCount it"
  using assms by (auto simp: iter_ok_def)

lemma siWidth_cases: "siWidth it = 4 \<or> siWidth it = 16"
  by (simp add: siWidth_def)

definition prefix_first :: "SubnetIterator \<Rightarrow> int \<Rightarrow> int" where
  "prefix_first it k = siNetworkIPAsInt it + siSubnetIPCount it * k"

definition prefix_at :: "SubnetIterator \<Rightarrow> int \<Rightarrow> IPNet" where
  "prefix_at it k = \<lparr>ipnIP = be_bytes (siWidth it) (nat (prefix_first it k)),
     ipnMask = CIDRMask (siPrefixSize it) (siNetBitsTotal it)\<rparr>"

lemma iter_fields_upd [simp]:
  "siWidth (it\<lparr>siNextIndex := k\<rparr>) = siWidth it"
  "prefix_first (it\<lparr>siNextIndex := k\<rparr>) = prefix_first it"
  "prefix_at (it\<lparr>siNextIndex := k\<rparr>) = prefix_at it"
  by (simp_all add: siWidth_def prefix_first_def prefix_at_def fun_eq_iff)

lemma iter_ok_upd: "iter_ok it \<Longrightarrow> 0 \<le> k \<Longrightarrow> k \<le> siSubnetCount it \<Longrightarrow> iter_ok (it\<lparr>siNextIndex := k\<rparr>)"
  unfolding iter_ok_def by (elim conjE, intro conjI) simp_all

lemma prefix_first_bounds:
  assumes "iter_ok it" "0 \<le> k" "k < siSubnetCount it"
  shows "0 \<le> prefix_first it k" "prefix_first it k + siSubnetIPCount it \<le> 256 ^ siWidth it"
proof -
  note c = iter_okD(10) [OF assms(1)]
  show "0 \<le> prefix_first it k" using iter_okD(5) [OF assms(1)] c assms(2) by (simp add: prefix_first_def)
  have "siSubnetIPCount it * (k + 1) \<le> siSubnetIPCount it * siSubnetCount it" using c assms(3) by simp
  with iter_okD(7) [OF assms(1)] show "prefix_first it k + siSubnetIPCount it \<le> 256 ^ siWidth it"
    by (simp add: prefix_first_def distrib_left)
qed

lemma intToIP_siWidth:
  "intToIP i (siIsIPv6 it) = (if 0 \<le> i \<and> i < 256 ^ siWidth it then be_bytes (siWidth it) (nat i) else [])"
  by (auto simp: intToIP_conv siWidth_def)

lemma Next_conv:
  assumes "iter_ok it"
  shows "SubnetIterator_Next it =
    (if siNextIndex it < siSubnetCount it
     then (Some (prefix_at it (siNextIndex it)), it\<lparr>siNextIndex := siNextIndex it + 1\<rparr>) else (None, it))"
proof (cases "siNextIndex it < siSubnetCount it")
  case True
  note b = prefix_first_bounds [OF assms iter_okD(8) [OF assms] True]
  have "prefix_first it (siNextIndex it) < 256 ^ siWidth it" using b iter_okD(10) [OF assms] by linarith
  with True b(1) siWidth_cases [of it] show ?thesis
    by (auto simp: SubnetIterator_Next_def Let_def intToIP_siWidth prefix_first_def [symmetric] prefix_at_def)
next
  case False
  then show ?thesis by (simp add: SubnetIterator_Next_def)
qed

lemma Next_iter_ok: "iter_ok it \<Longrightarrow> SubnetIterator_Next it = (r, it') \<Longrightarrow> iter_ok it'"
  using iter_okD(8,9) [of it] by (auto simp: Next_conv iter_ok_upd split: if_splits)

lemma CIDRMask_iter:
  assumes "iter_ok it"
  shows "CIDRMask (siPrefixSize it) (siNetBitsTotal it) = mask_bytes (siWidth it) (nat (siPrefixSize it))"
  using iter_okD(1-3) [OF assms] siWidth_cases [of it] by (auto simp: CIDRMask_def)

lemma prefix_at_ones:
  assumes "iter_ok it"
  shows "net_ones (prefix_at it k) = nat (siPrefixSize it)"
proof -
  have "nat (siPrefixSize it) \<le> 8 * siWidth it" using iter_okD(1-3) [OF assms] by simp
  then show ?thesis by (simp add: net_ones_def prefix_at_def CIDRMask_iter [OF assms])
qed

lemma prefix_at_size:
  assumes "iter_ok it"
  shows "int (net_size (prefix_at it k)) = siSubnetIPCount it"
proof -
  have "8 * siWidth it - nat (siPrefixSize it) = nat (siNetBitsTotal it - siPrefixSize it)"
    using iter_okD(1,2) [OF assms] by simp
  then show ?thesis
    by (simp add: net_size_def prefix_at_ones [OF assms] iter_okD(4) [OF assms]) (simp add: prefix_at_def)
qed

lemma prefix_at_base:
  assumes "iter_ok it" "0 \<le> k" "k < siSubnetCount it"
  shows "int (net_base (prefix_at it k)) = prefix_first it k"
proof -
  note b = prefix_first_bounds [OF assms]
  then have "nat (prefix_first it k) < 256 ^ siWidth it" using iter_okD(10) [OF assms(1)] by (simp add: nat_less_iff)
  with b(1) show ?thesis by (simp add: net_base_def prefix_at_def be_val_be_bytes)
qed

lemma prefix_at_wf:
  assumes "iter_ok it" "0 \<le> k" "k < siSubnetCount it" "plain (siWidth it) (nat (prefix_first it k))"
  shows "wf_net (prefix_at it k)"
proof -
  let ?n = "prefix_at it k" and ?L = "siWidth it" and ?p = "nat (siPrefixSize it)"
  let ?b = "be_bytes ?L (nat (prefix_first it k))"
  have p: "?p \<le> 8 * ?L" using iter_okD(1-3) [OF assms(1)] by simp
  have h: "(2 :: int) ^ (8 * ?L - ?p) = siSubnetIPCount it"
    using prefix_at_size [OF assms(1), of k] by (simp add: net_size_def prefix_at_ones [OF assms(1)]) (simp add: prefix_at_def)
  have v: "int (be_val ?b) = prefix_first it k" using prefix_at_base [OF assms(1-3)] by (simp add: net_base_def prefix_at_def)
  have "siSubnetIPCount it dvd prefix_first it k" using iter_okD(6) [OF assms(1)] by (simp add: prefix_first_def)
  then have "(2 :: int) ^ (8 * ?L - ?p) dvd int (be_val ?b)" by (simp only: h v)
  then have "(2 :: nat) ^ (8 * ?L - ?p) dvd be_val ?b" by (metis int_dvd_int_iff of_nat_numeral of_nat_power)
  then have "be_val (map2 (AND) ?b (mask_bytes ?L ?p)) = be_val ?b"
    using be_val_mask [of ?p ?b] p by simp
  then have host: "map2 (AND) ?b (mask_bytes ?L ?p) = ?b" by (subst (asm) be_val_inject) simp_all
  have "?L = 16 \<Longrightarrow> To4 ?b = []"
    using ip_len_be_bytes [OF assms(4)] ip_len_eq_16_iff [of ?b] by simp
  with host p siWidth_cases [of it] show ?thesis
    by (auto simp: wf_net_def prefix_at_def CIDRMask_iter [OF assms(1)])
qed

lemma NewSubnetIterator_conv:
  assumes "wf_net n"
  shows "NewSubnetIterator (Some n) p =
    (if p < int (net_ones n) \<or> 8 * int (length (ipnIP n)) < p then Inl BadPrefixSize
     else Inr \<lparr>siIsIPv6 = (length (ipnIP n) = 16), siNetBitsTotal = 8 * int (length (ipnIP n)), siPrefixSize = p,
       siNetworkIPAsInt = int (net_base n), siSubnetIPCount = 2 ^ nat (8 * int (length (ipnIP n)) - p),
       siSubnetCount = 2 ^ nat (p - int (net_ones n)), siNextIndex = 0\<rparr>)"
proof -
  have m: "IP_Mask (ipnIP n) (ipnMask n) = ipnIP n"
    using wf_netD(4) [OF assms] wf_net_mask_width [OF assms] wf_netD(1) [OF assms]
    by (auto simp: IP_Mask_def)
  have e: "IP_Equal (ipnIP n) (ipnIP n)" by (simp add: IP_Equal_def)
  show ?thesis
    using wf_netD(1) [OF assms]
  proof
    assume "length (ipnIP n) = 4"
    then show ?thesis
      using m e by (auto simp: NewSubnetIterator_def wf_net_Size [OF assms] net_base_def Let_def)
  next
    assume "length (ipnIP n) = 16 \<and> To4 (ipnIP n) = []"
    moreover from this have "To16 (ipnIP n) = ipnIP n" "ipnIP n \<noteq> []" by (auto simp: To16_def)
    ultimately show ?thesis
      using m e by (auto simp: NewSubnetIterator_def wf_net_Size [OF assms] net_base_def Let_def)
  qed
qed

lemma NewSubnetIterator_wf:
  assumes "wf_net n" "NewSubnetIterator (Some n) p = Inr it"
  shows "iter_ok it" and "siWidth it = length (ipnIP n)" and "siNetworkIPAsInt it = int (net_base n)"
    and "siSubnetIPCount it * siSubnetCount it = int (net_size n)" and "siNextIndex it = 0"
    and "siPrefixSize it = p" and "siSubnetCount it = 2 ^ nat (p - int (net_ones n))"
proof -
  let ?B = "8 * int (length (ipnIP n))"
  have p: "int (net_ones n) \<le> p" "p \<le> ?B"
    using assms(2) by (auto simp: NewSubnetIterator_conv [OF assms(1)] split: if_splits)
  with assms have it: "it = \<lparr>siIsIPv6 = (length (ipnIP n) = 16), siNetBitsTotal = ?B, siPrefixSize = p,
       siNetworkIPAsInt = int (net_base n), siSubnetIPCount = 2 ^ nat (?B - p),
       siSubnetCount = 2 ^ nat (p - int (net_ones n)), siNextIndex = 0\<rparr>"
    by (simp add: NewSubnetIterator_conv)
  show w: "siWidth it = length (ipnIP n)" using wf_net_width [OF assms(1)] by (auto simp: it siWidth_def)
  have "nat (?B - p) + nat (p - int (net_ones n)) = 8 * length (ipnIP n) - net_ones n" using p by linarith
  then show prod: "siSubnetIPCount it * siSubnetCount it = int (net_size n)"
    by (simp add: it net_size_def flip: power_add)
  have "siSubnetIPCount it dvd int (net_base n)"
    using net_size_dvd [OF assms(1)] prod by (metis dvd_mult_left int_dvd_int_iff)
  moreover have "int (net_base n) + int (net_size n) \<le> 256 ^ length (ipnIP n)"
    using net_end_le [OF assms(1)] by (metis of_nat_add of_nat_le_iff of_nat_numeral of_nat_power)
  ultimately show "iter_ok it"
    unfolding iter_ok_def prod using p w by (simp add: it)
  show "siNetworkIPAsInt it = int (net_base n)" "siNextIndex it = 0" "siPrefixSize it = p"
    "siSubnetCount it = 2 ^ nat (p - int (net_ones n))" by (simp_all add: it)
qed

text \<open>An iterator that was made for the network \<open>n\<close> and has reached index \<open>k\<close>.\<close>

lemma prefix_in_net:
  assumes "wf_net n" "NewSubnetIterator (Some n) p = Inr it" "0 \<le> k" "k < siSubnetCount it"
  shows "int (net_base n) \<le> prefix_first it k"
    and "prefix_first it k + siSubnetIPCount it \<le> int (net_base n) + int (net_size n)"
proof -
  note it = NewSubnetIterator_wf [OF assms(1,2)]
  note c = iter_okD(10) [OF it(1)]
  show "int (net_base n) \<le> prefix_first it k" using c assms(3) it(3) by (simp add: prefix_first_def)
  have "siSubnetIPCount it * (k + 1) \<le> siSubnetIPCount it * siSubnetCount it" using c assms(4) by simp
  then show "prefix_first it k + siSubnetIPCount it \<le> int (net_base n) + int (net_size n)"
    using it(3,4) by (simp add: prefix_first_def distrib_left)
qed

lemma prefix_at_wf_net:
  assumes "wf_net n" "net_clear n" "NewSubnetIterator (Some n) p = Inr it" "0 \<le> k" "k < siSubnetCount it"
  shows "wf_net (prefix_at it k)" "net_clear (prefix_at it k)"
proof -
  note it = NewSubnetIterator_wf [OF assms(1,3)]
  note c = iter_okD(10) [OF it(1)] and b = prefix_in_net [OF assms(1,3-5)]
  have "plain (siWidth it) (nat (prefix_first it k))"
    unfolding it(2) by (rule net_clear_plain [OF assms(1,2)]) (use b c in linarith)+
  then show "wf_net (prefix_at it k)" by (rule prefix_at_wf [OF it(1) assms(4,5)])
  have "int (net_base (prefix_at it k)) = prefix_first it k" "int (net_size (prefix_at it k)) = siSubnetIPCount it"
    using prefix_at_base [OF it(1) assms(4,5)] prefix_at_size [OF it(1)] by simp_all
  with b have "net_base n \<le> net_base (prefix_at it k)"
    "net_base (prefix_at it k) + net_size (prefix_at it k) \<le> net_base n + net_size n" by linarith+
  moreover have "length (ipnIP (prefix_at it k)) = length (ipnIP n)" using it(2) by (simp add: prefix_at_def)
  ultimately show "net_clear (prefix_at it k)" using assms(2) by (auto simp: net_clear_def)
qed

lemma prefix_at_Contains:
  assumes "wf_net n" "net_clear n" "NewSubnetIterator (Some n) p = Inr it" "0 \<le> k" "k < siSubnetCount it"
  shows "IPNet_Contains (prefix_at it k) ip \<longleftrightarrow>
    ip_len ip = siWidth it \<and> prefix_first it k \<le> int (ip_val ip) \<and> int (ip_val ip) < prefix_first it k + siSubnetIPCount it"
proof -
  note it = NewSubnetIterator_wf [OF assms(1,3)] and wf = prefix_at_wf_net(1) [OF assms]
  have "ip_len (ipnIP (prefix_at it k)) = siWidth it" using wf_net_ip_len [OF wf] by (simp add: prefix_at_def)
  moreover have "int (net_base (prefix_at it k)) = prefix_first it k" "int (net_size (prefix_at it k)) = siSubnetIPCount it"
    using prefix_at_base [OF it(1) assms(4,5)] prefix_at_size [OF it(1)] by simp_all
  ultimately show ?thesis by (auto simp: IPNet_Contains_iff [OF wf])
qed

lemma Next_at:
  assumes "iter_ok it" "0 \<le> k"
  shows "fst (SubnetIterator_Next (it\<lparr>siNextIndex := k\<rparr>)) = (if k < siSubnetCount it then Some (prefix_at it k) else None)"
proof (cases "k < siSubnetCount it")
  case True
  then have "iter_ok (it\<lparr>siNextIndex := k\<rparr>)" using iter_ok_upd [OF assms] by simp
  with True show ?thesis by (simp add: Next_conv)
next
  case False
  then show ?thesis by (simp add: SubnetIterator_Next_def)
qed

text \<open>The prefixes handed out by a \<open>SubnetIterator\<close> partition its network: an address belongs to
  the network exactly when there is one and only one index at which \<open>Next\<close> returns a prefix
  containing the address.\<close>

theorem SubnetIterator_partition:
  assumes "wf_net n" "net_clear n" "NewSubnetIterator (Some n) p = Inr it"
  shows "IPNet_Contains n ip \<longleftrightarrow>
    (\<exists>!k. 0 \<le> k \<and> (\<exists>s. fst (SubnetIterator_Next (it\<lparr>siNextIndex := k\<rparr>)) = Some s \<and> IPNet_Contains s ip))"
proof -
  note it = NewSubnetIterator_wf [OF assms(1,3)]
  note c = iter_okD(10) [OF it(1)]
  let ?d = "int (ip_val ip) - int (net_base n)" and ?c = "siSubnetIPCount it"
  let ?P = "\<lambda>k. 0 \<le> k \<and> (\<exists>s. fst (SubnetIterator_Next (it\<lparr>siNextIndex := k\<rparr>)) = Some s \<and> IPNet_Contains s ip)"
  have P: "?P k \<longleftrightarrow> 0 \<le> k \<and> k < siSubnetCount it \<and> ip_len ip = siWidth it \<and> k = ?d div ?c" for k
  proof (cases "0 \<le> k \<and> k < siSubnetCount it")
    case True
    then have "?P k \<longleftrightarrow> IPNet_Contains (prefix_at it k) ip" by (simp add: Next_at [OF it(1)])
    with True show ?thesis
      using prefix_at_Contains [OF assms, of k ip] int_div_eq_iff [OF c, of ?d k]
      by (auto simp: prefix_first_def it(3))
  next
    case False
    then show ?thesis by (auto simp: Next_at [OF it(1)])
  qed
  have "IPNet_Contains n ip \<longleftrightarrow> ip_len ip = siWidth it \<and> 0 \<le> ?d \<and> ?d < ?c * siSubnetCount it"
    using it(4) by (auto simp: IPNet_Contains_iff [OF assms(1)] wf_net_ip_len [OF assms(1)] it(2))
  also have "\<dots> \<longleftrightarrow> ip_len ip = siWidth it \<and> 0 \<le> ?d div ?c \<and> ?d div ?c < siSubnetCount it"
    using int_le_div_iff [OF c, of 0 ?d] int_div_less_iff [OF c, of ?d "siSubnetCount it"] by simp
  also have "\<dots> \<longleftrightarrow> (\<exists>!k. ?P k)" unfolding P by blast
  finally show ?thesis .
qed

theorem SubnetIterator_partition_witness:
  "\<exists>it. NewSubnetIterator (Some net_10_0_0_0_24) 26 = Inr it \<and>
    (\<exists>!k. 0 \<le> k \<and> (\<exists>s. fst (SubnetIterator_Next (it\<lparr>siNextIndex := k\<rparr>)) = Some s \<and> IPNet_Contains s [10, 0, 0, 70]))"
proof -
  have h: "wf_net net_10_0_0_0_24" "net_clear net_10_0_0_0_24" by code_simp+
  have c: "IPNet_Contains net_10_0_0_0_24 [10, 0, 0, 70]" by code_simp
  have n: "NewSubnetIterator (Some net_10_0_0_0_24) 26 = Inr \<lparr>siIsIPv6 = False, siNetBitsTotal = 32, siPrefixSize = 26,
      siNetworkIPAsInt = 167772160, siSubnetIPCount = 64, siSubnetCount = 4, siNextIndex = 0\<rparr>" by code_simp
  show ?thesis using SubnetIterator_partition [OF h n, of "[10, 0, 0, 70]"] c n by blast
qed

text \<open>The prefixes that repeated calls of \<open>Next\<close> return before the first nil, with a bound on the
  number of calls.\<close>

fun SubnetIterator_collect :: "nat \<Rightarrow> SubnetIterator \<Rightarrow> IPNet list" where
  "SubnetIterator_collect 0 it = []"
| "SubnetIterator_collect (Suc k) it =
     (case SubnetIterator_Next it of (None, _) \<Rightarrow> [] | (Some s, it') \<Rightarrow> s # SubnetIterator_collect k it')"

lemma collect_conv:
  "iter_ok it \<Longrightarrow>
   SubnetIterator_collect k it =
     map (prefix_at it) (map (\<lambda>i. siNextIndex it + int i) [0..<min k (nat (siSubnetCount it - siNextIndex it))])"
proof (induction k arbitrary: it)
  case 0
  show ?case by simp
next
  case (Suc k)
  show ?case
  proof (cases "siNextIndex it < siSubnetCount it")
    case True
    let ?it = "it\<lparr>siNextIndex := siNextIndex it + 1\<rparr>"
    have ok: "iter_ok ?it" using iter_okD(8) [OF Suc.prems] True by (intro iter_ok_upd [OF Suc.prems]) simp_all
    have m: "min (Suc k) (nat (siSubnetCount it - siNextIndex it)) = Suc (min k (nat (siSubnetCount it - (siNextIndex it + 1))))"
      using True by linarith
    have rest: "SubnetIterator_collect k ?it =
        map (\<lambda>i. prefix_at it (siNextIndex it + int (Suc i))) [0..<min k (nat (siSubnetCount it - (siNextIndex it + 1)))]"
      unfolding Suc.IH [OF ok] by (simp add: add.assoc)
    show ?thesis
      unfolding m upt_conv_Cons [OF zero_less_Suc] map_Suc_upt [symmetric] using True
      by (simp add: Next_conv [OF Suc.prems] rest del: upt_Suc)
  next
    case False
    then show ?thesis by (simp add: Next_conv [OF Suc.prems])
  qed
qed

text \<open>C32: Calling \<open>Next\<close> repeatedly on a fresh iterator terminates and enumerates the prefixes of the
  network in ascending order: with at least as many calls as there are prefixes exactly
  \<open>2\<^sup>p\<^sup>r\<^sup>e\<^sup>f\<^sup>i\<^sup>x\<^sup>-\<^sup>o\<^sup>n\<^sup>e\<^sup>s\<close> prefixes come back, the \<open>i\<close>-th one has the requested mask and starts \<open>i\<close>
  prefix sizes above the base of the network.\<close>

theorem SubnetIterator_enumerates:
  assumes "wf_net n" "NewSubnetIterator (Some n) p = Inr it" "2 ^ nat (p - int (net_ones n)) \<le> fuel"
  shows "map (\<lambda>s. (be_val (ipnIP s), ipnMask s)) (SubnetIterator_collect fuel it) =
    map (\<lambda>i. (net_base n + i * 2 ^ nat (8 * int (length (ipnIP n)) - p), CIDRMask p (8 * int (length (ipnIP n)))))
      [0..<2 ^ nat (p - int (net_ones n))]"
proof -
  note it = NewSubnetIterator_wf [OF assms(1,2)]
  have m: "min fuel (nat (siSubnetCount it - siNextIndex it)) = 2 ^ nat (p - int (net_ones n))"
    using assms(3) by (simp add: it(5,7) nat_power_eq)
  have el: "be_val (ipnIP (prefix_at it (int i))) = net_base n + i * 2 ^ nat (8 * int (length (ipnIP n)) - p)"
    if "i < 2 ^ nat (p - int (net_ones n))" for i
  proof -
    have lt: "int i < siSubnetCount it" using that unfolding it(7) by (metis of_nat_less_iff of_nat_numeral of_nat_power)
    have "int (net_base (prefix_at it (int i))) = int (net_base n) + siSubnetIPCount it * int i"
      using prefix_at_base [OF it(1) _ lt] by (simp add: prefix_first_def it(3))
    also have "siSubnetIPCount it = 2 ^ nat (8 * int (length (ipnIP n)) - p)"
      using iter_okD(1,4) [OF it(1)] by (simp add: it(2,6))
    finally have "int (net_base (prefix_at it (int i))) = int (net_base n + i * 2 ^ nat (8 * int (length (ipnIP n)) - p))"
      by simp
    then show ?thesis unfolding of_nat_eq_iff by (simp add: net_base_def)
  qed
  have mk: "ipnMask (prefix_at it i) = CIDRMask p (8 * int (length (ipnIP n)))" for i
    using iter_okD(1) [OF it(1)] by (simp add: prefix_at_def it(2,6))
  show ?thesis unfolding collect_conv [OF it(1)] m by (simp add: el mk it(5))
qed

theorem SubnetIterator_enumerates_witness:
  "\<exists>it. NewSubnetIterator (Some net_10_0_0_0_24) 26 = Inr it \<and>
    map (be_val \<circ> ipnIP) (SubnetIterator_collect 10 it) = [167772160, 167772224, 167772288, 167772352]"
proof -
  have h: "wf_net net_10_0_0_0_24" by code_simp
  have o: "net_ones net_10_0_0_0_24 = 24" "length (ipnIP net_10_0_0_0_24) = 4" "net_base net_10_0_0_0_24 = 167772160" by code_simp+
  have n: "NewSubnetIterator (Some net_10_0_0_0_24) 26 = Inr \<lparr>siIsIPv6 = False, siNetBitsTotal = 32, siPrefixSize = 26,
      siNetworkIPAsInt = 167772160, siSubnetIPCount = 64, siSubnetCount = 4, siNextIndex = 0\<rparr>" (is "_ = Inr ?it") by code_simp
  have f: "2 ^ nat (26 - int (net_ones net_10_0_0_0_24)) \<le> (10 :: nat)" by (simp add: o)
  have "map fst (map (\<lambda>s. (be_val (ipnIP s), ipnMask s)) (SubnetIterator_collect 10 ?it)) = [167772160, 167772224, 167772288, 167772352]"
    unfolding SubnetIterator_enumerates [OF h n f] o by (simp add: upt_rec)
  then show ?thesis using n by (auto simp: comp_def)
qed

definition advance_index :: "SubnetIterator \<Rightarrow> int \<Rightarrow> int" where
  "advance_index it v =
     (if 256 ^ siWidth it \<le> v + 1 then siSubnetCount it
      else if v + 1 < siNetworkIPAsInt it then siNextIndex it
      else min (siSubnetCount it) (max (siNextIndex it) ((v + 1 - siNetworkIPAsInt it) div siSubnetIPCount it)))"

lemma AdvancePastIP_conv:
  assumes "iter_ok it"
  shows "AdvancePastIP it e =
    (if ip_len e = siWidth it then Inr (it\<lparr>siNextIndex := advance_index it (int (ip_val e))\<rparr>)
     else Inl IteratorFamilyMismatch)"
proof -
  let ?e = "if siIsIPv6 it then (if To4 e = [] then To16 e else []) else To4 e"
  show ?thesis
  proof (cases "ip_len e = siWidth it")
    case True
    then have e: "?e = NormalizeIP e"
      by (auto simp: siWidth_def ip_len_eq_16_iff ip_len_eq_4_iff NormalizeIP_def split: if_splits)
    have v: "ip_len e \<noteq> 0" using True siWidth_cases [of it] by auto
    have lt: "256 ^ siWidth it \<le> int (ip_val e) + 1 \<longleftrightarrow> \<not> ip_val e + 1 < 256 ^ ip_len e"
      unfolding True [symmetric] by (metis linorder_not_less of_nat_1 of_nat_add of_nat_less_iff of_nat_numeral of_nat_power)
    have same: "it\<lparr>siNextIndex := siNextIndex it\<rparr> = it" by simp
    have "AdvancePastIP it e =
       (if ip_val e + 1 < 256 ^ ip_len e then
          let d = int (ip_val e + 1) - siNetworkIPAsInt it in
          if d < 0 then Inr it
          else Inr (it\<lparr>siNextIndex := min (siSubnetCount it) (max (siNextIndex it) (d div siSubnetIPCount it))\<rparr>)
        else Inr (it\<lparr>siNextIndex := siSubnetCount it\<rparr>))"
      unfolding AdvancePastIP_def e using v iter_okD(8,9) [OF assms]
      by (auto simp: Let_def NormalizeIP_eq_Nil_iff NextIP_conv ipToInt_def be_val_be_bytes min_def max_def)
    then show ?thesis using True lt same by (auto simp: advance_index_def Let_def add.commute)
  next
    case False
    have "?e = []"
      using False ip_len_eq_16_iff [of e] ip_len_eq_4_iff [of e] by (auto simp: siWidth_def To16_def split: if_splits)
    with False show ?thesis unfolding AdvancePastIP_def by simp
  qed
qed

lemma advance_index_bounds:
  "iter_ok it \<Longrightarrow> siNextIndex it \<le> advance_index it v \<and> advance_index it v \<le> siSubnetCount it"
  using iter_okD(9) [of it] by (auto simp: advance_index_def)

lemma AdvancePastIP_iter_ok: "iter_ok it \<Longrightarrow> AdvancePastIP it e = Inr it' \<Longrightarrow> iter_ok it'"
  using advance_index_bounds [of it "int (ip_val e)"] iter_okD(8) [of it]
  by (auto simp: AdvancePastIP_conv iter_ok_upd split: if_splits)

lemma advance_skipped_below:
  assumes "iter_ok it" "siNextIndex it \<le> j" "j < advance_index it v" "v < 256 ^ siWidth it"
  shows "prefix_first it j + siSubnetIPCount it \<le> v + 1"
proof (cases "256 ^ siWidth it \<le> v + 1")
  case True
  have "j < siSubnetCount it" using assms(3) advance_index_bounds [OF assms(1), of v] by linarith
  then show ?thesis using prefix_first_bounds(2) [OF assms(1), of j] iter_okD(8) [OF assms(1)] assms(2) True by linarith
next
  case False
  note c = iter_okD(10) [OF assms(1)]
  have "j + 1 \<le> (v + 1 - siNetworkIPAsInt it) div siSubnetIPCount it"
    using assms(2,3) False by (auto simp: advance_index_def split: if_splits)
  then show ?thesis using int_le_div_iff [OF c] by (simp add: prefix_first_def distrib_left)
qed

lemma advance_reached_above:
  assumes "iter_ok it" "advance_index it v < siSubnetCount it"
  shows "v + 1 < prefix_first it (advance_index it v) + siSubnetIPCount it"
proof -
  note c = iter_okD(10) [OF assms(1)]
  let ?t = "(v + 1 - siNetworkIPAsInt it) div siSubnetIPCount it"
  have nb: "\<not> 256 ^ siWidth it \<le> v + 1" using assms(2) by (auto simp: advance_index_def)
  show ?thesis
  proof (cases "v + 1 < siNetworkIPAsInt it")
    case True
    have "0 \<le> siSubnetIPCount it * siNextIndex it" using c iter_okD(8) [OF assms(1)] by simp
    then show ?thesis using True nb c by (simp add: advance_index_def prefix_first_def)
  next
    case False
    then have "?t \<le> advance_index it v" using assms(2) nb by (auto simp: advance_index_def)
    then have "?t < advance_index it v + 1" by simp
    then show ?thesis using int_div_less_iff [OF c, of "v + 1 - siNetworkIPAsInt it" "advance_index it v + 1"]
      by (simp add: prefix_first_def distrib_left)
  qed
qed

text \<open>\<open>AdvancePastIP\<close> skips exactly the prefixes that lie at or below the given address: the index
  never moves backwards or beyond the end, every address of a skipped prefix is at most \<open>e\<close>, and if the
  iterator is not exhausted the next prefix still contains an address above \<open>e\<close>.  It fails exactly on
  an address of the other family or an invalid one.\<close>

theorem AdvancePastIP_skips:
  assumes "wf_net n" "net_clear n" "NewSubnetIterator (Some n) p = Inr it0"
    "0 \<le> k" "k \<le> siSubnetCount it0" "it = it0\<lparr>siNextIndex := k\<rparr>" "AdvancePastIP it e = Inr it'"
  shows "k \<le> siNextIndex it' \<and> siNextIndex it' \<le> siSubnetCount it' \<and>
    (\<forall>j s ip. k \<le> j \<and> j < siNextIndex it' \<and> fst (SubnetIterator_Next (it\<lparr>siNextIndex := j\<rparr>)) = Some s \<and> IPNet_Contains s ip
       \<longrightarrow> Cmp ip e = - 1 \<or> Cmp ip e = 0) \<and>
    (\<forall>s. fst (SubnetIterator_Next it') = Some s \<longrightarrow> (\<exists>ip. IPNet_Contains s ip \<and> Cmp ip e = 1))"
proof -
  note it0 = NewSubnetIterator_wf [OF assms(1,3)]
  have ok: "iter_ok it" unfolding assms(6) by (rule iter_ok_upd [OF it0(1) assms(4,5)])
  define v where "v = int (ip_val e)"
  have e: "ip_len e = siWidth it0" and it': "it' = it0\<lparr>siNextIndex := advance_index it v\<rparr>"
    using assms(7) unfolding AdvancePastIP_conv [OF ok] v_def by (auto simp: assms(6) split: if_splits)
  have W: "ip_len e \<noteq> 0" using e siWidth_cases [of it0] by auto
  have vlt: "v < 256 ^ siWidth it" using ip_val_less [of e] unfolding v_def assms(6) by (simp flip: e)
  note b = advance_index_bounds [OF ok, of v]
  have skipped: "Cmp ip e = - 1 \<or> Cmp ip e = 0"
    if "k \<le> j" "j < advance_index it v" "IPNet_Contains (prefix_at it0 j) ip" for j ip
  proof -
    have "j < siSubnetCount it0" "0 \<le> j" using that(1,2) assms(4,6) b by auto
    with that(3) have "ip_len ip = siWidth it0" "int (ip_val ip) < prefix_first it0 j + siSubnetIPCount it0"
      by (simp_all add: prefix_at_Contains [OF assms(1-3)])
    moreover have "prefix_first it0 j + siSubnetIPCount it0 \<le> v + 1"
      using advance_skipped_below [OF ok _ that(2) vlt] that(1) by (simp add: assms(6))
    ultimately show ?thesis using e W by (auto simp: Cmp_iffs v_def)
  qed
  have reached: "\<exists>ip. IPNet_Contains (prefix_at it0 (advance_index it v)) ip \<and> Cmp ip e = 1"
    if lt: "advance_index it v < siSubnetCount it0"
  proof -
    let ?k = "advance_index it v"
    let ?x = "nat (prefix_first it0 ?k + siSubnetIPCount it0 - 1)" and ?n = "prefix_at it0 ?k"
    have k0: "0 \<le> ?k" using b assms(4) by (simp add: assms(6))
    note wf = prefix_at_wf_net [OF assms(1-3) k0 lt]
    have bs: "int (net_base ?n) = prefix_first it0 ?k" "int (net_size ?n) = siSubnetIPCount it0"
      using prefix_at_base [OF it0(1) k0 lt] prefix_at_size [OF it0(1)] by simp_all
    then have x: "?x = net_base ?n + net_size ?n - 1" "net_base ?n \<le> ?x" "?x < net_base ?n + net_size ?n"
      using net_size_pos [of ?n] by linarith+
    have len: "length (ipnIP ?n) = siWidth it0" by (simp add: prefix_at_def)
    have pl: "plain (siWidth it0) ?x" using net_clear_plain [OF wf x(2,3)] unfolding len .
    have "IPNet_Contains ?n (be_bytes (siWidth it0) ?x)" using net_contains_val(2) [OF wf x(2,3)] unfolding len .
    moreover have "v < int ?x" using advance_reached_above [OF ok, of v] lt by (simp add: assms(6))
    then have "ip_val e < ?x" unfolding v_def by (simp only: of_nat_less_iff)
    then have "Cmp (be_bytes (siWidth it0) ?x) e = 1" using pl e W by (simp add: Cmp_iffs)
    ultimately show ?thesis by blast
  qed
  show ?thesis
    using b reached assms(4) Next_at [OF it0(1)] by (auto simp: it' assms(6) split: if_splits dest: skipped [unfolded assms(6)])
qed

theorem AdvancePastIP_skips_witness:
  "\<exists>it it'. NewSubnetIterator (Some net_10_0_0_0_24) 26 = Inr it \<and> AdvancePastIP it [10, 0, 0, 130] = Inr it' \<and>
    siNextIndex it' = 2 \<and>
    (\<forall>s. fst (SubnetIterator_Next it') = Some s \<longrightarrow> (\<exists>ip. IPNet_Contains s ip \<and> Cmp ip [10, 0, 0, 130] = 1))"
proof -
  have h: "wf_net net_10_0_0_0_24" "net_clear net_10_0_0_0_24" by code_simp+
  have n: "NewSubnetIterator (Some net_10_0_0_0_24) 26 = Inr \<lparr>siIsIPv6 = False, siNetBitsTotal = 32, siPrefixSize = 26,
      siNetworkIPAsInt = 167772160, siSubnetIPCount = 64, siSubnetCount = 4, siNextIndex = 0\<rparr>" (is "_ = Inr ?it") by code_simp
  have a: "AdvancePastIP ?it [10, 0, 0, 130] = Inr (?it\<lparr>siNextIndex := 2\<rparr>)" by code_simp
  have k: "(0 :: int) \<le> 0" "0 \<le> siSubnetCount ?it" "?it = ?it\<lparr>siNextIndex := 0\<rparr>" by simp_all
  have i: "siNextIndex (?it\<lparr>siNextIndex := 2\<rparr>) = 2" by simp
  note t = AdvancePastIP_skips [OF h n k a]
  show ?thesis by (intro exI conjI, rule n, rule a, rule i) (use t in blast)
qed

text \<open>A subnet written in IPv4-mapped notation is accepted by \<open>net.ParseCIDR\<close> and its address counts
  as IPv4, but its mask is 16 bytes wide: \<open>IsBroadcast\<close> then reads a 32-bit value from the nil
  \<open>To4\<close> of the mask and panics for every address of the subnet, and \<open>LastIP\<close> decrements the fourth byte
  of the 16-byte form, which leaves the subnet.\<close>

theorem mapped_subnet_faults:
  "\<exists>ip n. ParseCIDR ''::ffff:10.0.0.0/120'' = Some (ip, n) \<and> To4 (ipnIP n) = [10, 0, 0, 0] \<and>
     IPNet_Contains n [10, 0, 0, 7] \<and> IsBroadcast [10, 0, 0, 7] (Some n) = None \<and> \<not> IPNet_Contains n (LastIP n)"
proof -
  let ?ip = "[0, 0, 0, 0, 0, 0, 0, 0, 0, 0, 255, 255, 10, 0, 0, 0] :: net_ip"
  let ?n = "\<lparr>ipnIP = ?ip, ipnMask = [255, 255, 255, 255, 255, 255, 255, 255, 255, 255, 255, 255, 255, 255, 255, 0]\<rparr>"
  have "ParseCIDR ''::ffff:10.0.0.0/120'' = Some (?ip, ?n)" by code_simp
  moreover have "To4 (ipnIP ?n) = [10, 0, 0, 0]" "IPNet_Contains ?n [10, 0, 0, 7]"
    "IsBroadcast [10, 0, 0, 7] (Some ?n) = None" "\<not> IPNet_Contains ?n (LastIP ?n)" by code_simp+
  ultimately show ?thesis by blast
qed

end
