(* ===== verification/Helpers.thy ===== *)
theory Helpers
  imports IpCidr
begin

text \<open>
  Package \<open>api/v1alpha1\<close>: the helpers on exclusions and gateways (\<open>helpers.go\<close>, \<open>common_type.go\<close>).  Exclusion ranges are
  pairs of address strings as in the API objects, index ranges pairs of \<open>int32\<close> values (on which the code does no
  32-bit arithmetic, so they are \<^typ>\<open>int\<close>).  \<open>sort.Slice\<close> is a stable sort; the theorems use only that its result
  is sorted and has the same elements.
\<close>

record ExcludeRange =
  erStartIP :: string
  erEndIP :: string

record ExcludeIndexRange =
  eiStartIndex :: int
  eiEndIndex :: int

record Route =
  rtDst :: string

subsection \<open>Sorting by a comparison\<close>

fun insert_by :: "('a \<Rightarrow> 'a \<Rightarrow> bool) \<Rightarrow> 'a \<Rightarrow> 'a list \<Rightarrow> 'a list" where
  "insert_by lt x [] = [x]"
| "insert_by lt x (y # ys) = (if lt y x then y # insert_by lt x ys else x # y # ys)"

definition sort_Slice :: "('a \<Rightarrow> 'a \<Rightarrow> bool) \<Rightarrow> 'a list \<Rightarrow> 'a list" where
  "sort_Slice lt xs = foldr (insert_by lt) xs []"

lemma set_insert_by [simp]: "set (insert_by lt x ys) = insert x (set ys)"
  by (induction ys) auto

lemma set_sort_Slice [simp]: "set (sort_Slice lt xs) = set xs"
proof -
  have "set (foldr (insert_by lt) xs ys) = set xs \<union> set ys" for ys
    by (induction xs) auto
  then show ?thesis by (simp add: sort_Slice_def)
qed

lemma insert_by_sorted:
  fixes f :: "'a \<Rightarrow> 'b :: linorder"
  assumes "\<forall>a \<in> insert x (set ys). \<forall>b \<in> insert x (set ys). lt a b \<longrightarrow> f a \<le> f b"
    "\<forall>a \<in> insert x (set ys). \<forall>b \<in> insert x (set ys). \<not> lt a b \<longrightarrow> f b \<le> f a" "sorted (map f ys)"
  shows "sorted (map f (insert_by lt x ys))"
  using assms
proof (induction ys)
  case (Cons y ys)
  show ?case
  proof (cases "lt y x")
    case True
    have "sorted (map f (insert_by lt x ys))" using Cons by (intro Cons.IH) auto
    moreover have "f y \<le> f z" if "z \<in> insert x (set ys)" for z using that Cons.prems True by auto
    ultimately show ?thesis using True by simp
  next
    case False
    then have "f x \<le> f y" using Cons.prems(2) by simp
    with False Cons.prems(3) show ?thesis by (auto intro: order_trans)
  qed
qed simp

lemma sort_Slice_sorted:
  fixes f :: "'a \<Rightarrow> 'b :: linorder"
  assumes "\<And>a b. a \<in> set xs \<Longrightarrow> b \<in> set xs \<Longrightarrow> lt a b \<Longrightarrow> f a \<le> f b"
    "\<And>a b. a \<in> set xs \<Longrightarrow> b \<in> set xs \<Longrightarrow> \<not> lt a b \<Longrightarrow> f b \<le> f a"
  shows "sorted (map f (sort_Slice lt xs))"
  using assms
proof (induction xs)
  case (Cons x xs)
  have "sorted (map f (sort_Slice lt xs))" using Cons by simp
  then have "sorted (map f (insert_by lt x (sort_Slice lt xs)))"
    using Cons.prems by (intro insert_by_sorted) auto
  then show ?case by (simp add: sort_Slice_def)
qed (simp add: sort_Slice_def)

subsection \<open>Definitions\<close>

definition GetPossibleIPCount :: "IPNet \<Rightarrow> int" where
  "GetPossibleIPCount subnet =
     (case Mask_Size (ipnMask subnet) of (setBits, bitsTotal) \<Rightarrow>
        if setBits = bitsTotal then 1
        else if setBits = bitsTotal - 1 then 2
        else
          let ipCount = 2 ^ nat (bitsTotal - setBits)
          in if To4 (ipnIP subnet) \<noteq> [] then ipCount - 2 else ipCount - 1)"

definition GetGatewayForSubnet :: "IPNet \<Rightarrow> int \<Rightarrow> string" where
  "GetGatewayForSubnet subnet index =
     (case Mask_Size (ipnMask subnet) of (setBits, bitsTotal) \<Rightarrow>
        let maxIndex = GetPossibleIPCount subnet
        in if \<not> bitsTotal - 1 \<le> setBits \<and> index = 0 then []
           else
             let maxIndex' = (if bitsTotal - 1 \<le> setBits then maxIndex - 1 else maxIndex)
             in if maxIndex' < index then []
                else (case NextIPWithOffset (ipnIP subnet) (Some index) of
                        Inl _ \<Rightarrow> []
                      | Inr gwIP \<Rightarrow> IP_String gwIP))"

fun index_range_to_range :: "net_ip \<Rightarrow> ExcludeIndexRange list \<Rightarrow> ExcludeRange list" where
  "index_range_to_range rangeStart [] = []"
| "index_range_to_range rangeStart (r # rs) =
     (case NextIPWithOffset rangeStart (Some (eiStartIndex r)) of
        Inl _ \<Rightarrow> index_range_to_range rangeStart rs
      | Inr st \<Rightarrow>
          (case NextIPWithOffset rangeStart (Some (eiEndIndex r)) of
             Inl _ \<Rightarrow> index_range_to_range rangeStart rs
           | Inr en \<Rightarrow> \<lparr>erStartIP = IP_String st, erEndIP = IP_String en\<rparr> # index_range_to_range rangeStart rs))"

definition ExcludeIndexRangeToExcludeRange :: "ExcludeIndexRange list \<Rightarrow> string \<Rightarrow> ExcludeRange list" where
  "ExcludeIndexRangeToExcludeRange excludeIndexRanges startIP =
     (if excludeIndexRanges = [] then []
      else if ParseIP startIP = [] then []
      else index_range_to_range (ParseIP startIP) excludeIndexRanges)"

definition index_range_less :: "ExcludeIndexRange \<Rightarrow> ExcludeIndexRange \<Rightarrow> bool" where
  "index_range_less a b =
     (if eiStartIndex a = eiStartIndex b then eiEndIndex a < eiEndIndex b else eiStartIndex a < eiStartIndex b)"

fun cover_loop :: "int \<Rightarrow> int \<Rightarrow> ExcludeIndexRange list \<Rightarrow> bool" where
  "cover_loop lastIndex coveredThrough [] = False"
| "cover_loop lastIndex coveredThrough (r # rs) =
     (if eiStartIndex r < 0 \<or> eiEndIndex r < eiStartIndex r then False
      else if coveredThrough + 1 < eiStartIndex r then False
      else
        let coveredThrough' = (if coveredThrough < eiEndIndex r then eiEndIndex r else coveredThrough)
        in if lastIndex \<le> coveredThrough' then True else cover_loop lastIndex coveredThrough' rs)"

definition ExcludeIndexRangesCover :: "ExcludeIndexRange list \<Rightarrow> int option \<Rightarrow> bool" where
  "ExcludeIndexRangesCover exclusions lastIndexPtr =
     (case lastIndexPtr of
        None \<Rightarrow> False
      | Some lastIndex \<Rightarrow>
          if lastIndex < 0 \<or> exclusions = [] then False
          else cover_loop lastIndex (- 1) (sort_Slice index_range_less exclusions))"

fun clamp_loop :: "net_ip \<Rightarrow> net_ip \<Rightarrow> ExcludeRange list \<Rightarrow> ExcludeRange list" where
  "clamp_loop rangeStart rangeEnd [] = []"
| "clamp_loop rangeStart rangeEnd (r # rs) =
     (let st = ParseIP (erStartIP r); en = ParseIP (erEndIP r)
      in if st = [] \<or> en = [] then clamp_loop rangeStart rangeEnd rs
         else if 0 < Cmp st rangeEnd \<or> Cmp en rangeStart < 0 then clamp_loop rangeStart rangeEnd rs
         else
           let st' = (if Cmp st rangeStart < 0 then rangeStart else st);
               en' = (if 0 < Cmp en rangeEnd then rangeEnd else en)
           in \<lparr>erStartIP = IP_String st', erEndIP = IP_String en'\<rparr> # clamp_loop rangeStart rangeEnd rs)"

definition ClampExcludeRanges :: "ExcludeRange list \<Rightarrow> string \<Rightarrow> string \<Rightarrow> ExcludeRange list" where
  "ClampExcludeRanges excludeRanges startIP endIP =
     (if excludeRanges = [] then []
      else
        let rangeStart = ParseIP startIP; rangeEnd = ParseIP endIP
        in if rangeStart = [] \<or> rangeEnd = [] then [] else clamp_loop rangeStart rangeEnd excludeRanges)"

definition parse_ranges :: "ExcludeRange list \<Rightarrow> (net_ip \<times> net_ip) list" where
  "parse_ranges rs =
     filter (\<lambda>(st, en). \<not> (st = [] \<or> en = [])) (map (\<lambda>r. (ParseIP (erStartIP r), ParseIP (erEndIP r))) rs)"

fun merge_loop :: "net_ip \<times> net_ip \<Rightarrow> (net_ip \<times> net_ip) list \<Rightarrow> (net_ip \<times> net_ip) list" where
  "merge_loop current [] = [current]"
| "merge_loop current (next # rs) =
     (if 0 \<le> Cmp (snd current) (fst next) \<or> Cmp (NextIP (snd current)) (fst next) = 0
      then merge_loop (if Cmp (snd current) (snd next) < 0 then (fst current, snd next) else current) rs
      else current # merge_loop next rs)"

definition MergeExcludeRanges :: "ExcludeRange list \<Rightarrow> ExcludeRange list" where
  "MergeExcludeRanges excludeRanges =
     (case sort_Slice (\<lambda>a b. Cmp (fst a) (fst b) < 0) (parse_ranges excludeRanges) of
        [] \<Rightarrow> []
      | current # rest \<Rightarrow> map (\<lambda>(st, en). \<lparr>erStartIP = IP_String st, erEndIP = IP_String en\<rparr>) (merge_loop current rest))"

definition ExcludeRange_Contains :: "ExcludeRange \<Rightarrow> net_ip \<Rightarrow> bool" where
  "ExcludeRange_Contains er ipp =
     (if ipp = [] then False
      else
        let st = ParseIP (erStartIP er); en = ParseIP (erEndIP er)
        in if st = [] \<or> en = [] then False else Cmp st ipp \<le> 0 \<and> 0 \<le> Cmp en ipp)"

subsection \<open>Exclusion ranges as intervals\<close>

definition er_ok :: "nat \<Rightarrow> ExcludeRange \<Rightarrow> bool" where
  "er_ok L er \<longleftrightarrow> L \<noteq> 0 \<and> ip_len (ParseIP (erStartIP er)) = L \<and> ip_len (ParseIP (erEndIP er)) = L \<and>
     ip_val (ParseIP (erStartIP er)) \<le> ip_val (ParseIP (erEndIP er))"

abbreviation er_lo :: "ExcludeRange \<Rightarrow> nat" where "er_lo er \<equiv> ip_val (ParseIP (erStartIP er))"
abbreviation er_hi :: "ExcludeRange \<Rightarrow> nat" where "er_hi er \<equiv> ip_val (ParseIP (erEndIP er))"

lemma NormalizeIP_To16 [simp]: "NormalizeIP (To16 ip) = NormalizeIP ip"
  by (simp add: NormalizeIP_def)

lemma ip_len_To16 [simp]: "ip_len (To16 ip) = ip_len ip" and ip_val_To16 [simp]: "ip_val (To16 ip) = ip_val ip"
  by (simp_all add: ip_len_def ip_val_def)

lemma ip_len_Nil [simp]: "ip_len [] = 0"
  by (simp add: ip_len_def)

lemma ParseIP_IP_String_len:
  assumes "ip_len ip \<noteq> 0"
  shows "ip_len (ParseIP (IP_String ip)) = ip_len ip" "ip_val (ParseIP (IP_String ip)) = ip_val ip"
  using net_text.parse_print [OF iffD1 [OF ip_len_width assms]] by simp_all

lemma ExcludeRange_Contains_iff:
  assumes "er_ok L er"
  shows "ExcludeRange_Contains er x \<longleftrightarrow> ip_len x = L \<and> er_lo er \<le> ip_val x \<and> ip_val x \<le> er_hi er"
proof -
  have "ParseIP (erStartIP er) \<noteq> []" "ParseIP (erEndIP er) \<noteq> []" using assms by (auto simp: er_ok_def)
  with assms show ?thesis by (auto simp: ExcludeRange_Contains_def er_ok_def Cmp_conv sgn_if Let_def)
qed

subsection \<open>Index exclusions\<close>

definition index_covered :: "ExcludeIndexRange list \<Rightarrow> int \<Rightarrow> bool" where
  "index_covered rs i \<longleftrightarrow> (\<exists>r \<in> set rs. eiStartIndex r \<le> i \<and> i \<le> eiEndIndex r)"

lemma cover_loop_sound:
  "cover_loop lastI c rs \<Longrightarrow> c < i \<Longrightarrow> i \<le> lastI \<Longrightarrow> index_covered rs i"
proof (induction rs arbitrary: c)
  case Nil
  then show ?case by simp
next
  case (Cons r rs)
  show ?case
  proof (cases "i \<le> eiEndIndex r")
    case True
    then show ?thesis using Cons.prems by (auto simp: index_covered_def Let_def split: if_splits)
  next
    case False
    then have "cover_loop lastI (max c (eiEndIndex r)) rs"
      using Cons.prems by (auto simp: Let_def max_def split: if_splits)
    from Cons.IH [OF this] False Cons.prems show ?thesis by (auto simp: index_covered_def)
  qed
qed

lemma cover_loop_complete:
  "sorted (map eiStartIndex rs) \<Longrightarrow> \<forall>r \<in> set rs. 0 \<le> eiStartIndex r \<and> eiStartIndex r \<le> eiEndIndex r \<Longrightarrow>
   c < lastI \<Longrightarrow> (\<And>i. c < i \<Longrightarrow> i \<le> lastI \<Longrightarrow> index_covered rs i) \<Longrightarrow> cover_loop lastI c rs"
proof (induction rs arbitrary: c)
  case Nil
  from Nil.prems(3) Nil.prems(4) [of lastI] show ?case by (simp add: index_covered_def)
next
  case (Cons r rs)
  have first: "eiStartIndex r \<le> c + 1"
  proof -
    obtain q where "q \<in> set (r # rs)" "eiStartIndex q \<le> c + 1"
      using Cons.prems(4) [of "c + 1"] Cons.prems(3) by (auto simp: index_covered_def)
    moreover have "eiStartIndex r \<le> eiStartIndex q" if "q \<in> set (r # rs)" for q using that Cons.prems(1) by auto
    ultimately show ?thesis by force
  qed
  have "cover_loop lastI (max c (eiEndIndex r)) rs" if "max c (eiEndIndex r) < lastI"
    using Cons.prems that
  proof (intro Cons.IH)
    fix i
    assume i: "max c (eiEndIndex r) < i" "i \<le> lastI"
    then show "index_covered rs i" using Cons.prems(4) [of i] by (auto simp: index_covered_def)
  qed auto
  with first Cons.prems(2) show ?case by (auto simp: Let_def max_def)
qed

lemma ExcludeIndexRangesCover_iff_law:
  assumes "0 \<le> lastI" "\<forall>r \<in> set rs. 0 \<le> eiStartIndex r \<and> eiStartIndex r \<le> eiEndIndex r"
  shows "ExcludeIndexRangesCover rs (Some lastI) \<longleftrightarrow> (\<forall>i. 0 \<le> i \<and> i \<le> lastI \<longrightarrow> index_covered rs i)"
proof -
  let ?s = "sort_Slice index_range_less rs"
  have same: "index_covered ?s i \<longleftrightarrow> index_covered rs i" for i by (simp add: index_covered_def)
  have "sorted (map eiStartIndex ?s)"
    by (rule sort_Slice_sorted) (auto simp: index_range_less_def split: if_splits)
  then have "cover_loop lastI (- 1) ?s" if "\<forall>i. 0 \<le> i \<and> i \<le> lastI \<longrightarrow> index_covered rs i"
    using that assms same by (intro cover_loop_complete) auto
  moreover have "index_covered rs i" if "cover_loop lastI (- 1) ?s" "0 \<le> i" "i \<le> lastI" for i
    using cover_loop_sound [OF that(1)] that(2,3) same by simp
  moreover have "\<not> index_covered [] 0" by (simp add: index_covered_def)
  ultimately show ?thesis using assms(1) by (auto simp: ExcludeIndexRangesCover_def)
qed

text \<open>\<open>ExcludeIndexRangesCover\<close> decides coverage: on well-formed index ranges it answers true exactly when every
  index from zero to the last one lies in some range.\<close>

theorem ExcludeIndexRangesCover_iff:
  assumes "0 \<le> lastI" "\<forall>r \<in> set rs. 0 \<le> eiStartIndex r \<and> eiStartIndex r \<le> eiEndIndex r"
  shows "ExcludeIndexRangesCover rs (Some lastI) \<longleftrightarrow> (\<forall>i. 0 \<le> i \<and> i \<le> lastI \<longrightarrow> index_covered rs i)"
  by (rule ExcludeIndexRangesCover_iff_law [OF assms])

theorem ExcludeIndexRangesCover_iff_witness:
  "ExcludeIndexRangesCover [\<lparr>eiStartIndex = 3, eiEndIndex = 5\<rparr>, \<lparr>eiStartIndex = 0, eiEndIndex = 2\<rparr>] (Some 5) \<and>
   index_covered [\<lparr>eiStartIndex = 3, eiEndIndex = 5\<rparr>, \<lparr>eiStartIndex = 0, eiEndIndex = 2\<rparr>] 4"
proof -
  let ?rs = "[\<lparr>eiStartIndex = 3, eiEndIndex = 5\<rparr>, \<lparr>eiStartIndex = 0, eiEndIndex = 2\<rparr>]"
  have h: "\<forall>r \<in> set ?rs. 0 \<le> eiStartIndex r \<and> eiStartIndex r \<le> eiEndIndex r" by simp
  have c: "ExcludeIndexRangesCover ?rs (Some 5)" by code_simp
  show ?thesis using ExcludeIndexRangesCover_iff [OF _ h, of 5] c by simp
qed

lemma index_range_to_range_contains:
  assumes "ip_len st = L" "L \<noteq> 0"
    "\<forall>r \<in> set rs. 0 \<le> eiStartIndex r \<and> eiStartIndex r \<le> eiEndIndex r \<and> plain L (ip_val st + nat (eiStartIndex r)) \<and>
       plain L (ip_val st + nat (eiEndIndex r))"
  shows "(\<exists>er \<in> set (index_range_to_range st rs). ExcludeRange_Contains er x) \<longleftrightarrow>
    ip_len x = L \<and> ip_val st \<le> ip_val x \<and> index_covered rs (int (ip_val x) - int (ip_val st))"
  using assms(3)
proof (induction rs)
  case Nil
  show ?case by (simp add: index_covered_def)
next
  case (Cons r rs)
  let ?a = "be_bytes L (ip_val st + nat (eiStartIndex r))" and ?b = "be_bytes L (ip_val st + nat (eiEndIndex r))"
  let ?er = "\<lparr>erStartIP = IP_String ?a, erEndIP = IP_String ?b\<rparr>"
  have p: "plain L (ip_val st + nat (eiStartIndex r))" "plain L (ip_val st + nat (eiEndIndex r))"
    "0 \<le> eiStartIndex r" "eiStartIndex r \<le> eiEndIndex r" using Cons.prems by auto
  have "NextIPWithOffset st (Some (eiStartIndex r)) = Inr ?a" "NextIPWithOffset st (Some (eiEndIndex r)) = Inr ?b"
    using p assms(1,2) by (simp_all add: NextIPWithOffset_conv plain_def)
  then have e: "index_range_to_range st (r # rs) = ?er # index_range_to_range st rs" by simp
  have l: "ip_len ?a \<noteq> 0" "ip_len ?b \<noteq> 0" using p assms(2) by simp_all
  have v: "ip_len (ParseIP (erStartIP ?er)) = L" "ip_len (ParseIP (erEndIP ?er)) = L"
    "er_lo ?er = ip_val st + nat (eiStartIndex r)" "er_hi ?er = ip_val st + nat (eiEndIndex r)"
    using ParseIP_IP_String_len [OF l(1)] ParseIP_IP_String_len [OF l(2)] p by simp_all
  then have ok: "er_ok L ?er" using p assms(2) unfolding er_ok_def by simp
  have "ExcludeRange_Contains ?er x \<longleftrightarrow> ip_len x = L \<and> ip_val st \<le> ip_val x \<and>
      eiStartIndex r \<le> int (ip_val x) - int (ip_val st) \<and> int (ip_val x) - int (ip_val st) \<le> eiEndIndex r"
    unfolding ExcludeRange_Contains_iff [OF ok] v using p(3,4) by (auto simp: le_nat_iff nat_le_iff)
  with Cons show ?case unfolding e by (auto simp: index_covered_def)
qed

lemma ExcludeIndexRangeToExcludeRange_contains_law:
  assumes "ParseIP startIP \<noteq> []" "st = ParseIP startIP"
    "\<forall>r \<in> set rs. 0 \<le> eiStartIndex r \<and> eiStartIndex r \<le> eiEndIndex r \<and> plain (ip_len st) (ip_val st + nat (eiStartIndex r)) \<and>
       plain (ip_len st) (ip_val st + nat (eiEndIndex r))"
  shows "(\<exists>er \<in> set (ExcludeIndexRangeToExcludeRange rs startIP). ExcludeRange_Contains er x) \<longleftrightarrow>
    (case Distance st x of Inl _ \<Rightarrow> False | Inr d \<Rightarrow> index_covered rs d)"
proof -
  have l: "ip_len st \<noteq> 0" using assms(1,2) net_text.parse_length [of startIP] ip_len_width [of st] by auto
  have neg: "index_covered rs d \<Longrightarrow> 0 \<le> d" for d using assms(3) by (force simp: index_covered_def)
  have "(\<exists>er \<in> set (ExcludeIndexRangeToExcludeRange rs startIP). ExcludeRange_Contains er x) \<longleftrightarrow>
      ip_len x = ip_len st \<and> ip_val st \<le> ip_val x \<and> index_covered rs (int (ip_val x) - int (ip_val st))"
    using index_range_to_range_contains [OF refl l assms(3), of x] assms(1,2)
    by (cases "rs = []") (auto simp: ExcludeIndexRangeToExcludeRange_def index_covered_def)
  also have "\<dots> \<longleftrightarrow> (case Distance st x of Inl _ \<Rightarrow> False | Inr d \<Rightarrow> index_covered rs d)"
    using l by (auto simp: Distance_conv)
  finally show ?thesis .
qed

text \<open>Converting index exclusions to address exclusions excludes exactly the addresses whose offset from the start
  address lies in one of the index ranges, as long as the offsets stay inside the address family.\<close>

theorem ExcludeIndexRangeToExcludeRange_contains:
  assumes "ParseIP startIP \<noteq> []" "st = ParseIP startIP"
    "\<forall>r \<in> set rs. 0 \<le> eiStartIndex r \<and> eiStartIndex r \<le> eiEndIndex r \<and> plain (ip_len st) (ip_val st + nat (eiStartIndex r)) \<and>
       plain (ip_len st) (ip_val st + nat (eiEndIndex r))"
  shows "(\<exists>er \<in> set (ExcludeIndexRangeToExcludeRange rs startIP). ExcludeRange_Contains er x) \<longleftrightarrow>
    (case Distance st x of Inl _ \<Rightarrow> False | Inr d \<Rightarrow> index_covered rs d)"
  by (rule ExcludeIndexRangeToExcludeRange_contains_law [OF assms])

theorem ExcludeIndexRangeToExcludeRange_contains_witness:
  "\<exists>er \<in> set (ExcludeIndexRangeToExcludeRange [\<lparr>eiStartIndex = 3, eiEndIndex = 5\<rparr>] ''10.0.0.1''). ExcludeRange_Contains er [10, 0, 0, 5]"
proof -
  let ?rs = "[\<lparr>eiStartIndex = 3, eiEndIndex = 5\<rparr>]" and ?st = "ParseIP ''10.0.0.1''"
  have p: "?st \<noteq> []" by code_simp
  have h: "\<forall>r \<in> set ?rs. 0 \<le> eiStartIndex r \<and> eiStartIndex r \<le> eiEndIndex r \<and> plain (ip_len ?st) (ip_val ?st + nat (eiStartIndex r)) \<and>
       plain (ip_len ?st) (ip_val ?st + nat (eiEndIndex r))" by code_simp
  have d: "Distance ?st [10, 0, 0, 5] = Inr 4" by code_simp
  show ?thesis using ExcludeIndexRangeToExcludeRange_contains [OF p refl h, of "[10, 0, 0, 5]"] d by (simp add: index_covered_def)
qed

subsection \<open>Clamping and merging\<close>

text \<open>A pair of parsed addresses as an interval.\<close>

definition iv_ok :: "nat \<Rightarrow> net_ip \<times> net_ip \<Rightarrow> bool" where
  "iv_ok L p \<longleftrightarrow> L \<noteq> 0 \<and> ip_len (fst p) = L \<and> ip_len (snd p) = L \<and> ip_val (fst p) \<le> ip_val (snd p)"

definition iv_has :: "net_ip \<times> net_ip \<Rightarrow> nat \<Rightarrow> bool" where
  "iv_has p v \<longleftrightarrow> ip_val (fst p) \<le> v \<and> v \<le> ip_val (snd p)"

definition iv_range :: "net_ip \<times> net_ip \<Rightarrow> ExcludeRange" where
  "iv_range p = \<lparr>erStartIP = IP_String (fst p), erEndIP = IP_String (snd p)\<rparr>"

lemma iv_range_ok:
  assumes "iv_ok L p"
  shows "er_ok L (iv_range p)" "er_lo (iv_range p) = ip_val (fst p)" "er_hi (iv_range p) = ip_val (snd p)"
proof -
  have l: "ip_len (fst p) \<noteq> 0" "ip_len (snd p) \<noteq> 0" using assms by (auto simp: iv_ok_def)
  show "er_lo (iv_range p) = ip_val (fst p)" "er_hi (iv_range p) = ip_val (snd p)"
    using ParseIP_IP_String_len(2) [OF l(1)] ParseIP_IP_String_len(2) [OF l(2)] by (simp_all add: iv_range_def)
  then show "er_ok L (iv_range p)"
    using ParseIP_IP_String_len [OF l(1)] ParseIP_IP_String_len [OF l(2)] assms
    by (simp add: er_ok_def iv_ok_def iv_range_def)
qed

lemma iv_range_contains: "iv_ok L p \<Longrightarrow> ExcludeRange_Contains (iv_range p) x \<longleftrightarrow> ip_len x = L \<and> iv_has p (ip_val x)"
  using iv_range_ok [of L p] by (simp add: ExcludeRange_Contains_iff iv_has_def)

lemma clamp_loop_contains:
  assumes "iv_ok L (a, b)"
  shows "\<forall>er \<in> set rs. er_ok L er \<Longrightarrow>
    (\<forall>er \<in> set (clamp_loop a b rs). er_ok L er) \<and>
    ((\<exists>er \<in> set (clamp_loop a b rs). ExcludeRange_Contains er x) \<longleftrightarrow>
     (\<exists>er \<in> set rs. ExcludeRange_Contains er x) \<and> iv_has (a, b) (ip_val x))"
proof (induction rs)
  case Nil
  show ?case by simp
next
  case (Cons r rs)
  let ?s = "ParseIP (erStartIP r)" and ?e = "ParseIP (erEndIP r)"
  have r: "er_ok L r" using Cons.prems by simp
  then have ne: "?s \<noteq> []" "?e \<noteq> []" and l: "ip_len ?s = L" "ip_len ?e = L" "L \<noteq> 0" "er_lo r \<le> er_hi r" by (auto simp: er_ok_def)
  have ab: "ip_len a = L" "ip_len b = L" "ip_val a \<le> ip_val b" using assms by (simp_all add: iv_ok_def)
  have skip: "0 < Cmp ?s b \<or> Cmp ?e a < 0 \<longleftrightarrow> ip_val b < er_lo r \<or> er_hi r < ip_val a"
    using l ab by (auto simp: Cmp_conv sgn_if)
  note c = ExcludeRange_Contains_iff [OF r, of x]
  show ?case
  proof (cases "ip_val b < er_lo r \<or> er_hi r < ip_val a")
    case True
    then have "clamp_loop a b (r # rs) = clamp_loop a b rs" using ne skip by simp
    with True Cons c show ?thesis by (auto simp: iv_has_def)
  next
    case False
    let ?p = "(if Cmp ?s a < 0 then a else ?s, if 0 < Cmp ?e b then b else ?e)"
    have e: "clamp_loop a b (r # rs) = iv_range ?p # clamp_loop a b rs"
      using ne skip False by (simp add: iv_range_def)
    have p: "iv_ok L ?p" "iv_has ?p v \<longleftrightarrow> er_lo r \<le> v \<and> v \<le> er_hi r \<and> iv_has (a, b) v" for v
      using l ab False by (auto simp: iv_ok_def iv_has_def Cmp_conv sgn_if)
    show ?thesis
      using Cons c iv_range_ok(1) [OF p(1)] iv_range_contains [OF p(1), of x] p(2) [of "ip_val x"] unfolding e by auto
  qed
qed

lemma ClampExcludeRanges_contains_law:
  assumes "er_ok L \<lparr>erStartIP = startIP, erEndIP = endIP\<rparr>" "\<forall>er \<in> set rs. er_ok L er"
  shows "(\<forall>er \<in> set (ClampExcludeRanges rs startIP endIP). er_ok L er) \<and>
    ((\<exists>er \<in> set (ClampExcludeRanges rs startIP endIP). ExcludeRange_Contains er x) \<longleftrightarrow>
     (\<exists>er \<in> set rs. ExcludeRange_Contains er x) \<and> ExcludeRange_Contains \<lparr>erStartIP = startIP, erEndIP = endIP\<rparr> x)"
proof -
  have ok: "iv_ok L (ParseIP startIP, ParseIP endIP)" using assms(1) by (simp add: er_ok_def iv_ok_def)
  have "ParseIP startIP \<noteq> []" "ParseIP endIP \<noteq> []" using assms(1) by (auto simp: er_ok_def)
  then have e: "ClampExcludeRanges rs startIP endIP = clamp_loop (ParseIP startIP) (ParseIP endIP) rs"
    by (cases "rs = []") (simp_all add: ClampExcludeRanges_def Let_def)
  have "ip_len x = L" if "er \<in> set rs" "ExcludeRange_Contains er x" for er
    using that assms(2) ExcludeRange_Contains_iff by blast
  with clamp_loop_contains [OF ok assms(2), of x] show ?thesis
    unfolding e ExcludeRange_Contains_iff [OF assms(1)] by (auto simp: iv_has_def)
qed

text \<open>\<open>ClampExcludeRanges\<close> restricts exclusions to an address range: the result excludes exactly the addresses
  that the given ranges exclude and that lie between the start and the end address, and consists of ranges with
  start not above end.\<close>

theorem ClampExcludeRanges_contains:
  assumes "er_ok L \<lparr>erStartIP = startIP, erEndIP = endIP\<rparr>" "\<forall>er \<in> set rs. er_ok L er"
  shows "(\<forall>er \<in> set (ClampExcludeRanges rs startIP endIP). er_ok L er) \<and>
    ((\<exists>er \<in> set (ClampExcludeRanges rs startIP endIP). ExcludeRange_Contains er x) \<longleftrightarrow>
     (\<exists>er \<in> set rs. ExcludeRange_Contains er x) \<and> ExcludeRange_Contains \<lparr>erStartIP = startIP, erEndIP = endIP\<rparr> x)"
  by (rule ClampExcludeRanges_contains_law [OF assms])

theorem ClampExcludeRanges_contains_witness:
  "ClampExcludeRanges [\<lparr>erStartIP = ''10.0.0.1'', erEndIP = ''10.0.0.7''\<rparr>] ''10.0.0.5'' ''10.0.0.9'' =
     [\<lparr>erStartIP = ''10.0.0.5'', erEndIP = ''10.0.0.7''\<rparr>] \<and>
   list_all (er_ok 4) (ClampExcludeRanges [\<lparr>erStartIP = ''10.0.0.1'', erEndIP = ''10.0.0.7''\<rparr>] ''10.0.0.5'' ''10.0.0.9'')"
proof -
  let ?rs = "[\<lparr>erStartIP = ''10.0.0.1'', erEndIP = ''10.0.0.7''\<rparr>]"
  have h: "er_ok 4 \<lparr>erStartIP = ''10.0.0.5'', erEndIP = ''10.0.0.9''\<rparr>" "\<forall>er \<in> set ?rs. er_ok 4 er" by code_simp+
  have c: "ClampExcludeRanges ?rs ''10.0.0.5'' ''10.0.0.9'' = [\<lparr>erStartIP = ''10.0.0.5'', erEndIP = ''10.0.0.7''\<rparr>]" by code_simp
  show ?thesis using ClampExcludeRanges_contains [OF h] c unfolding list_all_iff by blast
qed

lemma Cmp_NextIP_eq:
  assumes "ip_len b = L" "ip_len a = L" "L \<noteq> 0"
  shows "Cmp (NextIP b) a = 0 \<longleftrightarrow> ip_val b + 1 = ip_val a"
proof
  assume eq: "ip_val b + 1 = ip_val a"
  then have "plain L (ip_val b + 1)" "ip_val b + 1 < 256 ^ L" using ip_plain [of a] ip_val_less [of a] assms by auto
  then show "Cmp (NextIP b) a = 0" using assms eq by (simp add: NextIP_conv Cmp_iffs)
next
  assume c: "Cmp (NextIP b) a = 0"
  then have len: "ip_len (NextIP b) = L" "ip_val (NextIP b) = ip_val a" using assms by (simp_all add: Cmp_iffs)
  have nx: "NextIP b = be_bytes L (ip_val b + 1)" "ip_val b + 1 < 256 ^ L"
    using len(1) assms by (auto simp: NextIP_conv split: if_splits)
  have "plain L (ip_val b + 1)"
  proof (rule ccontr)
    assume np: "\<not> plain L (ip_val b + 1)"
    then have "L = 16" using nx(2) ip_len_4_16 [of b] assms by (auto simp: plain_def)
    with np nx have "ip_len (NextIP b) = 4" using NormalizeIP_not_plain [of "ip_val b + 1"] by (simp add: ip_len_def)
    with len(1) \<open>L = 16\<close> show False by simp
  qed
  with nx len(2) show "ip_val b + 1 = ip_val a" by simp
qed

lemma merge_loop_props:
  "iv_ok L cur \<Longrightarrow> \<forall>p \<in> set rest. iv_ok L p \<Longrightarrow> sorted (map (\<lambda>p. ip_val (fst p)) (cur # rest)) \<Longrightarrow>
   (\<forall>p \<in> set (merge_loop cur rest). iv_ok L p \<and> ip_val (fst cur) \<le> ip_val (fst p)) \<and>
   sorted_wrt (\<lambda>p q. ip_val (snd p) + 1 < ip_val (fst q)) (merge_loop cur rest) \<and>
   (\<forall>v. (\<exists>p \<in> set (merge_loop cur rest). iv_has p v) \<longleftrightarrow> (\<exists>p \<in> set (cur # rest). iv_has p v))"
proof (induction rest arbitrary: cur)
  case Nil
  then show ?case by simp
next
  case (Cons nx rest)
  have ok: "iv_ok L nx" and le: "ip_val (fst cur) \<le> ip_val (fst nx)" using Cons.prems by simp_all
  have joins: "0 \<le> Cmp (snd cur) (fst nx) \<or> Cmp (NextIP (snd cur)) (fst nx) = 0 \<longleftrightarrow> ip_val (fst nx) \<le> ip_val (snd cur) + 1"
    using Cons.prems(1) ok Cmp_NextIP_eq [of "snd cur" L "fst nx"] by (auto simp: iv_ok_def Cmp_iffs)
  show ?case
  proof (cases "ip_val (fst nx) \<le> ip_val (snd cur) + 1")
    case True
    let ?c = "if Cmp (snd cur) (snd nx) < 0 then (fst cur, snd nx) else cur"
    have lt: "Cmp (snd cur) (snd nx) < 0 \<longleftrightarrow> ip_val (snd cur) < ip_val (snd nx)"
      using Cons.prems(1) ok by (auto simp: iv_ok_def Cmp_conv sgn_if)
    have c: "iv_ok L ?c" "fst ?c = fst cur" and has: "iv_has ?c v \<longleftrightarrow> iv_has cur v \<or> iv_has nx v" for v
      using Cons.prems(1) ok le True by (auto simp: iv_ok_def iv_has_def lt)
    have "sorted (map (\<lambda>p. ip_val (fst p)) (cur # rest))" using Cons.prems(3) by simp
    then have s: "sorted (map (\<lambda>p. ip_val (fst p)) (?c # rest))" using c(2) by (simp del: split_paired_All)
    have e: "merge_loop cur (nx # rest) = merge_loop ?c rest" using joins True by simp
    show ?thesis using Cons.IH [OF c(1) _ s] Cons.prems(2) has c(2) unfolding e by simp
  next
    case False
    have e: "merge_loop cur (nx # rest) = cur # merge_loop nx rest" using joins False by simp
    have s: "sorted (map (\<lambda>p. ip_val (fst p)) (nx # rest))" using Cons.prems(3) by simp
    note IH = Cons.IH [OF ok _ s]
    have "ip_val (snd cur) + 1 < ip_val (fst p)" if "p \<in> set (merge_loop nx rest)" for p
      using IH Cons.prems(2) that False by force
    with IH Cons.prems(1,2) le show ?thesis unfolding e by force
  qed
qed

lemma MergeExcludeRanges_normal_form_law:
  assumes "\<forall>er \<in> set rs. er_ok L er"
  shows "(\<forall>er \<in> set (MergeExcludeRanges rs). er_ok L er) \<and>
    sorted_wrt (\<lambda>er er'. er_hi er + 1 < er_lo er') (MergeExcludeRanges rs) \<and>
    ((\<exists>er \<in> set (MergeExcludeRanges rs). ExcludeRange_Contains er x) \<longleftrightarrow> (\<exists>er \<in> set rs. ExcludeRange_Contains er x))"
proof -
  let ?lt = "\<lambda>a b. Cmp (fst a) (fst b) < 0" and ?ps = "parse_ranges rs"
  have ps: "?ps = map (\<lambda>r. (ParseIP (erStartIP r), ParseIP (erEndIP r))) rs"
    unfolding parse_ranges_def using assms by (intro filter_True) (auto simp: er_ok_def)
  have ok: "\<forall>p \<in> set ?ps. iv_ok L p" using assms unfolding ps by (auto simp: iv_ok_def er_ok_def)
  have srt: "sorted (map (\<lambda>p. ip_val (fst p)) (sort_Slice ?lt ?ps))"
    by (rule sort_Slice_sorted) (use ok in \<open>auto simp: iv_ok_def Cmp_conv sgn_if split: if_splits\<close>)
  have has: "(\<exists>er \<in> set rs. ExcludeRange_Contains er x) \<longleftrightarrow> ip_len x = L \<and> (\<exists>p \<in> set (sort_Slice ?lt ?ps). iv_has p (ip_val x))"
    using assms unfolding set_sort_Slice by (force simp: ps iv_has_def ExcludeRange_Contains_iff)
  show ?thesis
  proof (cases "sort_Slice ?lt ?ps")
    case Nil
    then have "?ps = []" using set_sort_Slice [of ?lt ?ps] by simp
    then have "rs = []" by (simp add: ps)
    with Nil show ?thesis by (simp add: MergeExcludeRanges_def)
  next
    case (Cons cur rest)
    have okc: "iv_ok L cur" "\<forall>p \<in> set rest. iv_ok L p" using ok set_sort_Slice [of ?lt ?ps] Cons by auto
    note m = merge_loop_props [OF okc srt [unfolded Cons]]
    have e: "MergeExcludeRanges rs = map iv_range (merge_loop cur rest)"
      by (simp add: MergeExcludeRanges_def Cons iv_range_def case_prod_unfold)
    have okm: "iv_ok L p" if "p \<in> set (merge_loop cur rest)" for p using m that by blast
    have "sorted_wrt (\<lambda>er er'. er_hi er + 1 < er_lo er') (MergeExcludeRanges rs)"
      unfolding e sorted_wrt_map
      by (rule sorted_wrt_mono_rel [of _ "\<lambda>p q. ip_val (snd p) + 1 < ip_val (fst q)"])
        (use m in \<open>simp_all add: iv_range_ok(2,3) [OF okm]\<close>)
    moreover have "\<forall>er \<in> set (MergeExcludeRanges rs). er_ok L er" unfolding e using okm iv_range_ok(1) by auto
    moreover have "(\<exists>er \<in> set (MergeExcludeRanges rs). ExcludeRange_Contains er x) \<longleftrightarrow>
        ip_len x = L \<and> (\<exists>p \<in> set (merge_loop cur rest). iv_has p (ip_val x))"
      unfolding e using iv_range_contains [OF okm] by auto
    ultimately show ?thesis unfolding has Cons using m by blast
  qed
qed

text \<open>C30: \<open>MergeExcludeRanges\<close> is a normal form: on valid ranges of one family, in any order, the result excludes exactly
  the same addresses, in ascending ranges with at least one address between each range and the next, so that none of
  them overlap or touch.\<close>

theorem MergeExcludeRanges_normal_form:
  assumes "\<forall>er \<in> set rs. er_ok L er"
  shows "(\<forall>er \<in> set (MergeExcludeRanges rs). er_ok L er) \<and>
    sorted_wrt (\<lambda>er er'. er_hi er + 1 < er_lo er') (MergeExcludeRanges rs) \<and>
    ((\<exists>er \<in> set (MergeExcludeRanges rs). ExcludeRange_Contains er x) \<longleftrightarrow> (\<exists>er \<in> set rs. ExcludeRange_Contains er x))"
  by (rule MergeExcludeRanges_normal_form_law [OF assms])

theorem MergeExcludeRanges_normal_form_witness:
  "MergeExcludeRanges [\<lparr>erStartIP = ''10.0.0.8'', erEndIP = ''10.0.0.9''\<rparr>, \<lparr>erStartIP = ''10.0.0.1'', erEndIP = ''10.0.0.4''\<rparr>,
      \<lparr>erStartIP = ''10.0.0.5'', erEndIP = ''10.0.0.5''\<rparr>] =
     [\<lparr>erStartIP = ''10.0.0.1'', erEndIP = ''10.0.0.5''\<rparr>, \<lparr>erStartIP = ''10.0.0.8'', erEndIP = ''10.0.0.9''\<rparr>] \<and>
   list_all (er_ok 4) (MergeExcludeRanges [\<lparr>erStartIP = ''10.0.0.8'', erEndIP = ''10.0.0.9''\<rparr>, \<lparr>erStartIP = ''10.0.0.1'', erEndIP = ''10.0.0.4''\<rparr>,
      \<lparr>erStartIP = ''10.0.0.5'', erEndIP = ''10.0.0.5''\<rparr>])"
proof -
  let ?rs = "[\<lparr>erStartIP = ''10.0.0.8'', erEndIP = ''10.0.0.9''\<rparr>, \<lparr>erStartIP = ''10.0.0.1'', erEndIP = ''10.0.0.4''\<rparr>,
      \<lparr>erStartIP = ''10.0.0.5'', erEndIP = ''10.0.0.5''\<rparr>]"
  have h: "\<forall>er \<in> set ?rs. er_ok 4 er" by code_simp
  have c: "MergeExcludeRanges ?rs =
     [\<lparr>erStartIP = ''10.0.0.1'', erEndIP = ''10.0.0.5''\<rparr>, \<lparr>erStartIP = ''10.0.0.8'', erEndIP = ''10.0.0.9''\<rparr>]" by code_simp
  show ?thesis using MergeExcludeRanges_normal_form [OF h] c unfolding list_all_iff by blast
qed

subsection \<open>Gateways\<close>

lemma GetPossibleIPCount_wf:
  assumes "wf_net n"
  shows "GetPossibleIPCount n = (if net_size n \<le> 2 then int (net_size n)
    else if length (ipnIP n) = 4 then int (net_size n) - 2 else int (net_size n) - 1)"
proof -
  let ?B = "8 * length (ipnIP n)"
  have o: "net_ones n \<le> ?B" by (rule wf_netD(2) [OF assms])
  have s: "IsSingleIPSubnet n \<longleftrightarrow> int (net_ones n) = int ?B" "IsPointToPointSubnet n \<longleftrightarrow> int (net_ones n) = int ?B - 1"
    by (simp_all add: IsSingleIPSubnet_def IsPointToPointSubnet_def wf_net_Size [OF assms])
  have v4: "To4 (ipnIP n) \<noteq> [] \<longleftrightarrow> length (ipnIP n) = 4" using wf_netD(1) [OF assms] by auto
  have "2 ^ nat (int ?B - int (net_ones n)) = int (net_size n)" by (simp add: net_size_def nat_diff_distrib o flip: of_nat_diff)
  then show ?thesis
    using IsSingle_wf [OF assms] IsPointToPoint_wf [OF assms] s net_size_pos [of n]
    by (auto simp: GetPossibleIPCount_def wf_net_Size [OF assms] v4 simp del: net_size_pos)
qed

text \<open>The indexes that yield a gateway: not the network address and not the broadcast address, except in networks of one
  or two addresses.\<close>

definition gateway_index_ok :: "IPNet \<Rightarrow> int \<Rightarrow> bool" where
  "gateway_index_ok n i \<longleftrightarrow>
     (if net_size n \<le> 2 then 0 \<le> i \<and> i < int (net_size n) else 0 < i \<and> i \<le> GetPossibleIPCount n)"

lemma GetGatewayForSubnet_conv:
  assumes "wf_net n"
  shows "GetGatewayForSubnet n i = (if gateway_index_ok n i then IP_String (be_bytes (length (ipnIP n)) (net_base n + nat i)) else [])"
proof -
  let ?L = "length (ipnIP n)"
  have small: "8 * int ?L - 1 \<le> int (net_ones n) \<longleftrightarrow> net_size n \<le> 2"
  proof -
    have "net_size n \<le> 2 \<longleftrightarrow> 8 * ?L - net_ones n \<le> 1"
      unfolding net_size_def using power_increasing_iff [of "2 :: nat" "8 * ?L - net_ones n" 1] by simp
    then show ?thesis using wf_netD(2) [OF assms] by linarith
  qed
  have l: "ip_len (ipnIP n) = ?L" "?L \<noteq> 0" "ip_val (ipnIP n) = net_base n"
    using wf_net_ip_len [OF assms] wf_net_width [OF assms] wf_net_ip_val [OF assms] by auto
  have cnt: "GetPossibleIPCount n < int (net_size n) \<or> net_size n \<le> 2" "net_size n \<le> 2 \<Longrightarrow> GetPossibleIPCount n = int (net_size n)"
    using GetPossibleIPCount_wf [OF assms] by auto
  have off: "NextIPWithOffset (ipnIP n) (Some i) = Inr (be_bytes ?L (net_base n + nat i))" if "0 \<le> i" "i < int (net_size n)"
  proof -
    have "net_base n + nat i < 256 ^ ?L" using net_end_le [OF assms] that by linarith
    then show ?thesis using that l by (simp add: NextIPWithOffset_conv)
  qed
  have neg: "\<exists>e. NextIPWithOffset (ipnIP n) (Some i) = Inl e" if "i < 0" using that by (simp add: NextIPWithOffset_def)
  show ?thesis
  proof (cases "0 \<le> i \<and> i < int (net_size n)")
    case True
    with cnt off show ?thesis
      by (auto simp: GetGatewayForSubnet_def wf_net_Size [OF assms] small gateway_index_ok_def Let_def)
  next
    case False
    with cnt neg show ?thesis
      by (force simp: GetGatewayForSubnet_def wf_net_Size [OF assms] small gateway_index_ok_def Let_def)
  qed
qed



end
