(* ===== verification/ApiTypes.thy ===== *)
theory ApiTypes
  imports Helpers
begin

text \<open>
  Package \<open>api/v1alpha1\<close>: the API objects \<open>IPPool\<close> (\<open>ippool_type.go\<close>) and \<open>CIDRPool\<close> (\<open>cidrpool_type.go\<close>) with
  their specifications and statuses.  Of the Kubernetes object metadata the program reads the name and the namespace.
  A \<open>corev1.NodeSelector\<close> is the plain data of the Kubernetes API; whether it matches a node is decided outside this
  repository and is a parameter wherever it is asked.  A nil pointer is \<^const>\<open>None\<close>; \<open>int32\<close> and \<open>int\<close> fields are
  \<^typ>\<open>int\<close> with the conversions of the code written out.
\<close>

subsection \<open>Node selectors\<close>

record NodeSelectorRequirement =
  nrKey :: string
  nrOperator :: string
  nrValues :: "string list"

record NodeSelectorTerm =
  ntMatchExpressions :: "NodeSelectorRequirement list"
  ntMatchFields :: "NodeSelectorRequirement list"

type_synonym NodeSelector = "NodeSelectorTerm list"

subsection \<open>IPPool\<close>

record Allocation =
  alNodeName :: string
  alStartIP :: string
  alEndIP :: string

record IPPoolSpec =
  ipSubnet :: string
  ipPerNodeBlockSize :: int
  ipExclusions :: "ExcludeRange list"
  ipPerNodeExclusions :: "ExcludeIndexRange list"
  ipGateway :: string
  ipNodeSelector :: "NodeSelector option"
  ipDefaultGateway :: bool
  ipRoutes :: "Route list"

record IPPoolStatus =
  ipAllocations :: "Allocation list"

record IPPool =
  ipName :: string
  ipNamespace :: string
  ipSpec :: IPPoolSpec
  ipStatus :: IPPoolStatus

subsection \<open>CIDRPool\<close>

record CIDRPoolStaticAllocation =
  csNodeName :: string
  csGateway :: string
  csPrefix :: string

record CIDRPoolAllocation =
  caNodeName :: string
  caGateway :: string
  caPrefix :: string

record CIDRPoolSpec =
  cpCIDR :: string
  cpGatewayIndex :: "int option"
  cpPerNodeNetworkPrefix :: int
  cpExclusions :: "ExcludeRange list"
  cpPerNodeExclusions :: "ExcludeIndexRange list"
  cpStaticAllocations :: "CIDRPoolStaticAllocation list"
  cpNodeSelector :: "NodeSelector option"
  cpDefaultGateway :: bool
  cpRoutes :: "Route list"

record CIDRPoolStatus =
  cpAllocations :: "CIDRPoolAllocation list"

record CIDRPool =
  cpName :: string
  cpNamespace :: string
  cpSpec :: CIDRPoolSpec
  cpStatus :: CIDRPoolStatus

subsection \<open>Strings\<close>

text \<open>Go compares strings byte by byte.\<close>

fun str_less :: "string \<Rightarrow> string \<Rightarrow> bool" where
  "str_less _ [] = False"
| "str_less [] (_ # _) = True"
| "str_less (a # as) (b # bs) =
     (let x = of_char a :: nat; y = of_char b in if x = y then str_less as bs else x < y)"

end
