(* ===== verification/PoolAllocator.thy ===== *)
theory PoolAllocator
  imports ApiTypes
begin

text \<open>
  Package \<open>pkg/ipam-controller/allocator\<close> (\<open>allocator.go\<close>): the allocator that splits the subnet of an \<open>IPPool\<close>
  into blocks of \<open>perNodeBlockSize\<close> addresses and gives each node one of them.  The state is the record
  \<open>PoolAllocator\<close> with the fields of the Go struct; a function that may panic (a nil subnet, or a subnet in
  IPv4-mapped notation in \<open>ip.IsBroadcast\<close>) returns \<^const>\<open>None\<close> for the panic.  The search loop takes fuel, which the
  theorems show to be enough as soon as it exceeds the number of addresses of the subnet.  \<open>ctx.Err()\<close> is the
  parameter \<open>ctxErr\<close>, asked once per iteration with the fuel that is left.
\<close>

subsection \<open>Definitions\<close>

datatype alloc_error =
    BlockSizeNotPositive
  | ErrNoFreeRanges
  | CtxErr string
  | SkipExcludedFailed ip_error
  | OutOfTheSubnet
  | StartAfterEnd
  | OffsetFailed ip_error
  | InvalidStartIPOffset
  | SizeFailed ip_error
  | IPCountMismatch
  | GatewayAllocated
  | EntireRangeExcluded
  | RangeOverlaps

record AllocatedRange =
  arStartIP :: net_ip
  arEndIP :: net_ip

record AllocationConfig =
  acPoolName :: string
  acSubnet :: "IPNet option"
  acGateway :: net_ip
  acPerNodeBlockSize :: int
  acNodeSelector :: "NodeSelector option"
  acExcludeRanges :: "ExcludeRange list"
  acPerNodeExclusions :: "ExcludeIndexRange list"

record PoolAllocator =
  paCfg :: AllocationConfig
  paAllocations :: "string \<rightharpoonup> AllocatedRange"
  paStartIps :: "string set"
  paLastAllocatedStartIP :: net_ip

definition newPoolAllocator :: "AllocationConfig \<Rightarrow> PoolAllocator" where
  "newPoolAllocator cfg =
     \<lparr>paCfg = cfg, paAllocations = Map.empty, paStartIps = {}, paLastAllocatedStartIP = []\<rparr>"

definition canUseNetworkAddress :: "PoolAllocator \<Rightarrow> bool option" where
  "canUseNetworkAddress pa =
     (case acSubnet (paCfg pa) of
        None \<Rightarrow> None
      | Some subnet \<Rightarrow> Some (IsPointToPointSubnet subnet \<or> IsSingleIPSubnet subnet))"

definition getFirstStartIP :: "PoolAllocator \<Rightarrow> net_ip option" where
  "getFirstStartIP pa =
     (case acSubnet (paCfg pa) of
        None \<Rightarrow> None
      | Some subnet \<Rightarrow>
          (case canUseNetworkAddress pa of
             None \<Rightarrow> None
           | Some use \<Rightarrow> Some (if use then ipnIP subnet else NextIP (ipnIP subnet))))"

definition nextIPWithOffsetOrNil :: "net_ip \<Rightarrow> int \<Rightarrow> net_ip" where
  "nextIPWithOffsetOrNil address offset =
     (case NextIPWithOffset address (Some offset) of Inl _ \<Rightarrow> [] | Inr nextIP \<Rightarrow> nextIP)"

definition allocationValid :: "PoolAllocator \<Rightarrow> net_ip \<Rightarrow> net_ip \<Rightarrow> bool option" where
  "allocationValid pa startIP endIP =
     (if startIP = [] \<or> endIP = [] then Some False
      else
        (case acSubnet (paCfg pa) of
           None \<Rightarrow> None
         | Some subnet \<Rightarrow>
             if \<not> IPNet_Contains subnet endIP then Some False
             else map_option Not (IsBroadcast endIP (Some subnet))))"

definition isEntireRangeExcluded :: "PoolAllocator \<Rightarrow> AllocatedRange \<Rightarrow> bool" where
  "isEntireRangeExcluded pa allocRange =
     (let fromPerNode = ExcludeIndexRangeToExcludeRange (acPerNodeExclusions (paCfg pa)) (IP_String (arStartIP allocRange));
          allExcludeRanges = acExcludeRanges (paCfg pa) @ fromPerNode;
          clamped = ClampExcludeRanges allExcludeRanges (IP_String (arStartIP allocRange)) (IP_String (arEndIP allocRange))
      in case MergeExcludeRanges clamped of
           [] \<Rightarrow> False
         | [er] \<Rightarrow>
             let excludeStart = ParseIP (erStartIP er); excludeEnd = ParseIP (erEndIP er)
             in if excludeStart = [] \<or> excludeEnd = [] then False
                else Cmp excludeStart (arStartIP allocRange) \<le> 0 \<and> 0 \<le> Cmp excludeEnd (arEndIP allocRange)
         | _ # _ # _ \<Rightarrow> False)"

text \<open>The loop of \<open>getNextNonExcludedCandidates\<close> over the merged ranges: it returns from the first one that contains
  both candidates.\<close>

fun skip_loop :: "int \<Rightarrow> net_ip \<Rightarrow> net_ip \<Rightarrow> ExcludeRange list \<Rightarrow> ip_error + net_ip \<times> net_ip" where
  "skip_loop blockSize nextStartIP nextEndIP [] = Inr (nextStartIP, nextEndIP)"
| "skip_loop blockSize nextStartIP nextEndIP (er # ers) =
     (if \<not> ExcludeRange_Contains er nextStartIP \<or> \<not> ExcludeRange_Contains er nextEndIP
      then skip_loop blockSize nextStartIP nextEndIP ers
      else
        let nextFreeIP = NextIP (ParseIP (erEndIP er))
        in if nextFreeIP = [] then Inr ([], [])
           else
             (case Distance nextStartIP nextFreeIP of
                Inl e \<Rightarrow> Inl e
              | Inr distance \<Rightarrow>
                  let ipsToSkip = (distance div blockSize) * blockSize
                  in (case NextIPWithOffset nextStartIP (Some ipsToSkip) of
                        Inl e \<Rightarrow> Inl e
                      | Inr next \<Rightarrow> Inr (next, nextIPWithOffsetOrNil next (blockSize - 1)))))"

definition getNextNonExcludedCandidates :: "PoolAllocator \<Rightarrow> net_ip \<Rightarrow> net_ip \<Rightarrow> ip_error + net_ip \<times> net_ip" where
  "getNextNonExcludedCandidates pa currentStartIP currentEndIP =
     (if currentStartIP = [] \<or> currentEndIP = [] then Inr ([], [])
      else
        let nextStartIP = NextIP currentEndIP;
            nextEndIP = nextIPWithOffsetOrNil nextStartIP (acPerNodeBlockSize (paCfg pa) - 1)
        in if nextStartIP = [] \<or> nextEndIP = [] then Inr ([], [])
           else skip_loop (acPerNodeBlockSize (paCfg pa)) nextStartIP nextEndIP
                  (MergeExcludeRanges (acExcludeRanges (paCfg pa))))"

text \<open>The search loop of \<open>AllocateFromPool\<close>; it returns the candidate at which it stopped, valid or not.\<close>

fun allocate_loop ::
    "nat \<Rightarrow> (nat \<Rightarrow> string option) \<Rightarrow> PoolAllocator \<Rightarrow> net_ip \<Rightarrow> net_ip \<Rightarrow> (alloc_error + net_ip \<times> net_ip) option" where
  "allocate_loop 0 ctxErr pa startIP endIP = None"
| "allocate_loop (Suc fuel) ctxErr pa startIP endIP =
     (case allocationValid pa startIP endIP of
        None \<Rightarrow> None
      | Some False \<Rightarrow> Some (Inr (startIP, endIP))
      | Some True \<Rightarrow>
          (case ctxErr fuel of
             Some e \<Rightarrow> Some (Inl (CtxErr e))
           | None \<Rightarrow>
               let lastBlockIndex = acPerNodeBlockSize (paCfg pa) - 1;
                   startIP' = NextIP endIP;
                   endIP' = nextIPWithOffsetOrNil startIP' lastBlockIndex
               in if IP_String startIP \<in> paStartIps pa then allocate_loop fuel ctxErr pa startIP' endIP'
                  else if isEntireRangeExcluded pa \<lparr>arStartIP = startIP, arEndIP = endIP\<rparr> then
                    (case getNextNonExcludedCandidates pa startIP endIP of
                       Inl e \<Rightarrow> Some (Inl (SkipExcludedFailed e))
                     | Inr (st, en) \<Rightarrow> allocate_loop fuel ctxErr pa st en)
                  else if acPerNodeBlockSize (paCfg pa) = 1 \<and> acGateway (paCfg pa) \<noteq> [] \<and>
                          IP_Equal startIP (acGateway (paCfg pa))
                  then allocate_loop fuel ctxErr pa startIP' endIP'
                  else Some (Inr (startIP, endIP))))"

declare allocate_loop.simps(2) [simp del]

definition AllocateFromPool ::
    "nat \<Rightarrow> (nat \<Rightarrow> string option) \<Rightarrow> PoolAllocator \<Rightarrow> string \<Rightarrow> ((alloc_error + AllocatedRange) \<times> PoolAllocator) option" where
  "AllocateFromPool fuel ctxErr pa node =
     (case paAllocations pa node of
        Some existingAlloc \<Rightarrow> Some (Inr existingAlloc, pa)
      | None \<Rightarrow>
          let blockSize = acPerNodeBlockSize (paCfg pa); lastBlockIndex = blockSize - 1
          in if blockSize \<le> 0 then Some (Inl BlockSizeNotPositive, pa)
             else if ExcludeIndexRangesCover (acPerNodeExclusions (paCfg pa)) (Some lastBlockIndex)
             then Some (Inl ErrNoFreeRanges, pa)
             else
               (case (if paLastAllocatedStartIP pa = [] then getFirstStartIP pa
                      else Some (nextIPWithOffsetOrNil (paLastAllocatedStartIP pa) blockSize)) of
                  None \<Rightarrow> None
                | Some startIP \<Rightarrow>
                    (case allocate_loop fuel ctxErr pa startIP (nextIPWithOffsetOrNil startIP lastBlockIndex) of
                       None \<Rightarrow> None
                     | Some (Inl e) \<Rightarrow> Some (Inl e, pa)
                     | Some (Inr (st, en)) \<Rightarrow>
                         (case allocationValid pa st en of
                            None \<Rightarrow> None
                          | Some False \<Rightarrow> Some (Inl ErrNoFreeRanges, pa)
                          | Some True \<Rightarrow>
                              let a = \<lparr>arStartIP = st, arEndIP = en\<rparr>
                              in Some (Inr a, pa\<lparr>paAllocations := (paAllocations pa)(node \<mapsto> a),
                                                 paStartIps := insert (IP_String st) (paStartIps pa),
                                                 paLastAllocatedStartIP := st\<rparr>)))))"

definition checkAllocation :: "PoolAllocator \<Rightarrow> AllocatedRange \<Rightarrow> alloc_error option option" where
  "checkAllocation pa allocRange =
     (let cfg = paCfg pa; blockSize = acPerNodeBlockSize cfg
      in if blockSize \<le> 0 then Some (Some BlockSizeNotPositive)
         else
           (case acSubnet cfg of
              None \<Rightarrow> None
            | Some subnet \<Rightarrow>
                if \<not> IPNet_Contains subnet (arStartIP allocRange) \<or> \<not> IPNet_Contains subnet (arEndIP allocRange)
                then Some (Some OutOfTheSubnet)
                else if Cmp (arEndIP allocRange) (arStartIP allocRange) < 0 then Some (Some StartAfterEnd)
                else
                  (case Distance (ipnIP subnet) (arStartIP allocRange) of
                     Inl e \<Rightarrow> Some (Some (OffsetFailed e))
                   | Inr distanceFromNetworkStart \<Rightarrow>
                       (case canUseNetworkAddress pa of
                          None \<Rightarrow> None
                        | Some use \<Rightarrow>
                            if use \<and> distanceFromNetworkStart mod blockSize \<noteq> 0 then Some (Some InvalidStartIPOffset)
                            else if \<not> use \<and> (distanceFromNetworkStart < 1 \<or> (distanceFromNetworkStart - 1) mod blockSize \<noteq> 0)
                            then Some (Some InvalidStartIPOffset)
                            else
                              (case Distance (arStartIP allocRange) (arEndIP allocRange) of
                                 Inl e \<Rightarrow> Some (Some (SizeFailed e))
                               | Inr allocationSize \<Rightarrow>
                                   if allocationSize \<noteq> blockSize - 1 then Some (Some IPCountMismatch)
                                   else if blockSize = 1 \<and> acGateway cfg \<noteq> [] \<and>
                                           IP_Equal (arStartIP allocRange) (acGateway cfg)
                                   then Some (Some GatewayAllocated)
                                   else if isEntireRangeExcluded pa allocRange then Some (Some EntireRangeExcluded)
                                   else Some None)))))"

definition load :: "PoolAllocator \<Rightarrow> string \<Rightarrow> AllocatedRange \<Rightarrow> (alloc_error option \<times> PoolAllocator) option" where
  "load pa nodeName allocRange =
     (case checkAllocation pa allocRange of
        None \<Rightarrow> None
      | Some (Some e) \<Rightarrow> Some (Some e, pa)
      | Some None \<Rightarrow>
          if IP_String (arStartIP allocRange) \<in> paStartIps pa then Some (Some RangeOverlaps, pa)
          else Some (None, pa\<lparr>paAllocations := (paAllocations pa)(nodeName \<mapsto> allocRange),
                             paStartIps := insert (IP_String (arStartIP allocRange)) (paStartIps pa)\<rparr>))"

text \<open>The loop of \<open>CreatePoolAllocatorFromIPPool\<close> over the allocations of the pool status.\<close>

fun load_status :: "string set \<Rightarrow> Allocation list \<Rightarrow> PoolAllocator \<Rightarrow> PoolAllocator option" where
  "load_status nodes [] pa = Some pa"
| "load_status nodes (alloc # allocs) pa =
     (if alNodeName alloc \<notin> nodes then load_status nodes allocs pa
      else
        let nodeAllocStart = ParseIP (alStartIP alloc); nodeAllocEnd = ParseIP (alEndIP alloc)
        in if nodeAllocStart = [] \<or> nodeAllocEnd = [] then load_status nodes allocs pa
           else
             (case load pa (alNodeName alloc) \<lparr>arStartIP = nodeAllocStart, arEndIP = nodeAllocEnd\<rparr> of
                None \<Rightarrow> None
              | Some (_, pa') \<Rightarrow> load_status nodes allocs pa'))"

definition ippool_config :: "IPPool \<Rightarrow> AllocationConfig" where
  "ippool_config p =
     (let spec = ipSpec p
      in \<lparr>acPoolName = ipName p, acSubnet = map_option snd (ParseCIDR (ipSubnet spec)),
          acGateway = ParseIP (ipGateway spec), acPerNodeBlockSize = ipPerNodeBlockSize spec,
          acNodeSelector = ipNodeSelector spec, acExcludeRanges = ipExclusions spec,
          acPerNodeExclusions = ipPerNodeExclusions spec\<rparr>)"

definition CreatePoolAllocatorFromIPPool :: "IPPool \<Rightarrow> string set \<Rightarrow> PoolAllocator option" where
  "CreatePoolAllocatorFromIPPool p nodes =
     load_status nodes (ipAllocations (ipStatus p)) (newPoolAllocator (ippool_config p))"

subsection \<open>Excluded blocks\<close>

text \<open>The laws of \<open>ExcludeRange\<close> lists in terms of the excluded address values.\<close>

definition ers_val :: "ExcludeRange list \<Rightarrow> nat \<Rightarrow> bool" where
  "ers_val ers v \<longleftrightarrow> (\<exists>er \<in> set ers. er_lo er \<le> v \<and> v \<le> er_hi er)"

lemma ers_contains_iff:
  assumes "\<forall>er \<in> set ers. er_ok L er"
  shows "(\<exists>er \<in> set ers. ExcludeRange_Contains er x) \<longleftrightarrow> ip_len x = L \<and> ers_val ers (ip_val x)"
proof -
  have "ExcludeRange_Contains er x \<longleftrightarrow> ip_len x = L \<and> er_lo er \<le> ip_val x \<and> ip_val x \<le> er_hi er" if "er \<in> set ers" for er
    by (rule ExcludeRange_Contains_iff) (use assms that in blast)
  then show ?thesis by (auto simp: ers_val_def)
qed

lemma ers_val_append [simp]: "ers_val (xs @ ys) v \<longleftrightarrow> ers_val xs v \<or> ers_val ys v"
  by (auto simp: ers_val_def)

text \<open>In a list of ranges with gaps between them, an interval is covered exactly when a single range covers it.\<close>

lemma gapped_cover:
  assumes gap: "sorted_wrt (\<lambda>er er'. er_hi er + 1 < er_lo er') ms"
    and cov: "\<And>v. a \<le> v \<Longrightarrow> v \<le> b \<Longrightarrow> ers_val ms v" and "a \<le> b"
  shows "\<exists>er \<in> set ms. er_lo er \<le> a \<and> b \<le> er_hi er"
proof -
  obtain er where er: "er \<in> set ms" "er_lo er \<le> a" "a \<le> er_hi er" using cov [of a] \<open>a \<le> b\<close> by (auto simp: ers_val_def)
  have "b \<le> er_hi er"
  proof (rule ccontr)
    assume "\<not> b \<le> er_hi er"
    then obtain er' where er': "er' \<in> set ms" "er_lo er' \<le> er_hi er + 1" "er_hi er + 1 \<le> er_hi er'"
      using cov [of "er_hi er + 1"] er by (auto simp: ers_val_def)
    from gap er(1) er'(1) have "er = er' \<or> er_hi er + 1 < er_lo er' \<or> er_hi er' + 1 < er_lo er"
      by (metis in_set_conv_nth linorder_neqE_nat sorted_wrt_iff_nth_less)
    with er er' show False by auto
  qed
  with er show ?thesis by blast
qed

lemma gapped_same:
  assumes "sorted_wrt (\<lambda>er er'. er_hi er + 1 < er_lo er') (m # ms)" "er' \<in> set ms"
  shows "er_hi m + 1 < er_lo er'"
  using assms by simp

text \<open>The addresses of a block that are excluded, by an address range or by a per-node index range.\<close>

definition excluded_at :: "AllocationConfig \<Rightarrow> nat \<Rightarrow> nat \<Rightarrow> bool" where
  "excluded_at cfg s v \<longleftrightarrow> ers_val (acExcludeRanges cfg) v \<or> index_covered (acPerNodeExclusions cfg) (int v - int s)"

lemma index_ranges_conv:
  assumes "ip_len st \<noteq> 0" "ip_len st = L"
    "\<forall>r \<in> set rs. 0 \<le> eiStartIndex r \<and> eiStartIndex r \<le> eiEndIndex r \<and> plain L (ip_val st + nat (eiStartIndex r)) \<and>
       plain L (ip_val st + nat (eiEndIndex r))"
  defines "ers \<equiv> ExcludeIndexRangeToExcludeRange rs (IP_String st)"
  shows "\<forall>er \<in> set ers. er_ok L er"
    and "ers_val ers v \<longleftrightarrow> ip_val st \<le> v \<and> index_covered rs (int v - int (ip_val st))"
proof -
  note p = ParseIP_IP_String_len [OF assms(1)]
  have ne: "ParseIP (IP_String st) \<noteq> []" using p(1) assms(1) by auto
  have "(\<forall>er \<in> set (index_range_to_range (ParseIP (IP_String st)) rs). er_ok L er) \<and>
     (ers_val (index_range_to_range (ParseIP (IP_String st)) rs) v \<longleftrightarrow> ip_val st \<le> v \<and> index_covered rs (int v - int (ip_val st)))"
    using assms(3)
  proof (induction rs)
    case Nil
    show ?case by (simp add: ers_val_def index_covered_def)
  next
    case (Cons r rs)
    let ?p = "(be_bytes L (ip_val st + nat (eiStartIndex r)), be_bytes L (ip_val st + nat (eiEndIndex r)))"
    have r: "plain L (ip_val st + nat (eiStartIndex r))" "plain L (ip_val st + nat (eiEndIndex r))"
      "0 \<le> eiStartIndex r" "eiStartIndex r \<le> eiEndIndex r" using Cons.prems by auto
    have ok: "iv_ok L ?p" using r plain_not_0 [OF r(1)] by (simp add: iv_ok_def)
    have e: "index_range_to_range (ParseIP (IP_String st)) (r # rs) = iv_range ?p # index_range_to_range (ParseIP (IP_String st)) rs"
      using r p assms(1,2) by (simp add: NextIPWithOffset_conv plain_def iv_range_def)
    have "er_lo (iv_range ?p) \<le> v \<and> v \<le> er_hi (iv_range ?p) \<longleftrightarrow>
        ip_val st \<le> v \<and> eiStartIndex r \<le> int v - int (ip_val st) \<and> int v - int (ip_val st) \<le> eiEndIndex r"
      unfolding iv_range_ok(2,3) [OF ok] using r by auto
    with Cons iv_range_ok(1) [OF ok] show ?case unfolding e by (auto simp: ers_val_def index_covered_def)
  qed
  then show "\<forall>er \<in> set ers. er_ok L er" "ers_val ers v \<longleftrightarrow> ip_val st \<le> v \<and> index_covered rs (int v - int (ip_val st))"
    using ne by (cases "rs = []"; simp add: ers_def ExcludeIndexRangeToExcludeRange_def ers_val_def index_covered_def)+
qed

lemma merged_clamped:
  assumes "ip_len st = L" "ip_len en = L" "L \<noteq> 0" "ip_val st \<le> ip_val en" "\<forall>er \<in> set rs. er_ok L er"
  defines "ms \<equiv> MergeExcludeRanges (ClampExcludeRanges rs (IP_String st) (IP_String en))"
  shows "\<forall>er \<in> set ms. er_ok L er" "sorted_wrt (\<lambda>er er'. er_hi er + 1 < er_lo er') ms"
    "plain L v \<Longrightarrow> ers_val ms v \<longleftrightarrow> ers_val rs v \<and> ip_val st \<le> v \<and> v \<le> ip_val en"
proof -
  let ?b = "\<lparr>erStartIP = IP_String st, erEndIP = IP_String en\<rparr>"
  let ?c = "ClampExcludeRanges rs (IP_String st) (IP_String en)"
  have b: "er_ok L ?b" and bv: "er_lo ?b = ip_val st" "er_hi ?b = ip_val en"
    using iv_range_ok [of L "(st, en)"] assms by (simp_all add: iv_ok_def iv_range_def)
  note c = ClampExcludeRanges_contains_law [OF b assms(5)]
  note cok = conjunct1 [OF c]
  note m = MergeExcludeRanges_normal_form_law [OF cok, folded ms_def]
  show mok: "\<forall>er \<in> set ms. er_ok L er" by (rule conjunct1 [OF m])
  show "sorted_wrt (\<lambda>er er'. er_hi er + 1 < er_lo er') ms" by (rule conjunct1 [OF conjunct2 [OF m]])
  show "ers_val ms v \<longleftrightarrow> ers_val rs v \<and> ip_val st \<le> v \<and> v \<le> ip_val en" if p: "plain L v"
  proof -
    let ?x = "be_bytes L v"
    have "(\<exists>er \<in> set ms. ExcludeRange_Contains er ?x) \<longleftrightarrow> (\<exists>er \<in> set rs. ExcludeRange_Contains er ?x) \<and> ExcludeRange_Contains ?b ?x"
      using conjunct2 [OF conjunct2 [OF m], of ?x] conjunct2 [OF c, of ?x] by (simp only:)
    then show ?thesis using p
      unfolding ers_contains_iff [OF mok] ers_contains_iff [OF assms(5)] ExcludeRange_Contains_iff [OF b] bv by simp
  qed
qed

lemma isEntireRangeExcluded_conv:
  assumes r: "ip_len (arStartIP r) = L" "ip_len (arEndIP r) = L" "L \<noteq> 0" "ip_val (arStartIP r) \<le> ip_val (arEndIP r)"
    and ex: "\<forall>er \<in> set (acExcludeRanges (paCfg pa)). er_ok L er"
    and ix: "\<forall>x \<in> set (acPerNodeExclusions (paCfg pa)). 0 \<le> eiStartIndex x \<and> eiStartIndex x \<le> eiEndIndex x \<and>
      plain L (ip_val (arStartIP r) + nat (eiStartIndex x)) \<and> plain L (ip_val (arStartIP r) + nat (eiEndIndex x))"
    and pl: "\<And>v. ip_val (arStartIP r) \<le> v \<Longrightarrow> v \<le> ip_val (arEndIP r) \<Longrightarrow> plain L v"
  shows "isEntireRangeExcluded pa r \<longleftrightarrow>
    (\<forall>v. ip_val (arStartIP r) \<le> v \<and> v \<le> ip_val (arEndIP r) \<longrightarrow> excluded_at (paCfg pa) (ip_val (arStartIP r)) v)"
proof -
  let ?st = "arStartIP r" and ?en = "arEndIP r"
  let ?ix = "ExcludeIndexRangeToExcludeRange (acPerNodeExclusions (paCfg pa)) (IP_String ?st)"
  let ?rs = "acExcludeRanges (paCfg pa) @ ?ix"
  define ms where "ms = MergeExcludeRanges (ClampExcludeRanges ?rs (IP_String ?st) (IP_String ?en))"
  have l: "ip_len ?st \<noteq> 0" using r by simp
  note ir = index_ranges_conv [OF l r(1) ix]
  have "\<forall>er \<in> set ?rs. er_ok L er" using ex ir(1) by auto
  note mc = merged_clamped [OF r this, folded ms_def]
  have val: "ers_val ms v \<longleftrightarrow> excluded_at (paCfg pa) (ip_val ?st) v" if "ip_val ?st \<le> v" "v \<le> ip_val ?en" for v
    using mc(3) [OF pl [OF that]] that ir(2) by (simp add: excluded_at_def)
  have inside: "ip_val ?st \<le> er_lo er \<and> er_hi er \<le> ip_val ?en" if "er \<in> set ms" for er
  proof -
    have ok: "er_ok L er" using mc(1) that by blast
    then have p: "plain L (er_lo er)" "plain L (er_hi er)" "er_lo er \<le> er_hi er"
      using ip_plain [of "ParseIP (erStartIP er)"] ip_plain [of "ParseIP (erEndIP er)"] by (auto simp: er_ok_def)
    have "ers_val ms (er_lo er)" "ers_val ms (er_hi er)" using that p(3) by (auto simp: ers_val_def)
    then show ?thesis using mc(3) [OF p(1)] mc(3) [OF p(2)] by blast
  qed
  have one: "er_lo er = ip_val ?st \<and> er_hi er = ip_val ?en \<and> ms = [er]"
    if er: "er \<in> set ms" "er_lo er \<le> ip_val ?st" "ip_val ?en \<le> er_hi er" for er
  proof -
    have v: "er_lo er = ip_val ?st" "er_hi er = ip_val ?en" using inside [OF er(1)] er by auto
    have "er' = er" if "er' \<in> set ms" "er' \<noteq> er" for er'
    proof -
      have "er_hi er + 1 < er_lo er' \<or> er_hi er' + 1 < er_lo er"
        using mc(2) that er(1) by (metis in_set_conv_nth linorder_neqE_nat sorted_wrt_iff_nth_less)
      moreover have "er_lo er' \<le> er_hi er'" using mc(1) that by (auto simp: er_ok_def)
      ultimately show ?thesis using inside [OF that(1)] v by linarith
    qed
    then have "set ms = {er}" using er(1) by auto
    moreover have "distinct ms"
      using mc(2) r(4) mc(1) unfolding distinct_conv_nth sorted_wrt_iff_nth_less
      by (metis (no_types, lifting) add_lessD1 er_ok_def leD linorder_neqE_nat nth_mem)
    ultimately have "ms = [er]" by (metis distinct_length_2_or_more list.set_intros(1) list.set_intros(2) neq_Nil_conv singletonD set_empty2 insert_not_empty)
    with v show ?thesis by blast
  qed
  have "isEntireRangeExcluded pa r \<longleftrightarrow> (\<exists>er \<in> set ms. er_lo er \<le> ip_val ?st \<and> ip_val ?en \<le> er_hi er)"
  proof
    assume "isEntireRangeExcluded pa r"
    then obtain er where "ms = [er]" "Cmp (ParseIP (erStartIP er)) ?st \<le> 0 \<and> 0 \<le> Cmp (ParseIP (erEndIP er)) ?en"
      unfolding isEntireRangeExcluded_def Let_def ms_def [symmetric] by (auto split: list.splits if_splits)
    moreover from this mc(1) have "er_ok L er" by simp
    ultimately show "\<exists>er \<in> set ms. er_lo er \<le> ip_val ?st \<and> ip_val ?en \<le> er_hi er"
      using r by (auto simp: er_ok_def Cmp_conv sgn_if split: if_splits)
  next
    assume "\<exists>er \<in> set ms. er_lo er \<le> ip_val ?st \<and> ip_val ?en \<le> er_hi er"
    then obtain er where er: "er \<in> set ms" "er_lo er \<le> ip_val ?st" "ip_val ?en \<le> er_hi er" by blast
    then have ok: "er_ok L er" using mc(1) by blast
    then have "ParseIP (erStartIP er) \<noteq> []" "ParseIP (erEndIP er) \<noteq> []" by (auto simp: er_ok_def)
    with ok one [OF er] r show "isEntireRangeExcluded pa r"
      unfolding isEntireRangeExcluded_def Let_def ms_def [symmetric] by (auto simp: er_ok_def Cmp_conv sgn_if)
  qed
  also have "\<dots> \<longleftrightarrow> (\<forall>v. ip_val ?st \<le> v \<and> v \<le> ip_val ?en \<longrightarrow> excluded_at (paCfg pa) (ip_val ?st) v)"
    using gapped_cover [OF mc(2) _ r(4)] val by (fastforce simp: ers_val_def)
  finally show ?thesis .
qed

subsection \<open>Blocks as intervals\<close>

abbreviation net_width :: "IPNet \<Rightarrow> nat" where "net_width n \<equiv> length (ipnIP n)"

definition first_val :: "IPNet \<Rightarrow> nat" where
  "first_val n = (if net_size n \<le> 2 then net_base n else net_base n + 1)"

definition last_val :: "IPNet \<Rightarrow> nat" where
  "last_val n = (if net_width n = 4 \<and> 2 < net_size n then net_base n + net_size n - 2 else net_base n + net_size n - 1)"

text \<open>A subnet whose addresses, and the address after the last one, have one family: it is not in IPv4-mapped notation,
  does not overlap the IPv4-mapped block and does not end right before it.\<close>

definition subnet_plain :: "IPNet \<Rightarrow> bool" where
  "subnet_plain n \<longleftrightarrow> wf_net n \<and> net_clear n \<and> (net_width n = 4 \<or> net_base n + net_size n \<noteq> 65535 * 2 ^ 32)"

text \<open>The configurations that pass the validation of an \<open>IPPool\<close>.\<close>

definition cfg_ok :: "AllocationConfig \<Rightarrow> IPNet \<Rightarrow> bool" where
  "cfg_ok cfg n \<longleftrightarrow> acSubnet cfg = Some n \<and> subnet_plain n \<and> 0 < acPerNodeBlockSize cfg \<and>
     (\<forall>er \<in> set (acExcludeRanges cfg). er_ok (net_width n) er \<and> er_hi er < net_base n + net_size n) \<and>
     (\<forall>x \<in> set (acPerNodeExclusions cfg). 0 \<le> eiStartIndex x \<and> eiStartIndex x \<le> eiEndIndex x \<and>
        eiEndIndex x < acPerNodeBlockSize cfg) \<and>
     (acGateway cfg = [] \<or> ip_len (acGateway cfg) \<noteq> 0)"

lemma cfg_okD:
  assumes "cfg_ok cfg n"
  shows "acSubnet cfg = Some n" "wf_net n" "net_clear n" "0 < acPerNodeBlockSize cfg" "0 < nat (acPerNodeBlockSize cfg)"
    "\<forall>er \<in> set (acExcludeRanges cfg). er_ok (net_width n) er" "acGateway cfg = [] \<or> ip_len (acGateway cfg) \<noteq> 0"
    "net_width n \<noteq> 0" "net_width n = 4 \<or> net_base n + net_size n \<noteq> 65535 * 2 ^ 32"
  using assms wf_net_width [of n] by (auto simp: cfg_ok_def subnet_plain_def)

lemma last_val_bounds: "net_base n \<le> last_val n" "last_val n < net_base n + net_size n"
  "net_base n + net_size n \<le> last_val n + 2" "first_val n \<le> last_val n + 1" "net_base n \<le> first_val n"
  using net_size_pos [of n] by (auto simp: last_val_def first_val_def simp del: net_size_pos)

lemma subnet_plain_succ:
  assumes "cfg_ok cfg n" "net_base n \<le> v" "v \<le> net_base n + net_size n" "v < 256 ^ net_width n"
  shows "plain (net_width n) v"
proof (cases "v = net_base n + net_size n")
  case True
  have w: "net_width n = 4 \<or> net_width n = 16" by (rule wf_net_width [OF cfg_okD(2) [OF assms(1)]])
  have "v div 2 ^ 32 \<noteq> 65535" if "net_width n \<noteq> 4"
  proof
    assume d: "v div 2 ^ 32 = 65535"
    have "net_clear n" by (rule cfg_okD(3) [OF assms(1)])
    then have "net_base n + net_size n \<le> 65535 * 2 ^ 32 \<or> 65536 * 2 ^ 32 \<le> net_base n" using that by (simp add: net_clear_def)
    then show False
    proof
      assume "net_base n + net_size n \<le> 65535 * 2 ^ 32"
      with cfg_okD(9) [OF assms(1)] that True have "v < 65535 * 2 ^ 32" by linarith
      then have "v div 2 ^ 32 < 65535" by (simp add: div_less_iff_less_mult)
      with d show False by simp
    next
      assume "65536 * 2 ^ 32 \<le> net_base n"
      with assms(2) have "65536 * 2 ^ 32 div 2 ^ 32 \<le> v div 2 ^ 32" by (intro div_le_mono) simp
      with d show False by simp
    qed
  qed
  with w assms(4) show ?thesis by (auto simp: plain_def)
next
  case False
  with assms(3) have "v < net_base n + net_size n" by simp
  with assms(2) show ?thesis by (rule net_clear_plain [OF cfg_okD(2,3) [OF assms(1)]])
qed

text \<open>The candidate start address with a given value; past the end of the address space it is nil.\<close>

definition cand :: "nat \<Rightarrow> nat \<Rightarrow> net_ip" where
  "cand L s = (if s < 256 ^ L then be_bytes L s else [])"

definition cand_end :: "nat \<Rightarrow> nat \<Rightarrow> nat \<Rightarrow> net_ip" where
  "cand_end L b s = nextIPWithOffsetOrNil (cand L s) (int b - 1)"

lemma nextOff_Nil: "ip_len ip = 0 \<Longrightarrow> nextIPWithOffsetOrNil ip d = []"
  by (simp add: nextIPWithOffsetOrNil_def NextIPWithOffset_def ip_folds split: option.split)

lemma nextOff_conv:
  "ip_len ip \<noteq> 0 \<Longrightarrow> 0 \<le> d \<Longrightarrow> nextIPWithOffsetOrNil ip d = cand (ip_len ip) (ip_val ip + nat d)"
  by (simp add: nextIPWithOffsetOrNil_def NextIPWithOffset_conv cand_def)

lemma cand_plain:
  assumes "plain L s"
  shows "cand L s = be_bytes L s" "cand L s \<noteq> []" "ip_len (cand L s) = L" "ip_val (cand L s) = s"
  using assms plain_not_0 [OF assms] by (auto simp: cand_def plain_def)

lemma cand_end_plain:
  assumes "plain L s" "0 < b"
  shows "cand_end L b s = cand L (s + b - 1)"
proof -
  have "s + nat (int b - 1) = s + b - 1" using assms(2) by simp
  then show ?thesis using assms plain_not_0 [OF assms(1)] by (simp add: cand_end_def nextOff_conv cand_plain)
qed

lemma cand_len: "L = 4 \<or> L = 16 \<Longrightarrow> ip_len (cand L s) = L \<longleftrightarrow> plain L s"
proof
  assume L: "L = 4 \<or> L = 16" and l: "ip_len (cand L s) = L"
  show "plain L s"
  proof (rule ccontr)
    assume np: "\<not> plain L s"
    show False
    proof (cases "s < 256 ^ L")
      case True
      with np L have "L = 16" by (auto simp: plain_def)
      with True np l show False using NormalizeIP_not_plain [of s] by (simp add: cand_def ip_len_def)
    next
      case False
      with l L show False by (simp add: cand_def)
    qed
  qed
qed (simp add: cand_plain)

lemma nextOff_len4: "ip_len ip = 4 \<Longrightarrow> 0 \<le> d \<Longrightarrow> ip_len (nextIPWithOffsetOrNil ip d) \<noteq> 16"
  using cand_len [of 4] by (auto simp: nextOff_conv cand_def plain_def)

lemma cand_not_plain: "L = 4 \<or> L = 16 \<Longrightarrow> \<not> plain L s \<Longrightarrow> ip_len (cand L s) = 0 \<or> L = 16 \<and> ip_len (cand L s) = 4"
  using NormalizeIP_not_plain [of s] by (auto simp: cand_def plain_def ip_len_def)

definition valid_block :: "AllocationConfig \<Rightarrow> IPNet \<Rightarrow> nat \<Rightarrow> bool" where
  "valid_block cfg n s \<longleftrightarrow> s + nat (acPerNodeBlockSize cfg) - 1 \<le> last_val n"

lemma allocationValid_cand:
  assumes "cfg_ok (paCfg pa) n" "net_base n \<le> s"
  defines "b \<equiv> nat (acPerNodeBlockSize (paCfg pa))"
  shows "allocationValid pa (cand (net_width n) s) (cand_end (net_width n) b s) = Some (valid_block (paCfg pa) n s)"
proof -
  let ?L = "net_width n"
  note c = cfg_okD [OF assms(1)]
  have L: "?L = 4 \<or> ?L = 16" by (rule wf_net_width [OF c(2)])
  have b: "0 < b" using c(5) by (simp add: b_def)
  have lim: "net_base n + net_size n \<le> 256 ^ ?L" by (rule net_end_le [OF c(2)])
  have nolen: "allocationValid pa st en = Some False" if "ip_len en \<noteq> ?L" for st en
    using that c(1) by (simp add: allocationValid_def IPNet_Contains_iff [OF c(2)] wf_net_ip_len [OF c(2)])
  show ?thesis
  proof (cases "plain ?L s")
    case True
    note e = cand_end_plain [OF True b]
    show ?thesis
    proof (cases "plain ?L (s + b - 1)")
      case p: True
      have "allocationValid pa (cand ?L s) (cand ?L (s + b - 1)) = Some (s + b - 1 \<le> last_val n)"
        using cand_plain [OF True] cand_plain [OF p] c(1) assms(2) b last_val_bounds [of n] net_size_pos [of n]
        by (auto simp: allocationValid_def IPNet_Contains_iff [OF c(2)] wf_net_ip_len [OF c(2)] IsBroadcast_conv [OF c(2)]
            last_val_def simp del: net_size_pos) linarith
      then show ?thesis unfolding valid_block_def b_def [symmetric] e .
    next
      case False
      then have "ip_len (cand ?L (s + b - 1)) \<noteq> ?L" using cand_len [OF L] by simp
      moreover have "\<not> s + b - 1 \<le> last_val n"
        using False net_clear_plain [OF c(2,3), of "s + b - 1"] assms(2) b last_val_bounds(2) [of n] by linarith
      ultimately show ?thesis using nolen unfolding valid_block_def b_def [symmetric] e by simp
    qed
  next
    case False
    then have "\<not> s < net_base n + net_size n" using net_clear_plain [OF c(2,3) assms(2)] by blast
    then have "\<not> s + b - 1 \<le> last_val n" using b last_val_bounds(2) [of n] by linarith
    moreover have "ip_len (cand_end ?L b s) \<noteq> ?L"
      using cand_not_plain [OF L False] nextOff_len4 [of "cand ?L s" "int b - 1"] nextOff_Nil [of "cand ?L s"] b L
      by (auto simp: cand_end_def)
    ultimately show ?thesis using nolen unfolding valid_block_def b_def [symmetric] by simp
  qed
qed

lemma valid_block_plain:
  assumes "cfg_ok cfg n" "net_base n \<le> s" "valid_block cfg n s" "s \<le> v" "v \<le> s + nat (acPerNodeBlockSize cfg) - 1"
  shows "plain (net_width n) v" "v < net_base n + net_size n"
proof -
  show "v < net_base n + net_size n" using assms(3,5) last_val_bounds(2) [of n] by (simp add: valid_block_def)
  with assms(2,4) show "plain (net_width n) v" by (intro net_clear_plain [OF cfg_okD(2,3) [OF assms(1)]]) simp_all
qed

lemma getFirstStartIP_conv:
  assumes "cfg_ok (paCfg pa) n"
  shows "getFirstStartIP pa = Some (cand (net_width n) (first_val n))"
proof -
  note c = cfg_okD [OF assms]
  have L: "ip_len (ipnIP n) = net_width n" "ip_val (ipnIP n) = net_base n"
    using wf_net_ip_len [OF c(2)] wf_net_ip_val [OF c(2)] .
  have "net_base n < 256 ^ net_width n" using be_val_less [of "ipnIP n"] by (simp add: net_base_def)
  then have b: "ipnIP n = cand (net_width n) (net_base n)" by (simp add: cand_def net_base_def be_bytes_be_val)
  have "NextIP (ipnIP n) = cand (net_width n) (net_base n + 1)"
    using NextIP_conv [of "ipnIP n"] c(8) by (simp add: L cand_def)
  moreover have "\<not> net_size n \<le> 2 \<longleftrightarrow> \<not> (net_size n = 2 \<or> net_size n = 1)" using net_size_pos [of n] by linarith
  ultimately show ?thesis
    using c(1) b IsPointToPoint_wf [OF c(2)] IsSingle_wf [OF c(2)]
    by (auto simp: getFirstStartIP_def canUseNetworkAddress_def first_val_def)
qed

lemma next_block:
  assumes "cfg_ok (paCfg pa) n" "net_base n \<le> s" "valid_block (paCfg pa) n s"
  defines "b \<equiv> nat (acPerNodeBlockSize (paCfg pa))"
  shows "NextIP (cand_end (net_width n) b s) = cand (net_width n) (s + b)"
    "nextIPWithOffsetOrNil (cand (net_width n) s) (acPerNodeBlockSize (paCfg pa)) = cand (net_width n) (s + b)"
proof -
  note c = cfg_okD [OF assms(1)] and vp = valid_block_plain [OF assms(1-3)]
  have b: "0 < b" using c(5) by (simp add: b_def)
  have p: "plain (net_width n) s" "plain (net_width n) (s + b - 1)" using b by (auto intro!: vp(1) simp: b_def)
  have "s + b - 1 + 1 = s + b" using b by simp
  then show "NextIP (cand_end (net_width n) b s) = cand (net_width n) (s + b)"
    using cand_plain [OF p(2)] NextIP_conv [of "cand (net_width n) (s + b - 1)"] c(8)
    by (simp add: cand_end_plain [OF p(1) b] cand_def)
  show "nextIPWithOffsetOrNil (cand (net_width n) s) (acPerNodeBlockSize (paCfg pa)) = cand (net_width n) (s + b)"
    using cand_plain [OF p(1)] c(4,8) by (simp add: nextOff_conv b_def)
qed

definition block_excluded :: "AllocationConfig \<Rightarrow> nat \<Rightarrow> bool" where
  "block_excluded cfg s \<longleftrightarrow> (\<forall>v. s \<le> v \<and> v \<le> s + nat (acPerNodeBlockSize cfg) - 1 \<longrightarrow> excluded_at cfg s v)"

text \<open>A range is the block with a given start value.\<close>

definition range_block :: "IPNet \<Rightarrow> AllocationConfig \<Rightarrow> AllocatedRange \<Rightarrow> nat \<Rightarrow> bool" where
  "range_block n cfg r s \<longleftrightarrow> ip_len (arStartIP r) = net_width n \<and> ip_len (arEndIP r) = net_width n \<and>
     ip_val (arStartIP r) = s \<and> ip_val (arEndIP r) = s + nat (acPerNodeBlockSize cfg) - 1"

lemma isEntireRangeExcluded_block:
  assumes "cfg_ok (paCfg pa) n" "range_block n (paCfg pa) r s" "net_base n \<le> s"
    "s + nat (acPerNodeBlockSize (paCfg pa)) \<le> net_base n + net_size n"
  shows "isEntireRangeExcluded pa r \<longleftrightarrow> block_excluded (paCfg pa) s"
proof -
  note c = cfg_okD [OF assms(1)] and r = assms(2) [unfolded range_block_def]
  have pl: "plain (net_width n) v" if "s \<le> v" "v < s + nat (acPerNodeBlockSize (paCfg pa))" for v
    using that assms(3,4) by (intro net_clear_plain [OF c(2,3)]) simp_all
  have ix: "0 \<le> eiStartIndex x \<and> eiStartIndex x \<le> eiEndIndex x \<and> plain (net_width n) (s + nat (eiStartIndex x)) \<and>
      plain (net_width n) (s + nat (eiEndIndex x))" if "x \<in> set (acPerNodeExclusions (paCfg pa))" for x
  proof -
    have "0 \<le> eiStartIndex x" "eiStartIndex x \<le> eiEndIndex x" "eiEndIndex x < acPerNodeBlockSize (paCfg pa)"
      using assms(1) that by (auto simp: cfg_ok_def)
    then show ?thesis by (auto intro!: pl)
  qed
  have "isEntireRangeExcluded pa r \<longleftrightarrow>
    (\<forall>v. ip_val (arStartIP r) \<le> v \<and> v \<le> ip_val (arEndIP r) \<longrightarrow> excluded_at (paCfg pa) (ip_val (arStartIP r)) v)"
    by (rule isEntireRangeExcluded_conv [where L = "net_width n"])
      (use r c ix pl in \<open>auto simp: le_diff_conv2\<close>)
  then show ?thesis using r by (simp add: block_excluded_def)
qed

lemma range_block_cand:
  assumes "cfg_ok cfg n" "net_base n \<le> s" "valid_block cfg n s"
  defines "b \<equiv> nat (acPerNodeBlockSize cfg)"
  shows "range_block n cfg \<lparr>arStartIP = cand (net_width n) s, arEndIP = cand_end (net_width n) b s\<rparr> s"
    "s + b \<le> net_base n + net_size n" "plain (net_width n) s" "cand (net_width n) s \<noteq> []" "cand_end (net_width n) b s \<noteq> []"
proof -
  have b: "0 < b" using cfg_okD(5) [OF assms(1)] by (simp add: b_def)
  have p: "plain (net_width n) s" "plain (net_width n) (s + b - 1)"
    using b by (auto intro!: valid_block_plain(1) [OF assms(1-3)] simp: b_def)
  then show "range_block n cfg \<lparr>arStartIP = cand (net_width n) s, arEndIP = cand_end (net_width n) b s\<rparr> s"
    using cand_end_plain [OF p(1) b] by (simp add: range_block_def cand_plain b_def)
  show "s + b \<le> net_base n + net_size n" using assms(3) b last_val_bounds(2) [of n] by (simp add: valid_block_def b_def)
  show "plain (net_width n) s" "cand (net_width n) s \<noteq> []" "cand_end (net_width n) b s \<noteq> []"
    using p cand_plain(2) [OF p(1)] cand_plain(2) [OF p(2)] by (simp_all add: cand_end_plain [OF p(1) b])
qed

subsection \<open>Skipping excluded blocks\<close>

lemma merged_exclusions:
  assumes "cfg_ok cfg n"
  defines "ms \<equiv> MergeExcludeRanges (acExcludeRanges cfg)"
  shows "\<forall>er \<in> set ms. er_ok (net_width n) er \<and> er_hi er < net_base n + net_size n"
    "plain (net_width n) v \<Longrightarrow> ers_val ms v \<longleftrightarrow> ers_val (acExcludeRanges cfg) v"
proof -
  let ?L = "net_width n"
  note ok = cfg_okD(6) [OF assms(1)]
  note m = MergeExcludeRanges_normal_form_law [OF ok, folded ms_def]
  have mok: "\<forall>er \<in> set ms. er_ok ?L er" by (rule conjunct1 [OF m])
  have val: "ers_val ms v \<longleftrightarrow> ers_val (acExcludeRanges cfg) v" if "plain ?L v" for v
    using conjunct2 [OF conjunct2 [OF m], of "be_bytes ?L v"] that
    unfolding ers_contains_iff [OF mok] ers_contains_iff [OF ok] by simp
  then show "plain ?L v \<Longrightarrow> ers_val ms v \<longleftrightarrow> ers_val (acExcludeRanges cfg) v" .
  have "er_hi er < net_base n + net_size n" if "er \<in> set ms" for er
  proof -
    have e: "ip_len (ParseIP (erEndIP er)) = ?L" "?L \<noteq> 0" "er_lo er \<le> er_hi er" using mok that by (auto simp: er_ok_def)
    then have "plain ?L (er_hi er)" using ip_plain [of "ParseIP (erEndIP er)"] by simp
    moreover have "ers_val ms (er_hi er)" using that e(3) by (auto simp: ers_val_def)
    ultimately obtain er' where "er' \<in> set (acExcludeRanges cfg)" "er_hi er \<le> er_hi er'" using val by (auto simp: ers_val_def)
    then show ?thesis using assms(1) by (fastforce simp: cfg_ok_def)
  qed
  with mok show "\<forall>er \<in> set ms. er_ok ?L er \<and> er_hi er < net_base n + net_size n" by blast
qed

text \<open>A block that is available to the search, leaving aside the blocks that are already taken.\<close>

definition open_block :: "AllocationConfig \<Rightarrow> IPNet \<Rightarrow> nat \<Rightarrow> bool" where
  "open_block cfg n s \<longleftrightarrow> valid_block cfg n s \<and> \<not> block_excluded cfg s"

lemma covered_block_closed:
  assumes "cfg_ok cfg n" "er \<in> set (MergeExcludeRanges (acExcludeRanges cfg))" "net_base n \<le> s" "er_lo er \<le> s"
    "s + nat (acPerNodeBlockSize cfg) - 1 \<le> er_hi er"
  shows "\<not> open_block cfg n s"
proof -
  have "excluded_at cfg s v" if "valid_block cfg n s" "s \<le> v" "v \<le> s + nat (acPerNodeBlockSize cfg) - 1" for v
  proof -
    have "plain (net_width n) v" by (rule valid_block_plain(1) [OF assms(1,3) that])
    moreover have "ers_val (MergeExcludeRanges (acExcludeRanges cfg)) v" 
      unfolding ers_val_def by (rule bexI [OF _ assms(2)]) (use assms(4,5) that in simp)
    ultimately show ?thesis using merged_exclusions(2) [OF assms(1)] by (simp add: excluded_at_def)
  qed
  then show ?thesis by (auto simp: open_block_def block_excluded_def)
qed

lemma past_the_end: "b * 256 ^ L + s \<ge> 256 ^ L" if "0 < b" for b s L :: nat
proof -
  have "1 * 256 ^ L \<le> b * 256 ^ L" using that by (intro mult_le_mono1) simp
  then show ?thesis by linarith
qed

lemma cand_past: "0 < b \<Longrightarrow> cand L (s + 256 ^ L * b) = []" "0 < b \<Longrightarrow> cand_end L c (s + 256 ^ L * b) = []"
  using past_the_end [of b L s] by (simp_all add: cand_end_def cand_def nextOff_Nil algebra_simps)

lemma skip_loop_conv:
  assumes cfg: "cfg_ok cfg n" and s: "net_base n \<le> s" "plain (net_width n) s"
  defines "L \<equiv> net_width n" and "b \<equiv> nat (acPerNodeBlockSize cfg)"
  assumes ms: "set ms \<subseteq> set (MergeExcludeRanges (acExcludeRanges cfg))"
  shows "\<exists>j. skip_loop (acPerNodeBlockSize cfg) (cand L s) (cand_end L b s) ms = Inr (cand L (s + j * b), cand_end L b (s + j * b)) \<and>
    (\<forall>i < j. \<not> open_block cfg n (s + i * b))"
  using ms
proof (induction ms)
  case Nil
  show ?case by (rule exI [of _ 0]) simp
next
  case (Cons er ms)
  note c = cfg_okD [OF cfg] and cs = cand_plain [OF s(2), folded L_def]
  have b: "0 < b" "acPerNodeBlockSize cfg = int b" using c(4) by (simp_all add: b_def)
  have L: "L = 4 \<or> L = 16" unfolding L_def by (rule wf_net_width [OF c(2)])
  have er: "er_ok L er" "er_hi er < net_base n + net_size n" "er \<in> set (MergeExcludeRanges (acExcludeRanges cfg))"
    using merged_exclusions(1) [OF cfg] Cons.prems by (auto simp: L_def)
  then have hi: "ip_len (ParseIP (erEndIP er)) = L" "L \<noteq> 0" by (simp_all add: er_ok_def)
  show ?case
  proof (cases "ExcludeRange_Contains er (cand L s) \<and> ExcludeRange_Contains er (cand_end L b s)")
    case False
    then have "skip_loop (int b) (cand L s) (cand_end L b s) (er # ms) = skip_loop (int b) (cand L s) (cand_end L b s) ms" by simp
    with Cons.IH Cons.prems show ?thesis by (simp add: b(2))
  next
    case True
    then have lo: "er_lo er \<le> s" and "ip_len (cand_end L b s) = L" and eh: "ip_val (cand_end L b s) \<le> er_hi er"
      using cs by (simp_all add: ExcludeRange_Contains_iff [OF er(1)])
    moreover have e: "cand_end L b s = cand L (s + b - 1)" unfolding L_def by (rule cand_end_plain [OF s(2) b(1)])
    ultimately have p: "plain L (s + b - 1)" using cand_len [OF L] by simp
    then have hib: "s + b - 1 \<le> er_hi er" using eh e by (simp add: cand_plain)
    have nf: "NextIP (ParseIP (erEndIP er)) = cand L (er_hi er + 1)" using hi by (simp add: NextIP_conv cand_def)
    have shut: "\<not> open_block cfg n (s + i * b)" if "s + i * b + b - 1 \<le> er_hi er" for i
      by (rule covered_block_closed [OF cfg er(3)]) (use that lo s(1) in \<open>auto simp: b_def\<close>)
    show ?thesis
    proof (cases "er_hi er + 1 < 256 ^ L")
      case False
      then have "skip_loop (int b) (cand L s) (cand_end L b s) (er # ms) = Inr ([], [])"
        using True nf by (simp add: cand_def)
      moreover have "\<not> open_block cfg n (s + i * b)" for i
      proof (cases "s + i * b + b - 1 \<le> er_hi er")
        case F: False
        then have "\<not> s + i * b + b - 1 \<le> last_val n"
          using False last_val_bounds(2) [of n] net_end_le [OF c(2)] by (auto simp: L_def)
        then show ?thesis by (simp add: open_block_def valid_block_def b_def)
      qed (rule shut)
      ultimately show ?thesis using cand_past(1) [OF b(1), of L s] cand_past(2) [OF b(1), of L b s] by (intro exI [of _ "256 ^ L"]) (simp add: b(2))
    next
      case lt: True
      let ?q = "(er_hi er + 1 - s) div b"
      have pf: "plain L (er_hi er + 1)" unfolding L_def
        by (rule subnet_plain_succ [OF cfg]) (use er(2) hib s(1) b lt in \<open>auto simp: L_def\<close>)
      have le: "s \<le> er_hi er + 1" using hib b by linarith
      have d: "Distance (cand L s) (cand L (er_hi er + 1)) = Inr (int (er_hi er + 1 - s))"
        using cs cand_plain [OF pf] hi le by (simp add: Distance_conv of_nat_diff)
      have qb: "s + ?q * b \<le> er_hi er + 1" using div_times_less_eq_dividend [of "er_hi er + 1 - s" b] le by linarith
      have off: "(int (er_hi er + 1 - s) div int b) * int b = int (?q * b)" by (simp add: zdiv_int)
      have nx: "NextIPWithOffset (cand L s) (Some (int (?q * b))) = Inr (cand L (s + ?q * b))"
        using cs hi qb lt by (simp add: NextIPWithOffset_conv cand_def del: of_nat_mult)
      have "skip_loop (int b) (cand L s) (cand_end L b s) (er # ms) = Inr (cand L (s + ?q * b), cand_end L b (s + ?q * b))"
        using True cand_plain(2) [OF pf]
        by (simp only: skip_loop.simps nf d Let_def if_False simp_thms sum.case off nx cand_end_def)
      moreover have "\<not> open_block cfg n (s + i * b)" if "i < ?q" for i
      proof (rule shut)
        have "(i + 1) * b \<le> ?q * b" using that by (intro mult_le_mono1) simp
        with qb b show "s + i * b + b - 1 \<le> er_hi er" by simp
      qed
      ultimately show ?thesis by (auto simp: b(2))
    qed
  qed
qed

lemma getNextNonExcludedCandidates_conv:
  assumes cfg: "cfg_ok (paCfg pa) n" and s: "net_base n \<le> s" "valid_block (paCfg pa) n s"
  defines "L \<equiv> net_width n" and "b \<equiv> nat (acPerNodeBlockSize (paCfg pa))"
  shows "\<exists>j > 0. getNextNonExcludedCandidates pa (cand L s) (cand_end L b s) = Inr (cand L (s + j * b), cand_end L b (s + j * b)) \<and>
    (\<forall>i. 0 < i \<and> i < j \<longrightarrow> \<not> open_block (paCfg pa) n (s + i * b))"
proof -
  note c = cfg_okD [OF cfg] and rb = range_block_cand [OF cfg s, folded L_def b_def]
  note nb = next_block(1) [OF cfg s, folded L_def b_def]
  have b: "0 < b" "acPerNodeBlockSize (paCfg pa) = int b" using c(4) by (simp_all add: b_def)
  let ?s = "s + b"
  have shift: "s + (i + 1) * b = ?s + i * b" for i by simp
  show ?thesis
  proof (cases "cand L ?s = [] \<or> cand_end L b ?s = []")
    case True
    then have e: "getNextNonExcludedCandidates pa (cand L s) (cand_end L b s) = Inr ([], [])"
      using rb(4,5) by (simp add: getNextNonExcludedCandidates_def nb b(2) cand_end_def [of L b ?s, symmetric] Let_def)
    have "256 ^ L \<le> ?s + b - 1"
    proof (cases "?s < 256 ^ L")
      case lt: True
      then have p: "plain L ?s" unfolding L_def
        by (intro subnet_plain_succ [OF cfg]) (use s(1) rb(2) in \<open>auto simp: L_def\<close>)
      then have "cand L (?s + b - 1) = []" using True cand_plain(2) [OF p] cand_end_plain [OF p b(1)] by simp
      then show ?thesis using c(8) by (simp add: cand_def L_def split: if_splits)
    qed (use b in simp)
    then have "\<not> open_block (paCfg pa) n (s + i * b)" if "0 < i" for i
    proof -
      have "?s + b - 1 \<le> s + i * b + b - 1" using mult_le_mono1 [of 1 i b] that by linarith
      with \<open>256 ^ L \<le> ?s + b - 1\<close> have "\<not> s + i * b + b - 1 \<le> last_val n"
        using last_val_bounds(2) [of n] net_end_le [OF c(2)] unfolding L_def by linarith
      then show ?thesis by (simp add: open_block_def valid_block_def b_def)
    qed
    with e show ?thesis using cand_past(1) [OF b(1), of L s] cand_past(2) [OF b(1), of L b s] by (intro exI [of _ "256 ^ L"]) simp
  next
    case False
    then have "?s < 256 ^ L" by (simp add: cand_def split: if_splits)
    then have p: "plain L ?s" unfolding L_def
      by (intro subnet_plain_succ [OF cfg]) (use s(1) rb(2) in \<open>auto simp: L_def\<close>)
    have base: "net_base n \<le> ?s" using s(1) by simp
    obtain j where j: "skip_loop (int b) (cand L ?s) (cand_end L b ?s) (MergeExcludeRanges (acExcludeRanges (paCfg pa))) =
        Inr (cand L (?s + j * b), cand_end L b (?s + j * b))" "\<forall>i < j. \<not> open_block (paCfg pa) n (?s + i * b)"
      using skip_loop_conv [OF cfg base p [unfolded L_def] order_refl, folded L_def b_def] unfolding b(2) by blast
    have g: "getNextNonExcludedCandidates pa (cand L s) (cand_end L b s) = Inr (cand L (s + (j + 1) * b), cand_end L b (s + (j + 1) * b))"
      using rb(4,5) False j(1) unfolding shift by (simp add: getNextNonExcludedCandidates_def nb b(2) cand_end_def [of L b ?s, symmetric] Let_def)
    have o: "\<not> open_block (paCfg pa) n (s + i * b)" if "0 < i" "i < j + 1" for i
    proof -
      have "s + i * b = ?s + (i - 1) * b" using shift [of "i - 1"] that(1) by simp
      moreover have "\<not> open_block (paCfg pa) n (?s + (i - 1) * b)" using j(2) that by auto
      ultimately show ?thesis by (simp only: not_False_eq_True)
    qed
    show ?thesis by (rule exI [of _ "j + 1"], intro conjI allI impI) (simp, rule g, elim conjE, rule o)
  qed
qed

subsection \<open>The search\<close>

text \<open>A free block: it fits into the subnet, no node has it, some address of it is not excluded, and it is not just the
  gateway.\<close>

definition free_block :: "PoolAllocator \<Rightarrow> IPNet \<Rightarrow> nat \<Rightarrow> bool" where
  "free_block pa n s \<longleftrightarrow> open_block (paCfg pa) n s \<and> IP_String (be_bytes (net_width n) s) \<notin> paStartIps pa \<and>
     \<not> (acPerNodeBlockSize (paCfg pa) = 1 \<and> ip_len (acGateway (paCfg pa)) = net_width n \<and> ip_val (acGateway (paCfg pa)) = s)"

text \<open>One iteration of the loop on the candidate with start value \<open>s\<close>.\<close>

lemma allocate_loop_step:
  assumes cfg: "cfg_ok (paCfg pa) n" and s: "net_base n \<le> s"
  defines "L \<equiv> net_width n" and "b \<equiv> nat (acPerNodeBlockSize (paCfg pa))"
  shows "\<exists>j > 0. (\<forall>i. 0 < i \<and> i < j \<longrightarrow> \<not> open_block (paCfg pa) n (s + i * b)) \<and>
    allocate_loop (Suc fuel) ctxErr pa (cand L s) (cand_end L b s) =
     (if \<not> valid_block (paCfg pa) n s then Some (Inr (cand L s, cand_end L b s))
      else case ctxErr fuel of
        Some e \<Rightarrow> Some (Inl (CtxErr e))
      | None \<Rightarrow> if free_block pa n s then Some (Inr (cand L s, cand_end L b s))
          else allocate_loop fuel ctxErr pa (cand L (s + j * b)) (cand_end L b (s + j * b)))"
proof (cases "valid_block (paCfg pa) n s")
  case False
  then show ?thesis using allocationValid_cand [OF cfg s] by (auto simp: allocate_loop.simps(2) L_def b_def intro!: exI [of _ 1])
next
  case v: True
  note c = cfg_okD [OF cfg] and rb = range_block_cand [OF cfg s v, folded L_def b_def]
  note nb = next_block(1) [OF cfg s v, folded L_def b_def]
  have b: "0 < b" "acPerNodeBlockSize (paCfg pa) = int b" using c(4) by (simp_all add: b_def)
  have cp: "cand L s = be_bytes L s" using cand_plain(1) rb(3) by (simp add: L_def)
  have ex: "isEntireRangeExcluded pa \<lparr>arStartIP = cand L s, arEndIP = cand_end L b s\<rparr> \<longleftrightarrow> block_excluded (paCfg pa) s"
    by (rule isEntireRangeExcluded_block [OF cfg rb(1) s]) (use rb(2) in \<open>simp add: b_def\<close>)
  have gw: "acGateway (paCfg pa) \<noteq> [] \<and> IP_Equal (cand L s) (acGateway (paCfg pa)) \<longleftrightarrow>
      ip_len (acGateway (paCfg pa)) = L \<and> ip_val (acGateway (paCfg pa)) = s"
    using c(7,8) cand_plain(3,4) [OF rb(3)] IP_Equal_iff [of "cand L s" "acGateway (paCfg pa)"] by (auto simp: L_def)
  have valid: "allocationValid pa (cand L s) (cand_end L b s) = Some True"
    using allocationValid_cand [OF cfg s] v by (simp add: L_def b_def)
  have one: "nextIPWithOffsetOrNil (cand L (s + b)) (int b - 1) = cand_end L b (s + b)" by (simp add: cand_end_def)
  note unf = allocate_loop.simps(2) [of fuel ctxErr pa "cand L s" "cand_end L b s", unfolded valid b(2) nb one Let_def ex gw]
  show ?thesis
  proof (cases "IP_String (cand L s) \<notin> paStartIps pa \<and> block_excluded (paCfg pa) s")
    case True
    obtain j where "j > 0" "getNextNonExcludedCandidates pa (cand L s) (cand_end L b s) = Inr (cand L (s + j * b), cand_end L b (s + j * b))"
        "\<forall>i. 0 < i \<and> i < j \<longrightarrow> \<not> open_block (paCfg pa) n (s + i * b)"
      using getNextNonExcludedCandidates_conv [OF cfg s v, folded L_def b_def] by blast
    with True v show ?thesis unfolding unf by (intro exI [of _ j]) (simp add: free_block_def open_block_def split: option.split)
  next
    case False
    have gw1: "int b = 1 \<and> acGateway (paCfg pa) \<noteq> [] \<and> IP_Equal (cand L s) (acGateway (paCfg pa)) \<longleftrightarrow>
      int b = 1 \<and> ip_len (acGateway (paCfg pa)) = L \<and> ip_val (acGateway (paCfg pa)) = s" using gw by blast
    from False v show ?thesis unfolding unf gw1
      by (intro exI [of _ 1]) (auto simp: free_block_def open_block_def cp b(2) L_def [symmetric] split: option.split)
  qed
qed

lemma allocate_loop_conv:
  assumes cfg: "cfg_ok (paCfg pa) n"
  defines "L \<equiv> net_width n" and "b \<equiv> nat (acPerNodeBlockSize (paCfg pa))"
  shows "net_base n \<le> s \<Longrightarrow> net_base n + net_size n - s < fuel \<Longrightarrow>
    (\<exists>j. allocate_loop fuel ctxErr pa (cand L s) (cand_end L b s) = Some (Inr (cand L (s + j * b), cand_end L b (s + j * b))) \<and>
       (\<forall>i < j. \<not> free_block pa n (s + i * b)) \<and> (valid_block (paCfg pa) n (s + j * b) \<longrightarrow> free_block pa n (s + j * b))) \<or>
    (\<exists>k e. ctxErr k = Some e \<and> allocate_loop fuel ctxErr pa (cand L s) (cand_end L b s) = Some (Inl (CtxErr e)))"
proof (induction fuel arbitrary: s)
  case 0
  then show ?case by simp
next
  case (Suc fuel)
  have b: "0 < b" using cfg_okD(5) [OF cfg] by (simp add: b_def)
  obtain j where j: "j > 0" "\<forall>i. 0 < i \<and> i < j \<longrightarrow> \<not> open_block (paCfg pa) n (s + i * b)"
    and step: "allocate_loop (Suc fuel) ctxErr pa (cand L s) (cand_end L b s) =
     (if \<not> valid_block (paCfg pa) n s then Some (Inr (cand L s, cand_end L b s))
      else case ctxErr fuel of
        Some e \<Rightarrow> Some (Inl (CtxErr e))
      | None \<Rightarrow> if free_block pa n s then Some (Inr (cand L s, cand_end L b s))
          else allocate_loop fuel ctxErr pa (cand L (s + j * b)) (cand_end L b (s + j * b)))"
    using allocate_loop_step [OF cfg Suc.prems(1), folded L_def b_def, of fuel ctxErr] by blast
  show ?case
  proof (cases "valid_block (paCfg pa) n s \<and> ctxErr fuel = None \<and> \<not> free_block pa n s")
    case False
    then consider "\<not> valid_block (paCfg pa) n s" | e where "valid_block (paCfg pa) n s" "ctxErr fuel = Some e"
      | "valid_block (paCfg pa) n s" "ctxErr fuel = None" "free_block pa n s" by fastforce
    then show ?thesis
    proof cases
      case 1
      then show ?thesis unfolding step by (intro disjI1 exI [of _ 0]) simp
    next
      case 2
      then show ?thesis unfolding step by (intro disjI2) auto
    next
      case 3
      then show ?thesis unfolding step by (intro disjI1 exI [of _ 0]) simp
    qed
  next
    case True
    let ?s = "s + j * b"
    have lt: "s < ?s" using j(1) b by simp
    have "s + b \<le> net_base n + net_size n" unfolding b_def by (rule range_block_cand(2) [OF cfg Suc.prems(1)]) (use True in simp)
    then have fuel: "net_base n + net_size n - ?s < fuel" using lt b Suc.prems(2) by linarith
    have shut: "\<not> free_block pa n (s + i * b)" if "i < j" for i
      using True j(2) that by (cases "i = 0") (auto simp: free_block_def)
    have e: "allocate_loop (Suc fuel) ctxErr pa (cand L s) (cand_end L b s) = allocate_loop fuel ctxErr pa (cand L ?s) (cand_end L b ?s)"
      using step True by simp
    have "net_base n \<le> ?s" using Suc.prems(1) lt by simp
    from Suc.IH [OF this fuel] show ?thesis
    proof (elim disjE exE conjE)
      fix j'
      assume h: "allocate_loop fuel ctxErr pa (cand L ?s) (cand_end L b ?s) = Some (Inr (cand L (?s + j' * b), cand_end L b (?s + j' * b)))"
        "\<forall>i < j'. \<not> free_block pa n (?s + i * b)" "valid_block (paCfg pa) n (?s + j' * b) \<longrightarrow> free_block pa n (?s + j' * b)"
      have sum: "?s + j' * b = s + (j + j') * b" by (simp add: algebra_simps)
      have "\<not> free_block pa n (s + i * b)" if "i < j + j'" for i
      proof (cases "i < j")
        case False
        then obtain k where k: "i = j + k" using le_Suc_ex [of j i] by auto
        then have "?s + k * b = s + i * b" by (simp add: add_mult_distrib)
        moreover have "\<not> free_block pa n (?s + k * b)" using h(2) k that by simp
        ultimately show ?thesis by (simp only: not_False_eq_True)
      qed (rule shut)
      with h show ?thesis unfolding e sum by (intro disjI1 exI [of _ "j + j'"]) blast
    qed (use e in auto)
  qed
qed

subsection \<open>The invariant of the allocator\<close>

abbreviation block_start :: "AllocationConfig \<Rightarrow> IPNet \<Rightarrow> nat \<Rightarrow> nat" where
  "block_start cfg n k \<equiv> first_val n + k * nat (acPerNodeBlockSize cfg)"

text \<open>Every node has one block of the grid, inside the subnet; different nodes have different blocks; the start of
  every allocated block is recorded; and up to the last block that was handed out no block is free.\<close>

definition pa_inv :: "PoolAllocator \<Rightarrow> IPNet \<Rightarrow> bool" where
  "pa_inv pa n \<longleftrightarrow> cfg_ok (paCfg pa) n \<and>
     (\<forall>node r. paAllocations pa node = Some r \<longrightarrow>
        (\<exists>k. range_block n (paCfg pa) r (block_start (paCfg pa) n k) \<and>
             block_start (paCfg pa) n k + nat (acPerNodeBlockSize (paCfg pa)) \<le> net_base n + net_size n) \<and>
        IP_String (arStartIP r) \<in> paStartIps pa) \<and>
     (\<forall>node node' r r'. paAllocations pa node = Some r \<and> paAllocations pa node' = Some r' \<and> node \<noteq> node' \<longrightarrow>
        ip_val (arStartIP r) \<noteq> ip_val (arStartIP r')) \<and>
     (paLastAllocatedStartIP pa = [] \<or>
      (\<exists>k. paLastAllocatedStartIP pa = cand (net_width n) (block_start (paCfg pa) n k) \<and>
           valid_block (paCfg pa) n (block_start (paCfg pa) n k) \<and> (\<forall>i \<le> k. \<not> free_block pa n (block_start (paCfg pa) n i))))"

lemma pa_invD:
  assumes "pa_inv pa n"
  shows "cfg_ok (paCfg pa) n"
    "paAllocations pa node = Some r \<Longrightarrow> \<exists>k. range_block n (paCfg pa) r (block_start (paCfg pa) n k) \<and>
       block_start (paCfg pa) n k + nat (acPerNodeBlockSize (paCfg pa)) \<le> net_base n + net_size n"
    "paAllocations pa node = Some r \<Longrightarrow> IP_String (arStartIP r) \<in> paStartIps pa"
    "paLastAllocatedStartIP pa = [] \<or> (\<exists>k. paLastAllocatedStartIP pa = cand (net_width n) (block_start (paCfg pa) n k) \<and>
       valid_block (paCfg pa) n (block_start (paCfg pa) n k) \<and> (\<forall>i \<le> k. \<not> free_block pa n (block_start (paCfg pa) n i)))"
    "paAllocations pa node = Some r \<Longrightarrow> paAllocations pa node' = Some r' \<Longrightarrow> node \<noteq> node' \<Longrightarrow>
       ip_val (arStartIP r) \<noteq> ip_val (arStartIP r')"
  using assms unfolding pa_inv_def by blast+

lemma IP_String_Normalize: "ip_len ip \<noteq> 0 \<Longrightarrow> IP_String (be_bytes (ip_len ip) (ip_val ip)) = IP_String ip"
proof -
  assume l: "ip_len ip \<noteq> 0"
  have "IP_String (NormalizeIP ip) = IP_String ip"
    using l To4_length [of ip] ip_len_width [of ip]
    by (cases "To4 ip = []") (auto simp: NormalizeIP_def To16_def IP_String_def)
  then show ?thesis by (simp add: NormalizeIP_conv)
qed

lemma start_string_iff:
  assumes "ip_len a = L" "ip_len a' = L" "L \<noteq> 0"
  shows "IP_String a = IP_String a' \<longleftrightarrow> ip_val a = ip_val a'"
  using ParseIP_IP_String_len(2) [of a] ParseIP_IP_String_len(2) [of a'] IP_String_Normalize [of a] IP_String_Normalize [of a'] assms
  by metis

text \<open>Two blocks of the grid with different starts have no address in common.\<close>

lemma grid_disjoint:
  fixes f b i k :: nat
  assumes "f + i * b \<noteq> f + k * b" "0 < b"
  shows "f + i * b + b - 1 < f + k * b \<or> f + k * b + b - 1 < f + i * b"
proof -
  have "i < k \<or> k < i" using assms by (cases i k rule: linorder_cases) auto
  then show ?thesis
  proof
    assume "i < k"
    then have "(i + 1) * b \<le> k * b" by (intro mult_le_mono1) simp
    with assms(2) show ?thesis by (simp add: add_mult_distrib) linarith
  next
    assume "k < i"
    then have "(k + 1) * b \<le> i * b" by (intro mult_le_mono1) simp
    with assms(2) show ?thesis by (simp add: add_mult_distrib) linarith
  qed
qed

lemma pa_inv_new: "cfg_ok cfg n \<Longrightarrow> pa_inv (newPoolAllocator cfg) n"
  by (simp add: pa_inv_def newPoolAllocator_def)

lemma free_block_insert:
  assumes "\<not> free_block pa n s" "paCfg pa' = paCfg pa" "paStartIps pa \<subseteq> paStartIps pa'"
  shows "\<not> free_block pa' n s"
  using assms by (auto simp: free_block_def)

text \<open>Recording a new block for a node keeps the invariant.\<close>

lemma pa_inv_record:
  assumes inv: "pa_inv pa n" and r: "range_block n (paCfg pa) r (block_start (paCfg pa) n k)"
    "block_start (paCfg pa) n k + nat (acPerNodeBlockSize (paCfg pa)) \<le> net_base n + net_size n"
    "IP_String (arStartIP r) \<notin> paStartIps pa"
    and pa': "paCfg pa' = paCfg pa" "paAllocations pa' = (paAllocations pa)(node \<mapsto> r)"
      "paStartIps pa' = insert (IP_String (arStartIP r)) (paStartIps pa)"
    and last: "paLastAllocatedStartIP pa' = paLastAllocatedStartIP pa \<or>
      paLastAllocatedStartIP pa' = cand (net_width n) (block_start (paCfg pa) n k) \<and>
      valid_block (paCfg pa) n (block_start (paCfg pa) n k) \<and> (\<forall>i \<le> k. \<not> free_block pa' n (block_start (paCfg pa) n i))"
  shows "pa_inv pa' n"
proof -
  note c = cfg_okD [OF pa_invD(1) [OF inv]]
  have new: "ip_val (arStartIP r) \<noteq> ip_val (arStartIP r')" if "paAllocations pa node' = Some r'" for node' r'
  proof -
    have "ip_len (arStartIP r') = net_width n" using pa_invD(2) [OF inv that] by (auto simp: range_block_def)
    then show ?thesis
      using r(1,3) pa_invD(3) [OF inv that] start_string_iff [of "arStartIP r" "net_width n" "arStartIP r'"] c(8)
      by (auto simp: range_block_def)
  qed
  have old: "paLastAllocatedStartIP pa = [] \<or> (\<exists>k. paLastAllocatedStartIP pa = cand (net_width n) (block_start (paCfg pa) n k) \<and>
      valid_block (paCfg pa) n (block_start (paCfg pa) n k) \<and> (\<forall>i \<le> k. \<not> free_block pa' n (block_start (paCfg pa) n i)))"
  proof -
    have "\<not> free_block pa' n s" if "\<not> free_block pa n s" for s
      by (rule free_block_insert [OF that pa'(1)]) (simp add: pa'(3) subset_insertI)
    then show ?thesis using pa_invD(4) [OF inv] by meson
  qed
  show ?thesis
    unfolding pa_inv_def pa'
  proof (intro conjI allI impI)
    show "cfg_ok (paCfg pa) n" by (rule pa_invD(1) [OF inv])
    show "paLastAllocatedStartIP pa' = [] \<or> (\<exists>k. paLastAllocatedStartIP pa' = cand (net_width n) (block_start (paCfg pa) n k) \<and>
      valid_block (paCfg pa) n (block_start (paCfg pa) n k) \<and> (\<forall>i \<le> k. \<not> free_block pa' n (block_start (paCfg pa) n i)))"
      using last old by metis
  next
    fix nd r'
    assume "((paAllocations pa)(node \<mapsto> r)) nd = Some r'"
    then consider "r' = r" | "paAllocations pa nd = Some r'" by (cases "nd = node") auto
    note cs = this
    from cs show "\<exists>k. range_block n (paCfg pa) r' (block_start (paCfg pa) n k) \<and>
        block_start (paCfg pa) n k + nat (acPerNodeBlockSize (paCfg pa)) \<le> net_base n + net_size n"
    proof cases
      case 1
      show ?thesis unfolding 1 by (intro exI conjI) (rule r(1), rule r(2))
    next
      case 2
      then show ?thesis by (rule pa_invD(2) [OF inv])
    qed
    from cs show "IP_String (arStartIP r') \<in> insert (IP_String (arStartIP r)) (paStartIps pa)"
    proof cases
      case 1
      show ?thesis unfolding 1 by (rule insertI1)
    next
      case 2
      show ?thesis by (rule insertI2) (rule pa_invD(3) [OF inv 2])
    qed
  next
    fix nd nd' r1 r2
    assume h: "((paAllocations pa)(node \<mapsto> r)) nd = Some r1 \<and> ((paAllocations pa)(node \<mapsto> r)) nd' = Some r2 \<and> nd \<noteq> nd'"
    show "ip_val (arStartIP r1) \<noteq> ip_val (arStartIP r2)"
    proof (cases "nd = node")
      case True
      with h have "r1 = r" "paAllocations pa nd' = Some r2" by (auto split: if_splits)
      with new [OF this(2)] show ?thesis by simp
    next
      case F: False
      with h have r1: "paAllocations pa nd = Some r1" by simp
      show ?thesis
      proof (cases "nd' = node")
        case True
        with h have "r2 = r" by simp
        with new [OF r1] show ?thesis by simp
      next
        case False
        with h have "paAllocations pa nd' = Some r2" by simp
        from pa_invD(5) [OF inv r1 this] h show ?thesis by simp
      qed
    qed
  qed
qed

subsection \<open>Loading stored allocations\<close>

lemma checkAllocation_Inr:
  assumes cfg: "cfg_ok (paCfg pa) n" and ok: "checkAllocation pa r = Some None"
  shows "\<exists>k. range_block n (paCfg pa) r (block_start (paCfg pa) n k) \<and>
    block_start (paCfg pa) n k + nat (acPerNodeBlockSize (paCfg pa)) \<le> net_base n + net_size n \<and>
    \<not> block_excluded (paCfg pa) (block_start (paCfg pa) n k) \<and>
    \<not> (acPerNodeBlockSize (paCfg pa) = 1 \<and> ip_len (acGateway (paCfg pa)) = net_width n \<and>
       ip_val (acGateway (paCfg pa)) = block_start (paCfg pa) n k)"
proof -
  note c = cfg_okD [OF cfg]
  let ?b = "acPerNodeBlockSize (paCfg pa)" and ?st = "arStartIP r" and ?en = "arEndIP r"
  have small: "IsPointToPointSubnet n \<or> IsSingleIPSubnet n \<longleftrightarrow> net_size n \<le> 2"
    using IsPointToPoint_wf [OF c(2)] IsSingle_wf [OF c(2)] net_size_pos [of n] by linarith
  note unf = ok [unfolded checkAllocation_def Let_def c(1) option.case canUseNetworkAddress_def small]
  have cont: "IPNet_Contains n ?st" "IPNet_Contains n ?en" using unf c(4) by (auto split: if_splits)
  then have v: "ip_len ?st = net_width n" "ip_len ?en = net_width n" "net_base n \<le> ip_val ?st"
    "ip_val ?en < net_base n + net_size n"
    by (simp_all add: IPNet_Contains_iff [OF c(2)] wf_net_ip_len [OF c(2)])
  have ord: "ip_val ?st \<le> ip_val ?en" using unf c(4) cont v c(8) by (auto simp: Cmp_conv sgn_if split: if_splits)
  have d1: "Distance (ipnIP n) ?st = Inr (int (ip_val ?st) - int (net_base n))"
    using v c(8) wf_net_ip_len [OF c(2)] wf_net_ip_val [OF c(2)] by (simp add: Distance_conv)
  have d2: "Distance ?st ?en = Inr (int (ip_val ?en) - int (ip_val ?st))" using v ord c(8) by (simp add: Distance_conv)
  note unf2 = unf [unfolded d1 d2 sum.case]
  have mod: "first_val n \<le> ip_val ?st \<and> (int (ip_val ?st) - int (first_val n)) mod ?b = 0"
    using unf2 c(4) cont v(3) by (auto simp: first_val_def algebra_simps split: if_splits)
  have size: "int (ip_val ?en) - int (ip_val ?st) = ?b - 1" using unf2 c(4) cont by (auto split: if_splits)
  have rest: "\<not> isEntireRangeExcluded pa r" "\<not> (?b = 1 \<and> acGateway (paCfg pa) \<noteq> [] \<and> IP_Equal ?st (acGateway (paCfg pa)))"
    using unf2 c(4) cont by (auto split: if_splits)
  have "?b dvd int (ip_val ?st - first_val n)" using mod by (simp add: of_nat_diff mod_eq_0_iff_dvd)
  then have "nat ?b dvd ip_val ?st - first_val n" using c(4) by (simp add: nat_dvd_iff)
  then obtain k where "ip_val ?st - first_val n = nat ?b * k" by (rule dvdE)
  then have k: "ip_val ?st = block_start (paCfg pa) n k" using mod mult.commute [of k "nat ?b"] by linarith
  have rb: "range_block n (paCfg pa) r (block_start (paCfg pa) n k)"
  proof -
    have "ip_val ?en = ip_val ?st + nat ?b - 1" using size ord c(4) by linarith
    then show ?thesis unfolding range_block_def k [symmetric] using v by simp
  qed
  moreover have le: "block_start (paCfg pa) n k + nat ?b \<le> net_base n + net_size n" using v(4) size c(4) unfolding k [symmetric] by linarith
  moreover have "\<not> block_excluded (paCfg pa) (block_start (paCfg pa) n k)"
    using isEntireRangeExcluded_block [OF cfg rb _ le] rest(1) v(3) k by simp
  moreover have "\<not> (?b = 1 \<and> ip_len (acGateway (paCfg pa)) = net_width n \<and> ip_val (acGateway (paCfg pa)) = ip_val ?st)"
  proof -
    have "acGateway (paCfg pa) \<noteq> []" "IP_Equal ?st (acGateway (paCfg pa))"
      if "ip_len (acGateway (paCfg pa)) = net_width n" "ip_val (acGateway (paCfg pa)) = ip_val ?st"
      using that v(1) c(8) by (auto simp: IP_Equal_iff)
    then show ?thesis using rest(2) by blast
  qed
  ultimately show ?thesis unfolding k by blast
qed

lemma checkAllocation_total: "acSubnet (paCfg pa) \<noteq> None \<Longrightarrow> checkAllocation pa r \<noteq> None"
  by (auto simp: checkAllocation_def canUseNetworkAddress_def Let_def split: sum.split option.split)

lemma load_cases:
  assumes inv: "pa_inv pa n"
  shows "\<exists>e pa'. load pa node r = Some (e, pa') \<and> pa_inv pa' n \<and> paCfg pa' = paCfg pa \<and>
    paLastAllocatedStartIP pa' = paLastAllocatedStartIP pa \<and>
    (if e = None then paAllocations pa' = (paAllocations pa)(node \<mapsto> r) \<and> paStartIps pa' = insert (IP_String (arStartIP r)) (paStartIps pa)
     else pa' = pa)"
proof -
  note cfg = pa_invD(1) [OF inv]
  have "checkAllocation pa r \<noteq> None" by (rule checkAllocation_total) (simp add: cfg_okD(1) [OF cfg])
  then obtain res where res: "checkAllocation pa r = Some res" by blast
  show ?thesis
  proof (cases "res = None \<and> IP_String (arStartIP r) \<notin> paStartIps pa")
    case False
    with res inv show ?thesis by (cases res) (auto simp: load_def)
  next
    case True
    let ?pa = "pa\<lparr>paAllocations := (paAllocations pa)(node \<mapsto> r), paStartIps := insert (IP_String (arStartIP r)) (paStartIps pa)\<rparr>"
    obtain k where k: "range_block n (paCfg pa) r (block_start (paCfg pa) n k)"
      "block_start (paCfg pa) n k + nat (acPerNodeBlockSize (paCfg pa)) \<le> net_base n + net_size n"
      using checkAllocation_Inr [OF cfg] res True by blast
    have "pa_inv ?pa n" by (rule pa_inv_record [OF inv k]) (use True in simp_all)
    then show ?thesis using True res by (simp add: load_def)
  qed
qed

lemma load_status_inv:
  "pa_inv pa n \<Longrightarrow> \<exists>pa'. load_status nodes allocs pa = Some pa' \<and> pa_inv pa' n \<and> paCfg pa' = paCfg pa"
proof (induction allocs arbitrary: pa)
  case Nil
  then show ?case by simp
next
  case (Cons a allocs)
  let ?r = "\<lparr>arStartIP = ParseIP (alStartIP a), arEndIP = ParseIP (alEndIP a)\<rparr>"
  show ?case
  proof (cases "alNodeName a \<notin> nodes \<or> ParseIP (alStartIP a) = [] \<or> ParseIP (alEndIP a) = []")
    case True
    then have "load_status nodes (a # allocs) pa = load_status nodes allocs pa" by auto
    with Cons show ?thesis by simp
  next
    case False
    obtain e pa' where l: "load pa (alNodeName a) ?r = Some (e, pa')" "pa_inv pa' n" "paCfg pa' = paCfg pa"
      using load_cases [OF Cons.prems] by blast
    with False have "load_status nodes (a # allocs) pa = load_status nodes allocs pa'" by simp
    with Cons.IH [OF l(2)] l(3) show ?thesis by simp
  qed
qed

subsection \<open>Allocation is first fit\<close>

lemma covered_blocks:
  assumes "cfg_ok cfg n" "ExcludeIndexRangesCover (acPerNodeExclusions cfg) (Some (acPerNodeBlockSize cfg - 1))"
  shows "block_excluded cfg s"
proof -
  have "\<forall>i. 0 \<le> i \<and> i \<le> acPerNodeBlockSize cfg - 1 \<longrightarrow> index_covered (acPerNodeExclusions cfg) i"
    using ExcludeIndexRangesCover_iff_law [of "acPerNodeBlockSize cfg - 1" "acPerNodeExclusions cfg"] assms
    by (simp add: cfg_ok_def)
  moreover have "0 < nat (acPerNodeBlockSize cfg)" by (rule cfg_okD(5) [OF assms(1)])
  ultimately show ?thesis by (auto simp: block_excluded_def excluded_at_def)
qed

lemma block_start_add: "block_start cfg n k + j * nat (acPerNodeBlockSize cfg) = block_start cfg n (k + j)"
  by (simp add: algebra_simps)

text \<open>The first candidate of the search is the block after the last one handed out, below which nothing is free.\<close>

lemma search_start:
  assumes inv: "pa_inv pa n"
  shows "\<exists>k. (if paLastAllocatedStartIP pa = [] then getFirstStartIP pa
      else Some (nextIPWithOffsetOrNil (paLastAllocatedStartIP pa) (acPerNodeBlockSize (paCfg pa)))) =
      Some (cand (net_width n) (block_start (paCfg pa) n k)) \<and> (\<forall>i < k. \<not> free_block pa n (block_start (paCfg pa) n i))"
proof (cases "paLastAllocatedStartIP pa = []")
  case True
  then show ?thesis by (intro exI [of _ 0]) (simp add: getFirstStartIP_conv [OF pa_invD(1) [OF inv]])
next
  case False
  then obtain k where k: "paLastAllocatedStartIP pa = cand (net_width n) (block_start (paCfg pa) n k)"
    "valid_block (paCfg pa) n (block_start (paCfg pa) n k)" "\<forall>i \<le> k. \<not> free_block pa n (block_start (paCfg pa) n i)"
    using pa_invD(4) [OF inv] by blast
  have "net_base n \<le> block_start (paCfg pa) n k" using last_val_bounds(5) [of n] by linarith
  then have "nextIPWithOffsetOrNil (paLastAllocatedStartIP pa) (acPerNodeBlockSize (paCfg pa)) =
      cand (net_width n) (block_start (paCfg pa) n (k + 1))"
    using next_block(2) [OF pa_invD(1) [OF inv] _ k(2)] block_start_add [where cfg = "paCfg pa" and n = n and k = k and j = 1] by (simp add: k(1) algebra_simps)
  with False k(3) show ?thesis by (intro exI [of _ "k + 1"]) (simp add: less_Suc_eq_le)
qed

definition first_free :: "PoolAllocator \<Rightarrow> IPNet \<Rightarrow> nat \<Rightarrow> bool" where
  "first_free pa n k \<longleftrightarrow> free_block pa n (block_start (paCfg pa) n k) \<and> (\<forall>i < k. \<not> free_block pa n (block_start (paCfg pa) n i))"

lemma none_free_above:
  assumes "\<And>i. i < m \<Longrightarrow> \<not> free_block pa n (block_start (paCfg pa) n i)" "\<not> valid_block (paCfg pa) n (block_start (paCfg pa) n m)"
  shows "\<not> free_block pa n (block_start (paCfg pa) n i)"
proof (cases "i < m")
  case False
  then have "m * nat (acPerNodeBlockSize (paCfg pa)) \<le> i * nat (acPerNodeBlockSize (paCfg pa))" by (intro mult_le_mono1) simp
  then have "\<not> valid_block (paCfg pa) n (block_start (paCfg pa) n i)" using assms(2) unfolding valid_block_def by linarith
  then show ?thesis by (simp add: free_block_def open_block_def)
qed (rule assms(1))

lemma block_above_base: "net_base n \<le> block_start cfg n j"
  using last_val_bounds(5) [of n] by linarith

text \<open>Recording the first free block keeps the invariant.\<close>

lemma record_first_free:
  assumes inv: "pa_inv pa n" and new: "paAllocations pa node = None" and t: "t = block_start (paCfg pa) n m" "valid_block (paCfg pa) n t"
    and free: "free_block pa n t" and below: "\<And>i. i < m \<Longrightarrow> \<not> free_block pa n (block_start (paCfg pa) n i)"
    and r: "r = \<lparr>arStartIP = cand (net_width n) t, arEndIP = cand_end (net_width n) (nat (acPerNodeBlockSize (paCfg pa))) t\<rparr>"
  shows "pa_inv (pa\<lparr>paAllocations := (paAllocations pa)(node \<mapsto> r), paStartIps := insert (IP_String (cand (net_width n) t)) (paStartIps pa),
      paLastAllocatedStartIP := cand (net_width n) t\<rparr>) n" (is "pa_inv ?pa n")
    "range_block n (paCfg pa) r t" "first_free pa n m"
proof -
  note cfg = pa_invD(1) [OF inv]
  note rb = range_block_cand [OF cfg block_above_base t(2) [unfolded t(1)], folded t(1), folded r]
  show "range_block n (paCfg pa) r t" by (rule rb(1))
  show "first_free pa n m" using free below by (simp add: first_free_def t(1))
  have taken: "\<not> free_block ?pa n (block_start (paCfg pa) n i)" if "i \<le> m" for i
  proof (cases "i = m")
    case True
    then show ?thesis using cand_plain(1) [OF rb(3)] by (simp add: free_block_def t(1))
  next
    case False
    with that have "i < m" by simp
    from free_block_insert [OF below [OF this], of ?pa] show ?thesis by (simp add: subset_insertI)
  qed
  have s: "IP_String (arStartIP r) \<notin> paStartIps pa" using free cand_plain(1) [OF rb(3)] by (simp add: free_block_def r)
  show "pa_inv ?pa n"
    by (rule pa_inv_record [OF inv rb(1) [unfolded t(1)] rb(2) [unfolded t(1)] s]) (use t taken r in simp_all)
qed

lemma AllocateFromPool_law:
  assumes inv: "pa_inv pa n" and fuel: "net_size n < fuel"
  shows "\<exists>res pa'. AllocateFromPool fuel ctxErr pa node = Some (res, pa') \<and> pa_inv pa' n \<and> paCfg pa' = paCfg pa \<and>
    (case res of
       Inr r \<Rightarrow> paAllocations pa' node = Some r \<and>
         (if paAllocations pa node = None
          then \<exists>k. first_free pa n k \<and> range_block n (paCfg pa) r (block_start (paCfg pa) n k) \<and>
            paAllocations pa' = (paAllocations pa)(node \<mapsto> r)
          else pa' = pa)
     | Inl e \<Rightarrow> pa' = pa \<and> paAllocations pa node = None \<and>
         (e = ErrNoFreeRanges \<and> (\<forall>k. \<not> free_block pa n (block_start (paCfg pa) n k)) \<or> (\<exists>k c. ctxErr k = Some c \<and> e = CtxErr c)))"
proof (cases "paAllocations pa node")
  case (Some r)
  with inv show ?thesis by (simp add: AllocateFromPool_def)
next
  case None
  let ?cfg = "paCfg pa" and ?L = "net_width n"
  let ?B = "acPerNodeBlockSize ?cfg"
  let ?b = "nat ?B"
  note cfg = pa_invD(1) [OF inv]
  note c = cfg_okD [OF cfg]
  have b: "int ?b - 1 = ?B - 1" using c(4) by simp
  show ?thesis
  proof (cases "ExcludeIndexRangesCover (acPerNodeExclusions ?cfg) (Some (?B - 1))")
    case True
    then have "\<not> free_block pa n s" for s using covered_blocks [OF cfg] by (simp add: free_block_def open_block_def)
    with True None c(4) inv show ?thesis by (simp add: AllocateFromPool_def Let_def)
  next
    case ncov: False
    obtain k where k: "(if paLastAllocatedStartIP pa = [] then getFirstStartIP pa
        else Some (nextIPWithOffsetOrNil (paLastAllocatedStartIP pa) ?B)) = Some (cand ?L (block_start ?cfg n k))"
      "\<forall>i < k. \<not> free_block pa n (block_start ?cfg n i)" using search_start [OF inv] by blast
    let ?s = "block_start ?cfg n k"
    have "net_base n + net_size n - ?s < fuel" using fuel block_above_base [where n = n and cfg = ?cfg and j = k] by linarith
    note loop = allocate_loop_conv [OF cfg block_above_base this, of ctxErr]
    note unf = AllocateFromPool_def [of fuel ctxErr pa node, unfolded None Let_def k(1) option.case]
    have ce: "nextIPWithOffsetOrNil (cand ?L ?s) (?B - 1) = cand_end ?L ?b ?s" unfolding cand_end_def b ..
    from loop show ?thesis
    proof (elim disjE exE conjE)
      fix kk e
      assume "ctxErr kk = Some e" "allocate_loop fuel ctxErr pa (cand ?L ?s) (cand_end ?L ?b ?s) = Some (Inl (CtxErr e))"
      then show ?thesis using c(4) ncov None inv by (simp add: unf ce) blast
    next
      fix j
      let ?t = "block_start ?cfg n (k + j)"
      assume l: "allocate_loop fuel ctxErr pa (cand ?L ?s) (cand_end ?L ?b ?s) = Some (Inr (cand ?L (?s + j * ?b), cand_end ?L ?b (?s + j * ?b)))"
        "\<forall>i < j. \<not> free_block pa n (?s + i * ?b)" "valid_block ?cfg n (?s + j * ?b) \<longrightarrow> free_block pa n (?s + j * ?b)"
      note l = l [unfolded block_start_add]
      have below: "\<not> free_block pa n (block_start ?cfg n i)" if "i < k + j" for i
        using k(2) l(2) that by (metis add_less_cancel_left le_add_diff_inverse linorder_not_less)
      have val: "allocationValid pa (cand ?L ?t) (cand_end ?L ?b ?t) = Some (valid_block ?cfg n ?t)"
        by (rule allocationValid_cand [OF cfg block_above_base])
      show ?thesis
      proof (cases "valid_block ?cfg n ?t")
        case False
        then show ?thesis using none_free_above [OF below False] c(4) ncov None inv l(1) val by (simp add: unf ce)
      next
        case True
        note rcd = record_first_free [OF inv None refl True _ below refl]
        have "AllocateFromPool fuel ctxErr pa node = Some (Inr \<lparr>arStartIP = cand ?L ?t, arEndIP = cand_end ?L ?b ?t\<rparr>,
            pa\<lparr>paAllocations := (paAllocations pa)(node \<mapsto> \<lparr>arStartIP = cand ?L ?t, arEndIP = cand_end ?L ?b ?t\<rparr>),
              paStartIps := insert (IP_String (cand ?L ?t)) (paStartIps pa), paLastAllocatedStartIP := cand ?L ?t\<rparr>)"
          using True c(4) ncov l(1) val by (simp add: unf ce)
        then show ?thesis using rcd l(3) True None by auto
      qed
    qed
  qed
qed

subsection \<open>Theorems\<close>

text \<open>The states of an allocator: created from a pool, then asked for blocks any number of times.\<close>

inductive pa_reach :: "IPPool \<Rightarrow> string set \<Rightarrow> PoolAllocator \<Rightarrow> bool" for p nodes where
  create: "CreatePoolAllocatorFromIPPool p nodes = Some pa \<Longrightarrow> pa_reach p nodes pa"
| allocate: "pa_reach p nodes pa \<Longrightarrow> acSubnet (paCfg pa) = Some n \<Longrightarrow> net_size n < fuel \<Longrightarrow>
    AllocateFromPool fuel ctxErr pa node = Some (res, pa') \<Longrightarrow> pa_reach p nodes pa'"

lemma Create_inv:
  assumes "cfg_ok (ippool_config p) n"
  shows "\<exists>pa. CreatePoolAllocatorFromIPPool p nodes = Some pa \<and> pa_inv pa n \<and> paCfg pa = ippool_config p"
  using load_status_inv [OF pa_inv_new [OF assms]] by (simp add: CreatePoolAllocatorFromIPPool_def newPoolAllocator_def)

lemma pa_reach_inv:
  "pa_reach p nodes pa \<Longrightarrow> cfg_ok (ippool_config p) n \<Longrightarrow> pa_inv pa n \<and> paCfg pa = ippool_config p"
proof (induction rule: pa_reach.induct)
  case (create pa)
  then show ?case using Create_inv [of p n nodes] by auto
next
  case (allocate pa m fuel ctxErr node res pa')
  then have "pa_inv pa n" "paCfg pa = ippool_config p" by blast+
  moreover from this have "m = n" using allocate cfg_okD(1) by fastforce
  ultimately show ?case using AllocateFromPool_law [of pa n fuel ctxErr node] allocate by auto
qed

definition range_has :: "AllocatedRange \<Rightarrow> net_ip \<Rightarrow> bool" where
  "range_has r x \<longleftrightarrow> 0 \<le> Cmp x (arStartIP r) \<and> 0 \<le> Cmp (arEndIP r) x"

lemma pa_inv_inside:
  assumes inv: "pa_inv pa n" and r: "paAllocations pa a = Some r"
  shows "IPNet_Contains n (arStartIP r) \<and> IPNet_Contains n (arEndIP r) \<and>
    Distance (arStartIP r) (arEndIP r) = Inr (acPerNodeBlockSize (paCfg pa) - 1)"
proof -
  note c = cfg_okD [OF pa_invD(1) [OF inv]]
  let ?b = "nat (acPerNodeBlockSize (paCfg pa))"
  obtain k where k: "range_block n (paCfg pa) r (first_val n + k * ?b)" "first_val n + k * ?b + ?b \<le> net_base n + net_size n"
    using pa_invD(2) [OF inv r] by blast
  have base: "net_base n \<le> first_val n" by (rule last_val_bounds(5))
  have "IPNet_Contains n (arStartIP r)" "IPNet_Contains n (arEndIP r)"
    using k base c(5) by (auto simp: IPNet_Contains_iff [OF c(2)] wf_net_ip_len [OF c(2)] range_block_def)
  moreover have "Distance (arStartIP r) (arEndIP r) = Inr (acPerNodeBlockSize (paCfg pa) - 1)"
    using k(1) c(4,5,8) by (simp add: Distance_conv range_block_def of_nat_diff)
  ultimately show ?thesis by blast
qed

lemma pa_inv_apart:
  assumes inv: "pa_inv pa n" and r: "paAllocations pa a = Some r" "paAllocations pa b = Some r'" "a \<noteq> b"
  shows "\<not> (\<exists>x. range_has r x \<and> range_has r' x)"
proof -
  let ?b = "nat (acPerNodeBlockSize (paCfg pa))"
  obtain k where k: "range_block n (paCfg pa) r (first_val n + k * ?b)" using pa_invD(2) [OF inv r(1)] by blast
  obtain k' where k': "range_block n (paCfg pa) r' (first_val n + k' * ?b)" using pa_invD(2) [OF inv r(2)] by blast
  have "first_val n + k * ?b \<noteq> first_val n + k' * ?b" using pa_invD(5) [OF inv r] k k' by (simp add: range_block_def)
  from grid_disjoint [OF this cfg_okD(5) [OF pa_invD(1) [OF inv]]] show ?thesis
    using k k' by (auto simp: range_has_def Cmp_iffs range_block_def)
qed

text \<open>C9: The blocks of different nodes never overlap: in every state the pool allocator can reach from a valid pool,
  whatever allocations the status of the pool held before and in whatever order nodes ask, the block of a node has
  exactly the configured number of addresses, all inside the subnet, and shares no address with the block of another
  node.\<close>

theorem pool_blocks_disjoint:
  assumes "cfg_ok (ippool_config p) n" "pa_reach p nodes pa" "paAllocations pa a = Some r" "paAllocations pa b = Some r'" "a \<noteq> b"
  shows "IPNet_Contains n (arStartIP r) \<and> IPNet_Contains n (arEndIP r) \<and>
    Distance (arStartIP r) (arEndIP r) = Inr (ipPerNodeBlockSize (ipSpec p) - 1) \<and> \<not> (\<exists>x. range_has r x \<and> range_has r' x)"
proof -
  have inv: "pa_inv pa n" and pc: "paCfg pa = ippool_config p" using pa_reach_inv [OF assms(2,1)] by blast+
  show ?thesis
    using pa_inv_inside [OF inv assms(3)] pa_inv_apart [OF inv assms(3-5)] unfolding pc by (simp add: ippool_config_def Let_def)
qed

text \<open>A pool with room for three blocks, of which one is excluded.\<close>

definition demo_pool :: IPPool where
  "demo_pool = \<lparr>ipName = ''pool1'', ipNamespace = ''kube-system'',
     ipSpec = \<lparr>ipSubnet = ''10.0.0.0/28'', ipPerNodeBlockSize = 4,
       ipExclusions = [\<lparr>erStartIP = ''10.0.0.1'', erEndIP = ''10.0.0.4''\<rparr>],
       ipPerNodeExclusions = [\<lparr>eiStartIndex = 0, eiEndIndex = 1\<rparr>], ipGateway = ''10.0.0.14'', ipNodeSelector = None,
       ipDefaultGateway = False, ipRoutes = []\<rparr>,
     ipStatus = \<lparr>ipAllocations = [\<lparr>alNodeName = ''b'', alStartIP = ''10.0.0.9'', alEndIP = ''10.0.0.12''\<rparr>]\<rparr>\<rparr>"

definition demo_net :: IPNet where
  "demo_net = \<lparr>ipnIP = [10, 0, 0, 0], ipnMask = [255, 255, 255, 240]\<rparr>"

lemma demo_cfg: "cfg_ok (ippool_config demo_pool) demo_net"
  by code_simp

definition demo_run :: "PoolAllocator option" where
  "demo_run = (case CreatePoolAllocatorFromIPPool demo_pool {''a'', ''b''} of
     None \<Rightarrow> None
   | Some pa \<Rightarrow> map_option snd (AllocateFromPool 17 (\<lambda>_. None) pa ''a''))"

theorem pool_blocks_disjoint_witness:
  "\<exists>pa r r'. demo_run = Some pa \<and> paAllocations pa ''a'' = Some r \<and> paAllocations pa ''b'' = Some r' \<and>
     \<not> (\<exists>x. range_has r x \<and> range_has r' x)"
proof -
  obtain pa0 where pa0: "CreatePoolAllocatorFromIPPool demo_pool {''a'', ''b''} = Some pa0" "paCfg pa0 = ippool_config demo_pool" "pa_inv pa0 demo_net"
    using Create_inv [OF demo_cfg] by blast
  have sz: "net_size demo_net < 17" by code_simp
  obtain res pa where pa: "AllocateFromPool 17 (\<lambda>_. None) pa0 ''a'' = Some (res, pa)"
    using AllocateFromPool_law [OF pa0(3) sz] by blast
  have run: "demo_run = Some pa" using pa0(1) pa by (simp add: demo_run_def)
  have sub: "acSubnet (paCfg pa0) = Some demo_net" using cfg_okD(1) [OF demo_cfg] pa0(2) by simp
  have reach: "pa_reach demo_pool {''a'', ''b''} pa"
    by (rule pa_reach.allocate [OF pa_reach.create [OF pa0(1)] sub sz pa])
  have "map_option (\<lambda>pa. (paAllocations pa ''a'' \<noteq> None, paAllocations pa ''b'' \<noteq> None)) demo_run = Some (True, True)" by code_simp
  then obtain r r' where r: "paAllocations pa ''a'' = Some r" "paAllocations pa ''b'' = Some r'" by (auto simp: run)
  show ?thesis using pool_blocks_disjoint [OF demo_cfg reach r] run r by auto
qed

text \<open>C10: \<open>AllocateFromPool\<close> is first fit and never misses a block.  With more fuel than addresses in the subnet it
  returns; a node that has a block gets the same block again; otherwise the node gets the lowest block of the grid that
  fits into the subnet below the broadcast address, is not taken, has an address that is not excluded and is not just
  the gateway.  \<open>ErrNoFreeRanges\<close> means that there is no such block at all, and the only other error is the
  cancellation of the context; on an error nothing changes.  The invariant of the allocator is kept.\<close>

theorem AllocateFromPool_first_fit:
  assumes "pa_inv pa n" "net_size n < fuel"
  shows "\<exists>res pa'. AllocateFromPool fuel ctxErr pa node = Some (res, pa') \<and> pa_inv pa' n \<and> paCfg pa' = paCfg pa \<and>
    (case res of
       Inr r \<Rightarrow> paAllocations pa' node = Some r \<and>
         (if paAllocations pa node = None
          then \<exists>k. first_free pa n k \<and> range_block n (paCfg pa) r (block_start (paCfg pa) n k) \<and>
            paAllocations pa' = (paAllocations pa)(node \<mapsto> r)
          else pa' = pa)
     | Inl e \<Rightarrow> pa' = pa \<and> paAllocations pa node = None \<and>
         (e = ErrNoFreeRanges \<and> (\<forall>k. \<not> free_block pa n (block_start (paCfg pa) n k)) \<or> (\<exists>k c. ctxErr k = Some c \<and> e = CtxErr c)))"
  by (rule AllocateFromPool_law [OF assms])

theorem AllocateFromPool_first_fit_witness:
  "\<exists>k r. first_free (newPoolAllocator (ippool_config demo_pool)) demo_net k \<and>
     range_block demo_net (ippool_config demo_pool) r (block_start (ippool_config demo_pool) demo_net k) \<and>
     map_option fst (AllocateFromPool 17 (\<lambda>_. None) (newPoolAllocator (ippool_config demo_pool)) ''a'') = Some (Inr r) \<and>
     r = \<lparr>arStartIP = [10, 0, 0, 5], arEndIP = [10, 0, 0, 8]\<rparr>"
proof -
  let ?pa = "newPoolAllocator (ippool_config demo_pool)" and ?r = "\<lparr>arStartIP = [10, 0, 0, 5], arEndIP = [10, 0, 0, 8]\<rparr>"
  have sz: "net_size demo_net < 17" by code_simp
  have res: "map_option fst (AllocateFromPool 17 (\<lambda>_. None) ?pa ''a'') = Some (Inr ?r)" by code_simp
  have n: "paAllocations ?pa ''a'' = None" "paCfg ?pa = ippool_config demo_pool" by (simp_all add: newPoolAllocator_def)
  from AllocateFromPool_first_fit [OF pa_inv_new [OF demo_cfg] sz, of "\<lambda>_. None" "''a''"] res show ?thesis
    by (auto simp: n)
qed

text \<open>\<open>isEntireRangeExcluded\<close>, which works by converting, clamping, merging and comparing address strings, decides
  whether a block has no address left: it answers true exactly when every address of the block is in an excluded range
  or at an excluded index of the block.\<close>

theorem isEntireRangeExcluded_iff:
  assumes "cfg_ok (paCfg pa) n" "range_block n (paCfg pa) r s" "net_base n \<le> s"
    "s + nat (acPerNodeBlockSize (paCfg pa)) \<le> net_base n + net_size n"
  shows "isEntireRangeExcluded pa r \<longleftrightarrow>
    (\<forall>v. s \<le> v \<and> v < s + nat (acPerNodeBlockSize (paCfg pa)) \<longrightarrow>
       ers_val (acExcludeRanges (paCfg pa)) v \<or> index_covered (acPerNodeExclusions (paCfg pa)) (int v - int s))"
proof -
  have "0 < nat (acPerNodeBlockSize (paCfg pa))" by (rule cfg_okD(5) [OF assms(1)])
  then have "v \<le> s + nat (acPerNodeBlockSize (paCfg pa)) - 1 \<longleftrightarrow> v < s + nat (acPerNodeBlockSize (paCfg pa))" for v by linarith
  then show ?thesis unfolding isEntireRangeExcluded_block [OF assms] block_excluded_def excluded_at_def by simp
qed

theorem isEntireRangeExcluded_iff_witness:
  "isEntireRangeExcluded (newPoolAllocator (ippool_config demo_pool)) \<lparr>arStartIP = [10, 0, 0, 1], arEndIP = [10, 0, 0, 4]\<rparr> \<and>
   (ers_val (ipExclusions (ipSpec demo_pool)) 167772164 \<or> index_covered (ipPerNodeExclusions (ipSpec demo_pool)) 3)"
proof -
  let ?pa = "newPoolAllocator (ippool_config demo_pool)" and ?r = "\<lparr>arStartIP = [10, 0, 0, 1], arEndIP = [10, 0, 0, 4]\<rparr>"
  have pc: "paCfg ?pa = ippool_config demo_pool" by (simp add: newPoolAllocator_def)
  have cfg: "cfg_ok (paCfg ?pa) demo_net" unfolding pc by (rule demo_cfg)
  have f: "acExcludeRanges (ippool_config demo_pool) = ipExclusions (ipSpec demo_pool)"
    "acPerNodeExclusions (ippool_config demo_pool) = ipPerNodeExclusions (ipSpec demo_pool)"
    "nat (acPerNodeBlockSize (ippool_config demo_pool)) = 4"
    by (simp_all add: ippool_config_def Let_def demo_pool_def)
  have r: "range_block demo_net (paCfg ?pa) ?r 167772161" "net_base demo_net \<le> 167772161"
    "167772161 + nat (acPerNodeBlockSize (paCfg ?pa)) \<le> net_base demo_net + net_size demo_net"
    unfolding pc by code_simp+
  have ex: "isEntireRangeExcluded ?pa ?r" by code_simp
  from isEntireRangeExcluded_iff [OF cfg r] ex show ?thesis unfolding pc f by (auto dest: spec [of _ 167772164])
qed

text \<open>Loading and allocating disagree on the last block: an allocation that ends at the broadcast address is never
  handed out by \<open>AllocateFromPool\<close>, but \<open>load\<close> accepts it from the status of a pool, and the node keeps it.\<close>

theorem load_accepts_broadcast:
  "let p = \<lparr>ipName = ''pool1'', ipNamespace = [],
         ipSpec = \<lparr>ipSubnet = ''10.0.0.0/28'', ipPerNodeBlockSize = 5, ipExclusions = [], ipPerNodeExclusions = [], ipGateway = [],
           ipNodeSelector = None, ipDefaultGateway = False, ipRoutes = []\<rparr>,
         ipStatus = \<lparr>ipAllocations = [\<lparr>alNodeName = ''a'', alStartIP = ''10.0.0.11'', alEndIP = ''10.0.0.15''\<rparr>]\<rparr>\<rparr>
   in IsBroadcast (ParseIP ''10.0.0.15'') (Some demo_net) = Some True \<and>
      (case CreatePoolAllocatorFromIPPool p {''a''} of
         None \<Rightarrow> False
       | Some pa \<Rightarrow> map_option fst (AllocateFromPool 17 (\<lambda>_. None) pa ''a'') =
           Some (Inr \<lparr>arStartIP = ParseIP ''10.0.0.11'', arEndIP = ParseIP ''10.0.0.15''\<rparr>) \<and>
         allocationValid pa (ParseIP ''10.0.0.11'') (ParseIP ''10.0.0.15'') = Some False)"
  by code_simp

end
