(* ===== verification/Validation.thy ===== *)
theory Validation
  imports PoolAllocator
begin

text \<open>
  Package \<open>api/v1alpha1\<close>: validation of \<open>IPPool\<close> and \<open>CIDRPool\<close> objects (\<open>ippool_validate.go\<close>,
  \<open>cidrpool_validate.go\<close>, \<open>validate_exclusions.go\<close>, \<open>validate_routes.go\<close>, \<open>validate_nodeselector.go\<close>) and the
  admission webhooks (\<open>ippool_webhook.go\<close>, \<open>cidrpool_webhook.go\<close>).  A \<open>field.Error\<close> keeps its type, its path and
  its detail text; the offending value is what the path points to.  The three checks that live in other packages, the CNI
  network name, the label name and the DNS subdomain name, are the fields of the parameter \<open>ext_validation\<close>.
\<close>

subsection \<open>Field errors\<close>

datatype error_type = ErrorTypeInvalid | ErrorTypeRequired | ErrorTypeForbidden

datatype path_elem = Child string | Index nat

record field_error =
  feType :: error_type
  feField :: "path_elem list"
  feDetail :: string

definition field_Invalid :: "path_elem list \<Rightarrow> string \<Rightarrow> field_error" where
  "field_Invalid p d = \<lparr>feType = ErrorTypeInvalid, feField = p, feDetail = d\<rparr>"

definition field_Required :: "path_elem list \<Rightarrow> string \<Rightarrow> field_error" where
  "field_Required p d = \<lparr>feType = ErrorTypeRequired, feField = p, feDetail = d\<rparr>"

definition field_Forbidden :: "path_elem list \<Rightarrow> string \<Rightarrow> field_error" where
  "field_Forbidden p d = \<lparr>feType = ErrorTypeForbidden, feField = p, feDetail = d\<rparr>"

record ext_validation =
  evNetworkName :: "string \<Rightarrow> bool"
  evLabelName :: "string \<Rightarrow> path_elem list \<Rightarrow> field_error list"
  evNameIsDNSSubdomain :: "string \<Rightarrow> string list"

definition itoa :: "int \<Rightarrow> string" where
  "itoa i = (if i < 0 then CHR ''-'' # utoa (nat (- i)) else utoa (nat i))"

text \<open>Conversion of an \<open>int\<close> to \<open>int32\<close>.\<close>

definition to_int32 :: "int \<Rightarrow> int" where
  "to_int32 i = (i + 2 ^ 31) mod 2 ^ 32 - 2 ^ 31"

definition MaxInt32 :: int where
  "MaxInt32 = 2 ^ 31 - 1"

definition err_if :: "bool \<Rightarrow> field_error \<Rightarrow> field_error list" where
  "err_if c e = (if c then [e] else [])"

definition concat_indexed :: "(nat \<Rightarrow> 'a \<Rightarrow> field_error list) \<Rightarrow> 'a list \<Rightarrow> field_error list" where
  "concat_indexed f xs = concat (map (\<lambda>(i, x). f i x) (enumerate 0 xs))"

subsection \<open>Exclusions and routes\<close>

definition validateExclusions :: "IPNet \<Rightarrow> ExcludeRange list \<Rightarrow> path_elem list \<Rightarrow> field_error list" where
  "validateExclusions subnet exclusions fldPath =
     concat_indexed (\<lambda>i e.
       let p = fldPath @ [Child ''exclusions'', Index i];
           notPart = ''is not part of the '' @ IPNet_String subnet @ '' subnet'';
           startIP = ParseIP (erStartIP e);
           endIP = ParseIP (erEndIP e)
       in (if length startIP = 0 then [field_Invalid (p @ [Child ''startIP'']) ''is invalid IP address'']
           else err_if (\<not> IPNet_Contains subnet startIP) (field_Invalid (p @ [Child ''startIP'']) notPart)) @
          (if length endIP = 0 then [field_Invalid (p @ [Child ''endIP'']) ''is invalid IP address'']
           else err_if (\<not> IPNet_Contains subnet endIP) (field_Invalid (p @ [Child ''endIP'']) notPart)) @
          err_if (0 < length startIP \<and> 0 < length endIP \<and> Cmp endIP startIP < 0)
            (field_Invalid p ''endIP should be equal or greater than startIP'')) exclusions"

text \<open>The loop shared by the two validations of index exclusions, which differ in the largest index and in one text.\<close>

definition index_errors :: "string \<Rightarrow> int \<Rightarrow> ExcludeIndexRange list \<Rightarrow> path_elem list \<Rightarrow> field_error list" where
  "index_errors what maxIndex exclusions fldPath =
     concat_indexed (\<lambda>i e.
       let p = fldPath @ [Child ''perNodeExclusions'', Index i];
           outside = ''index is outside of the per-node '' @ what @ '' range (max: '' @ itoa maxIndex @ '')''
       in err_if (eiStartIndex e < 0) (field_Invalid (p @ [Child ''startIndex'']) ''must be non-negative'') @
          err_if (eiEndIndex e < 0) (field_Invalid (p @ [Child ''endIndex'']) ''must be non-negative'') @
          err_if (eiEndIndex e < eiStartIndex e) (field_Invalid p ''endIndex must be greater than or equal to startIndex'') @
          err_if (maxIndex < eiStartIndex e) (field_Invalid (p @ [Child ''startIndex'']) outside) @
          err_if (maxIndex < eiEndIndex e) (field_Invalid (p @ [Child ''endIndex'']) outside)) exclusions"

definition validatePerNodeExclusions :: "IPNet \<Rightarrow> int \<Rightarrow> ExcludeIndexRange list \<Rightarrow> path_elem list \<Rightarrow> field_error list" where
  "validatePerNodeExclusions subnet perNodeNetworkPrefix exclusions fldPath =
     (let hostBits = snd (Mask_Size (ipnMask subnet)) - perNodeNetworkPrefix;
          ipCount = (if hostBits \<le> 0 then 1 else 2 ^ nat hostBits) :: int;
          maxIndexBig = ipCount - 1;
          maxIndex = (if maxIndexBig < MaxInt32 then maxIndexBig else MaxInt32)
      in index_errors ''subnet'' maxIndex exclusions fldPath)"

definition validatePerNodeExclusionsForBlockSize :: "int \<Rightarrow> ExcludeIndexRange list \<Rightarrow> path_elem list \<Rightarrow> field_error list" where
  "validatePerNodeExclusionsForBlockSize perNodeBlockSize exclusions fldPath =
     (let maxIndex = (if MaxInt32 < perNodeBlockSize - 1 then MaxInt32 else to_int32 (perNodeBlockSize - 1))
      in index_errors ''block'' maxIndex exclusions fldPath)"

definition isDefaultRoute :: "IPNet \<Rightarrow> bool" where
  "isDefaultRoute ipNet =
     (if To4 (ipnIP ipNet) \<noteq> [] \<and> IPNet_String ipNet = ''0.0.0.0/0'' then True
      else if To4 (ipnIP ipNet) = [] \<and> IPNet_String ipNet = ''::/0'' then True
      else False)"

definition validateRoutes :: "Route list \<Rightarrow> IPNet option \<Rightarrow> bool \<Rightarrow> path_elem list \<Rightarrow> field_error list" where
  "validateRoutes routes network defaultGateway fldPath =
     concat_indexed (\<lambda>i r.
       let p = fldPath @ [Child ''routes'', Index i, Child ''dst''];
           routeNet = map_option snd (ParseCIDR (rtDst r))
       in err_if (routeNet = None) (field_Invalid p ''is invalid subnet'') @
          (case (routeNet, network) of
             (Some rn, Some nw) \<Rightarrow>
               err_if ((To4 (ipnIP rn) \<noteq> []) \<noteq> (To4 (ipnIP nw) \<noteq> [])) (field_Invalid p ''is not same address family IPv4/IPv6'')
           | _ \<Rightarrow> []) @
          (case routeNet of
             Some rn \<Rightarrow>
               err_if (defaultGateway \<and> isDefaultRoute rn)
                 (field_Invalid p ''default route is not allowed if 'defaultGateway' is true'')
           | None \<Rightarrow> [])) routes"

subsection \<open>Node selectors\<close>

definition validateNodeSelectorRequirement ::
    "ext_validation \<Rightarrow> NodeSelectorRequirement \<Rightarrow> path_elem list \<Rightarrow> field_error list" where
  "validateNodeSelectorRequirement ev rq fldPath =
     (if nrOperator rq \<in> {''In'', ''NotIn''} then
        err_if (length (nrValues rq) = 0)
          (field_Required (fldPath @ [Child ''values'']) (''must be specified when `operator` is 'In' or 'NotIn'' @ [CHR 0x27]))
      else if nrOperator rq \<in> {''Exists'', ''DoesNotExist''} then
        err_if (0 < length (nrValues rq))
          (field_Forbidden (fldPath @ [Child ''values'']) (''may not be specified when `operator` is 'Exists' or 'DoesNotExist'' @ [CHR 0x27]))
      else if nrOperator rq \<in> {''Gt'', ''Lt''} then
        err_if (length (nrValues rq) \<noteq> 1)
          (field_Required (fldPath @ [Child ''values'']) (''must be specified single value when `operator` is 'Lt' or 'Gt'' @ [CHR 0x27]))
      else [field_Invalid (fldPath @ [Child ''operator'']) ''not a valid selector operator'']) @
     evLabelName ev (nrKey rq) (fldPath @ [Child ''key''])"

definition validateNodeFieldSelectorRequirement ::
    "ext_validation \<Rightarrow> NodeSelectorRequirement \<Rightarrow> path_elem list \<Rightarrow> field_error list" where
  "validateNodeFieldSelectorRequirement ev req fldPath =
     (if nrOperator req \<in> {''In'', ''NotIn''} then
        err_if (length (nrValues req) \<noteq> 1)
          (field_Required (fldPath @ [Child ''values''])
             ''must be only one value when `operator` is 'In' or 'NotIn' for node field selector'')
      else [field_Invalid (fldPath @ [Child ''operator'']) ''not a valid selector operator'']) @
     (if nrKey req \<noteq> ''metadata.name'' then [field_Invalid (fldPath @ [Child ''key'']) ''not a valid field selector key'']
      else concat_indexed (\<lambda>i v.
             map (field_Invalid (fldPath @ [Child ''values'', Index i])) (evNameIsDNSSubdomain ev v)) (nrValues req))"

definition validateNodeSelectorTerm :: "ext_validation \<Rightarrow> NodeSelectorTerm \<Rightarrow> path_elem list \<Rightarrow> field_error list" where
  "validateNodeSelectorTerm ev term fldPath =
     concat_indexed (\<lambda>j req. validateNodeSelectorRequirement ev req (fldPath @ [Child ''matchExpressions'', Index j]))
       (ntMatchExpressions term) @
     concat_indexed (\<lambda>j req. validateNodeFieldSelectorRequirement ev req (fldPath @ [Child ''matchFields'', Index j]))
       (ntMatchFields term)"

definition validateNodeSelector :: "ext_validation \<Rightarrow> NodeSelector \<Rightarrow> path_elem list \<Rightarrow> field_error list" where
  "validateNodeSelector ev nodeSelector fldPath =
     (let termFldPath = fldPath @ [Child ''nodeSelectorTerms'']
      in if length nodeSelector = 0 then [field_Required termFldPath ''must have at least one node selector term'']
         else concat_indexed (\<lambda>i term. validateNodeSelectorTerm ev term (termFldPath @ [Index i])) nodeSelector)"

subsection \<open>IPPool\<close>

definition IPPool_Validate :: "ext_validation \<Rightarrow> IPPool \<Rightarrow> field_error list" where
  "IPPool_Validate ev r =
     (let spec = ipSpec r; sp = [Child ''spec''];
          network = map_option snd (ParseCIDR (ipSubnet spec));
          blockSize = ipPerNodeBlockSize spec;
          parsedGW = (if ipGateway spec \<noteq> [] then ParseIP (ipGateway spec) else [])
      in err_if (\<not> evNetworkName ev (ipName r))
           (field_Invalid [Child ''metadata'', Child ''name''] ''invalid IP pool name, should be compatible with CNI network name'') @
         err_if (network = None) (field_Invalid (sp @ [Child ''subnet'']) ''is invalid subnet'') @
         err_if (blockSize < 1) (field_Invalid (sp @ [Child ''perNodeBlockSize'']) ''must be at least 1'') @
         (case network of
            Some n \<Rightarrow> err_if (1 \<le> blockSize \<and> GetPossibleIPCount n < blockSize)
              (field_Invalid (sp @ [Child ''perNodeBlockSize'']) ''is larger then amount of IPs available in the subnet'')
          | None \<Rightarrow> []) @
         (case network of Some n \<Rightarrow> validateExclusions n (ipExclusions spec) sp | None \<Rightarrow> []) @
         (if 1 \<le> blockSize then validatePerNodeExclusionsForBlockSize blockSize (ipPerNodeExclusions spec) sp else []) @
         err_if (ipGateway spec \<noteq> [] \<and> length parsedGW = 0) (field_Invalid (sp @ [Child ''gateway'']) ''is invalid IP address'') @
         (case network of
            Some n \<Rightarrow> err_if (length parsedGW \<noteq> 0 \<and> \<not> IPNet_Contains n parsedGW)
              (field_Invalid (sp @ [Child ''gateway'']) ''is not part of the subnet'')
          | None \<Rightarrow> []) @
         (case ipNodeSelector spec of Some sel \<Rightarrow> validateNodeSelector ev sel sp | None \<Rightarrow> []) @
         (if ipGateway spec = [] then
            err_if (ipDefaultGateway spec) (field_Invalid (sp @ [Child ''defaultGateway'']) ''cannot be true if spec.gateway is not set'') @
            err_if (0 < length (ipRoutes spec)) (field_Invalid (sp @ [Child ''routes'']) ''cannot be set if spec.gateway is not set'')
          else []) @
         validateRoutes (ipRoutes spec) network (ipDefaultGateway spec) sp)"

subsection \<open>CIDRPool\<close>

text \<open>One iteration of the loop of \<open>validateStaticAllocations\<close>: its errors, and the prefix it counts.\<close>

definition static_errors :: "IPNet \<Rightarrow> int \<Rightarrow> nat \<Rightarrow> CIDRPoolStaticAllocation \<Rightarrow> field_error list" where
  "static_errors cidr perNodeNetworkPrefix i alloc =
     (let p = [Child ''spec'', Child ''staticAllocations'', Index i]
      in case ParseCIDR (csPrefix alloc) of
           None \<Rightarrow> [field_Invalid (p @ [Child ''prefix'']) ''is not a valid network prefix'']
         | Some (netIP, nodePrefix) \<Rightarrow>
             if \<not> IP_Equal netIP (ipnIP nodePrefix)
             then [field_Invalid (p @ [Child ''prefix'']) ''network prefix has host bits set'']
             else if \<not> IPNet_Contains cidr (ipnIP nodePrefix)
             then [field_Invalid (p @ [Child ''prefix'']) ''prefix is not part of the pool cidr'']
             else if snd (Mask_Size (ipnMask cidr)) \<noteq> snd (Mask_Size (ipnMask nodePrefix))
             then [field_Invalid (p @ [Child ''prefix'']) ''ip family doesn't match the pool cidr'']
             else if fst (Mask_Size (ipnMask nodePrefix)) \<noteq> perNodeNetworkPrefix
             then [field_Invalid (p @ [Child ''prefix'']) ''prefix size doesn't match spec.perNodeNetworkPrefix'']
             else if csGateway alloc = [] then []
             else
               let gwIP = ParseIP (csGateway alloc)
               in if length gwIP = 0 then [field_Invalid (p @ [Child ''gateway'']) ''is not a valid IP'']
                  else err_if (\<not> IPNet_Contains nodePrefix gwIP)
                    (field_Invalid (p @ [Child ''gateway'']) ''is outside of the node prefix''))"

definition static_prefix :: "CIDRPoolStaticAllocation \<Rightarrow> string list" where
  "static_prefix alloc =
     (case ParseCIDR (csPrefix alloc) of
        None \<Rightarrow> []
      | Some (netIP, nodePrefix) \<Rightarrow> if \<not> IP_Equal netIP (ipnIP nodePrefix) then [] else [IPNet_String nodePrefix])"

text \<open>Go ranges over the two counting maps in an unspecified order; the model takes the keys in the order of their last
  occurrence.\<close>

definition validateStaticAllocations :: "CIDRPool \<Rightarrow> IPNet \<Rightarrow> field_error list" where
  "validateStaticAllocations r cidr =
     (let allocs = cpStaticAllocations (cpSpec r);
          nodes = filter (\<lambda>s. s \<noteq> []) (map csNodeName allocs);
          prefixes = concat (map static_prefix allocs);
          p = [Child ''spec'', Child ''staticAllocations'']
      in concat_indexed (static_errors cidr (cpPerNodeNetworkPrefix (cpSpec r))) allocs @
         concat (map (\<lambda>k. err_if (1 < count_list nodes k) (field_Invalid p (''contains multiple entries for node '' @ k))) (remdups nodes)) @
         concat (map (\<lambda>k. err_if (1 < count_list prefixes k) (field_Invalid p (''contains multiple entries for prefix '' @ k))) (remdups prefixes)))"

definition validateCIDR :: "CIDRPool \<Rightarrow> field_error list" where
  "validateCIDR r =
     (let spec = cpSpec r; sp = [Child ''spec'']; prefix = cpPerNodeNetworkPrefix spec
      in case ParseCIDR (cpCIDR spec) of
           None \<Rightarrow> [field_Invalid (sp @ [Child ''cidr'']) ''is invalid cidr'']
         | Some (netIP, network) \<Rightarrow>
             if \<not> IP_Equal netIP (ipnIP network) then [field_Invalid (sp @ [Child ''cidr'']) ''network prefix has host bits set'']
             else if (case cpGatewayIndex spec of Some gi \<Rightarrow> gi < 0 | None \<Rightarrow> False)
             then [field_Invalid (sp @ [Child ''gatewayIndex'']) ''must not be negative'']
             else if prefix < 0 then [field_Invalid (sp @ [Child ''perNodeNetworkPrefix'']) ''must not be negative'']
             else
               (case Mask_Size (ipnMask network) of (setBits, bitsTotal) \<Rightarrow>
                  if prefix = 0 \<or> to_int32 bitsTotal < prefix \<or> prefix < to_int32 setBits
                  then [field_Invalid (sp @ [Child ''perNodeNetworkPrefix''])
                          ''must be less or equal than network prefix size in the \"cidr\" field'']
                  else
                    let firstNodePrefix = \<lparr>ipnIP = ipnIP network, ipnMask = CIDRMask prefix bitsTotal\<rparr>
                    in (case cpGatewayIndex spec of
                          Some gi \<Rightarrow> err_if (GetGatewayForSubnet firstNodePrefix gi = [])
                            (field_Invalid (sp @ [Child ''gatewayIndex'']) ''gateway index is outside of the node prefix'')
                        | None \<Rightarrow> []) @
                       validateExclusions network (cpExclusions spec) sp @
                       validatePerNodeExclusions network prefix (cpPerNodeExclusions spec) sp @
                       validateStaticAllocations r network))"

definition CIDRPool_Validate :: "ext_validation \<Rightarrow> CIDRPool \<Rightarrow> field_error list" where
  "CIDRPool_Validate ev r =
     (let spec = cpSpec r; sp = [Child ''spec'']
      in err_if (\<not> evNetworkName ev (cpName r))
           (field_Invalid [Child ''metadata'', Child ''name''] ''invalid CIDR pool name, should be compatible with CNI network name'') @
         validateCIDR r @
         (case cpNodeSelector spec of Some sel \<Rightarrow> validateNodeSelector ev sel sp | None \<Rightarrow> []) @
         (if cpGatewayIndex spec = None then
            err_if (cpDefaultGateway spec) (field_Invalid (sp @ [Child ''defaultGateway'']) ''cannot be true if spec.gatewayIndex is not set'') @
            err_if (0 < length (cpRoutes spec)) (field_Invalid (sp @ [Child ''routes'']) ''cannot be set if spec.gatewayIndex is not set'')
          else []) @
         validateRoutes (cpRoutes spec) (map_option snd (ParseCIDR (cpCIDR spec))) (cpDefaultGateway spec) sp)"

text \<open>The loop of \<open>CIDRPoolAllocation.Validate\<close> over the static allocations: \<open>Some\<close> is an early return.\<close>

fun static_match :: "CIDRPoolAllocation \<Rightarrow> string \<Rightarrow> CIDRPoolStaticAllocation list \<Rightarrow> field_error list option" where
  "static_match a computedGW [] = None"
| "static_match a computedGW (st # sts) =
     (if caNodeName a = csNodeName st then
        Some (err_if (caPrefix a \<noteq> csPrefix st)
                (field_Invalid [Child ''prefix''] (''doesn't match prefix from static allocation '' @ csPrefix st)) @
              err_if (csGateway st \<noteq> [] \<and> caGateway a \<noteq> csGateway st)
                (field_Invalid [Child ''gateway''] (''doesn't match gateway from static allocation '' @ csGateway st)) @
              (if csGateway st = [] then
                 err_if (computedGW \<noteq> [] \<and> caGateway a \<noteq> computedGW)
                   (field_Invalid [Child ''gateway''] (''doesn't match computed gateway '' @ computedGW)) @
                 err_if (computedGW = [] \<and> caGateway a \<noteq> []) (field_Invalid [Child ''gateway''] ''gateway expected to be empty'')
               else []))
      else if caPrefix a = csPrefix st then
        Some [field_Invalid [Child ''prefix''] (''is statically allocated for different node: '' @ csNodeName st)]
      else static_match a computedGW sts)"

text \<open>The loop over the allocations of the status: the error text does not print the entry.\<close>

fun conflict_loop :: "CIDRPoolAllocation \<Rightarrow> bool \<Rightarrow> CIDRPoolAllocation list \<Rightarrow> field_error list" where
  "conflict_loop a alreadyFound [] = []"
| "conflict_loop a alreadyFound (e # es) =
     (if (caGateway a \<noteq> [] \<and> caGateway a = caGateway e) \<or> caPrefix a = caPrefix e \<or> caNodeName a = caNodeName e then
        if alreadyFound then [field_Invalid [Child ''status''] ''conflicting allocation found in the pool'']
        else conflict_loop a True es
      else conflict_loop a alreadyFound es)"

text \<open>\<^const>\<open>None\<close> is the panic on a pool whose cidr does not parse.\<close>

definition CIDRPoolAllocation_Validate :: "CIDRPoolAllocation \<Rightarrow> CIDRPool \<Rightarrow> field_error list option" where
  "CIDRPoolAllocation_Validate a pool =
     (let spec = cpSpec pool;
          empty = err_if (caNodeName a = []) (field_Invalid [Child ''nodeName''] ''can't be empty'') @
                  err_if (caPrefix a = []) (field_Invalid [Child ''prefix''] ''can't be empty'')
      in if empty \<noteq> [] then Some empty
         else
           (case ParseCIDR (caPrefix a) of
              None \<Rightarrow> Some [field_Invalid [Child ''prefix''] ''is not a valid network prefix'']
            | Some (netIP, prefixNetwork) \<Rightarrow>
                if \<not> IP_Equal netIP (ipnIP prefixNetwork)
                then Some [field_Invalid [Child ''prefix''] ''network prefix has host bits set'']
                else
                  let computedGW = (case cpGatewayIndex spec of Some gi \<Rightarrow> GetGatewayForSubnet prefixNetwork gi | None \<Rightarrow> [])
                  in (case static_match a computedGW (cpStaticAllocations spec) of
                        Some errs \<Rightarrow> Some errs
                      | None \<Rightarrow>
                          (case ParseCIDR (cpCIDR spec) of
                             None \<Rightarrow> None
                           | Some (_, cidr) \<Rightarrow>
                               if \<not> IPNet_Contains cidr (ipnIP prefixNetwork)
                               then Some [field_Invalid [Child ''prefix''] ''is not part of the pool cidr'']
                               else if snd (Mask_Size (ipnMask cidr)) \<noteq> snd (Mask_Size (ipnMask prefixNetwork))
                               then Some [field_Invalid [Child ''prefix''] ''ip family is not match with the pool cidr'']
                               else if fst (Mask_Size (ipnMask prefixNetwork)) \<noteq> cpPerNodeNetworkPrefix spec
                               then Some [field_Invalid [Child ''prefix''] ''prefix size doesn't match spec.perNodeNetworkPrefix'']
                               else if computedGW \<noteq> [] \<and> caGateway a \<noteq> computedGW
                               then Some [field_Invalid [Child ''gateway''] (''doesn't match computed gateway '' @ computedGW)]
                               else if computedGW = [] \<and> caGateway a \<noteq> []
                               then Some [field_Invalid [Child ''gateway''] ''gateway expected to be empty'']
                               else Some (conflict_loop a False (cpAllocations (cpStatus pool)))))))"

subsection \<open>Webhooks\<close>

text \<open>A webhook answers with the aggregated errors; both functions return no warnings.  The methods get the object under
  admission as an argument next to the receiver \<open>r\<close>.\<close>

definition IPPool_validate :: "ext_validation \<Rightarrow> IPPool \<Rightarrow> field_error list option" where
  "IPPool_validate ev r = (let errList = IPPool_Validate ev r in if length errList = 0 then None else Some errList)"

definition IPPool_ValidateCreate :: "ext_validation \<Rightarrow> IPPool \<Rightarrow> IPPool \<Rightarrow> field_error list option" where
  "IPPool_ValidateCreate ev r obj = IPPool_validate ev r"

definition IPPool_ValidateUpdate :: "ext_validation \<Rightarrow> IPPool \<Rightarrow> IPPool \<Rightarrow> IPPool \<Rightarrow> field_error list option" where
  "IPPool_ValidateUpdate ev r oldObj newObj = IPPool_validate ev r"

definition IPPool_ValidateDelete :: "ext_validation \<Rightarrow> IPPool \<Rightarrow> IPPool \<Rightarrow> field_error list option" where
  "IPPool_ValidateDelete ev r obj = None"

definition CIDRPool_validate :: "ext_validation \<Rightarrow> CIDRPool \<Rightarrow> field_error list option" where
  "CIDRPool_validate ev r = (let errList = CIDRPool_Validate ev r in if length errList = 0 then None else Some errList)"

definition CIDRPool_ValidateCreate :: "ext_validation \<Rightarrow> CIDRPool \<Rightarrow> CIDRPool \<Rightarrow> field_error list option" where
  "CIDRPool_ValidateCreate ev r obj = CIDRPool_validate ev r"

definition CIDRPool_ValidateUpdate :: "ext_validation \<Rightarrow> CIDRPool \<Rightarrow> CIDRPool \<Rightarrow> CIDRPool \<Rightarrow> field_error list option" where
  "CIDRPool_ValidateUpdate ev r oldObj newObj = CIDRPool_validate ev r"

definition CIDRPool_ValidateDelete :: "ext_validation \<Rightarrow> CIDRPool \<Rightarrow> CIDRPool \<Rightarrow> field_error list option" where
  "CIDRPool_ValidateDelete ev r obj = None"

subsection \<open>What an empty error list means\<close>

lemma err_if_Nil [simp]: "err_if c e = [] \<longleftrightarrow> \<not> c"
  by (simp add: err_if_def)

lemma concat_indexed_Nil: "concat_indexed f xs = [] \<longleftrightarrow> (\<forall>i < length xs. f i (xs ! i) = [])"
proof -
  have "set (enumerate 0 xs) = {(i, xs ! i) | i. i < length xs}" by (force simp: in_set_enumerate_eq)
  then show ?thesis by (force simp: concat_indexed_def)
qed

lemma concat_indexed_Nil_set:
  assumes "\<And>i x. f i x = [] \<longleftrightarrow> P x"
  shows "concat_indexed f xs = [] \<longleftrightarrow> (\<forall>x \<in> set xs. P x)"
  by (simp add: concat_indexed_Nil assms all_set_conv_all_nth)

lemma validateExclusions_Nil:
  "validateExclusions n ers p = [] \<longleftrightarrow>
     (\<forall>er \<in> set ers. ParseIP (erStartIP er) \<noteq> [] \<and> ParseIP (erEndIP er) \<noteq> [] \<and> IPNet_Contains n (ParseIP (erStartIP er)) \<and>
        IPNet_Contains n (ParseIP (erEndIP er)) \<and> 0 \<le> Cmp (ParseIP (erEndIP er)) (ParseIP (erStartIP er)))"
  unfolding validateExclusions_def by (rule concat_indexed_Nil_set) (auto simp: Let_def not_less)

lemma index_errors_Nil:
  "index_errors what m xs p = [] \<longleftrightarrow>
     (\<forall>x \<in> set xs. 0 \<le> eiStartIndex x \<and> eiStartIndex x \<le> eiEndIndex x \<and> eiEndIndex x \<le> m)"
  unfolding index_errors_def by (rule concat_indexed_Nil_set) (auto simp: Let_def not_less)

lemma validateExclusions_ok:
  assumes "wf_net n" "validateExclusions n ers p = []" "er \<in> set ers"
  shows "er_ok (length (ipnIP n)) er" "net_base n \<le> er_lo er" "er_hi er < net_base n + net_size n"
proof -
  have "IPNet_Contains n (ParseIP (erStartIP er))" "IPNet_Contains n (ParseIP (erEndIP er))"
    "0 \<le> Cmp (ParseIP (erEndIP er)) (ParseIP (erStartIP er))"
    using assms(2,3) by (auto simp: validateExclusions_Nil)
  then show "er_ok (length (ipnIP n)) er" "net_base n \<le> er_lo er" "er_hi er < net_base n + net_size n"
    using wf_net_ip_len [OF assms(1)] wf_net_width [OF assms(1)]
    by (auto simp: IPNet_Contains_iff [OF assms(1)] er_ok_def Cmp_iffs)
qed

lemma ParseIP_len: "ParseIP s \<noteq> [] \<Longrightarrow> ip_len (ParseIP s) \<noteq> 0"
  using net_text.parse_length [of s] ip_len_width [of "ParseIP s"] by auto

lemma to_int32_id: "- (2 ^ 31) \<le> i \<Longrightarrow> i \<le> MaxInt32 \<Longrightarrow> to_int32 i = i"
  by (simp add: to_int32_def MaxInt32_def)

text \<open>A pool without validation errors gives the block allocator a configuration it can work with.\<close>

lemma IPPool_Validate_cfg:
  assumes v: "IPPool_Validate ev r = []" and n: "ParseCIDR (ipSubnet (ipSpec r)) = Some (ip, n)" "subnet_plain n"
  shows "cfg_ok (ippool_config r) n" "valid_block (ippool_config r) n (first_val n)"
proof -
  let ?spec = "ipSpec r"
  let ?B = "ipPerNodeBlockSize ?spec"
  have wf: "wf_net n" using n(2) by (simp add: subnet_plain_def)
  have B: "1 \<le> ?B" "?B \<le> GetPossibleIPCount n" and ex: "validateExclusions n (ipExclusions ?spec) [Child ''spec''] = []"
    and ix: "validatePerNodeExclusionsForBlockSize ?B (ipPerNodeExclusions ?spec) [Child ''spec''] = []"
    using v by (auto simp: IPPool_Validate_def Let_def n(1) split: if_splits)
  have max: "(if MaxInt32 < ?B - 1 then MaxInt32 else to_int32 (?B - 1)) < ?B"
    using B(1) to_int32_id [of "?B - 1"] by (auto simp: not_less)
  have ixs: "\<forall>x \<in> set (ipPerNodeExclusions ?spec). 0 \<le> eiStartIndex x \<and> eiStartIndex x \<le> eiEndIndex x \<and> eiEndIndex x < ?B"
    using ix max by (fastforce simp: validatePerNodeExclusionsForBlockSize_def Let_def index_errors_Nil)
  have "ParseIP (ipGateway ?spec) = [] \<or> ip_len (ParseIP (ipGateway ?spec)) \<noteq> 0" using ParseIP_len by blast
  then show "cfg_ok (ippool_config r) n"
    using n B(1) ixs validateExclusions_ok [OF wf ex]
    by (auto simp: cfg_ok_def ippool_config_def Let_def)
  show "valid_block (ippool_config r) n (first_val n)"
    using B GetPossibleIPCount_wf [OF wf]
    by (auto simp: valid_block_def ippool_config_def Let_def first_val_def last_val_def nat_le_iff split: if_splits)
qed


definition demo_ev :: ext_validation where
  "demo_ev = \<lparr>evNetworkName = (\<lambda>s. s \<noteq> []), evLabelName = (\<lambda>_ _. []), evNameIsDNSSubdomain = (\<lambda>_. [])\<rparr>"


subsection \<open>CIDR pools\<close>

lemma IPNet_eq: "ipnIP a = ipnIP b \<Longrightarrow> ipnMask a = ipnMask b \<Longrightarrow> a = (b :: IPNet)"
  by (cases a, cases b) simp

text \<open>A canonical network of the prefix size whose base address lies in the pool network is one of the prefixes of the
  iterator.\<close>

lemma prefix_of_pool:
  assumes n: "wf_net n" "NewSubnetIterator (Some n) p = Inr it"
    and m: "wf_net m" "IPNet_Contains n (ipnIP m)" "int (net_ones m) = p" "length (ipnIP m) = length (ipnIP n)"
  shows "\<exists>k. 0 \<le> k \<and> k < siSubnetCount it \<and> m = prefix_at it k"
proof -
  note it = NewSubnetIterator_wf [OF n]
  note ok = iter_okD [OF it(1)]
  let ?c = "siSubnetIPCount it"
  have c: "int (net_size m) = ?c" using ok(1,2,4) it(2,6) m(3,4) by (simp add: net_size_def)
  have in_n: "net_base n \<le> net_base m" "net_base m < net_base n + net_size n"
    using m(2) wf_net_ip_val [OF m(1)] by (simp_all add: IPNet_Contains_iff [OF n(1)])
  have "?c dvd int (net_base m)" using net_size_dvd [OF m(1)] c by (metis int_dvd_int_iff)
  then have "?c dvd int (net_base m) - int (net_base n)" using ok(6) it(3) by (simp add: dvd_diff)
  then obtain k where k: "int (net_base m) - int (net_base n) = ?c * k" by (rule dvdE)
  have k0: "0 \<le> k" using k in_n(1) ok(10) by (metis diff_ge_0_iff_ge of_nat_le_iff zero_le_mult_iff not_less)
  have "?c * k < ?c * siSubnetCount it" using k in_n(2) it(4) by linarith
  then have k1: "k < siSubnetCount it" using ok(10) by simp
  have first: "prefix_first it k = int (net_base m)" using k it(3) by (simp add: prefix_first_def)
  have "m = prefix_at it k"
  proof (rule IPNet_eq)
    show "ipnIP m = ipnIP (prefix_at it k)"
      using m(4) it(2) by (simp add: prefix_at_def first net_base_def be_bytes_be_val flip: m(4))
    show "ipnMask m = ipnMask (prefix_at it k)"
    proof -
      have "ipnMask (prefix_at it k) = mask_bytes (siWidth it) (nat (siPrefixSize it))"
        using CIDRMask_iter [OF it(1)] by (simp add: prefix_at_def)
      then show ?thesis using wf_netD(3) [OF m(1)] m(4) it(2,6) by (simp flip: m(3))
    qed
  qed
  with k0 k1 show ?thesis by blast
qed

definition static_net :: "CIDRPoolStaticAllocation \<Rightarrow> IPNet" where
  "static_net a = snd (the (ParseCIDR (csPrefix a)))"

lemma count_le_1_distinct: "(\<And>x. x \<in> set xs \<Longrightarrow> \<not> 1 < count_list xs x) \<Longrightarrow> distinct xs"
proof (induction xs)
  case (Cons y ys)
  have "count_list (y # ys) y \<le> 1" using Cons.prems [of y] by simp
  then have "y \<notin> set ys" by (simp add: count_list_0_iff)
  moreover have "distinct ys"
  proof (rule Cons.IH)
    fix x
    assume "x \<in> set ys"
    then show "\<not> 1 < count_list ys x" using Cons.prems [of x] by (auto split: if_splits)
  qed
  ultimately show ?case by simp
qed simp

lemma parsed_prefix_wf:
  assumes "wf_net n" "ParseCIDR s = Some (ip, m)" "IPNet_Contains n (ipnIP m)"
    "snd (Mask_Size (ipnMask n)) = snd (Mask_Size (ipnMask m))"
  shows "wf_net m" "length (ipnIP m) = length (ipnIP n)"
proof -
  have len: "ip_len (ipnIP m) = length (ipnIP n)"
    using assms(3) by (simp add: IPNet_Contains_iff [OF assms(1)] wf_net_ip_len [OF assms(1)])
  show wf: "wf_net m"
  proof (cases "length (ipnIP n) = 16")
    case True
    with len have "To4 (ipnIP m) = []" using ip_len_eq_16_iff by simp
    then show ?thesis by (intro ParseCIDR_wf(2) [OF assms(2)]) simp
  next
    case False
    then have "length (ipnIP n) = 4" using wf_net_width [OF assms(1)] by simp
    then have "snd (Mask_Size (ipnMask m)) = 32" using assms(4) wf_net_Size [OF assms(1)] by simp
    then have "length (ipnMask m) = 4" by (auto simp: Mask_Size_def split: option.splits)
    moreover have "length ip = 16" "ipnIP m = IP_Mask ip (ipnMask m)" using ParseCIDR_wf [OF assms(2)] by blast+
    ultimately have "length (ipnIP m) = 4 \<or> length (ipnIP m) = 0" by (auto simp: IP_Mask_def Let_def)
    with len \<open>length (ipnIP n) = 4\<close> have "length (ipnIP m) = 4" by auto
    then show ?thesis by (intro ParseCIDR_wf(2) [OF assms(2)]) simp
  qed
  show "length (ipnIP m) = length (ipnIP n)" using len wf_net_ip_len [OF wf] by simp
qed

lemma static_errors_Nil:
  assumes wf: "wf_net n" and ok: "static_errors n p i a = []"
  shows "wf_net (static_net a)" "IPNet_Contains n (ipnIP (static_net a))" "int (net_ones (static_net a)) = p"
    "length (ipnIP (static_net a)) = length (ipnIP n)" "ParseCIDR (csPrefix a) \<noteq> None"
    "csGateway a = [] \<or> IPNet_Contains (static_net a) (ParseIP (csGateway a))"
    "static_prefix a = [IPNet_String (static_net a)]"
proof -
  obtain ip m where m: "ParseCIDR (csPrefix a) = Some (ip, m)"
    using ok by (cases "ParseCIDR (csPrefix a)") (auto simp: static_errors_def Let_def)
  have sn: "static_net a = m" by (simp add: static_net_def m)
  note unf = ok [unfolded static_errors_def Let_def m option.case prod.case]
  have c: "IP_Equal ip (ipnIP m)" "IPNet_Contains n (ipnIP m)" "snd (Mask_Size (ipnMask n)) = snd (Mask_Size (ipnMask m))"
    "fst (Mask_Size (ipnMask m)) = p" "csGateway a = [] \<or> IPNet_Contains m (ParseIP (csGateway a))"
    using unf by (auto split: if_splits)
  note w = parsed_prefix_wf [OF wf m c(2,3)]
  show "wf_net (static_net a)" "IPNet_Contains n (ipnIP (static_net a))" "int (net_ones (static_net a)) = p"
    "length (ipnIP (static_net a)) = length (ipnIP n)" "ParseCIDR (csPrefix a) \<noteq> None"
    "csGateway a = [] \<or> IPNet_Contains (static_net a) (ParseIP (csGateway a))"
    "static_prefix a = [IPNet_String (static_net a)]"
    unfolding sn using w c m wf_net_Size [OF w(1)] by (auto simp: static_prefix_def)
qed

text \<open>What a validated \<open>CIDRPool\<close> guarantees to the code that splits it.\<close>

definition cidr_ok :: "CIDRPool \<Rightarrow> IPNet \<Rightarrow> SubnetIterator \<Rightarrow> bool" where
  "cidr_ok r n it \<longleftrightarrow> wf_net n \<and> NewSubnetIterator (Some n) (cpPerNodeNetworkPrefix (cpSpec r)) = Inr it \<and>
     (\<forall>gi k. cpGatewayIndex (cpSpec r) = Some gi \<and> 0 \<le> k \<and> k < siSubnetCount it \<longrightarrow> gateway_index_ok (prefix_at it k) gi) \<and>
     (\<forall>er \<in> set (cpExclusions (cpSpec r)). er_ok (length (ipnIP n)) er \<and> net_base n \<le> er_lo er \<and> er_hi er < net_base n + net_size n) \<and>
     (\<forall>x \<in> set (cpPerNodeExclusions (cpSpec r)). 0 \<le> eiStartIndex x \<and> eiStartIndex x \<le> eiEndIndex x \<and> eiEndIndex x < siSubnetIPCount it) \<and>
     (\<forall>a \<in> set (cpStaticAllocations (cpSpec r)). ParseCIDR (csPrefix a) \<noteq> None \<and>
        (\<exists>k. 0 \<le> k \<and> k < siSubnetCount it \<and> static_net a = prefix_at it k) \<and>
        (csGateway a = [] \<or> IPNet_Contains (static_net a) (ParseIP (csGateway a)))) \<and>
     distinct (filter (\<lambda>s. s \<noteq> []) (map csNodeName (cpStaticAllocations (cpSpec r)))) \<and>
     distinct (map static_net (cpStaticAllocations (cpSpec r)))"

lemma wf_prefix_eq: "wf_net m \<Longrightarrow> wf_net m' \<Longrightarrow> IPNet_String m = IPNet_String m' \<longleftrightarrow> m = m'"
  by (metis ParseCIDR_IPNet_String option.inject prod.inject)

lemma iter_width: "NewSubnetIterator (Some n) p = Inr it \<Longrightarrow> wf_net n \<Longrightarrow> length (ipnIP (prefix_at it k)) = length (ipnIP n)"
  using NewSubnetIterator_wf(2) [of n p it] by (simp add: prefix_at_def)

lemma gateway_index_first:
  assumes "wf_net n" "net_clear n" "NewSubnetIterator (Some n) p = Inr it" "0 \<le> k" "k < siSubnetCount it"
    "GetGatewayForSubnet \<lparr>ipnIP = ipnIP n, ipnMask = CIDRMask p (8 * int (length (ipnIP n)))\<rparr> gi \<noteq> []"
  shows "gateway_index_ok (prefix_at it k) gi"
proof -
  note it = NewSubnetIterator_wf [OF assms(1,3)]
  have c0: "0 < siSubnetCount it" using it(7) by simp
  have b: "be_bytes (siWidth it) (nat (siNetworkIPAsInt it)) = ipnIP n" by (simp add: it(2,3) net_base_def be_bytes_be_val)
  have first: "\<lparr>ipnIP = ipnIP n, ipnMask = CIDRMask p (8 * int (length (ipnIP n)))\<rparr> = prefix_at it 0"
    using iter_okD(1) [OF it(1)] it(2,6) b by (simp add: prefix_at_def prefix_first_def)
  have wf: "wf_net (prefix_at it 0)" "wf_net (prefix_at it k)"
    using prefix_at_wf_net(1) [OF assms(1-3)] c0 assms(4,5) by auto
  have "gateway_index_ok (prefix_at it 0) gi"
    using assms(6) unfolding first GetGatewayForSubnet_conv [OF wf(1)] by (simp split: if_splits)
  moreover have "net_size (prefix_at it 0) = net_size (prefix_at it k)"
    using prefix_at_size [OF it(1), of 0] prefix_at_size [OF it(1), of k] by simp
  moreover from this have "GetPossibleIPCount (prefix_at it 0) = GetPossibleIPCount (prefix_at it k)"
    unfolding GetPossibleIPCount_wf [OF wf(1)] GetPossibleIPCount_wf [OF wf(2)] iter_width [OF assms(3,1)] by simp
  ultimately show ?thesis unfolding gateway_index_ok_def by (simp split: if_splits)
qed

lemma CIDRPool_Validate_cidr_ok:
  assumes v: "CIDRPool_Validate ev r = []" and n: "ParseCIDR (cpCIDR (cpSpec r)) = Some (ip, n)" "wf_net n" "net_clear n"
  shows "\<exists>it. cidr_ok r n it"
proof -
  let ?spec = "cpSpec r" and ?p = "cpPerNodeNetworkPrefix (cpSpec r)"
  note wf = n(2)
  note sz = wf_net_Size [OF wf]
  have vc: "validateCIDR r = []" using v by (simp add: CIDRPool_Validate_def Let_def)
  have w32: "to_int32 (int (8 * length (ipnIP n))) = int (8 * length (ipnIP n))" "to_int32 (int (net_ones n)) = int (net_ones n)"
    using wf_net_width [OF wf] wf_netD(2) [OF wf] by (auto intro!: to_int32_id simp: MaxInt32_def)
  note unf = vc [unfolded validateCIDR_def Let_def n(1) option.case prod.case sz w32]
  have p: "int (net_ones n) \<le> ?p" "?p \<le> int (8 * length (ipnIP n))" "0 \<le> ?p" using unf by (auto split: if_splits)
  then obtain it where it: "NewSubnetIterator (Some n) ?p = Inr it" by (auto simp: NewSubnetIterator_conv [OF wf])
  note ok = NewSubnetIterator_wf [OF wf it]
  have parts: "validateExclusions n (cpExclusions ?spec) [Child ''spec''] = []"
    "validatePerNodeExclusions n ?p (cpPerNodeExclusions ?spec) [Child ''spec''] = []" "validateStaticAllocations r n = []"
    "case cpGatewayIndex ?spec of Some gi \<Rightarrow> GetGatewayForSubnet \<lparr>ipnIP = ipnIP n, ipnMask = CIDRMask ?p (int (8 * length (ipnIP n)))\<rparr> gi \<noteq> [] | None \<Rightarrow> True"
    using unf by (auto split: if_splits option.splits)
  have cnt: "(if int (8 * length (ipnIP n)) - ?p \<le> 0 then 1 else 2 ^ nat (int (8 * length (ipnIP n)) - ?p)) = siSubnetIPCount it"
    using iter_okD(1,4) [OF ok(1)] ok(2,6) by simp
  have "\<forall>x \<in> set (cpPerNodeExclusions ?spec). 0 \<le> eiStartIndex x \<and> eiStartIndex x \<le> eiEndIndex x \<and> eiEndIndex x < siSubnetIPCount it"
  proof -
    have "(if siSubnetIPCount it - 1 < MaxInt32 then siSubnetIPCount it - 1 else MaxInt32) < siSubnetIPCount it" by simp
    then show ?thesis using parts(2) unfolding validatePerNodeExclusions_def sz snd_conv Let_def cnt index_errors_Nil
      by (meson order.strict_trans1)
  qed
  moreover
  have se: "static_errors n ?p i (cpStaticAllocations ?spec ! i) = []" if "i < length (cpStaticAllocations ?spec)" for i
    using parts(3) that by (simp add: validateStaticAllocations_def Let_def concat_indexed_Nil)
  have so: "\<exists>i. static_errors n ?p i a = []" if "a \<in> set (cpStaticAllocations ?spec)" for a
    using se that by (metis in_set_conv_nth)
  have static: "ParseCIDR (csPrefix a) \<noteq> None \<and> (\<exists>k. 0 \<le> k \<and> k < siSubnetCount it \<and> static_net a = prefix_at it k) \<and>
      (csGateway a = [] \<or> IPNet_Contains (static_net a) (ParseIP (csGateway a)))" if "a \<in> set (cpStaticAllocations ?spec)" for a
  proof -
    from so [OF that] obtain i where "static_errors n ?p i a = []" by blast
    note ok = static_errors_Nil [OF wf this]
    show ?thesis using ok(5,6) prefix_of_pool [OF wf it ok(1-4)] by blast
  qed
  have nodes: "distinct (filter (\<lambda>s. s \<noteq> []) (map csNodeName (cpStaticAllocations ?spec)))"
    using parts(3) by (intro count_le_1_distinct) (auto simp: validateStaticAllocations_def Let_def)
  have dist: "distinct (map static_net (cpStaticAllocations ?spec))"
  proof -
    have m: "map static_prefix (cpStaticAllocations ?spec) = map (\<lambda>a. [IPNet_String (static_net a)]) (cpStaticAllocations ?spec)"
      using so static_errors_Nil(7) [OF wf] by (intro map_cong refl) blast
    have e: "concat (map static_prefix (cpStaticAllocations ?spec)) = map IPNet_String (map static_net (cpStaticAllocations ?spec))"
      unfolding m by (simp add: comp_def)
    have "distinct (concat (map static_prefix (cpStaticAllocations ?spec)))"
      using parts(3) by (intro count_le_1_distinct) (auto simp: validateStaticAllocations_def Let_def)
    then show ?thesis unfolding e by (simp only: distinct_map)
  qed
  moreover have "gateway_index_ok (prefix_at it k) gi" if "cpGatewayIndex ?spec = Some gi" "0 \<le> k" "k < siSubnetCount it" for gi k
    by (rule gateway_index_first [OF wf n(3) it that(2,3)]) (use parts(4) that(1) in simp)
  ultimately have "cidr_ok r n it"
    unfolding cidr_ok_def using wf it static nodes validateExclusions_ok [OF wf parts(1)] by (intro conjI) (assumption | blast)+
  then show ?thesis by blast
qed


definition demo_cidr :: CIDRPool where
  "demo_cidr = \<lparr>cpName = ''pool2'', cpNamespace = ''kube-system'',
     cpSpec = \<lparr>cpCIDR = ''192.168.0.0/28'', cpGatewayIndex = Some 1, cpPerNodeNetworkPrefix = 30,
       cpExclusions = [\<lparr>erStartIP = ''192.168.0.4'', erEndIP = ''192.168.0.7''\<rparr>], cpPerNodeExclusions = [\<lparr>eiStartIndex = 0, eiEndIndex = 0\<rparr>],
       cpStaticAllocations = [\<lparr>csNodeName = ''b'', csGateway = ''192.168.0.10'', csPrefix = ''192.168.0.8/30''\<rparr>],
       cpNodeSelector = None, cpDefaultGateway = True, cpRoutes = [\<lparr>rtDst = ''10.1.0.0/16''\<rparr>]\<rparr>,
     cpStatus = \<lparr>cpAllocations = []\<rparr>\<rparr>"

definition demo_cidr_net :: IPNet where
  "demo_cidr_net = \<lparr>ipnIP = [192, 168, 0, 0], ipnMask = [255, 255, 255, 240]\<rparr>"

lemma demo_cidr_facts:
  "CIDRPool_Validate demo_ev demo_cidr = []" "wf_net demo_cidr_net" "net_clear demo_cidr_net"
  "ParseCIDR (cpCIDR (cpSpec demo_cidr)) = Some (ParseIP ''192.168.0.0'', demo_cidr_net)"
  by code_simp+


lemma validateRoutes_Nil:
  "validateRoutes routes network dg p = [] \<longleftrightarrow>
     (\<forall>rt \<in> set routes. case ParseCIDR (rtDst rt) of None \<Rightarrow> False
        | Some (_, rn) \<Rightarrow> (case network of None \<Rightarrow> True | Some nw \<Rightarrow> To4 (ipnIP rn) = [] \<longleftrightarrow> To4 (ipnIP nw) = []) \<and>
            \<not> (dg \<and> isDefaultRoute rn))"
  unfolding validateRoutes_def by (rule concat_indexed_Nil_set) (auto simp: Let_def split: option.splits)

text \<open>A valid route list is consistent with the pool: when validation of an \<open>IPPool\<close> reports nothing, every route
  has a destination that parses, of the address family of the subnet, routes or the default gateway are only used
  together with a gateway, and no route is the default route when the gateway already is the default gateway.\<close>

theorem validateRoutes_sound:
  assumes "IPPool_Validate ev r = []" "rt \<in> set (ipRoutes (ipSpec r))"
  shows "\<exists>ip n dst rn. ParseCIDR (ipSubnet (ipSpec r)) = Some (ip, n) \<and> ParseCIDR (rtDst rt) = Some (dst, rn) \<and>
    (To4 (ipnIP rn) = [] \<longleftrightarrow> To4 (ipnIP n) = []) \<and> ipGateway (ipSpec r) \<noteq> [] \<and>
    \<not> (ipDefaultGateway (ipSpec r) \<and> isDefaultRoute rn)"
proof -
  have net: "ParseCIDR (ipSubnet (ipSpec r)) \<noteq> None" and gw: "ipGateway (ipSpec r) = [] \<Longrightarrow> ipRoutes (ipSpec r) = []"
    and rts: "validateRoutes (ipRoutes (ipSpec r)) (map_option snd (ParseCIDR (ipSubnet (ipSpec r)))) (ipDefaultGateway (ipSpec r)) [Child ''spec''] = []"
    using assms(1) by (auto simp: IPPool_Validate_def Let_def)
  obtain ip n where n: "ParseCIDR (ipSubnet (ipSpec r)) = Some (ip, n)" using net by auto
  then have "case ParseCIDR (rtDst rt) of None \<Rightarrow> False
      | Some (_, rn) \<Rightarrow> (To4 (ipnIP rn) = [] \<longleftrightarrow> To4 (ipnIP n) = []) \<and> \<not> (ipDefaultGateway (ipSpec r) \<and> isDefaultRoute rn)"
    using rts [unfolded validateRoutes_Nil n option.map snd_conv option.case] assms(2) by blast
  then show ?thesis using n gw assms(2) by (force split: option.splits)
qed

theorem validateRoutes_sound_witness:
  "\<exists>ip n dst rn. ParseCIDR ''10.0.0.0/24'' = Some (ip, n) \<and> ParseCIDR ''10.1.0.0/16'' = Some (dst, rn) \<and>
     (To4 (ipnIP rn) = [] \<longleftrightarrow> To4 (ipnIP n) = [])"
proof -
  let ?r = "demo_pool\<lparr>ipSpec := (ipSpec demo_pool)\<lparr>ipSubnet := ''10.0.0.0/24'', ipRoutes := [\<lparr>rtDst = ''10.1.0.0/16''\<rparr>]\<rparr>\<rparr>"
  have v: "IPPool_Validate demo_ev ?r = []" by code_simp
  have m: "\<lparr>rtDst = ''10.1.0.0/16''\<rparr> \<in> set (ipRoutes (ipSpec ?r))" by simp
  show ?thesis using validateRoutes_sound [OF v m] by auto
qed

text \<open>The admission webhooks do not look at the object they are asked about: the answer of \<open>ValidateCreate\<close> and
  \<open>ValidateUpdate\<close> depends only on the receiver, so that for one receiver either every object is admitted or none is,
  the invalid ones and the valid ones alike.\<close>

theorem webhooks_ignore_object:
  "IPPool_ValidateCreate ev r obj = IPPool_ValidateCreate ev r obj' \<and>
   IPPool_ValidateUpdate ev r old obj = IPPool_ValidateUpdate ev r old' obj' \<and>
   CIDRPool_ValidateCreate ev c cobj = CIDRPool_ValidateCreate ev c cobj' \<and>
   CIDRPool_ValidateUpdate ev c cold cobj = CIDRPool_ValidateUpdate ev c cold' cobj' \<and>
   IPPool_ValidateCreate demo_ev (demo_pool\<lparr>ipSpec := (ipSpec demo_pool)\<lparr>ipSubnet := []\<rparr>\<rparr>) demo_pool \<noteq> None \<and>
   IPPool_ValidateCreate demo_ev demo_pool (demo_pool\<lparr>ipSpec := (ipSpec demo_pool)\<lparr>ipSubnet := []\<rparr>\<rparr>) = None"
proof -
  have "IPPool_validate demo_ev (demo_pool\<lparr>ipSpec := (ipSpec demo_pool)\<lparr>ipSubnet := []\<rparr>\<rparr>) \<noteq> None"
    "IPPool_validate demo_ev demo_pool = None" by code_simp+
  then show ?thesis
    by (simp add: IPPool_ValidateCreate_def IPPool_ValidateUpdate_def CIDRPool_ValidateCreate_def CIDRPool_ValidateUpdate_def)
qed

end
