(* ===== verification/Reconcile.thy ===== *)
theory Reconcile
  imports Validation "HOL-Library.Sublist"
begin

text \<open>
  What the two pool controllers share.  The Kubernetes API server is outside this repository: reading an object, listing
  the nodes, updating a status and matching a node against a selector are the fields of the parameter \<open>cluster\<close>.  A
  reconciliation returns its error and the effects it asked for, in order; \<^const>\<open>None\<close> is a panic.  The loop both
  controllers run over the matching nodes is \<open>allocate_all\<close>, with the allocation of one node as an argument, and the
  interface \<open>node_allocator\<close> states what that argument promises and what the loop therefore delivers.
\<close>

subsection \<open>The cluster\<close>

record K8sNode =
  ndName :: string
  ndLabels :: "(string \<times> string) list"

datatype 'p get_result = Got 'p | GetNotFound | GetFailed string

record 'p cluster =
  clNamespace :: string
  clGet :: "string \<times> string \<Rightarrow> 'p get_result"
  clNodes :: "string + K8sNode list"
  clMatch :: "K8sNode \<Rightarrow> NodeSelector \<Rightarrow> string + bool"
  clUpdate :: "'p \<Rightarrow> string option"

datatype 'p effect = StatusUpdate 'p | NoFreeEvent string | InvalidSpecEvent "field_error list"

fun is_StatusUpdate :: "'p effect \<Rightarrow> bool" where
  "is_StatusUpdate (StatusUpdate _) = True"
| "is_StatusUpdate _ = False"

text \<open>The names of the nodes that match the selector, in ascending order; a node whose match fails is left out.\<close>

definition node_matches :: "'p cluster \<Rightarrow> NodeSelector option \<Rightarrow> K8sNode \<Rightarrow> bool" where
  "node_matches cl sel node =
     (case sel of
        None \<Rightarrow> True
      | Some s \<Rightarrow> (case clMatch cl node s of Inl _ \<Rightarrow> False | Inr match \<Rightarrow> match))"

definition getMatchingNodes :: "'p cluster \<Rightarrow> NodeSelector option \<Rightarrow> string + string list" where
  "getMatchingNodes cl sel =
     (case clNodes cl of
        Inl e \<Rightarrow> Inl e
      | Inr nodes \<Rightarrow> Inr (sort_Slice str_less (map ndName (filter (node_matches cl sel) nodes))))"

subsection \<open>The loop over the nodes\<close>

fun allocate_all ::
    "('s \<Rightarrow> string \<Rightarrow> (('e + 'r) \<times> 's) option) \<Rightarrow> ('e \<Rightarrow> bool) \<Rightarrow> 's \<Rightarrow> string list \<Rightarrow>
     ('e option \<times> (string \<times> 'r) list \<times> string list \<times> 's) option" where
  "allocate_all alloc full s [] = Some (None, [], [], s)"
| "allocate_all alloc full s (name # names) =
     (case alloc s name of
        None \<Rightarrow> None
      | Some (Inr a, s') \<Rightarrow>
          (case allocate_all alloc full s' names of
             None \<Rightarrow> None
           | Some (e, as, failed, s'') \<Rightarrow> Some (e, (name, a) # as, failed, s''))
      | Some (Inl e, s') \<Rightarrow>
          if full e then
            (case allocate_all alloc full s' names of
               None \<Rightarrow> None
             | Some (e', as, failed, s'') \<Rightarrow> Some (e', as, name # failed, s''))
          else Some (Some e, [], [], s'))"

subsection \<open>Sorting names\<close>

lemma str_less_irrefl [simp]: "\<not> str_less s s"
  by (induction s) simp_all

lemma str_less_total: "\<not> str_less a b \<Longrightarrow> \<not> str_less b a \<Longrightarrow> a = b"
proof (induction a b rule: str_less.induct)
  case (3 a as b bs)
  then show ?case by (auto simp: Let_def split: if_splits)
qed (auto elim: str_less.elims)

lemma str_less_trans: "str_less a b \<Longrightarrow> str_less b c \<Longrightarrow> str_less a c"
proof (induction a b arbitrary: c rule: str_less.induct)
  case (2 b bs)
  then show ?case by (cases c) auto
next
  case (3 a as b bs)
  then show ?case by (cases c) (auto simp: Let_def split: if_splits)
qed simp

lemma insert_by_distinct: "distinct (insert_by lt x ys) \<longleftrightarrow> x \<notin> set ys \<and> distinct ys"
  by (induction ys) auto

lemma sort_Slice_distinct [simp]: "distinct (sort_Slice lt xs) \<longleftrightarrow> distinct xs"
proof -
  have "distinct (foldr (insert_by lt) xs []) \<longleftrightarrow> distinct xs"
  proof (induction xs)
    case (Cons x xs)
    have "set (foldr (insert_by lt) xs []) = set xs" using set_sort_Slice [of lt xs] by (simp add: sort_Slice_def)
    with Cons show ?case by (simp add: insert_by_distinct)
  qed simp
  then show ?thesis by (simp add: sort_Slice_def)
qed

lemma insert_by_strict:
  assumes "\<And>a b c. lt a b \<Longrightarrow> lt b c \<Longrightarrow> lt a c" "\<And>a b. \<not> lt a b \<Longrightarrow> \<not> lt b a \<Longrightarrow> a = b"
    "sorted_wrt lt ys" "x \<notin> set ys"
  shows "sorted_wrt lt (insert_by lt x ys)"
  using assms(3,4)
proof (induction ys)
  case (Cons y ys)
  show ?case
  proof (cases "lt y x")
    case True
    with Cons show ?thesis by auto
  next
    case False
    then have "lt x y" using assms(2) [of y x] Cons.prems(2) by auto
    with False Cons.prems(1) assms(1) show ?thesis by auto
  qed
qed simp

lemma sort_names_sorted: "distinct xs \<Longrightarrow> sorted_wrt str_less (sort_Slice str_less xs)"
proof (induction xs)
  case (Cons x xs)
  then have "sorted_wrt str_less (insert_by str_less x (sort_Slice str_less xs))"
    by (intro insert_by_strict str_less_total) (auto intro: str_less_trans)
  then show ?case by (simp add: sort_Slice_def)
qed (simp add: sort_Slice_def)

lemma subseq_distinctI: "subseq xs ys \<Longrightarrow> distinct ys \<Longrightarrow> distinct xs"
  by (induction rule: list_emb.induct) (auto dest: list_emb_set)

subsection \<open>What an allocator of node resources promises\<close>

text \<open>The allocation of one node: it always returns, keeps the invariant, gives a node that owns something exactly that,
  changes nothing for the other nodes, and on an error leaves what everybody owns.  What two nodes own is kept apart.\<close>

locale node_allocator =
  fixes alloc :: "'s \<Rightarrow> string \<Rightarrow> (('e + 'r) \<times> 's) option"
    and full :: "'e \<Rightarrow> bool"
    and inv :: "'s \<Rightarrow> bool"
    and owned :: "'s \<Rightarrow> string \<Rightarrow> 'r option"
    and apart :: "'r \<Rightarrow> 'r \<Rightarrow> bool"
  assumes alloc_returns: "inv s \<Longrightarrow> \<exists>res s'. alloc s name = Some (res, s')"
    and alloc_inv: "inv s \<Longrightarrow> alloc s name = Some (res, s') \<Longrightarrow> inv s'"
    and alloc_ok: "inv s \<Longrightarrow> alloc s name = Some (Inr r, s') \<Longrightarrow> owned s' = (owned s)(name \<mapsto> r)"
    and alloc_kept: "inv s \<Longrightarrow> alloc s name = Some (res, s') \<Longrightarrow> owned s name = Some r \<Longrightarrow> res = Inr r"
    and alloc_err: "inv s \<Longrightarrow> alloc s name = Some (Inl e, s') \<Longrightarrow> owned s' = owned s"
    and owned_apart: "inv s \<Longrightarrow> owned s a = Some r \<Longrightarrow> owned s b = Some r' \<Longrightarrow> a \<noteq> b \<Longrightarrow> apart r r'"
begin

text \<open>Nothing is taken away from a node.\<close>

lemma owned_mono: "inv s \<Longrightarrow> alloc s name = Some (res, s') \<Longrightarrow> owned s a = Some r \<Longrightarrow> owned s' a = Some r"
proof (cases res)
  case (Inl e)
  assume "inv s" "alloc s name = Some (res, s')" "owned s a = Some r"
  with Inl show ?thesis using alloc_err by metis
next
  case (Inr q)
  assume h: "inv s" "alloc s name = Some (res, s')" "owned s a = Some r"
  with Inr have e: "owned s' = (owned s)(name \<mapsto> q)" using alloc_ok by blast
  show ?thesis
  proof (cases "a = name")
    case True
    then have "res = Inr r" using alloc_kept h by blast
    with Inr True e show ?thesis by simp
  next
    case False
    with e h(3) show ?thesis by simp
  qed
qed

lemma failed_unowned: "inv s \<Longrightarrow> alloc s name = Some (Inl e, s') \<Longrightarrow> owned s name = None"
  using alloc_kept by fastforce

text \<open>The loop serves the nodes in order: it returns, keeps what nodes owned, and every node is either served or reported as
  failed, unless the loop stops at an error.\<close>

lemma allocate_all_ok:
  "inv s \<Longrightarrow> distinct names \<Longrightarrow> \<exists>e as failed s'. allocate_all alloc full s names = Some (e, as, failed, s') \<and> inv s' \<and>
     (\<forall>a r. owned s a = Some r \<longrightarrow> owned s' a = Some r) \<and>
     (\<forall>a. owned s' a \<noteq> None \<longrightarrow> owned s a \<noteq> None \<or> a \<in> fst ` set as) \<and>
     (\<forall>x \<in> set as. owned s' (fst x) = Some (snd x)) \<and> (\<forall>a \<in> set failed. owned s' a = None) \<and>
     subseq (map fst as) names \<and> set failed \<subseteq> set names \<and>
     (e = None \<longrightarrow> set names = fst ` set as \<union> set failed) \<and> 
     (\<forall>x. e = Some x \<longrightarrow> \<not> full x \<and> (\<exists>s1 name s2. inv s1 \<and> alloc s1 name = Some (Inl x, s2)))"
proof (induction names arbitrary: s)
  case Nil
  then show ?case by simp
next
  case (Cons name names)
  obtain res s1 where al: "alloc s name = Some (res, s1)" using alloc_returns [OF Cons.prems(1)] by blast
  have i1: "inv s1" by (rule alloc_inv [OF Cons.prems(1) al])
  have d: "distinct names" "name \<notin> set names" using Cons.prems(2) by simp_all
  obtain e as failed s' where r: "allocate_all alloc full s1 names = Some (e, as, failed, s')" "inv s'"
    "\<forall>a r. owned s1 a = Some r \<longrightarrow> owned s' a = Some r" "\<forall>a. owned s' a \<noteq> None \<longrightarrow> owned s1 a \<noteq> None \<or> a \<in> fst ` set as"
    "\<forall>x \<in> set as. owned s' (fst x) = Some (snd x)" "\<forall>a \<in> set failed. owned s' a = None"
    "subseq (map fst as) names" "set failed \<subseteq> set names" "e = None \<longrightarrow> set names = fst ` set as \<union> set failed"
    "\<forall>x. e = Some x \<longrightarrow> \<not> full x \<and> (\<exists>s1 name s2. inv s1 \<and> alloc s1 name = Some (Inl x, s2))"
    using Cons.IH [OF i1 d(1)] by (elim exE conjE) (rule that; assumption)
  show ?case
  proof (cases res)
    case (Inr q)
    have o: "owned s1 = (owned s)(name \<mapsto> q)" using alloc_ok Cons.prems(1) al Inr by blast
    have mono: "owned s' a = Some p" if "owned s a = Some p" for a p
      using owned_mono [OF Cons.prems(1) al that] r(3) by blast
    have "owned s' name = Some q" using o r(3) by simp
    moreover have "owned s a \<noteq> None \<or> a \<in> fst ` set ((name, q) # as)" if "owned s' a \<noteq> None" for a
      using r(4) that o by (cases "a = name") auto
    ultimately show ?thesis using al Inr r mono by auto
  next
    case (Inl x)
    then have s1: "owned s1 = owned s" and none: "owned s name = None"
      using alloc_err failed_unowned Cons.prems(1) al by blast+
    have "name \<notin> fst ` set as"
    proof
      assume "name \<in> fst ` set as"
      then have "name \<in> set (map fst as)" by simp
      from list_emb_set [OF r(7) this] d(2) show False by auto
    qed
    then have "owned s' name = None" using r(4) [unfolded s1] none by blast
    then show ?thesis using al Inl r s1 i1 Cons.prems(1) by (cases "full x") auto
  qed
qed

lemma allocate_all_apart:
  assumes "inv s" "distinct names" "allocate_all alloc full s names = Some (e, as, failed, s')"
  shows "sorted_wrt (\<lambda>x y. apart (snd x) (snd y)) as" "distinct (map fst as)"
proof -
  have i: "inv s'" and o: "\<forall>x \<in> set as. owned s' (fst x) = Some (snd x)" and sub: "subseq (map fst as) names"
    using allocate_all_ok [OF assms(1,2)] assms(3) by auto
  show d: "distinct (map fst as)" by (rule subseq_distinctI [OF sub assms(2)])
  show "sorted_wrt (\<lambda>x y. apart (snd x) (snd y)) as"
    unfolding sorted_wrt_iff_nth_less
  proof (intro allI impI)
    fix i j
    assume ij: "i < j" "j < length as"
    then have "fst (as ! i) \<noteq> fst (as ! j)" using d nth_eq_iff_index_eq [of "map fst as" i j] by simp
    then show "apart (snd (as ! i)) (snd (as ! j))" using owned_apart [OF i] o ij by (meson less_trans nth_mem)
  qed
qed

end

text \<open>An allocator that reports failure only when it is exhausted, and stays so.\<close>

locale exhaustible_allocator = node_allocator alloc full inv owned apart
  for alloc :: "'s \<Rightarrow> string \<Rightarrow> (('e + 'r) \<times> 's) option"
    and full :: "'e \<Rightarrow> bool"
    and inv :: "'s \<Rightarrow> bool"
    and owned :: "'s \<Rightarrow> string \<Rightarrow> 'r option"
    and apart :: "'r \<Rightarrow> 'r \<Rightarrow> bool" +
  fixes exhausted :: "'s \<Rightarrow> bool"
  assumes full_exhausted: "inv s \<Longrightarrow> alloc s name = Some (Inl e, s') \<Longrightarrow> full e \<Longrightarrow> exhausted s'"
    and exhausted_mono: "inv s \<Longrightarrow> exhausted s \<Longrightarrow> alloc s name = Some (res, s') \<Longrightarrow> exhausted s'"
begin

lemma exhausted_all: "inv s \<Longrightarrow> exhausted s \<Longrightarrow> allocate_all alloc full s names = Some (e, as, failed, s') \<Longrightarrow> exhausted s'"
proof (induction names arbitrary: s as failed)
  case (Cons name names)
  obtain res s1 where al: "alloc s name = Some (res, s1)" using alloc_returns [OF Cons.prems(1)] by blast
  have s1: "inv s1" "exhausted s1" using alloc_inv exhausted_mono Cons.prems(1,2) al by blast+
  show ?case using Cons.prems(3) Cons.IH [OF s1] al s1(2) by (cases res) (auto split: option.splits if_splits)
qed simp

lemma failed_exhausted: "inv s \<Longrightarrow> allocate_all alloc full s names = Some (e, as, failed, s') \<Longrightarrow> failed \<noteq> [] \<Longrightarrow> exhausted s'"
proof (induction names arbitrary: s as failed)
  case (Cons name names)
  obtain res s1 where al: "alloc s name = Some (res, s1)" using alloc_returns [OF Cons.prems(1)] by blast
  have s1: "inv s1" using alloc_inv Cons.prems(1) al by blast
  show ?case
  proof (cases res)
    case (Inl x)
    then have "exhausted s1" if "full x" using full_exhausted Cons.prems(1) al that by blast
    then show ?thesis using Cons.prems(2,3) exhausted_all [OF s1] al Inl by (auto split: option.splits if_splits)
  next
    case (Inr r)
    then show ?thesis using Cons.prems(2,3) Cons.IH [OF s1] al by (auto split: option.splits)
  qed
qed simp

end

end
