(* ===== verification/IPPoolCtrl.thy ===== *)
theory IPPoolCtrl
  imports Reconcile
begin

text \<open>
  The \<open>IPPool\<close> controller (\<open>pkg/ipam-controller/controllers/ippool/ippool.go\<close>): it validates a pool, gives every
  matching node a block and writes the allocations into the status of the pool.  The status lists nodes in the order of
  their names.  \<open>reflect.DeepEqual\<close> compares the stored and the new list; the model does not tell a nil list from an empty one
  (for a nil list the code writes an empty one once).  The fuel and the context of a call to the block allocator are
  parameters as in theory \<open>PoolAllocator\<close>.
\<close>

subsection \<open>Definitions\<close>

datatype ctrl_error = ClientError string | AllocError alloc_error | IteratorError ip_error | ContextError string | NoFreePrefixes

definition node_allocation :: "string \<times> AllocatedRange \<Rightarrow> Allocation" where
  "node_allocation x = \<lparr>alNodeName = fst x, alStartIP = IP_String (arStartIP (snd x)), alEndIP = IP_String (arEndIP (snd x))\<rparr>"

definition set_allocations :: "IPPool \<Rightarrow> Allocation list \<Rightarrow> IPPool" where
  "set_allocations pool as = pool\<lparr>ipStatus := (ipStatus pool)\<lparr>ipAllocations := as\<rparr>\<rparr>"

definition IPPool_handleInvalidSpec ::
    "IPPool cluster \<Rightarrow> field_error list \<Rightarrow> IPPool \<Rightarrow> ctrl_error option \<times> IPPool effect list" where
  "IPPool_handleInvalidSpec cl errs pool =
     (let pool' = set_allocations pool []
      in case clUpdate cl pool' of
           Some e \<Rightarrow> (Some (ClientError e), [StatusUpdate pool'])
         | None \<Rightarrow> (None, [StatusUpdate pool', InvalidSpecEvent errs]))"

definition IPPool_Reconcile ::
    "ext_validation \<Rightarrow> IPPool cluster \<Rightarrow> nat \<Rightarrow> (string \<Rightarrow> nat \<Rightarrow> string option) \<Rightarrow> string \<times> string \<Rightarrow>
     (ctrl_error option \<times> IPPool effect list) option" where
  "IPPool_Reconcile ev cl fuel ctxErr req =
     (if fst req \<noteq> clNamespace cl then Some (None, [])
      else
        (case clGet cl req of
           GetNotFound \<Rightarrow> Some (None, [])
         | GetFailed e \<Rightarrow> Some (Some (ClientError e), [])
         | Got pool \<Rightarrow>
             let errList = IPPool_Validate ev pool
             in if length errList \<noteq> 0 then Some (IPPool_handleInvalidSpec cl errList pool)
                else
                  (case getMatchingNodes cl (ipNodeSelector (ipSpec pool)) of
                     Inl e \<Rightarrow> Some (Some (ClientError e), [])
                   | Inr nodeNames \<Rightarrow>
                       (case CreatePoolAllocatorFromIPPool pool (set nodeNames) of
                          None \<Rightarrow> None
                        | Some pa \<Rightarrow>
                            (case allocate_all (\<lambda>pa name. AllocateFromPool fuel (ctxErr name) pa name) (\<lambda>e. e = ErrNoFreeRanges) pa nodeNames of
                               None \<Rightarrow> None
                             | Some (err, as, failed, _) \<Rightarrow>
                                 let events = map (\<lambda>name. NoFreeEvent (''failed to allocate IPs on Node: '' @ name)) failed
                                 in (case err of
                                      Some e \<Rightarrow> Some (Some (AllocError e), events)
                                    | None \<Rightarrow>
                                        let allocations = map node_allocation as;
                                            pool' = set_allocations pool allocations
                                        in if ipAllocations (ipStatus pool) \<noteq> allocations
                                           then Some (map_option ClientError (clUpdate cl pool'), events @ [StatusUpdate pool'])
                                           else Some (None, events)))))))"

subsection \<open>The block allocator serves nodes\<close>

interpretation ippool_nodes: node_allocator "\<lambda>pa name. AllocateFromPool fuel (ctxErr name) pa name" "\<lambda>e. e = ErrNoFreeRanges"
  "\<lambda>pa. pa_inv pa n \<and> paCfg pa = cfg \<and> net_size n < fuel" paAllocations "\<lambda>r r'. \<not> (\<exists>x. range_has r x \<and> range_has r' x)"
  for fuel ctxErr n cfg
proof
  fix pa name res pa' r e a b r'
  assume h: "pa_inv pa n \<and> paCfg pa = cfg \<and> net_size n < fuel"
  then have inv: "pa_inv pa n" "net_size n < fuel" by blast+
  note law = AllocateFromPool_law [OF inv, of "ctxErr name" name]
  show "\<exists>res s'. AllocateFromPool fuel (ctxErr name) pa name = Some (res, s')" using law by blast
  show "AllocateFromPool fuel (ctxErr name) pa name = Some (res, pa') \<Longrightarrow> pa_inv pa' n \<and> paCfg pa' = cfg \<and> net_size n < fuel"
    using law h by auto
  show "AllocateFromPool fuel (ctxErr name) pa name = Some (Inr r, pa') \<Longrightarrow> paAllocations pa' = (paAllocations pa)(name \<mapsto> r)"
    using law by (auto split: if_splits)
  show "AllocateFromPool fuel (ctxErr name) pa name = Some (res, pa') \<Longrightarrow> paAllocations pa name = Some r \<Longrightarrow> res = Inr r"
    using law by (auto split: sum.splits)
  show "AllocateFromPool fuel (ctxErr name) pa name = Some (Inl e, pa') \<Longrightarrow> paAllocations pa' = paAllocations pa" using law by auto
  show "\<not> (\<exists>x. range_has r x \<and> range_has r' x)"
    if "paAllocations pa a = Some r" "paAllocations pa b = Some r'" "a \<noteq> b"
    using pa_inv_apart [OF inv(1) that] by blast
qed

subsection \<open>Stored allocations are accepted again\<close>

text \<open>A range the allocator may hand out or accept: a block of the grid inside the subnet that is not all excluded and
  not just the gateway.\<close>

definition good_range :: "AllocationConfig \<Rightarrow> IPNet \<Rightarrow> AllocatedRange \<Rightarrow> bool" where
  "good_range cfg n r \<longleftrightarrow> (\<exists>k. range_block n cfg r (block_start cfg n k) \<and>
     block_start cfg n k + nat (acPerNodeBlockSize cfg) \<le> net_base n + net_size n \<and> \<not> block_excluded cfg (block_start cfg n k) \<and>
     \<not> (acPerNodeBlockSize cfg = 1 \<and> ip_len (acGateway cfg) = net_width n \<and> ip_val (acGateway cfg) = block_start cfg n k))"

lemma checkAllocation_complete:
  assumes cfg: "cfg_ok (paCfg pa) n" and g: "good_range (paCfg pa) n r"
  shows "checkAllocation pa r = Some None"
proof -
  note c = cfg_okD [OF cfg]
  let ?B = "acPerNodeBlockSize (paCfg pa)" and ?st = "arStartIP r" and ?en = "arEndIP r"
  let ?b = "nat ?B"
  obtain k where rb: "range_block n (paCfg pa) r (block_start (paCfg pa) n k)" and le: "block_start (paCfg pa) n k + ?b \<le> net_base n + net_size n"
    and ex: "\<not> block_excluded (paCfg pa) (block_start (paCfg pa) n k)"
    and gw: "\<not> (?B = 1 \<and> ip_len (acGateway (paCfg pa)) = net_width n \<and> ip_val (acGateway (paCfg pa)) = block_start (paCfg pa) n k)"
    using g by (auto simp: good_range_def)
  define s where "s = block_start (paCfg pa) n k"
  have v: "ip_len ?st = net_width n" "ip_len ?en = net_width n" "ip_val ?st = s" "ip_val ?en = s + ?b - 1"
    using rb by (simp_all add: range_block_def s_def)
  have base: "net_base n \<le> s" "first_val n \<le> s" using last_val_bounds(5) [of n] by (simp_all add: s_def)
  have cont: "IPNet_Contains n ?st" "IPNet_Contains n ?en"
    using v base le c(5) by (auto simp: IPNet_Contains_iff [OF c(2)] wf_net_ip_len [OF c(2)] s_def [symmetric])
  have cmp: "\<not> Cmp ?en ?st < 0" using v c(5,8) by (simp add: Cmp_conv sgn_if)
  have d1: "Distance (ipnIP n) ?st = Inr (int s - int (net_base n))"
    using v base c(8) wf_net_ip_len [OF c(2)] wf_net_ip_val [OF c(2)] by (simp add: Distance_conv)
  have d2: "Distance ?st ?en = Inr (?B - 1)" using v c(4,5,8) by (simp add: Distance_conv of_nat_diff)
  have use: "canUseNetworkAddress pa = Some (net_size n \<le> 2)"
    using c(1) IsPointToPoint_wf [OF c(2)] IsSingle_wf [OF c(2)] net_size_pos [of n]
    by (auto simp: canUseNetworkAddress_def simp del: net_size_pos)
  have m: "(int s - int (first_val n)) mod ?B = 0" using c(4) by (simp add: s_def)
  have grid: "\<not> (net_size n \<le> 2 \<and> (int s - int (net_base n)) mod ?B \<noteq> 0)"
    "\<not> (\<not> net_size n \<le> 2 \<and> (int s - int (net_base n) < 1 \<or> (int s - int (net_base n) - 1) mod ?B \<noteq> 0))"
    using m base by (auto simp: first_val_def algebra_simps split: if_splits)
  have gw': "\<not> (?B = 1 \<and> acGateway (paCfg pa) \<noteq> [] \<and> IP_Equal ?st (acGateway (paCfg pa)))"
    using gw c(7,8) v(1,3) IP_Equal_iff [of ?st "acGateway (paCfg pa)"] by (auto simp: s_def)
  have ex': "\<not> isEntireRangeExcluded pa r"
    using isEntireRangeExcluded_block [OF cfg rb] base le ex by (simp add: s_def)
  show ?thesis
    using c(1,4) cont cmp gw' ex' grid by (simp add: checkAllocation_def Let_def d1 d2 use)
qed

text \<open>Printing a range into the status and parsing it back.\<close>

definition parsed_range :: "Allocation \<Rightarrow> AllocatedRange" where
  "parsed_range a = \<lparr>arStartIP = ParseIP (alStartIP a), arEndIP = ParseIP (alEndIP a)\<rparr>"

lemma parsed_node_allocation:
  assumes "range_block n cfg r s" "net_width n \<noteq> 0"
  shows "range_block n cfg (parsed_range (node_allocation (name, r))) s"
    "node_allocation (name, parsed_range (node_allocation (name, r))) = node_allocation (name, r)"
    "ParseIP (alStartIP (node_allocation (name, r))) \<noteq> []" "ParseIP (alEndIP (node_allocation (name, r))) \<noteq> []"
    "range_has (parsed_range (node_allocation (name, r))) x \<longleftrightarrow> range_has r x"
proof -
  have l: "ip_len (arStartIP r) \<noteq> 0" "ip_len (arEndIP r) \<noteq> 0" using assms by (simp_all add: range_block_def)
  note p = ParseIP_IP_String_len [OF l(1)] ParseIP_IP_String_len [OF l(2)]
  show "range_block n cfg (parsed_range (node_allocation (name, r))) s"
    using assms(1) p by (simp add: range_block_def parsed_range_def node_allocation_def)
  have "IP_String (ParseIP (IP_String ip)) = IP_String ip" if "ip_len ip \<noteq> 0" for ip
    using IP_String_Normalize [of "ParseIP (IP_String ip)"] IP_String_Normalize [of ip] ParseIP_IP_String_len [OF that] that by simp
  with l show "node_allocation (name, parsed_range (node_allocation (name, r))) = node_allocation (name, r)"
    by (simp add: node_allocation_def parsed_range_def)
  show "ParseIP (alStartIP (node_allocation (name, r))) \<noteq> []" "ParseIP (alEndIP (node_allocation (name, r))) \<noteq> []"
    using p l by (auto simp: node_allocation_def)
  show "range_has (parsed_range (node_allocation (name, r))) x \<longleftrightarrow> range_has r x"
    using p l by (simp add: range_has_def Cmp_conv parsed_range_def node_allocation_def)
qed

lemma good_parsed:
  "good_range cfg n r \<Longrightarrow> net_width n \<noteq> 0 \<Longrightarrow> good_range cfg n (parsed_range (node_allocation (name, r)))"
  unfolding good_range_def using parsed_node_allocation(1) by blast

subsection \<open>Exactly the owned blocks are taken\<close>

definition pa_tight :: "PoolAllocator \<Rightarrow> IPNet \<Rightarrow> bool" where
  "pa_tight pa n \<longleftrightarrow> pa_inv pa n \<and> paStartIps pa = (\<lambda>r. IP_String (arStartIP r)) ` ran (paAllocations pa) \<and>
     (\<forall>r \<in> ran (paAllocations pa). good_range (paCfg pa) n r)"

lemma ran_update_None: "m a = None \<Longrightarrow> ran (m(a \<mapsto> b)) = insert b (ran m)"
  by (simp add: ran_map_upd)

lemma load_ok:
  assumes t: "pa_tight pa n" and new: "paAllocations pa name = None" and g: "good_range (paCfg pa) n r"
    and free: "\<And>r'. r' \<in> ran (paAllocations pa) \<Longrightarrow> ip_val (arStartIP r') \<noteq> ip_val (arStartIP r)"
  shows "\<exists>pa'. load pa name r = Some (None, pa') \<and> pa_tight pa' n \<and> paCfg pa' = paCfg pa \<and> paAllocations pa' = (paAllocations pa)(name \<mapsto> r)"
proof -
  have inv: "pa_inv pa n" using t by (simp add: pa_tight_def)
  note cfg = pa_invD(1) [OF inv]
  have len: "ip_len (arStartIP q) = net_width n" if "good_range (paCfg pa) n q" for q using that by (auto simp: good_range_def range_block_def)
  have "IP_String (arStartIP r) \<notin> paStartIps pa"
  proof
    assume "IP_String (arStartIP r) \<in> paStartIps pa"
    then obtain r' where r': "r' \<in> ran (paAllocations pa)" "IP_String (arStartIP r) = IP_String (arStartIP r')"
      using t by (auto simp: pa_tight_def)
    moreover have "good_range (paCfg pa) n r'" using t r'(1) by (simp add: pa_tight_def)
    ultimately show False using start_string_iff [OF len [OF g] len cfg_okD(8) [OF cfg]] free by metis
  qed
  then have l: "load pa name r = Some (None, pa\<lparr>paAllocations := (paAllocations pa)(name \<mapsto> r),
       paStartIps := insert (IP_String (arStartIP r)) (paStartIps pa)\<rparr>)"
    using checkAllocation_complete [OF cfg g] by (simp add: load_def)
  moreover have "pa_inv (pa\<lparr>paAllocations := (paAllocations pa)(name \<mapsto> r),
       paStartIps := insert (IP_String (arStartIP r)) (paStartIps pa)\<rparr>) n" using load_cases [OF inv, of name r] l by auto
  ultimately show ?thesis using t g by (auto simp: pa_tight_def ran_update_None [where m = "paAllocations pa", OF new])
qed

lemma load_tight:
  assumes t: "pa_tight pa n" and new: "paAllocations pa name = None"
  shows "\<exists>e pa'. load pa name r = Some (e, pa') \<and> pa_tight pa' n \<and> paCfg pa' = paCfg pa \<and>
    (paAllocations pa' = paAllocations pa \<or> paAllocations pa' = (paAllocations pa)(name \<mapsto> r))"
proof -
  have inv: "pa_inv pa n" using t by (simp add: pa_tight_def)
  obtain e pa' where l: "load pa name r = Some (e, pa')" "pa_inv pa' n" "paCfg pa' = paCfg pa"
    "if e = None then paAllocations pa' = (paAllocations pa)(name \<mapsto> r) \<and> paStartIps pa' = insert (IP_String (arStartIP r)) (paStartIps pa)
     else pa' = pa" using load_cases [OF inv] by blast
  show ?thesis
  proof (cases "e = None")
    case True
    then have "checkAllocation pa r = Some None" using l(1) by (auto simp: load_def split: option.splits if_splits)
    then have "good_range (paCfg pa) n r" using checkAllocation_Inr [OF pa_invD(1) [OF inv]] by (simp add: good_range_def)
    then have "pa_tight pa' n"
      using True l t by (auto simp: pa_tight_def ran_update_None [where m = "paAllocations pa", OF new])
    with True l show ?thesis by auto
  next
    case False
    with l t show ?thesis by auto
  qed
qed

lemma load_status_tight:
  "pa_tight pa n \<Longrightarrow> distinct (map alNodeName allocs) \<Longrightarrow> (\<And>a. a \<in> set allocs \<Longrightarrow> paAllocations pa (alNodeName a) = None) \<Longrightarrow>
   \<exists>pa'. load_status nodes allocs pa = Some pa' \<and> pa_tight pa' n \<and> paCfg pa' = paCfg pa \<and>
     (\<forall>name. paAllocations pa' name \<noteq> None \<longrightarrow> paAllocations pa name \<noteq> None \<or> name \<in> nodes)"
proof (induction allocs arbitrary: pa)
  case Nil
  then show ?case by auto
next
  case (Cons a allocs)
  show ?case
  proof (cases "alNodeName a \<notin> nodes \<or> ParseIP (alStartIP a) = [] \<or> ParseIP (alEndIP a) = []")
    case True
    then have "load_status nodes (a # allocs) pa = load_status nodes allocs pa" by auto
    with Cons show ?thesis by simp
  next
    case False
    obtain e pa' where l: "load pa (alNodeName a) (parsed_range a) = Some (e, pa')" "pa_tight pa' n" "paCfg pa' = paCfg pa"
      "paAllocations pa' = paAllocations pa \<or> paAllocations pa' = (paAllocations pa)(alNodeName a \<mapsto> parsed_range a)"
      using load_tight [OF Cons.prems(1), of "alNodeName a" "parsed_range a"] Cons.prems(3) [of a]
      by simp (elim exE conjE, rule that; assumption)
    have e: "load_status nodes (a # allocs) pa = load_status nodes allocs pa'" using False l(1) by (simp add: parsed_range_def)
    have "paAllocations pa' (alNodeName b) = None" if "b \<in> set allocs" for b
    proof -
      have "alNodeName b \<in> alNodeName ` set allocs" using that by (rule imageI)
      then have "alNodeName b \<noteq> alNodeName a" using Cons.prems(2) by (metis distinct.simps(2) list.simps(9) set_map)
      moreover have "paAllocations pa (alNodeName b) = None" using Cons.prems(3) [of b] that by simp
      moreover note l(4)
      ultimately show ?thesis by auto
    qed
    from Cons.IH [OF l(2) _ this] Cons.prems(2) obtain pa'' where
      r: "load_status nodes allocs pa' = Some pa''" "pa_tight pa'' n" "paCfg pa'' = paCfg pa'"
        "\<forall>name. paAllocations pa'' name \<noteq> None \<longrightarrow> paAllocations pa' name \<noteq> None \<or> name \<in> nodes" by auto
    have "paAllocations pa name \<noteq> None \<or> name \<in> nodes" if "paAllocations pa'' name \<noteq> None" for name
      using r(4) that l(4) False by (cases "name = alNodeName a") auto
    with r l(3) show ?thesis unfolding e by auto
  qed
qed

lemma pa_tight_new: "cfg_ok cfg n \<Longrightarrow> pa_tight (newPoolAllocator cfg) n"
  using pa_inv_new by (simp add: pa_tight_def newPoolAllocator_def)

lemma AllocateFromPool_shape:
  "AllocateFromPool fuel ctxErr pa name = Some (Inr r, pa') \<Longrightarrow>
     pa' = pa \<or> paAllocations pa name = None \<and>
       pa' = pa\<lparr>paAllocations := (paAllocations pa)(name \<mapsto> r), paStartIps := insert (IP_String (arStartIP r)) (paStartIps pa),
         paLastAllocatedStartIP := arStartIP r\<rparr>"
  by (auto simp: AllocateFromPool_def Let_def split: option.splits if_splits sum.splits bool.splits prod.splits)

lemma AllocateFromPool_tight:
  assumes t: "pa_tight pa n" and fuel: "net_size n < fuel" and al: "AllocateFromPool fuel ctxErr pa name = Some (res, pa')"
  shows "pa_tight pa' n" "paCfg pa' = paCfg pa" "paStartIps pa \<subseteq> paStartIps pa'"
proof -
  have inv: "pa_inv pa n" using t by (simp add: pa_tight_def)
  note law = AllocateFromPool_law [OF inv fuel, of ctxErr name]
  show cfg: "paCfg pa' = paCfg pa" using law al by auto
  have "pa_tight pa' n \<and> paStartIps pa \<subseteq> paStartIps pa'"
  proof (cases res)
    case (Inl e)
    then have "pa' = pa" using law al by auto
    with t show ?thesis by simp
  next
    case (Inr r)
    from AllocateFromPool_shape [OF al [unfolded Inr]] show ?thesis
    proof
      assume "pa' = pa"
      with t show ?thesis by simp
    next
      assume h: "paAllocations pa name = None \<and> pa' = pa\<lparr>paAllocations := (paAllocations pa)(name \<mapsto> r),
        paStartIps := insert (IP_String (arStartIP r)) (paStartIps pa), paLastAllocatedStartIP := arStartIP r\<rparr>"
      obtain k where k: "first_free pa n k" "range_block n (paCfg pa) r (block_start (paCfg pa) n k)"
        using law al Inr h by auto
      have base: "net_base n \<le> block_start (paCfg pa) n k" using last_val_bounds(5) [of n] by simp
      have f: "valid_block (paCfg pa) n (block_start (paCfg pa) n k)" "\<not> block_excluded (paCfg pa) (block_start (paCfg pa) n k)"
        using k(1) by (simp_all add: first_free_def free_block_def open_block_def)
      have "good_range (paCfg pa) n r"
        unfolding good_range_def using k f range_block_cand(2) [OF pa_invD(1) [OF inv] base f(1)]
        by (intro exI [of _ k]) (auto simp: first_free_def free_block_def)
      moreover have "pa_inv pa' n" using law al by auto
      ultimately show ?thesis using t h by (auto simp: pa_tight_def ran_update_None [where m = "paAllocations pa"])
    qed
  qed
  then show "pa_tight pa' n" "paStartIps pa \<subseteq> paStartIps pa'" by blast+
qed

subsection \<open>One reconciliation\<close>

lemma allocate_all_tight:
  assumes "net_size n < fuel"
  defines "alloc \<equiv> \<lambda>pa name. AllocateFromPool fuel (\<lambda>_. None) pa name"
  shows "pa_tight pa n \<Longrightarrow> allocate_all alloc (\<lambda>e. e = ErrNoFreeRanges) pa names = Some (e, as, failed, pa') \<Longrightarrow>
    pa_tight pa' n \<and> paCfg pa' = paCfg pa \<and> paStartIps pa \<subseteq> paStartIps pa' \<and>
    (failed \<noteq> [] \<longrightarrow> (\<forall>k. \<not> free_block pa' n (block_start (paCfg pa) n k)))"
proof (induction names arbitrary: pa e as failed)
  case Nil
  then show ?case by simp
next
  case (Cons name names)
  have inv: "pa_inv pa n" using Cons.prems(1) by (simp add: pa_tight_def)
  note law = AllocateFromPool_law [OF inv assms(1), of "\<lambda>_. None" name]
  obtain res pa1 where al: "alloc pa name = Some (res, pa1)" using law by (auto simp: alloc_def)
  note t1 = AllocateFromPool_tight [OF Cons.prems(1) assms(1) al [unfolded alloc_def]]
  show ?case
  proof (cases res)
    case (Inr r)
    then obtain as' where r: "allocate_all alloc (\<lambda>e. e = ErrNoFreeRanges) pa1 names = Some (e, as', failed, pa')"
      using Cons.prems(2) al by (auto split: option.splits)
    from Cons.IH [OF t1(1) r] t1(2,3) show ?thesis by auto
  next
    case (Inl x)
    have x: "x = ErrNoFreeRanges" "pa1 = pa" and nf: "\<forall>k. \<not> free_block pa n (block_start (paCfg pa) n k)"
      using law al Inl by (auto simp: alloc_def)
    then obtain failed' where r: "allocate_all alloc (\<lambda>e. e = ErrNoFreeRanges) pa names = Some (e, as, failed', pa')"
      using Cons.prems(2) al Inl by (auto split: option.splits)
    note ih = Cons.IH [OF Cons.prems(1) r]
    have "\<not> free_block pa' n (block_start (paCfg pa) n k)" for k
      using free_block_insert [of pa n _ pa'] nf ih by blast
    with ih show ?thesis by blast
  qed
qed

text \<open>If every node either owns a block or finds none free, the loop changes nothing.\<close>

lemma allocate_all_stable:
  assumes "net_size n < fuel" "pa_inv pa n"
    "\<And>name. name \<in> set names \<Longrightarrow> paAllocations pa name = None \<Longrightarrow> \<forall>k. \<not> free_block pa n (block_start (paCfg pa) n k)"
  shows "allocate_all (\<lambda>pa name. AllocateFromPool fuel (\<lambda>_. None) pa name) (\<lambda>e. e = ErrNoFreeRanges) pa names =
    Some (None, map (\<lambda>name. (name, the (paAllocations pa name))) (filter (\<lambda>name. paAllocations pa name \<noteq> None) names),
      filter (\<lambda>name. paAllocations pa name = None) names, pa)"
  using assms(3)
proof (induction names)
  case (Cons name names)
  note law = AllocateFromPool_law [OF assms(2,1), of "\<lambda>_. None" name]
  have ih: "allocate_all (\<lambda>pa name. AllocateFromPool fuel (\<lambda>_. None) pa name) (\<lambda>e. e = ErrNoFreeRanges) pa names =
    Some (None, map (\<lambda>name. (name, the (paAllocations pa name))) (filter (\<lambda>name. paAllocations pa name \<noteq> None) names),
      filter (\<lambda>name. paAllocations pa name = None) names, pa)"
    by (rule Cons.IH) (rule Cons.prems, rule list.set_intros(2))
  show ?case
  proof (cases "paAllocations pa name")
    case None
    then have nf: "\<forall>k. \<not> free_block pa n (block_start (paCfg pa) n k)" using Cons.prems [of name] by simp
    have "AllocateFromPool fuel (\<lambda>_. None) pa name = Some (Inl ErrNoFreeRanges, pa)"
    proof -
      obtain res pa' where r: "AllocateFromPool fuel (\<lambda>_. None) pa name = Some (res, pa')" using law by blast
      then show ?thesis using law nf None by (cases res) (auto simp: first_free_def)
    qed
    with None ih show ?thesis by simp
  next
    case (Some r)
    then have "AllocateFromPool fuel (\<lambda>_. None) pa name = Some (Inr r, pa)" by (simp add: AllocateFromPool_def)
    with Some ih show ?thesis by simp
  qed
qed simp

definition ippool_request ::
    "ext_validation \<Rightarrow> IPPool cluster \<Rightarrow> nat \<Rightarrow> string \<times> string \<Rightarrow> IPPool \<Rightarrow> IPNet \<Rightarrow> string list \<Rightarrow> bool" where
  "ippool_request ev cl fuel req pool n names \<longleftrightarrow>
     fst req = clNamespace cl \<and> clGet cl req = Got pool \<and> IPPool_Validate ev pool = [] \<and>
     map_option snd (ParseCIDR (ipSubnet (ipSpec pool))) = Some n \<and> subnet_plain n \<and> net_size n < fuel \<and>
     getMatchingNodes cl (ipNodeSelector (ipSpec pool)) = Inr names \<and> distinct names"

lemma ippool_requestD:
  assumes "ippool_request ev cl fuel req pool n names"
  shows "cfg_ok (ippool_config pool) n" "net_size n < fuel" "distinct names" "sorted_wrt str_less names"
proof -
  obtain ip where "ParseCIDR (ipSubnet (ipSpec pool)) = Some (ip, n)" using assms by (auto simp: ippool_request_def)
  then show "cfg_ok (ippool_config pool) n" using IPPool_Validate_cfg(1) assms by (auto simp: ippool_request_def)
  show "net_size n < fuel" "distinct names" using assms by (simp_all add: ippool_request_def)
  then show "sorted_wrt str_less names"
    using assms by (auto simp: ippool_request_def getMatchingNodes_def sort_names_sorted split: sum.splits)
qed

fun status_after :: "IPPool \<Rightarrow> IPPool effect list \<Rightarrow> Allocation list" where
  "status_after pool [] = ipAllocations (ipStatus pool)"
| "status_after pool (StatusUpdate pool' # es) = status_after pool' es"
| "status_after pool (_ # es) = status_after pool es"

lemma status_after_events:
  "status_after pool (map (\<lambda>name. NoFreeEvent (f name)) names @ es) = status_after pool es"
  by (induction names) simp_all

text \<open>What a reconciliation does, in terms of the loop.\<close>

lemma ippool_run:
  assumes req: "ippool_request ev cl fuel req pool n names"
  shows "\<exists>pa as failed pa' err. CreatePoolAllocatorFromIPPool pool (set names) = Some pa \<and> pa_inv pa n \<and> paCfg pa = ippool_config pool \<and>
    allocate_all (\<lambda>pa name. AllocateFromPool fuel (\<lambda>_. None) pa name) (\<lambda>e. e = ErrNoFreeRanges) pa names = Some (None, as, failed, pa') \<and>
    IPPool_Reconcile ev cl fuel (\<lambda>_ _. None) req =
      Some (err, map (\<lambda>name. NoFreeEvent (''failed to allocate IPs on Node: '' @ name)) failed @
        (if ipAllocations (ipStatus pool) \<noteq> map node_allocation as then [StatusUpdate (set_allocations pool (map node_allocation as))] else [])) \<and>
    (err = None \<or> (\<exists>e. err = Some (ClientError e) \<and> clUpdate cl (set_allocations pool (map node_allocation as)) = Some e))"
proof -
  note d = ippool_requestD [OF req]
  obtain pa where pa: "CreatePoolAllocatorFromIPPool pool (set names) = Some pa" "pa_inv pa n" "paCfg pa = ippool_config pool"
    using Create_inv [OF d(1)] by blast
  have inv: "pa_inv pa n \<and> paCfg pa = ippool_config pool \<and> net_size n < fuel" using pa d(2) by blast
  obtain e as failed pa' where run:
    "allocate_all (\<lambda>pa name. AllocateFromPool fuel (\<lambda>_. None) pa name) (\<lambda>e. e = ErrNoFreeRanges) pa names = Some (e, as, failed, pa')"
    "\<forall>x. e = Some x \<longrightarrow> x \<noteq> ErrNoFreeRanges \<and> (\<exists>s1 name s2. (pa_inv s1 n \<and> paCfg s1 = ippool_config pool \<and> net_size n < fuel) \<and> AllocateFromPool fuel (\<lambda>_. None) s1 name = Some (Inl x, s2))"
    using ippool_nodes.allocate_all_ok [OF inv d(3), of "\<lambda>_ _. None"] by (elim exE conjE) (rule that; assumption)
  have "e = None"
  proof (rule ccontr)
    assume "e \<noteq> None"
    then obtain x where x: "e = Some x" by blast
    with run(2) obtain s1 name s2 where s1: "pa_inv s1 n" "AllocateFromPool fuel (\<lambda>_. None) s1 name = Some (Inl x, s2)" "x \<noteq> ErrNoFreeRanges" by blast
    from AllocateFromPool_law [OF s1(1) d(2), of "\<lambda>_. None" name] s1(2,3) show False by auto
  qed
  with pa run(1) show ?thesis using req
    by (cases "clUpdate cl (set_allocations pool (map node_allocation as))")
      (auto simp: IPPool_Reconcile_def ippool_request_def Let_def)
qed

subsection \<open>Theorems\<close>

lemma subseq_filter: "subseq xs ys \<Longrightarrow> distinct ys \<Longrightarrow> filter (\<lambda>y. y \<in> set xs) ys = xs"
proof (induction rule: list_emb.induct)
  case (list_emb_Nil ys)
  then show ?case by simp
next
  case (list_emb_Cons xs ys y)
  then have "y \<notin> set xs" using list_emb_set [OF list_emb_Cons.hyps] by auto
  with list_emb_Cons show ?case by simp
next
  case (list_emb_Cons2 x y xs ys)
  have "filter (\<lambda>z. z = x \<or> z \<in> set xs) ys = filter (\<lambda>z. z \<in> set xs) ys"
    using list_emb_Cons2 by (intro filter_cong) auto
  with list_emb_Cons2 show ?case by auto
qed

lemma subseq_sorted: "subseq xs ys \<Longrightarrow> sorted_wrt P ys \<Longrightarrow> sorted_wrt P xs"
  by (induction rule: list_emb.induct) (auto dest: list_emb_set)

lemma pa_inv_inside_text:
  assumes inv: "pa_inv pa n" and r: "paAllocations pa name' = Some r"
  shows "IPNet_Contains n (ParseIP (alStartIP (node_allocation (name, r)))) \<and> IPNet_Contains n (ParseIP (alEndIP (node_allocation (name, r)))) \<and>
    Distance (ParseIP (alStartIP (node_allocation (name, r)))) (ParseIP (alEndIP (node_allocation (name, r)))) = Inr (acPerNodeBlockSize (paCfg pa) - 1)"
proof -
  note c = cfg_okD [OF pa_invD(1) [OF inv]]
  obtain s where "range_block n (paCfg pa) r s" using pa_invD(2) [OF inv r] by blast
  then have l: "ip_len (arStartIP r) \<noteq> 0" "ip_len (arEndIP r) \<noteq> 0" using c(8) by (simp_all add: range_block_def)
  note p = ParseIP_IP_String_len [OF l(1)] ParseIP_IP_String_len [OF l(2)]
  show ?thesis using pa_inv_inside [OF inv r] p l
    by (auto simp: IPNet_Contains_iff [OF c(2)] Distance_conv node_allocation_def split: if_splits)
qed

lemma range_has_text:
  assumes inv: "pa_inv pa n" and r: "paAllocations pa name' = Some r"
  shows "range_has (parsed_range (node_allocation (name, r))) x \<longleftrightarrow> range_has r x"
proof -
  obtain s where "range_block n (paCfg pa) r s" using pa_invD(2) [OF inv r] by blast
  from parsed_node_allocation(5) [OF this cfg_okD(8) [OF pa_invD(1) [OF inv]]] show ?thesis .
qed

text \<open>The entries written from an allocator: each is a block of the subnet, and no two share an address.\<close>

lemma ippool_entries:
  assumes inv: "pa_inv pa n" and as: "\<forall>x \<in> set as. paAllocations pa (fst x) = Some (snd x)"
    and apart: "sorted_wrt (\<lambda>x y. \<not> (\<exists>v. range_has (snd x) v \<and> range_has (snd y) v)) as"
  shows "\<forall>a \<in> set (map node_allocation as). IPNet_Contains n (ParseIP (alStartIP a)) \<and> IPNet_Contains n (ParseIP (alEndIP a)) \<and>
       Distance (ParseIP (alStartIP a)) (ParseIP (alEndIP a)) = Inr (acPerNodeBlockSize (paCfg pa) - 1)"
    "sorted_wrt (\<lambda>a b. \<not> (\<exists>x. range_has (parsed_range a) x \<and> range_has (parsed_range b) x)) (map node_allocation as)"
proof -
  show "\<forall>a \<in> set (map node_allocation as). IPNet_Contains n (ParseIP (alStartIP a)) \<and> IPNet_Contains n (ParseIP (alEndIP a)) \<and>
       Distance (ParseIP (alStartIP a)) (ParseIP (alEndIP a)) = Inr (acPerNodeBlockSize (paCfg pa) - 1)"
  proof
    fix a assume "a \<in> set (map node_allocation as)"
    then obtain x where x: "x \<in> set as" "a = node_allocation (fst x, snd x)" by auto
    then have "paAllocations pa (fst x) = Some (snd x)" using as by blast
    from pa_inv_inside_text [OF inv this, of "fst x"] show "IPNet_Contains n (ParseIP (alStartIP a)) \<and> IPNet_Contains n (ParseIP (alEndIP a)) \<and>
       Distance (ParseIP (alStartIP a)) (ParseIP (alEndIP a)) = Inr (acPerNodeBlockSize (paCfg pa) - 1)" unfolding x(2) .
  qed
  show "sorted_wrt (\<lambda>a b. \<not> (\<exists>x. range_has (parsed_range a) x \<and> range_has (parsed_range b) x)) (map node_allocation as)"
    unfolding sorted_wrt_map
  proof (rule sorted_wrt_mono_rel [OF _ apart])
    fix x y
    assume "x \<in> set as" "y \<in> set as" and ap: "\<not> (\<exists>v. range_has (snd x) v \<and> range_has (snd y) v)"
    then have "paAllocations pa (fst x) = Some (snd x)" "paAllocations pa (fst y) = Some (snd y)" using as by blast+
    from range_has_text [OF inv this(1), of "fst x"] range_has_text [OF inv this(2), of "fst y"] ap
    show "\<not> (\<exists>v. range_has (parsed_range (node_allocation x)) v \<and> range_has (parsed_range (node_allocation y)) v)" by simp
  qed
qed

lemma IPPool_Reconcile_law:
  assumes "ippool_request ev cl fuel req pool n names"
  shows "\<exists>err effs. IPPool_Reconcile ev cl fuel (\<lambda>_ _. None) req = Some (err, effs) \<and>
    (err = None \<or> (\<exists>e pool'. err = Some (ClientError e) \<and> clUpdate cl pool' = Some e)) \<and>
    sorted_wrt str_less (map alNodeName (status_after pool effs)) \<and>
    (\<forall>a \<in> set (status_after pool effs). alNodeName a \<in> set names \<and>
       IPNet_Contains n (ParseIP (alStartIP a)) \<and> IPNet_Contains n (ParseIP (alEndIP a)) \<and>
       Distance (ParseIP (alStartIP a)) (ParseIP (alEndIP a)) = Inr (ipPerNodeBlockSize (ipSpec pool) - 1)) \<and>
    sorted_wrt (\<lambda>a b. \<not> (\<exists>x. range_has (parsed_range a) x \<and> range_has (parsed_range b) x)) (status_after pool effs) \<and>
    (\<forall>name \<in> set names. name \<in> alNodeName ` set (status_after pool effs) \<or>
       NoFreeEvent (''failed to allocate IPs on Node: '' @ name) \<in> set effs)"
proof -
  note d = ippool_requestD [OF assms]
  let ?alloc = "\<lambda>pa name. AllocateFromPool fuel (\<lambda>_. None) pa name"
  obtain pa as failed pa' err where run: "pa_inv pa n" "paCfg pa = ippool_config pool"
    "allocate_all ?alloc (\<lambda>e. e = ErrNoFreeRanges) pa names = Some (None, as, failed, pa')"
    "IPPool_Reconcile ev cl fuel (\<lambda>_ _. None) req =
      Some (err, map (\<lambda>name. NoFreeEvent (''failed to allocate IPs on Node: '' @ name)) failed @
        (if ipAllocations (ipStatus pool) \<noteq> map node_allocation as then [StatusUpdate (set_allocations pool (map node_allocation as))] else []))"
    "err = None \<or> (\<exists>e. err = Some (ClientError e) \<and> clUpdate cl (set_allocations pool (map node_allocation as)) = Some e)"
    using ippool_run [OF assms] by (elim exE conjE) (rule that; assumption)
  have inv: "pa_inv pa n \<and> paCfg pa = ippool_config pool \<and> net_size n < fuel" using run(1,2) d(2) by blast
  have ok: "pa_inv pa' n" "paCfg pa' = ippool_config pool" "\<forall>x \<in> set as. paAllocations pa' (fst x) = Some (snd x)" "subseq (map fst as) names"
    "set names = fst ` set as \<union> set failed"
    using ippool_nodes.allocate_all_ok [OF inv d(3), of "\<lambda>_ _. None"] run(3) by auto
  let ?effs = "map (\<lambda>name. NoFreeEvent (''failed to allocate IPs on Node: '' @ name)) failed @
        (if ipAllocations (ipStatus pool) \<noteq> map node_allocation as then [StatusUpdate (set_allocations pool (map node_allocation as))] else [])"
  have st: "status_after pool ?effs = map node_allocation as"
    unfolding status_after_events by (simp add: set_allocations_def)
  have names: "map alNodeName (map node_allocation as) = map fst as" by (simp add: node_allocation_def)
  note e = ippool_entries [OF ok(1,3) ippool_nodes.allocate_all_apart(1) [OF inv d(3) run(3)]]
  have inside: "alNodeName a \<in> set names \<and> IPNet_Contains n (ParseIP (alStartIP a)) \<and> IPNet_Contains n (ParseIP (alEndIP a)) \<and>
       Distance (ParseIP (alStartIP a)) (ParseIP (alEndIP a)) = Inr (ipPerNodeBlockSize (ipSpec pool) - 1)"
    if a: "a \<in> set (map node_allocation as)" for a
  proof -
    have "alNodeName a \<in> fst ` set as" using a by (force simp: node_allocation_def)
    then show ?thesis using bspec [OF e(1) a] ok(5) by (simp add: ok(2) ippool_config_def Let_def)
  qed
  note e(2)
  moreover have "sorted_wrt str_less (map alNodeName (map node_allocation as))"
    unfolding names by (rule subseq_sorted [OF ok(4) d(4)])
  moreover have "name \<in> alNodeName ` set (map node_allocation as) \<or>
       NoFreeEvent (''failed to allocate IPs on Node: '' @ name) \<in> set ?effs" if "name \<in> set names" for name
  proof -
    have "name \<in> fst ` set as \<or> name \<in> set failed" using that ok(5) by blast
    then show ?thesis by (force simp: node_allocation_def image_image)
  qed
  ultimately show ?thesis
    using run(4,5) inside st by (intro exI [of _ err] exI [of _ ?effs]) (simp only: st, blast)
qed


lemma tight_values_apart:
  assumes "pa_tight pa n" "paAllocations pa a = Some r" "paAllocations pa b = Some r'" "a \<noteq> b"
  shows "ip_val (arStartIP r) \<noteq> ip_val (arStartIP r')"
  using pa_invD(5) [of pa n] assms by (auto simp: pa_tight_def)

text \<open>Loading the entries that were written from an allocator gives back its allocations.\<close>

lemma reload:
  assumes t: "pa_tight src n"
  shows "pa_tight pa n \<Longrightarrow> paCfg pa = paCfg src \<Longrightarrow> distinct (map fst as) \<Longrightarrow>
    (\<forall>x \<in> set as. paAllocations src (fst x) = Some (snd x)) \<Longrightarrow> fst ` set as \<subseteq> nodes \<Longrightarrow>
    (\<forall>name \<in> fst ` set as. paAllocations pa name = None) \<Longrightarrow>
    (\<forall>name r. paAllocations pa name = Some r \<longrightarrow> (\<exists>r'. paAllocations src name = Some r' \<and> ip_val (arStartIP r) = ip_val (arStartIP r'))) \<Longrightarrow>
    \<exists>pa'. load_status nodes (map node_allocation as) pa = Some pa' \<and> pa_tight pa' n \<and> paCfg pa' = paCfg src \<and>
      paAllocations pa' = (\<lambda>name. case map_of as name of Some r \<Rightarrow> Some (parsed_range (node_allocation (name, r))) | None \<Rightarrow> paAllocations pa name)"
proof (induction as arbitrary: pa)
  case Nil
  then show ?case by auto
next
  case (Cons x as)
  obtain name r where x: "x = (name, r)" by force
  have own: "paAllocations src name = Some r" using Cons.prems(4) x by simp
  then have g: "good_range (paCfg pa) n r" using t Cons.prems(2) by (auto simp: pa_tight_def ran_def)
  have inv: "pa_inv pa n" using Cons.prems(1) by (simp add: pa_tight_def)
  note w = cfg_okD(8) [OF pa_invD(1) [OF inv]]
  let ?r = "parsed_range (node_allocation (name, r))"
  obtain s where s: "range_block n (paCfg pa) r s" using g by (auto simp: good_range_def)
  note pn = parsed_node_allocation [OF s w, of name]
  have val: "ip_val (arStartIP ?r) = ip_val (arStartIP r)" using pn(1) s by (simp add: range_block_def)
  have none: "paAllocations pa name = None" using Cons.prems(6) x by simp
  have "ip_val (arStartIP q) \<noteq> ip_val (arStartIP ?r)" if q: "q \<in> ran (paAllocations pa)" for q
  proof -
    obtain b where b: "paAllocations pa b = Some q" using q by (auto simp: ran_def)
    then obtain q' where q': "paAllocations src b = Some q'" "ip_val (arStartIP q) = ip_val (arStartIP q')" using Cons.prems(7) by blast
    have "b \<noteq> name" using b none by auto
    with tight_values_apart [OF t q'(1) own] q'(2) val show ?thesis by simp
  qed
  from load_ok [OF Cons.prems(1) none good_parsed [OF g w] this] obtain pa1 where l: "load pa name ?r = Some (None, pa1)" "pa_tight pa1 n"
    "paCfg pa1 = paCfg pa" "paAllocations pa1 = (paAllocations pa)(name \<mapsto> ?r)" by blast
  have step: "load_status nodes (map node_allocation (x # as)) pa = load_status nodes (map node_allocation as) pa1"
    using pn(3,4) l(1) Cons.prems(5) by (simp add: x parsed_range_def) (simp add: node_allocation_def)
  have notin: "name \<notin> fst ` set as" using Cons.prems(3) x by simp
  have "\<exists>pa'. load_status nodes (map node_allocation as) pa1 = Some pa' \<and> pa_tight pa' n \<and> paCfg pa' = paCfg src \<and>
      paAllocations pa' = (\<lambda>name. case map_of as name of Some r \<Rightarrow> Some (parsed_range (node_allocation (name, r))) | None \<Rightarrow> paAllocations pa1 name)"
  proof (rule Cons.IH [OF l(2)])
    show "paCfg pa1 = paCfg src" using l(3) Cons.prems(2) by simp
    show "\<forall>x \<in> set as. paAllocations src (fst x) = Some (snd x)" "distinct (map fst as)" "fst ` set as \<subseteq> nodes"
      using Cons.prems(3,4,5) by simp_all
    show "\<forall>name \<in> fst ` set as. paAllocations pa1 name = None" using Cons.prems(6) notin l(4) by auto
    show "\<forall>b q. paAllocations pa1 b = Some q \<longrightarrow> (\<exists>q'. paAllocations src b = Some q' \<and> ip_val (arStartIP q) = ip_val (arStartIP q'))"
      using Cons.prems(7) own val l(4) by auto
  qed
  then obtain pa' where pa': "load_status nodes (map node_allocation as) pa1 = Some pa'" "pa_tight pa' n" "paCfg pa' = paCfg src"
    "paAllocations pa' = (\<lambda>name. case map_of as name of Some r \<Rightarrow> Some (parsed_range (node_allocation (name, r))) | None \<Rightarrow> paAllocations pa1 name)"
    by blast
  have "paAllocations pa' = (\<lambda>b. case map_of (x # as) b of Some r \<Rightarrow> Some (parsed_range (node_allocation (b, r))) | None \<Rightarrow> paAllocations pa b)"
  proof
    fix b
    show "paAllocations pa' b = (case map_of (x # as) b of Some r \<Rightarrow> Some (parsed_range (node_allocation (b, r))) | None \<Rightarrow> paAllocations pa b)"
      using notin map_of_eq_None_iff [of as name] 
      by (cases "b = name") (simp_all add: pa'(4) l(4) x split: option.split)
  qed
  with pa' show ?case unfolding step by blast
qed

lemma tight_same_free:
  assumes "pa_tight pa n" "pa_tight pa' n" "paCfg pa' = paCfg pa"
    "\<And>name. map_option (\<lambda>r. IP_String (arStartIP r)) (paAllocations pa' name) = map_option (\<lambda>r. IP_String (arStartIP r)) (paAllocations pa name)"
  shows "free_block pa' n s \<longleftrightarrow> free_block pa n s"
proof -
  have "(\<lambda>r. IP_String (arStartIP r)) ` ran q = {y. \<exists>name. map_option (\<lambda>r. IP_String (arStartIP r)) (q name) = Some y}" for q :: "string \<rightharpoonup> AllocatedRange"
    by (force simp: ran_def)
  from this [of "paAllocations pa"] this [of "paAllocations pa'"] have "paStartIps pa' = paStartIps pa"
    using assms(1,2) unfolding pa_tight_def assms(4) by metis
  then show ?thesis by (simp add: free_block_def assms(3))
qed

lemma parsed_start_string: "ip_len (arStartIP r) \<noteq> 0 \<Longrightarrow> IP_String (arStartIP (parsed_range (node_allocation (name, r)))) = IP_String (arStartIP r)"
  using IP_String_Normalize [of "ParseIP (IP_String (arStartIP r))"] IP_String_Normalize [of "arStartIP r"] ParseIP_IP_String_len [of "arStartIP r"]
  by (simp add: parsed_range_def node_allocation_def)

text \<open>The loop in the second reconciliation finds everything as it was.\<close>

lemma allocated_owned:
  assumes "distinct (map fst as)" "\<forall>x \<in> set as. paAllocations pa' (fst x) = Some (snd x)" "set names = fst ` set as \<union> set failed"
    "\<forall>a \<in> set failed. paAllocations pa' a = None" "\<forall>a. paAllocations pa' a \<noteq> None \<longrightarrow> paAllocations pa a \<noteq> None \<or> a \<in> fst ` set as"
    "\<forall>name. paAllocations pa name \<noteq> None \<longrightarrow> name \<in> set names"
  shows "paAllocations pa' name = map_of as name"
proof (cases "name \<in> fst ` set as")
  case True
  then obtain r where "(name, r) \<in> set as" by auto
  then show ?thesis using assms(2) map_of_is_SomeI [OF assms(1)] by force
next
  case False
  have "paAllocations pa' name = None"
  proof (rule ccontr)
    assume "paAllocations pa' name \<noteq> None"
    then have "name \<in> set names" using assms(5,6) False by blast
    then have "name \<in> set failed" using assms(3) False by blast
    with assms(4) \<open>paAllocations pa' name \<noteq> None\<close> show False by auto
  qed
  with False show ?thesis using map_of_eq_None_iff [of as name] by simp
qed

text \<open>Reading the written allocations back gives the same table up to the representation of the addresses.\<close>

lemma reread:
  assumes cfg: "cfg_ok (ippool_config pool) n" and tight: "pa_tight pa' n" "paCfg pa' = ippool_config pool"
    and as: "distinct (map fst as)" "\<forall>x \<in> set as. paAllocations pa' (fst x) = Some (snd x)" "fst ` set as \<subseteq> set names"
  shows "\<exists>pa2. load_status (set names) (map node_allocation as) (newPoolAllocator (ippool_config pool)) = Some pa2 \<and> pa_tight pa2 n \<and>
    paCfg pa2 = ippool_config pool \<and> (\<forall>name. paAllocations pa2 name = map_option (\<lambda>r. parsed_range (node_allocation (name, r))) (map_of as name))"
proof -
  let ?new = "newPoolAllocator (ippool_config pool)"
  have new: "paCfg ?new = ippool_config pool" "paAllocations ?new = Map.empty" by (simp_all add: newPoolAllocator_def)
  have "\<exists>pa2. load_status (set names) (map node_allocation as) ?new = Some pa2 \<and> pa_tight pa2 n \<and> paCfg pa2 = paCfg pa' \<and>
      paAllocations pa2 = (\<lambda>name. case map_of as name of Some r \<Rightarrow> Some (parsed_range (node_allocation (name, r))) | None \<Rightarrow> paAllocations ?new name)"
    by (rule reload) (use tight pa_tight_new [OF cfg] new as in auto)
  then obtain pa2 where pa2: "load_status (set names) (map node_allocation as) ?new = Some pa2" "pa_tight pa2 n" "paCfg pa2 = paCfg pa'"
      "paAllocations pa2 = (\<lambda>name. case map_of as name of Some r \<Rightarrow> Some (parsed_range (node_allocation (name, r))) | None \<Rightarrow> paAllocations ?new name)"
    by blast
  have "paAllocations pa2 name = map_option (\<lambda>r. parsed_range (node_allocation (name, r))) (map_of as name)" for name
    by (simp add: pa2(4) new split: option.split)
  then show ?thesis using pa2(1-3) tight(2) by auto
qed

lemma rewritten_same:
  assumes cfg: "cfg_ok cfg n" and as: "distinct (map fst as)" "subseq (map fst as) names" "distinct names" "\<forall>x \<in> set as. good_range cfg n (snd x)"
    and pa2: "\<And>name. paAllocations pa2 name = map_option (\<lambda>r. parsed_range (node_allocation (name, r))) (map_of as name)"
  shows "map node_allocation (map (\<lambda>name. (name, the (paAllocations pa2 name))) (filter (\<lambda>name. paAllocations pa2 name \<noteq> None) names)) = map node_allocation as"
proof -
  have "filter (\<lambda>name. paAllocations pa2 name \<noteq> None) names = map fst as"
  proof -
    have "paAllocations pa2 name \<noteq> None \<longleftrightarrow> name \<in> set (map fst as)" for name
      using map_of_eq_None_iff [of as name] by (simp add: pa2)
    then show ?thesis using subseq_filter [OF as(2,3)] by simp
  qed
  then have "map node_allocation (map (\<lambda>name. (name, the (paAllocations pa2 name))) (filter (\<lambda>name. paAllocations pa2 name \<noteq> None) names)) =
      map (\<lambda>x. node_allocation (fst x, the (paAllocations pa2 (fst x)))) as" by simp
  also have "\<dots> = map node_allocation as"
  proof (rule map_cong [OF refl])
    fix x
    assume x: "x \<in> set as"
    then have m: "map_of as (fst x) = Some (snd x)" using map_of_is_SomeI [OF as(1)] by simp
    obtain s where "range_block n cfg (snd x) s" using as(4) x by (auto simp: good_range_def)
    from parsed_node_allocation(2) [OF this cfg_okD(8) [OF cfg], of "fst x"] show "node_allocation (fst x, the (paAllocations pa2 (fst x))) = node_allocation x"
      by (simp add: pa2 m)
  qed
  finally show ?thesis .
qed

lemma rerun:
  assumes cfg: "cfg_ok (ippool_config pool) n" and fuel: "net_size n < fuel" and names: "distinct names"
    and dist: "distinct (map alNodeName (ipAllocations (ipStatus pool)))"
    and create: "CreatePoolAllocatorFromIPPool pool (set names) = Some pa"
    and run: "allocate_all (\<lambda>pa name. AllocateFromPool fuel (\<lambda>_. None) pa name) (\<lambda>e. e = ErrNoFreeRanges) pa names = Some (None, as, failed, pa')"
  shows "\<exists>pa2 as2 failed2. CreatePoolAllocatorFromIPPool (set_allocations pool (map node_allocation as)) (set names) = Some pa2 \<and>
    allocate_all (\<lambda>pa name. AllocateFromPool fuel (\<lambda>_. None) pa name) (\<lambda>e. e = ErrNoFreeRanges) pa2 names = Some (None, as2, failed2, pa2) \<and>
    map node_allocation as2 = map node_allocation as"
proof -
  let ?cfg = "ippool_config pool"
  have new: "paCfg (newPoolAllocator ?cfg) = ?cfg" "paAllocations (newPoolAllocator ?cfg) = Map.empty" by (simp_all add: newPoolAllocator_def)
  have pa: "pa_tight pa n" "paCfg pa = ?cfg" "\<forall>name. paAllocations pa name \<noteq> None \<longrightarrow> name \<in> set names"
    using load_status_tight [OF pa_tight_new [OF cfg] dist, of "set names"] create by (auto simp: new CreatePoolAllocatorFromIPPool_def)
  have inv: "pa_inv pa n \<and> paCfg pa = ?cfg \<and> net_size n < fuel" using pa fuel by (simp add: pa_tight_def)
  have ok: "\<forall>x \<in> set as. paAllocations pa' (fst x) = Some (snd x)" "subseq (map fst as) names" "set names = fst ` set as \<union> set failed"
    "\<forall>a \<in> set failed. paAllocations pa' a = None" "\<forall>a. paAllocations pa' a \<noteq> None \<longrightarrow> paAllocations pa a \<noteq> None \<or> a \<in> fst ` set as"
    using ippool_nodes.allocate_all_ok [OF inv names, of "\<lambda>_ _. None"] run by auto
  note tight = allocate_all_tight [OF fuel pa(1) run]
  have d: "distinct (map fst as)" by (rule subseq_distinctI [OF ok(2) names])
  note own = allocated_owned [OF d ok(1,3-5) pa(3)]
  have t: "pa_tight pa' n" "paCfg pa' = ?cfg" and sub: "fst ` set as \<subseteq> set names" using tight pa(2) ok(3) by auto
  obtain pa2 where pa2: "load_status (set names) (map node_allocation as) (newPoolAllocator ?cfg) = Some pa2" "pa_tight pa2 n" "paCfg pa2 = ?cfg"
      "\<And>name. paAllocations pa2 name = map_option (\<lambda>r. parsed_range (node_allocation (name, r))) (map_of as name)"
    using reread [OF cfg t d ok(1) sub] by blast
  have good: "good_range ?cfg n r" if "paAllocations pa' name = Some r" for name r
    using tight pa(2) that by (auto simp: pa_tight_def ran_def)
  then have len: "ip_len (arStartIP r) \<noteq> 0" if "paAllocations pa' name = Some r" for name r
    using that cfg_okD(8) [OF cfg] by (fastforce simp: good_range_def range_block_def)
  have "map_option (\<lambda>r. IP_String (arStartIP r)) (paAllocations pa2 name) = map_option (\<lambda>r. IP_String (arStartIP r)) (paAllocations pa' name)" for name
    using own [of name] len [of name] by (cases "map_of as name") (simp_all add: pa2(4) parsed_start_string)
  then have free: "free_block pa2 n s \<longleftrightarrow> free_block pa' n s" for s
    using tight pa2(2,3) pa(2) by (intro tight_same_free) simp_all
  have none: "\<forall>k. \<not> free_block pa2 n (block_start (paCfg pa2) n k)" if "name \<in> set names" "paAllocations pa2 name = None" for name
  proof -
    have "name \<notin> fst ` set as" using that(2) map_of_eq_None_iff [of as name] by (simp add: pa2(4))
    then have "failed \<noteq> []" using ok(3) that(1) by auto
    then show ?thesis using tight pa(2) pa2(3) by (simp add: free)
  qed
  have inv2: "pa_inv pa2 n" using pa2(2) by (simp add: pa_tight_def)
  have "\<forall>x \<in> set as. good_range ?cfg n (snd x)" using ok(1) good by blast
  note same = rewritten_same [OF cfg d ok(2) names this pa2(4)]
  have "CreatePoolAllocatorFromIPPool (set_allocations pool (map node_allocation as)) (set names) = Some pa2"
    using pa2(1) by (simp add: CreatePoolAllocatorFromIPPool_def set_allocations_def ippool_config_def)
  moreover have "allocate_all (\<lambda>pa name. AllocateFromPool fuel (\<lambda>_. None) pa name) (\<lambda>e. e = ErrNoFreeRanges) pa2 names =
      Some (None, map (\<lambda>name. (name, the (paAllocations pa2 name))) (filter (\<lambda>name. paAllocations pa2 name \<noteq> None) names),
        filter (\<lambda>name. paAllocations pa2 name = None) names, pa2)"
    by (rule allocate_all_stable [OF fuel inv2]) (rule none; assumption)
  ultimately show ?thesis using same by blast
qed

text \<open>C23: Reconciliation settles: after a reconciliation of a valid \<open>IPPool\<close> whose status named every node at most
  once, another reconciliation of the pool with the status just written finds nothing to change; it writes no status and
  reports no error.\<close>

theorem IPPool_Reconcile_stable:
  assumes "ippool_request ev cl fuel req pool n names" "distinct (map alNodeName (ipAllocations (ipStatus pool)))"
    "IPPool_Reconcile ev cl fuel (\<lambda>_ _. None) req = Some (err, effs)"
    "cl' = cl\<lparr>clGet := \<lambda>_. Got (set_allocations pool (status_after pool effs))\<rparr>"
  shows "\<exists>effs'. IPPool_Reconcile ev cl' fuel (\<lambda>_ _. None) req = Some (None, effs') \<and> \<not> (\<exists>e \<in> set effs'. is_StatusUpdate e)"
proof -
  note d = ippool_requestD [OF assms(1)]
  let ?alloc = "\<lambda>pa name. AllocateFromPool fuel (\<lambda>_. None) pa name"
  obtain pa as failed pa' err0 where run: "CreatePoolAllocatorFromIPPool pool (set names) = Some pa"
    "allocate_all ?alloc (\<lambda>e. e = ErrNoFreeRanges) pa names = Some (None, as, failed, pa')"
    "IPPool_Reconcile ev cl fuel (\<lambda>_ _. None) req =
      Some (err0, map (\<lambda>name. NoFreeEvent (''failed to allocate IPs on Node: '' @ name)) failed @
        (if ipAllocations (ipStatus pool) \<noteq> map node_allocation as then [StatusUpdate (set_allocations pool (map node_allocation as))] else []))"
    using ippool_run [OF assms(1)] by (elim exE conjE) (rule that; assumption)
  have st: "status_after pool effs = map node_allocation as"
  proof -
    have "effs = map (\<lambda>name. NoFreeEvent (''failed to allocate IPs on Node: '' @ name)) failed @
        (if ipAllocations (ipStatus pool) \<noteq> map node_allocation as then [StatusUpdate (set_allocations pool (map node_allocation as))] else [])"
      using run(3) assms(3) by simp
    then show ?thesis by (simp only: status_after_events) (simp add: set_allocations_def)
  qed
  let ?pool = "set_allocations pool (map node_allocation as)"
  obtain pa2 as2 failed2 where re: "CreatePoolAllocatorFromIPPool ?pool (set names) = Some pa2"
    "allocate_all ?alloc (\<lambda>e. e = ErrNoFreeRanges) pa2 names = Some (None, as2, failed2, pa2)" "map node_allocation as2 = map node_allocation as"
    using rerun [OF d(1-3) assms(2) run(1,2)] by blast
  have same: "IPPool_Validate ev ?pool = IPPool_Validate ev pool" "ipSpec ?pool = ipSpec pool" "ipAllocations (ipStatus ?pool) = map node_allocation as"
    by (simp_all add: IPPool_Validate_def set_allocations_def)
  have m: "node_matches cl' sel = node_matches cl sel" for sel by (simp add: fun_eq_iff node_matches_def assms(4) split: option.split)
  have "getMatchingNodes cl' (ipNodeSelector (ipSpec ?pool)) = Inr names" "fst req = clNamespace cl'" "clGet cl' req = Got ?pool"
    "IPPool_Validate ev ?pool = []"
    unfolding getMatchingNodes_def m same(2) using assms(1,4) same st by (simp_all add: ippool_request_def getMatchingNodes_def)
  then show ?thesis using re same(3) by (simp add: IPPool_Reconcile_def)
qed

definition demo_cluster :: "IPPool cluster" where
  "demo_cluster = \<lparr>clNamespace = ''kube-system'', clGet = (\<lambda>_. Got demo_pool),
     clNodes = Inr [\<lparr>ndName = ''b'', ndLabels = []\<rparr>, \<lparr>ndName = ''c'', ndLabels = []\<rparr>, \<lparr>ndName = ''a'', ndLabels = []\<rparr>],
     clMatch = (\<lambda>_ _. Inr True), clUpdate = (\<lambda>_. None)\<rparr>"

lemma demo_request: "ippool_request demo_ev demo_cluster 17 (''kube-system'', ''pool1'') demo_pool demo_net [''a'', ''b'', ''c'']"
  by code_simp


theorem IPPool_Reconcile_stable_witness:
  "\<exists>effs effs'. IPPool_Reconcile demo_ev demo_cluster 17 (\<lambda>_ _. None) (''kube-system'', ''pool1'') = Some (None, effs) \<and>
     (\<exists>e \<in> set effs. is_StatusUpdate e) \<and>
     IPPool_Reconcile demo_ev (demo_cluster\<lparr>clGet := \<lambda>_. Got (set_allocations demo_pool (status_after demo_pool effs))\<rparr>) 17
       (\<lambda>_ _. None) (''kube-system'', ''pool1'') = Some (None, effs') \<and> \<not> (\<exists>e \<in> set effs'. is_StatusUpdate e)"
proof -
  let ?res = "IPPool_Reconcile demo_ev demo_cluster 17 (\<lambda>_ _. None) (''kube-system'', ''pool1'')"
  have d: "distinct (map alNodeName (ipAllocations (ipStatus demo_pool)))" by code_simp
  have c: "map_option (\<lambda>(err, effs). (err = None, \<exists>e \<in> set effs. is_StatusUpdate e)) ?res = Some (True, True)" by code_simp
  then obtain effs where r: "?res = Some (None, effs)" "\<exists>e \<in> set effs. is_StatusUpdate e" by auto
  from IPPool_Reconcile_stable [OF demo_request d r(1) refl] r show ?thesis by blast
qed

end
