(* ===== verification/CIDRPoolCtrl.thy ===== *)
theory CIDRPoolCtrl
  imports IPPoolCtrl "HOL-Library.AList"
begin

text \<open>
  The \<open>CIDRPool\<close> controller (\<open>pkg/ipam-controller/controllers/cidrpool/cidrpool.go\<close>): it splits the network of a pool
  into prefixes and gives every matching node one, its static prefix if it has one and otherwise the next prefix of the
  iterator that is not taken, reserved or excluded.  The Go maps are association lists; the prefix iterator and the maps
  are the state \<open>cidr_state\<close> of one reconciliation.  The search takes fuel, which is enough when it exceeds the number
  of prefixes.  \<open>ctx.Err()\<close> is asked once before the search and then once per iteration.
\<close>

subsection \<open>Definitions\<close>

definition lastUsableIndex :: "IPNet \<Rightarrow> int \<Rightarrow> int" where
  "lastUsableIndex parent prefixSize =
     (let hostBits = snd (Mask_Size (ipnMask parent)) - prefixSize;
          lastIndex = (if hostBits \<le> 0 then 1 else 2 ^ nat hostBits) - 1
      in if To4 (ipnIP parent) \<noteq> [] \<and> 1 < hostBits then lastIndex - 1 else lastIndex)"

fun overlap_loop :: "net_ip \<Rightarrow> net_ip \<Rightarrow> net_ip \<Rightarrow> ExcludeRange list \<Rightarrow> net_ip" where
  "overlap_loop firstIP lastIP furthestEnd [] = furthestEnd"
| "overlap_loop firstIP lastIP furthestEnd (exclusion # exclusions) =
     (let startIP = ParseIP (erStartIP exclusion); endIP = ParseIP (erEndIP exclusion)
      in if startIP = [] \<or> endIP = [] \<or> Cmp endIP firstIP < 0 then overlap_loop firstIP lastIP furthestEnd exclusions
         else if 0 < Cmp startIP lastIP then furthestEnd
         else overlap_loop firstIP lastIP (if furthestEnd = [] \<or> 0 < Cmp endIP furthestEnd then endIP else furthestEnd) exclusions)"

definition overlappingExclusionEnd :: "IPNet \<Rightarrow> ExcludeRange list \<Rightarrow> net_ip" where
  "overlappingExclusionEnd pfx exclusions = overlap_loop (ipnIP pfx) (LastIP pfx) [] exclusions"

definition isPrefixFullyExcluded :: "string \<Rightarrow> CIDRPool \<Rightarrow> bool option" where
  "isPrefixFullyExcluded pfx pool =
     (case ParseCIDR pfx of
        None \<Rightarrow> None
      | Some (_, ipn) \<Rightarrow>
          let firstIP = ipnIP ipn;
              lastIP = LastIP ipn;
              excludeRanges = cpExclusions (cpSpec pool) @
                ExcludeIndexRangeToExcludeRange (cpPerNodeExclusions (cpSpec pool)) (IP_String firstIP);
              clamped = ClampExcludeRanges excludeRanges (IP_String firstIP) (IP_String lastIP)
          in (case MergeExcludeRanges clamped of
                [] \<Rightarrow> Some False
              | [er] \<Rightarrow>
                  let excludeStart = ParseIP (erStartIP er); excludeEnd = ParseIP (erEndIP er)
                  in if excludeStart = [] \<or> excludeEnd = [] then Some False
                     else Some (Cmp excludeStart firstIP \<le> 0 \<and> 0 \<le> Cmp excludeEnd lastIP)
              | _ # _ # _ \<Rightarrow> Some False))"

record cidr_state =
  ctByNode :: "(string \<times> CIDRPoolAllocation) list"
  ctByPrefix :: "(string \<times> CIDRPoolAllocation) list"
  ctIter :: SubnetIterator

text \<open>The search loop of \<open>getNewAllocationForNode\<close>: the prefix found, or nothing at the end of the iterator, and the
  iterator.\<close>

fun prefix_loop ::
    "nat \<Rightarrow> (nat \<Rightarrow> string option) \<Rightarrow> CIDRPool \<Rightarrow> string list \<Rightarrow> string list \<Rightarrow> ExcludeRange list \<Rightarrow> SubnetIterator \<Rightarrow>
     ((ctrl_error + IPNet option) \<times> SubnetIterator) option" where
  "prefix_loop 0 ctxErr pool allocated static mergedExclusions it = None"
| "prefix_loop (Suc fuel) ctxErr pool allocated static mergedExclusions it =
     (case ctxErr fuel of
        Some e \<Rightarrow> Some (Inl (ContextError e), it)
      | None \<Rightarrow>
          (case SubnetIterator_Next it of
             (None, it1) \<Rightarrow> Some (Inr None, it1)
           | (Some nodePrefix, it1) \<Rightarrow>
               if IPNet_String nodePrefix \<in> set allocated then prefix_loop fuel ctxErr pool allocated static mergedExclusions it1
               else if IPNet_String nodePrefix \<in> set static then prefix_loop fuel ctxErr pool allocated static mergedExclusions it1
               else
                 (case isPrefixFullyExcluded (IPNet_String nodePrefix) pool of
                    None \<Rightarrow> None
                  | Some True \<Rightarrow>
                      let exclusionEnd = overlappingExclusionEnd nodePrefix mergedExclusions
                      in if exclusionEnd \<noteq> [] then
                           (case AdvancePastIP it1 exclusionEnd of
                              Inl e \<Rightarrow> Some (Inl (IteratorError e), it1)
                            | Inr it2 \<Rightarrow> prefix_loop fuel ctxErr pool allocated static mergedExclusions it2)
                         else prefix_loop fuel ctxErr pool allocated static mergedExclusions it1
                  | Some False \<Rightarrow> Some (Inr (Some nodePrefix), it1))))"

declare prefix_loop.simps(2) [simp del]

definition getNewAllocationForNode ::
    "nat \<Rightarrow> (nat \<Rightarrow> string option) \<Rightarrow> SubnetIterator \<Rightarrow> string \<Rightarrow> CIDRPool \<Rightarrow> string list \<Rightarrow> string list \<Rightarrow> ExcludeRange list \<Rightarrow>
     bool \<Rightarrow> ((ctrl_error + CIDRPoolAllocation) \<times> SubnetIterator) option" where
  "getNewAllocationForNode fuel ctxErr it node pool allocated static mergedExclusions perNodePrefixFullyExcluded =
     (case ctxErr fuel of
        Some e \<Rightarrow> Some (Inl (ContextError e), it)
      | None \<Rightarrow>
          if perNodePrefixFullyExcluded then Some (Inl NoFreePrefixes, it)
          else
            (case prefix_loop fuel ctxErr pool allocated static mergedExclusions it of
               None \<Rightarrow> None
             | Some (Inl e, it') \<Rightarrow> Some (Inl e, it')
             | Some (Inr None, it') \<Rightarrow> Some (Inl NoFreePrefixes, it')
             | Some (Inr (Some nodePrefix), it') \<Rightarrow>
                 let gateway = (case cpGatewayIndex (cpSpec pool) of
                                  Some gi \<Rightarrow> GetGatewayForSubnet nodePrefix gi
                                | None \<Rightarrow> [])
                 in Some (Inr \<lparr>caNodeName = node, caGateway = gateway, caPrefix = IPNet_String nodePrefix\<rparr>, it')))"

text \<open>The prefix of a static allocation was parsed before; a panic on the nil network is \<^const>\<open>None\<close>.\<close>

definition getStaticAllocationForNodeIfExist ::
    "string \<Rightarrow> CIDRPool \<Rightarrow> (string \<times> CIDRPoolStaticAllocation) list \<Rightarrow> CIDRPoolAllocation option option" where
  "getStaticAllocationForNodeIfExist node pool staticByNode =
     (case map_of staticByNode node of
        None \<Rightarrow> Some None
      | Some staticAlloc \<Rightarrow>
          (case (csGateway staticAlloc, cpGatewayIndex (cpSpec pool)) of
             ([], Some gi) \<Rightarrow>
               (case ParseCIDR (csPrefix staticAlloc) of
                  None \<Rightarrow> None
                | Some (_, nodeSubnet) \<Rightarrow>
                    Some (Some \<lparr>caNodeName = csNodeName staticAlloc, caGateway = GetGatewayForSubnet nodeSubnet gi,
                                caPrefix = csPrefix staticAlloc\<rparr>))
           | (gateway, _) \<Rightarrow> Some (Some \<lparr>caNodeName = csNodeName staticAlloc, caGateway = gateway, caPrefix = csPrefix staticAlloc\<rparr>)))"

definition getStaticAllocationsMaps ::
    "CIDRPool \<Rightarrow> (string \<times> CIDRPoolStaticAllocation) list \<times> (string \<times> CIDRPoolStaticAllocation) list" where
  "getStaticAllocationsMaps pool =
     (let allocs = cpStaticAllocations (cpSpec pool)
      in (foldl (\<lambda>m a. AList.update (csNodeName a) a m) [] allocs, foldl (\<lambda>m a. AList.update (csPrefix a) a m) [] allocs))"

text \<open>The loop of \<open>getValidExistingAllocationsMaps\<close>, with the two maps as accumulators.\<close>

fun existing_loop ::
    "CIDRPool \<Rightarrow> string list \<Rightarrow> CIDRPoolAllocation list \<Rightarrow> (string \<times> CIDRPoolAllocation) list \<Rightarrow> (string \<times> CIDRPoolAllocation) list \<Rightarrow>
     ((string \<times> CIDRPoolAllocation) list \<times> (string \<times> CIDRPoolAllocation) list) option" where
  "existing_loop pool nodes [] nodeMap prefixMap = Some (nodeMap, prefixMap)"
| "existing_loop pool nodes (alloc # allocs) nodeMap prefixMap =
     (if caNodeName alloc \<notin> set nodes then existing_loop pool nodes allocs nodeMap prefixMap
      else
        (case CIDRPoolAllocation_Validate alloc pool of
           None \<Rightarrow> None
         | Some errList \<Rightarrow>
             if 0 < length errList then existing_loop pool nodes allocs nodeMap prefixMap
             else
               (case isPrefixFullyExcluded (caPrefix alloc) pool of
                  None \<Rightarrow> None
                | Some True \<Rightarrow> existing_loop pool nodes allocs nodeMap prefixMap
                | Some False \<Rightarrow>
                    existing_loop pool nodes allocs (AList.update (caNodeName alloc) alloc nodeMap)
                      (AList.update (caPrefix alloc) alloc prefixMap))))"

definition getValidExistingAllocationsMaps ::
    "CIDRPool \<Rightarrow> string list \<Rightarrow> ((string \<times> CIDRPoolAllocation) list \<times> (string \<times> CIDRPoolAllocation) list) option" where
  "getValidExistingAllocationsMaps pool nodes = existing_loop pool nodes (cpAllocations (cpStatus pool)) [] []"

text \<open>The body of the loop of \<open>Reconcile\<close> over the nodes.\<close>

definition cidr_allocate ::
    "nat \<Rightarrow> (string \<Rightarrow> nat \<Rightarrow> string option) \<Rightarrow> CIDRPool \<Rightarrow> (string \<times> CIDRPoolStaticAllocation) list \<Rightarrow>
     (string \<times> CIDRPoolStaticAllocation) list \<Rightarrow> ExcludeRange list \<Rightarrow> bool \<Rightarrow> cidr_state \<Rightarrow> string \<Rightarrow>
     ((ctrl_error + CIDRPoolAllocation) \<times> cidr_state) option" where
  "cidr_allocate fuel ctxErr pool staticByNode staticByPrefix mergedExclusions fullyExcluded s node =
     (case map_of (ctByNode s) node of
        Some a \<Rightarrow> Some (Inr a, s)
      | None \<Rightarrow>
          let record = (\<lambda>a it. Some (Inr a, \<lparr>ctByNode = AList.update node a (ctByNode s),
                                             ctByPrefix = AList.update (caPrefix a) a (ctByPrefix s), ctIter = it\<rparr>))
          in (case getStaticAllocationForNodeIfExist node pool staticByNode of
                None \<Rightarrow> None
              | Some (Some a) \<Rightarrow> record a (ctIter s)
              | Some None \<Rightarrow>
                  (case getNewAllocationForNode fuel (ctxErr node) (ctIter s) node pool (map fst (ctByPrefix s))
                          (map fst staticByPrefix) mergedExclusions fullyExcluded of
                     None \<Rightarrow> None
                   | Some (Inl e, it') \<Rightarrow> Some (Inl e, s\<lparr>ctIter := it'\<rparr>)
                   | Some (Inr a, it') \<Rightarrow> record a it')))"

definition set_cidr_allocations :: "CIDRPool \<Rightarrow> CIDRPoolAllocation list \<Rightarrow> CIDRPool" where
  "set_cidr_allocations pool as = pool\<lparr>cpStatus := (cpStatus pool)\<lparr>cpAllocations := as\<rparr>\<rparr>"

definition CIDRPool_handleInvalidSpec ::
    "CIDRPool cluster \<Rightarrow> field_error list \<Rightarrow> CIDRPool \<Rightarrow> ctrl_error option \<times> CIDRPool effect list" where
  "CIDRPool_handleInvalidSpec cl errs pool =
     (let pool' = set_cidr_allocations pool []
      in case clUpdate cl pool' of
           Some e \<Rightarrow> (Some (ClientError e), [StatusUpdate pool'])
         | None \<Rightarrow> (None, [StatusUpdate pool', InvalidSpecEvent errs]))"

definition no_prefix_event :: "string \<Rightarrow> CIDRPool effect" where
  "no_prefix_event name = NoFreeEvent (''failed to allocated prefix for Node: '' @ name @ '', no free prefixes'')"

definition CIDRPool_Reconcile ::
    "ext_validation \<Rightarrow> CIDRPool cluster \<Rightarrow> nat \<Rightarrow> (string \<Rightarrow> nat \<Rightarrow> string option) \<Rightarrow> string \<times> string \<Rightarrow>
     (ctrl_error option \<times> CIDRPool effect list) option" where
  "CIDRPool_Reconcile ev cl fuel ctxErr req =
     (if fst req \<noteq> clNamespace cl then Some (None, [])
      else
        (case clGet cl req of
           GetNotFound \<Rightarrow> Some (None, [])
         | GetFailed e \<Rightarrow> Some (Some (ClientError e), [])
         | Got pool \<Rightarrow>
             let errList = CIDRPool_Validate ev pool
             in if length errList \<noteq> 0 then Some (CIDRPool_handleInvalidSpec cl errList pool)
                else
                  let cidrNetwork = map_option snd (ParseCIDR (cpCIDR (cpSpec pool)));
                      prefixSize = cpPerNodeNetworkPrefix (cpSpec pool)
                  in (case getMatchingNodes cl (cpNodeSelector (cpSpec pool)) of
                        Inl e \<Rightarrow> Some (Some (ClientError e), [])
                      | Inr nodes \<Rightarrow>
                          (case getValidExistingAllocationsMaps pool nodes of
                             None \<Rightarrow> None
                           | Some (byNode, byPrefix) \<Rightarrow>
                               (case getStaticAllocationsMaps pool of (staticByNode, staticByPrefix) \<Rightarrow>
                                  (case NewSubnetIterator cidrNetwork prefixSize of
                                     Inl e \<Rightarrow> Some (Some (IteratorError e), [])
                                   | Inr it \<Rightarrow>
                                       (case cidrNetwork of
                                          None \<Rightarrow> None
                                        | Some n \<Rightarrow>
                                            let mergedExclusions = MergeExcludeRanges (cpExclusions (cpSpec pool));
                                                fullyExcluded = ExcludeIndexRangesCover (cpPerNodeExclusions (cpSpec pool))
                                                                  (Some (lastUsableIndex n prefixSize))
                                            in (case allocate_all
                                                       (cidr_allocate fuel ctxErr pool staticByNode staticByPrefix mergedExclusions fullyExcluded)
                                                       (\<lambda>e. e = NoFreePrefixes)
                                                       \<lparr>ctByNode = byNode, ctByPrefix = byPrefix, ctIter = it\<rparr> nodes of
                                                  None \<Rightarrow> None
                                                | Some (err, _, failed, s) \<Rightarrow>
                                                    let events = map no_prefix_event failed
                                                    in (case err of
                                                         Some e \<Rightarrow> Some (Some e, events)
                                                       | None \<Rightarrow>
                                                           let allocations = sort_Slice (\<lambda>a b. str_less (caNodeName a) (caNodeName b)) (map snd (ctByNode s));
                                                               pool' = set_cidr_allocations pool allocations
                                                           in if cpAllocations (cpStatus pool) \<noteq> allocations
                                                              then Some (map_option ClientError (clUpdate cl pool'), events @ [StatusUpdate pool'])
                                                              else Some (None, events))))))))))"

subsection \<open>Excluded prefixes\<close>

text \<open>The exclusions of a pool as a configuration of the block allocator, whose test for an excluded range reads only
  these two fields.\<close>

definition cidr_exclusions :: "CIDRPool \<Rightarrow> AllocationConfig" where
  "cidr_exclusions pool = \<lparr>acPoolName = [], acSubnet = None, acGateway = [], acPerNodeBlockSize = 0, acNodeSelector = None,
     acExcludeRanges = cpExclusions (cpSpec pool), acPerNodeExclusions = cpPerNodeExclusions (cpSpec pool)\<rparr>"

text \<open>A prefix without a usable address: every address up to the last one that is not the broadcast address is in an
  excluded range or at an excluded index.\<close>

definition prefix_excluded :: "CIDRPool \<Rightarrow> SubnetIterator \<Rightarrow> int \<Rightarrow> bool" where
  "prefix_excluded pool it k \<longleftrightarrow>
     (\<forall>v. net_base (prefix_at it k) \<le> v \<and> v \<le> last_val (prefix_at it k) \<longrightarrow>
        ers_val (cpExclusions (cpSpec pool)) v \<or>
        index_covered (cpPerNodeExclusions (cpSpec pool)) (int v - int (net_base (prefix_at it k))))"

lemma cidr_okD:
  assumes "cidr_ok pool n it"
  shows "wf_net n" "NewSubnetIterator (Some n) (cpPerNodeNetworkPrefix (cpSpec pool)) = Inr it" "iter_ok it" "siWidth it = length (ipnIP n)"
    "\<forall>er \<in> set (cpExclusions (cpSpec pool)). er_ok (length (ipnIP n)) er"
  using assms NewSubnetIterator_wf [of n "cpPerNodeNetworkPrefix (cpSpec pool)" it] by (auto simp: cidr_ok_def)

lemma prefix_facts:
  assumes "cidr_ok pool n it" "net_clear n" "0 \<le> k" "k < siSubnetCount it"
  shows "wf_net (prefix_at it k)" "net_clear (prefix_at it k)" "length (ipnIP (prefix_at it k)) = length (ipnIP n)"
    "int (net_base (prefix_at it k)) = prefix_first it k" "int (net_size (prefix_at it k)) = siSubnetIPCount it"
    "ipnIP (prefix_at it k) = be_bytes (length (ipnIP n)) (net_base (prefix_at it k))"
    "LastIP (prefix_at it k) = be_bytes (length (ipnIP n)) (last_val (prefix_at it k))"
proof -
  note c = cidr_okD [OF assms(1)]
  show wf: "wf_net (prefix_at it k)" and "net_clear (prefix_at it k)" using prefix_at_wf_net [OF c(1) assms(2) c(2) assms(3,4)] .
  show len: "length (ipnIP (prefix_at it k)) = length (ipnIP n)" using iter_width [OF c(2,1)] .
  show "int (net_base (prefix_at it k)) = prefix_first it k" by (rule prefix_at_base [OF c(3) assms(3,4)])
  show "int (net_size (prefix_at it k)) = siSubnetIPCount it" by (rule prefix_at_size [OF c(3)])
  show "ipnIP (prefix_at it k) = be_bytes (length (ipnIP n)) (net_base (prefix_at it k))"
    using be_bytes_be_val [of "ipnIP (prefix_at it k)"] len by (simp add: net_base_def)
  show "LastIP (prefix_at it k) = be_bytes (length (ipnIP n)) (last_val (prefix_at it k))"
    using LastIP_conv [OF wf] len by (simp add: last_val_def)
qed

lemma isPrefixFullyExcluded_conv:
  assumes "cidr_ok pool n it" "net_clear n" "0 \<le> k" "k < siSubnetCount it"
  shows "isPrefixFullyExcluded (IPNet_String (prefix_at it k)) pool = Some (prefix_excluded pool it k)"
proof -
  let ?m = "prefix_at it k" and ?L = "length (ipnIP n)" and ?pa = "newPoolAllocator (cidr_exclusions pool)"
  let ?r = "\<lparr>arStartIP = ipnIP ?m, arEndIP = LastIP ?m\<rparr>"
  note c = cidr_okD [OF assms(1)] and p = prefix_facts [OF assms]
  have e: "isPrefixFullyExcluded (IPNet_String ?m) pool = Some (isEntireRangeExcluded ?pa ?r)"
    unfolding isPrefixFullyExcluded_def ParseCIDR_IPNet_String [OF p(1)] isEntireRangeExcluded_def newPoolAllocator_def cidr_exclusions_def
    by (simp add: Let_def split: list.split)
  have b: "net_base ?m \<le> last_val ?m" "last_val ?m < net_base ?m + net_size ?m" using last_val_bounds(1,2) .
  have pl: "plain ?L v" if "net_base ?m \<le> v" "v < net_base ?m + net_size ?m" for v
    using net_clear_plain [OF p(1,2) that] p(3) by simp
  have pb: "plain ?L (net_base ?m)" "plain ?L (last_val ?m)" using b by (auto intro!: pl)
  have v: "ip_len (arStartIP ?r) = ?L" "ip_len (arEndIP ?r) = ?L" "ip_val (arStartIP ?r) = net_base ?m" "ip_val (arEndIP ?r) = last_val ?m"
    using pb p(6,7) by simp_all
  have ix: "0 \<le> eiStartIndex x \<and> eiStartIndex x \<le> eiEndIndex x \<and> plain ?L (net_base ?m + nat (eiStartIndex x)) \<and>
      plain ?L (net_base ?m + nat (eiEndIndex x))" if "x \<in> set (cpPerNodeExclusions (cpSpec pool))" for x
  proof -
    have "0 \<le> eiStartIndex x" "eiStartIndex x \<le> eiEndIndex x" "eiEndIndex x < int (net_size ?m)"
      using assms(1) that p(5) by (auto simp: cidr_ok_def)
    then show ?thesis by (auto intro!: pl)
  qed
  have "isEntireRangeExcluded ?pa ?r \<longleftrightarrow>
    (\<forall>v. ip_val (arStartIP ?r) \<le> v \<and> v \<le> ip_val (arEndIP ?r) \<longrightarrow> excluded_at (paCfg ?pa) (ip_val (arStartIP ?r)) v)"
    by (rule isEntireRangeExcluded_conv [where L = ?L])
      (use v plain_not_0 [OF pb(1)] b c(5) ix pl in \<open>auto simp: newPoolAllocator_def cidr_exclusions_def\<close>)
  then show ?thesis
    unfolding e v by (simp add: prefix_excluded_def excluded_at_def newPoolAllocator_def cidr_exclusions_def)
qed

text \<open>If the index exclusions cover the whole of a prefix, no prefix is usable.\<close>

lemma fully_excluded_prefixes:
  assumes "cidr_ok pool n it" "net_clear n" "0 \<le> k" "k < siSubnetCount it"
    "ExcludeIndexRangesCover (cpPerNodeExclusions (cpSpec pool)) (Some (lastUsableIndex n (cpPerNodeNetworkPrefix (cpSpec pool))))"
  shows "prefix_excluded pool it k"
proof -
  let ?p = "cpPerNodeNetworkPrefix (cpSpec pool)" and ?m = "prefix_at it k"
  note c = cidr_okD [OF assms(1)] and p = prefix_facts [OF assms(1-4)]
  note ok = iter_okD [OF c(3)] and w = NewSubnetIterator_wf [OF c(1,2)]
  let ?h = "8 * int (length (ipnIP n)) - ?p"
  have h: "0 \<le> ?h" "int (net_size ?m) = 2 ^ nat ?h" using ok(1,3,4) w(2,6) p(5) by simp_all
  have last: "lastUsableIndex n ?p = int (last_val ?m) - int (net_base ?m)"
  proof -
    have v4: "To4 (ipnIP n) \<noteq> [] \<longleftrightarrow> length (ipnIP n) = 4" using wf_netD(1) [OF c(1)] by auto
    have "1 < ?h \<longleftrightarrow> 2 < net_size ?m"
    proof -
      have "2 < net_size ?m \<longleftrightarrow> (2 :: int) ^ 1 < 2 ^ nat ?h" unfolding h(2) [symmetric] by simp
      also have "\<dots> \<longleftrightarrow> 1 < nat ?h" by (subst power_strict_increasing_iff) simp_all
      finally show ?thesis by linarith
    qed
    moreover have "(if ?h \<le> 0 then 1 else 2 ^ nat ?h) = int (net_size ?m)" using h by auto
    ultimately show ?thesis
      using net_size_pos [of ?m] p(3)
      by (auto simp: lastUsableIndex_def wf_net_Size [OF c(1)] Let_def v4 last_val_def of_nat_diff simp del: net_size_pos)
  qed
  have "\<forall>i. 0 \<le> i \<and> i \<le> lastUsableIndex n ?p \<longrightarrow> index_covered (cpPerNodeExclusions (cpSpec pool)) i"
    using ExcludeIndexRangesCover_iff_law [of "lastUsableIndex n ?p" "cpPerNodeExclusions (cpSpec pool)"] assms(1,5) last last_val_bounds(1) [of ?m]
    by (auto simp: cidr_ok_def)
  then show ?thesis unfolding prefix_excluded_def last by auto
qed

subsection \<open>Skipping along an exclusion\<close>

lemma overlap_loop_end:
  assumes "\<forall>er \<in> set ers. er_ok L er" "ip_len f = L" "ip_len l = L" "L \<noteq> 0"
    "fe = [] \<or> (\<exists>er. P er \<and> er_ok L er \<and> fe = ParseIP (erEndIP er) \<and> er_lo er \<le> ip_val l \<and> ip_val f \<le> er_hi er)"
    "\<And>er. er \<in> set ers \<Longrightarrow> P er"
  shows "overlap_loop f l fe ers = [] \<or>
    (\<exists>er. P er \<and> er_ok L er \<and> overlap_loop f l fe ers = ParseIP (erEndIP er) \<and> er_lo er \<le> ip_val l \<and> ip_val f \<le> er_hi er)"
  using assms
proof (induction ers arbitrary: fe)
  case Nil
  then show ?case by simp
next
  case (Cons er ers)
  let ?s = "ParseIP (erStartIP er)" and ?e = "ParseIP (erEndIP er)"
  have ok: "er_ok L er" using Cons.prems(1) by simp
  then have er: "?s \<noteq> []" "?e \<noteq> []" "ip_len ?s = L" "ip_len ?e = L" by (auto simp: er_ok_def)
  note ih = Cons.IH [OF _ Cons.prems(2-4)]
  consider "Cmp ?e f < 0" | "\<not> Cmp ?e f < 0" "0 < Cmp ?s l" | "\<not> Cmp ?e f < 0" "\<not> 0 < Cmp ?s l" by blast
  then show ?case
  proof cases
    case 1
    then have "overlap_loop f l fe (er # ers) = overlap_loop f l fe ers" by (simp add: Let_def)
    with ih [OF _ Cons.prems(5)] Cons.prems(1,6) show ?thesis by simp
  next
    case 2
    then have "overlap_loop f l fe (er # ers) = fe" using er by (simp add: Let_def)
    with Cons.prems(5) show ?thesis by auto
  next
    case 3
    let ?fe = "if fe = [] \<or> 0 < Cmp ?e fe then ?e else fe"
    have in_range: "er_lo er \<le> ip_val l" "ip_val f \<le> er_hi er"
      using 3 er Cons.prems(2-4) by (auto simp: Cmp_conv sgn_if split: if_splits)
    have "?fe = [] \<or> (\<exists>er. P er \<and> er_ok L er \<and> ?fe = ParseIP (erEndIP er) \<and> er_lo er \<le> ip_val l \<and> ip_val f \<le> er_hi er)"
    proof (cases "fe = [] \<or> 0 < Cmp ?e fe")
      case True
      then show ?thesis using ok in_range Cons.prems(6) [of er] by auto
    next
      case False
      then show ?thesis using Cons.prems(5) by simp
    qed
    moreover have "overlap_loop f l fe (er # ers) = overlap_loop f l ?fe ers" using 3 er by (simp add: Let_def)
    ultimately show ?thesis using ih [of ?fe] Cons.prems(1,6) by simp
  qed
qed

text \<open>An exclusion that reaches from a prefix over the whole of a later prefix excludes the later one.\<close>

lemma skipped_excluded:
  assumes c: "cidr_ok pool n it" "net_clear n" and k: "0 \<le> k" "k < siSubnetCount it" "k < j" "j < siSubnetCount it"
    and er: "er \<in> set (MergeExcludeRanges (cpExclusions (cpSpec pool)))" "er_lo er \<le> last_val (prefix_at it k)"
      "prefix_first it j + siSubnetIPCount it \<le> int (er_hi er) + 1"
  shows "prefix_excluded pool it j"
  unfolding prefix_excluded_def
proof (intro allI impI disjI1)
  fix v
  let ?L = "length (ipnIP n)" and ?m = "prefix_at it j" and ?ers = "cpExclusions (cpSpec pool)"
  assume v: "net_base ?m \<le> v \<and> v \<le> last_val ?m"
  note ck = cidr_okD [OF c(1)]
  have j: "0 \<le> j" using k by simp
  note pk = prefix_facts [OF c k(1,2)] and pj = prefix_facts [OF c j k(4)]
  have vlt: "v < net_base ?m + net_size ?m" using v last_val_bounds(2) [of ?m] by simp
  have pl: "plain ?L v" using net_clear_plain [OF pj(1,2) conjunct1 [OF v] vlt] pj(3) by simp
  have hi: "v \<le> er_hi er" using vlt er(3) pj(4,5) by linarith
  have "siSubnetIPCount it * (k + 1) \<le> siSubnetIPCount it * j"
    using k(3) iter_okD(10) [OF ck(3)] by (intro mult_left_mono) auto
  then have "prefix_first it k + siSubnetIPCount it \<le> prefix_first it j" by (simp add: prefix_first_def distrib_left)
  then have lo: "er_lo er \<le> v" using er(2) last_val_bounds(2) [of "prefix_at it k"] pk(4,5) pj(4) conjunct1 [OF v] by linarith
  have law: "(\<forall>er \<in> set (MergeExcludeRanges ?ers). er_ok ?L er)"
    "(\<exists>er \<in> set (MergeExcludeRanges ?ers). ExcludeRange_Contains er (be_bytes ?L v)) \<longleftrightarrow> (\<exists>er \<in> set ?ers. ExcludeRange_Contains er (be_bytes ?L v))"
    using MergeExcludeRanges_normal_form_law [OF ck(5)] by blast+
  have "er_ok ?L er" using law(1) er(1) by blast
  then have "ExcludeRange_Contains er (be_bytes ?L v)" using lo hi pl by (simp add: ExcludeRange_Contains_iff)
  then show "ers_val ?ers v" using law(2) er(1) ers_contains_iff [OF ck(5)] pl by auto
qed

text \<open>The end address that an overlapping exclusion gives to the iterator.\<close>

lemma overlappingExclusionEnd_conv:
  assumes c: "cidr_ok pool n it" "net_clear n" and k: "0 \<le> k" "k < siSubnetCount it"
  defines "E \<equiv> overlappingExclusionEnd (prefix_at it k) (MergeExcludeRanges (cpExclusions (cpSpec pool)))"
  shows "E = [] \<or> ip_len E = siWidth it \<and>
    (\<exists>er \<in> set (MergeExcludeRanges (cpExclusions (cpSpec pool))). er_lo er \<le> last_val (prefix_at it k) \<and> er_hi er = ip_val E)"
proof -
  let ?L = "length (ipnIP n)" and ?m = "prefix_at it k" and ?ms = "MergeExcludeRanges (cpExclusions (cpSpec pool))"
  note ck = cidr_okD [OF c(1)] and p = prefix_facts [OF c k]
  have b: "net_base ?m \<le> last_val ?m" "last_val ?m < net_base ?m + net_size ?m" using last_val_bounds(1,2) .
  have pl: "plain ?L v" if "net_base ?m \<le> v" "v < net_base ?m + net_size ?m" for v
    using net_clear_plain [OF p(1,2) that] p(3) by simp
  have pb: "plain ?L (net_base ?m)" "plain ?L (last_val ?m)" using b by (auto intro!: pl)
  have v: "ip_len (ipnIP ?m) = ?L" "ip_len (LastIP ?m) = ?L" "ip_val (LastIP ?m) = last_val ?m"
    using pb p(6,7) by simp_all
  have ok: "\<forall>er \<in> set ?ms. er_ok ?L er" using MergeExcludeRanges_normal_form_law [OF ck(5)] by blast
  have "E = [] \<or> (\<exists>er. er \<in> set ?ms \<and> er_ok ?L er \<and> E = ParseIP (erEndIP er) \<and> er_lo er \<le> ip_val (LastIP ?m) \<and> ip_val (ipnIP ?m) \<le> er_hi er)"
    unfolding E_def overlappingExclusionEnd_def
    by (rule overlap_loop_end [where P = "\<lambda>er. er \<in> set ?ms", OF ok v(1,2) plain_not_0 [OF pb(1)]]) simp_all
  then show ?thesis using v(3) ck(4) by (auto simp: er_ok_def)
qed

subsection \<open>The search\<close>

text \<open>A prefix the search may return.\<close>

definition free_prefix :: "CIDRPool \<Rightarrow> SubnetIterator \<Rightarrow> string set \<Rightarrow> int \<Rightarrow> bool" where
  "free_prefix pool it taken k \<longleftrightarrow> 0 \<le> k \<and> k < siSubnetCount it \<and> IPNet_String (prefix_at it k) \<notin> taken \<and> \<not> prefix_excluded pool it k"

text \<open>The outcome of a search from index \<open>k\<close> that leaves the iterator at index \<open>k'\<close>.\<close>

definition search_outcome ::
    "CIDRPool \<Rightarrow> SubnetIterator \<Rightarrow> string set \<Rightarrow> int \<Rightarrow> int \<Rightarrow> (nat \<Rightarrow> string option) \<Rightarrow> ctrl_error + IPNet option \<Rightarrow> bool" where
  "search_outcome pool it taken k k' ctxErr res \<longleftrightarrow> k \<le> k' \<and> k' \<le> siSubnetCount it \<and>
     (case res of
        Inl e \<Rightarrow> (\<exists>i x. ctxErr i = Some x \<and> e = ContextError x) \<and> (\<forall>j. k \<le> j \<and> j < k' \<longrightarrow> \<not> free_prefix pool it taken j)
      | Inr None \<Rightarrow> k' = siSubnetCount it \<and> (\<forall>j. k \<le> j \<and> j < k' \<longrightarrow> \<not> free_prefix pool it taken j)
      | Inr (Some m) \<Rightarrow> m = prefix_at it (k' - 1) \<and> free_prefix pool it taken (k' - 1) \<and> k < k' \<and>
          (\<forall>j. k \<le> j \<and> j < k' - 1 \<longrightarrow> \<not> free_prefix pool it taken j))"

lemma search_outcome_skip:
  assumes "search_outcome pool it taken k1 k' ctxErr res" "k \<le> k1" "\<forall>j. k \<le> j \<and> j < k1 \<longrightarrow> \<not> free_prefix pool it taken j"
  shows "search_outcome pool it taken k k' ctxErr res"
proof -
  have "\<not> free_prefix pool it taken j" if "k \<le> j" "\<not> (k1 \<le> j \<and> free_prefix pool it taken j)" for j
    using assms(3) that by (cases "j < k1") auto
  then show ?thesis using assms(1,2) unfolding search_outcome_def by (auto split: sum.splits option.splits)
qed

lemma prefix_loop_step:
  assumes c: "cidr_ok pool n it" "net_clear n" and k: "0 \<le> k" "k < siSubnetCount it" and ctx: "ctxErr fuel = None"
  shows "prefix_loop (Suc fuel) ctxErr pool allocated static (MergeExcludeRanges (cpExclusions (cpSpec pool))) (it\<lparr>siNextIndex := k\<rparr>) =
    (let ms = MergeExcludeRanges (cpExclusions (cpSpec pool)); next = prefix_loop fuel ctxErr pool allocated static ms; it1 = it\<lparr>siNextIndex := k + 1\<rparr>
     in if IPNet_String (prefix_at it k) \<in> set allocated \<union> set static then next it1
        else if prefix_excluded pool it k then
          (let E = overlappingExclusionEnd (prefix_at it k) ms
           in if E \<noteq> [] then (case AdvancePastIP it1 E of Inl e \<Rightarrow> Some (Inl (IteratorError e), it1) | Inr it2 \<Rightarrow> next it2) else next it1)
        else Some (Inr (Some (prefix_at it k)), it1))"
proof -
  have ok: "iter_ok (it\<lparr>siNextIndex := k\<rparr>)" using iter_ok_upd [OF cidr_okD(3) [OF c(1)] k(1)] k(2) by simp
  show ?thesis
    unfolding prefix_loop.simps(2) ctx Next_conv [OF ok] using k(2) by (simp add: isPrefixFullyExcluded_conv [OF c k] Let_def split: bool.split)
qed

text \<open>Jumping to the end of the exclusion that overlaps an excluded prefix skips only prefixes that are not free.\<close>

lemma exclusion_jump:
  assumes c: "cidr_ok pool n it" "net_clear n" and k: "0 \<le> k" "k < siSubnetCount it" and nk: "\<not> free_prefix pool it taken k"
    and E: "E = overlappingExclusionEnd (prefix_at it k) (MergeExcludeRanges (cpExclusions (cpSpec pool)))" "E \<noteq> []"
  shows "\<exists>k1. AdvancePastIP (it\<lparr>siNextIndex := k + 1\<rparr>) E = Inr (it\<lparr>siNextIndex := k1\<rparr>) \<and> k < k1 \<and> k1 \<le> siSubnetCount it \<and>
    (\<forall>j. k \<le> j \<and> j < k1 \<longrightarrow> \<not> free_prefix pool it taken j)"
proof -
  let ?it1 = "it\<lparr>siNextIndex := k + 1\<rparr>"
  let ?k1 = "advance_index ?it1 (int (ip_val E))"
  obtain er where er: "ip_len E = siWidth it" "er \<in> set (MergeExcludeRanges (cpExclusions (cpSpec pool)))" "er_lo er \<le> last_val (prefix_at it k)" "er_hi er = ip_val E"
    using overlappingExclusionEnd_conv [OF c k] E by blast
  have ok1: "iter_ok ?it1" using iter_ok_upd [OF cidr_okD(3) [OF c(1)], of "k + 1"] k by simp
  have b: "k + 1 \<le> ?k1" "?k1 \<le> siSubnetCount it" using advance_index_bounds [OF ok1, of "int (ip_val E)"] by simp_all
  have small: "int (ip_val E) < 256 ^ siWidth ?it1"
    using ip_val_less [of E] er(1) by (metis iter_fields_upd(1) of_nat_less_iff of_nat_numeral of_nat_power)
  have "\<not> free_prefix pool it taken j" if "k \<le> j" "j < ?k1" for j
  proof (cases "j = k")
    case False
    then have "prefix_first it j + siSubnetIPCount it \<le> int (ip_val E) + 1"
      using advance_skipped_below [OF ok1 _ that(2) small] that(1) by simp
    then have "prefix_excluded pool it j"
      using skipped_excluded [OF c k _ _ er(2,3), of j] er(4) that b(2) False by simp
    then show ?thesis by (simp add: free_prefix_def)
  qed (use nk in simp)
  moreover have "AdvancePastIP ?it1 E = Inr (it\<lparr>siNextIndex := ?k1\<rparr>)" unfolding AdvancePastIP_conv [OF ok1] using er(1) by simp
  ultimately show ?thesis using b by (intro exI [of _ ?k1]) simp
qed

text \<open>One step of the search ends it or goes on behind prefixes that are not free.\<close>

lemma prefix_loop_cases:
  assumes c: "cidr_ok pool n it" "net_clear n" and k: "0 \<le> k" "k < siSubnetCount it" and ctx: "ctxErr fuel = None"
  shows "(free_prefix pool it (set allocated \<union> set static) k \<and>
      prefix_loop (Suc fuel) ctxErr pool allocated static (MergeExcludeRanges (cpExclusions (cpSpec pool))) (it\<lparr>siNextIndex := k\<rparr>) =
        Some (Inr (Some (prefix_at it k)), it\<lparr>siNextIndex := k + 1\<rparr>)) \<or>
    (\<exists>k1. prefix_loop (Suc fuel) ctxErr pool allocated static (MergeExcludeRanges (cpExclusions (cpSpec pool))) (it\<lparr>siNextIndex := k\<rparr>) =
        prefix_loop fuel ctxErr pool allocated static (MergeExcludeRanges (cpExclusions (cpSpec pool))) (it\<lparr>siNextIndex := k1\<rparr>) \<and>
      k < k1 \<and> k1 \<le> siSubnetCount it \<and> (\<forall>j. k \<le> j \<and> j < k1 \<longrightarrow> \<not> free_prefix pool it (set allocated \<union> set static) j))"
    (is "_ \<or> (\<exists>k1. ?run = ?next k1 \<and> _ k1)")
proof -
  let ?taken = "set allocated \<union> set static" and ?E = "overlappingExclusionEnd (prefix_at it k) (MergeExcludeRanges (cpExclusions (cpSpec pool)))"
  note step = prefix_loop_step [where ctxErr = ctxErr and fuel = fuel, OF c k ctx, of allocated static, unfolded Let_def]
  show ?thesis
  proof (cases "free_prefix pool it ?taken k")
    case True
    then show ?thesis using step by (simp add: free_prefix_def)
  next
    case nk: False
    show ?thesis
    proof (cases "IPNet_String (prefix_at it k) \<in> ?taken \<or> ?E = []")
      case True
      then have "?run = ?next (k + 1)" using step nk k by (auto simp: free_prefix_def)
      moreover have "\<forall>j. k \<le> j \<and> j < k + 1 \<longrightarrow> \<not> free_prefix pool it ?taken j" using nk by (metis order_antisym zle_add1_eq_le)
      ultimately show ?thesis using k(2) by (intro disjI2 exI [of _ "k + 1"]) simp
    next
      case False
      then obtain k1 where j: "AdvancePastIP (it\<lparr>siNextIndex := k + 1\<rparr>) ?E = Inr (it\<lparr>siNextIndex := k1\<rparr>)" "k < k1" "k1 \<le> siSubnetCount it"
        "\<forall>j. k \<le> j \<and> j < k1 \<longrightarrow> \<not> free_prefix pool it ?taken j" using exclusion_jump [OF c k nk refl] by blast
      have "?run = ?next k1" using step nk k False j(1) by (simp add: free_prefix_def)
      then show ?thesis using j(2-4) by blast
    qed
  qed
qed

lemma prefix_loop_outcome:
  assumes c: "cidr_ok pool n it" "net_clear n"
  shows "\<lbrakk>0 \<le> k; k \<le> siSubnetCount it; nat (siSubnetCount it - k) < fuel\<rbrakk> \<Longrightarrow>
    \<exists>res k'. prefix_loop fuel ctxErr pool allocated static (MergeExcludeRanges (cpExclusions (cpSpec pool))) (it\<lparr>siNextIndex := k\<rparr>) =
        Some (res, it\<lparr>siNextIndex := k'\<rparr>) \<and> search_outcome pool it (set allocated \<union> set static) k k' ctxErr res"
proof (induction fuel arbitrary: k)
  case (Suc fuel)
  let ?ms = "MergeExcludeRanges (cpExclusions (cpSpec pool))" and ?it = "it\<lparr>siNextIndex := k\<rparr>" and ?taken = "set allocated \<union> set static"
  have ok: "iter_ok ?it" by (rule iter_ok_upd [OF cidr_okD(3) [OF c(1)] Suc.prems(1,2)])
  note unf = prefix_loop.simps(2) [of fuel ctxErr pool allocated static ?ms ?it]
  consider (ctx) e where "ctxErr fuel = Some e" | (stop) "ctxErr fuel = None" "k = siSubnetCount it" | (go) "ctxErr fuel = None" "k < siSubnetCount it"
    using Suc.prems(2) by (cases "ctxErr fuel"; cases "k < siSubnetCount it") auto
  then show ?case
  proof cases
    case ctx
    then have "search_outcome pool it ?taken k k ctxErr (Inl (ContextError e))" using Suc.prems(2) by (auto simp: search_outcome_def)
    with ctx unf show ?thesis by (intro exI conjI) simp_all
  next
    case stop
    then have "search_outcome pool it ?taken k k ctxErr (Inr None)" by (auto simp: search_outcome_def)
    moreover have "prefix_loop (Suc fuel) ctxErr pool allocated static ?ms ?it = Some (Inr None, ?it)"
      unfolding unf stop(1) Next_conv [OF ok] using stop(2) by simp
    ultimately show ?thesis by blast
  next
    case go
    from prefix_loop_cases [where ctxErr = ctxErr and fuel = fuel, OF c Suc.prems(1) go(2,1), of allocated static] show ?thesis
    proof (elim disjE exE conjE)
      assume "free_prefix pool it ?taken k" "prefix_loop (Suc fuel) ctxErr pool allocated static ?ms ?it = Some (Inr (Some (prefix_at it k)), it\<lparr>siNextIndex := k + 1\<rparr>)"
      moreover from this(1) have "search_outcome pool it ?taken k (k + 1) ctxErr (Inr (Some (prefix_at it k)))"
        using go(2) by (auto simp: search_outcome_def)
      ultimately show ?thesis by blast
    next
      fix k1
      assume k1: "prefix_loop (Suc fuel) ctxErr pool allocated static ?ms ?it = prefix_loop fuel ctxErr pool allocated static ?ms (it\<lparr>siNextIndex := k1\<rparr>)"
        "k < k1" "k1 \<le> siSubnetCount it" "\<forall>j. k \<le> j \<and> j < k1 \<longrightarrow> \<not> free_prefix pool it ?taken j"
      have "nat (siSubnetCount it - k1) < fuel" "0 \<le> k1" using k1(2) Suc.prems go(2) by linarith+
      with Suc.IH [OF _ k1(3)] obtain res k' where r: "prefix_loop fuel ctxErr pool allocated static ?ms (it\<lparr>siNextIndex := k1\<rparr>) = Some (res, it\<lparr>siNextIndex := k'\<rparr>)"
        "search_outcome pool it ?taken k1 k' ctxErr res" by blast
      have "search_outcome pool it ?taken k k' ctxErr res" by (rule search_outcome_skip [OF r(2) _ k1(4)]) (use k1(2) in simp)
      with r(1) k1(1) show ?thesis by auto
    qed
  qed
qed simp

subsection \<open>Entries of the status\<close>

text \<open>A prefix is compared as text by the controller; these are the texts it prints itself.\<close>

definition canonical_prefix :: "string \<Rightarrow> bool" where
  "canonical_prefix s \<longleftrightarrow> (case ParseCIDR s of None \<Rightarrow> False | Some (_, m) \<Rightarrow> IPNet_String m = s)"

definition cidr_canonical :: "CIDRPool \<Rightarrow> bool" where
  "cidr_canonical pool \<longleftrightarrow> (\<forall>st \<in> set (cpStaticAllocations (cpSpec pool)). canonical_prefix (csPrefix st)) \<and>
     (\<forall>a \<in> set (cpAllocations (cpStatus pool)). canonical_prefix (caPrefix a))"

definition computed_gateway :: "CIDRPool \<Rightarrow> IPNet \<Rightarrow> string" where
  "computed_gateway pool m = (case cpGatewayIndex (cpSpec pool) of Some gi \<Rightarrow> GetGatewayForSubnet m gi | None \<Rightarrow> [])"

text \<open>The right entry for a node that holds prefix number \<open>k\<close>: a node with a static allocation has the prefix of that
  allocation and its gateway if it names one; a prefix that is reserved by a static allocation belongs to its node; the
  prefix of any other node is not all excluded; and gateways are computed from the prefix.\<close>

definition entry_at :: "CIDRPool \<Rightarrow> SubnetIterator \<Rightarrow> CIDRPoolAllocation \<Rightarrow> int \<Rightarrow> bool" where
  "entry_at pool it a k \<longleftrightarrow> 0 \<le> k \<and> k < siSubnetCount it \<and> caPrefix a = IPNet_String (prefix_at it k) \<and>
     (\<forall>st \<in> set (cpStaticAllocations (cpSpec pool)). csNodeName st = caNodeName a \<and> caNodeName a \<noteq> [] \<longrightarrow>
        caPrefix a = csPrefix st \<and> caGateway a = (if csGateway st \<noteq> [] then csGateway st else computed_gateway pool (prefix_at it k))) \<and>
     (\<forall>st \<in> set (cpStaticAllocations (cpSpec pool)). caPrefix a = csPrefix st \<longrightarrow> csNodeName st = caNodeName a) \<and>
     (caNodeName a \<notin> csNodeName ` set (cpStaticAllocations (cpSpec pool)) \<longrightarrow>
        caGateway a = computed_gateway pool (prefix_at it k) \<and> \<not> prefix_excluded pool it k)"

lemma cidr_ok_static:
  assumes "cidr_ok pool n it" "st \<in> set (cpStaticAllocations (cpSpec pool))"
  shows "ParseCIDR (csPrefix st) \<noteq> None \<and> (\<exists>k. 0 \<le> k \<and> k < siSubnetCount it \<and> static_net st = prefix_at it k)"
proof -
  have "\<forall>st \<in> set (cpStaticAllocations (cpSpec pool)). ParseCIDR (csPrefix st) \<noteq> None \<and>
      (\<exists>k. 0 \<le> k \<and> k < siSubnetCount it \<and> static_net st = prefix_at it k) \<and>
      (csGateway st = [] \<or> IPNet_Contains (static_net st) (ParseIP (csGateway st)))"
    using assms(1) unfolding cidr_ok_def by (elim conjE)
  from bspec [OF this assms(2)] show ?thesis by (elim conjE) (intro conjI)
qed

lemma canonical_static:
  assumes "cidr_ok pool n it" "cidr_canonical pool" "st \<in> set (cpStaticAllocations (cpSpec pool))"
  shows "\<exists>k ip. 0 \<le> k \<and> k < siSubnetCount it \<and> ParseCIDR (csPrefix st) = Some (ip, prefix_at it k) \<and> csPrefix st = IPNet_String (prefix_at it k)"
proof -
  obtain k where k: "ParseCIDR (csPrefix st) \<noteq> None" "0 \<le> k" "k < siSubnetCount it" "static_net st = prefix_at it k"
    using cidr_ok_static [OF assms(1,3)] by blast
  then obtain ip where ip: "ParseCIDR (csPrefix st) = Some (ip, prefix_at it k)" by (auto simp: static_net_def)
  moreover have "canonical_prefix (csPrefix st)" using assms(2,3) by (simp add: cidr_canonical_def)
  ultimately show ?thesis using k by (auto simp: canonical_prefix_def)
qed

lemma distinct_mapD: "distinct (map f xs) \<Longrightarrow> x \<in> set xs \<Longrightarrow> y \<in> set xs \<Longrightarrow> f x = f y \<Longrightarrow> x = y"
  by (auto simp: distinct_map dest: inj_onD)

lemma static_prefix_inj:
  assumes "cidr_ok pool n it" "st \<in> set (cpStaticAllocations (cpSpec pool))" "st' \<in> set (cpStaticAllocations (cpSpec pool))"
    "csPrefix st = csPrefix st'"
  shows "st = st'"
proof (rule distinct_mapD [OF _ assms(2,3)])
  show "distinct (map static_net (cpStaticAllocations (cpSpec pool)))" using assms(1) by (simp add: cidr_ok_def)
  show "static_net st = static_net st'" by (simp add: static_net_def assms(4))
qed

lemma static_node_inj:
  assumes "cidr_ok pool n it" "st \<in> set (cpStaticAllocations (cpSpec pool))" "st' \<in> set (cpStaticAllocations (cpSpec pool))"
    "csNodeName st = csNodeName st'" "csNodeName st \<noteq> []"
  shows "st = st'"
proof (rule distinct_mapD)
  let ?sts = "cpStaticAllocations (cpSpec pool)"
  have "filter (\<lambda>s. s \<noteq> []) (map csNodeName ?sts) = map csNodeName (filter (\<lambda>st. csNodeName st \<noteq> []) ?sts)"
    by (simp add: filter_map comp_def)
  then show "distinct (map csNodeName (filter (\<lambda>st. csNodeName st \<noteq> []) ?sts))" using assms(1) by (simp add: cidr_ok_def)
qed (use assms in auto)

lemma static_match_cases:
  "static_match a gw sts = None \<and> (\<forall>st \<in> set sts. caNodeName a \<noteq> csNodeName st \<and> caPrefix a \<noteq> csPrefix st) \<or>
   (\<exists>errs. static_match a gw sts = Some errs \<and> (errs \<noteq> [] \<or> (\<exists>st \<in> set sts. caNodeName a = csNodeName st \<and> caPrefix a = csPrefix st \<and>
      caGateway a = (if csGateway st \<noteq> [] then csGateway st else gw))))"
proof (induction sts)
  case (Cons st sts)
  consider (node) "caNodeName a = csNodeName st" | (pre) "caNodeName a \<noteq> csNodeName st" "caPrefix a = csPrefix st"
    | (other) "caNodeName a \<noteq> csNodeName st" "caPrefix a \<noteq> csPrefix st" by blast
  then show ?case
  proof cases
    case node
    have "\<exists>e1 e2 e3 e4. static_match a gw (st # sts) = Some (err_if (caPrefix a \<noteq> csPrefix st) e1 @
        err_if (csGateway st \<noteq> [] \<and> caGateway a \<noteq> csGateway st) e2 @
        (if csGateway st = [] then err_if (gw \<noteq> [] \<and> caGateway a \<noteq> gw) e3 @ err_if (gw = [] \<and> caGateway a \<noteq> []) e4 else []))"
      unfolding static_match.simps if_P [OF node] by (intro exI) (rule refl)
    then obtain e1 e2 e3 e4 where m: "static_match a gw (st # sts) = Some (err_if (caPrefix a \<noteq> csPrefix st) e1 @
        err_if (csGateway st \<noteq> [] \<and> caGateway a \<noteq> csGateway st) e2 @
        (if csGateway st = [] then err_if (gw \<noteq> [] \<and> caGateway a \<noteq> gw) e3 @ err_if (gw = [] \<and> caGateway a \<noteq> []) e4 else []))"
      by blast
    show ?thesis unfolding m using node by (auto split: if_splits)
  next
    case pre
    have "\<exists>e. static_match a gw (st # sts) = Some [e]"
      unfolding static_match.simps if_not_P [OF pre(1)] if_P [OF pre(2)] by (intro exI) (rule refl)
    then show ?thesis by blast
  next
    case other
    then have "static_match a gw (st # sts) = static_match a gw sts" by (simp only: static_match.simps if_False)
    with Cons.IH other show ?thesis by auto
  qed
qed simp

text \<open>A conflict is a second entry that shares the node, the prefix or the gateway.\<close>

definition conflicts :: "CIDRPoolAllocation \<Rightarrow> CIDRPoolAllocation \<Rightarrow> bool" where
  "conflicts a e \<longleftrightarrow> (caGateway a \<noteq> [] \<and> caGateway a = caGateway e) \<or> caPrefix a = caPrefix e \<or> caNodeName a = caNodeName e"

lemma conflict_loop_Nil:
  "conflict_loop a found es = [] \<longleftrightarrow> length (filter (conflicts a) es) + (if found then 1 else 0) \<le> 1"
  by (induction es arbitrary: found) (auto simp: conflicts_def)

lemma length_le_1_eq: "length (filter P xs) \<le> 1 \<Longrightarrow> x \<in> set xs \<Longrightarrow> y \<in> set xs \<Longrightarrow> P x \<Longrightarrow> P y \<Longrightarrow> x = y"
proof -
  assume l: "length (filter P xs) \<le> 1" and "x \<in> set xs" "y \<in> set xs" "P x" "P y"
  then have "x \<in> set (filter P xs)" "y \<in> set (filter P xs)" by auto
  with l show "x = y" by (cases "filter P xs") auto
qed

text \<open>An entry of the status that validation accepts.\<close>

definition valid_entry :: "CIDRPool \<Rightarrow> CIDRPoolAllocation \<Rightarrow> bool" where
  "valid_entry pool a \<longleftrightarrow> a \<in> set (cpAllocations (cpStatus pool)) \<and> CIDRPoolAllocation_Validate a pool = Some []"

lemma valid_entry_cases:
  assumes "ParseCIDR (cpCIDR (cpSpec pool)) = Some (ip0, n)" "CIDRPoolAllocation_Validate a pool = Some errs"
  shows "errs \<noteq> [] \<or> caNodeName a \<noteq> [] \<and> (\<exists>ip m. ParseCIDR (caPrefix a) = Some (ip, m) \<and>
     ((\<exists>st \<in> set (cpStaticAllocations (cpSpec pool)). caNodeName a = csNodeName st \<and> caPrefix a = csPrefix st \<and>
         caGateway a = (if csGateway st \<noteq> [] then csGateway st else computed_gateway pool m)) \<or>
      (\<forall>st \<in> set (cpStaticAllocations (cpSpec pool)). caNodeName a \<noteq> csNodeName st \<and> caPrefix a \<noteq> csPrefix st) \<and>
      IPNet_Contains n (ipnIP m) \<and> snd (Mask_Size (ipnMask n)) = snd (Mask_Size (ipnMask m)) \<and>
      fst (Mask_Size (ipnMask m)) = cpPerNodeNetworkPrefix (cpSpec pool) \<and> caGateway a = computed_gateway pool m \<and>
      conflict_loop a False (cpAllocations (cpStatus pool)) = []))"
proof (cases "caNodeName a = [] \<or> caPrefix a = []")
  case True
  then show ?thesis using assms(2) by (auto simp: CIDRPoolAllocation_Validate_def Let_def err_if_def split: if_splits)
next
  case False
  note unf = assms(2) [unfolded CIDRPoolAllocation_Validate_def Let_def assms(1) option.case prod.case]
  show ?thesis
  proof (cases "ParseCIDR (caPrefix a)")
    case None
    then show ?thesis using unf False by (auto simp: err_if_def)
  next
    case (Some x)
    then obtain ip m where m: "ParseCIDR (caPrefix a) = Some (ip, m)" by (cases x) auto
    have gw: "(case cpGatewayIndex (cpSpec pool) of Some gi \<Rightarrow> GetGatewayForSubnet m gi | None \<Rightarrow> []) = computed_gateway pool m"
      by (simp add: computed_gateway_def)
    have e: "err_if (caNodeName a = []) e1 @ err_if (caPrefix a = []) e2 = []" for e1 e2 using False by simp
    note unf2 = unf [unfolded m option.case prod.case gw e]
    show ?thesis
    proof (cases "errs = []")
      case True
      then have eq: "IP_Equal ip (ipnIP m)" using unf2 by (auto split: if_splits)
      show ?thesis using static_match_cases [of a "computed_gateway pool m" "cpStaticAllocations (cpSpec pool)"]
      proof (elim disjE conjE exE)
        assume h: "static_match a (computed_gateway pool m) (cpStaticAllocations (cpSpec pool)) = None"
          "\<forall>st \<in> set (cpStaticAllocations (cpSpec pool)). caNodeName a \<noteq> csNodeName st \<and> caPrefix a \<noteq> csPrefix st"
        show ?thesis using unf2 True eq False m h by (auto split: if_splits)
      next
        fix es
        assume "static_match a (computed_gateway pool m) (cpStaticAllocations (cpSpec pool)) = Some es" "es \<noteq> []"
        then show ?thesis using unf2 True eq by simp
      next
        assume "\<exists>st \<in> set (cpStaticAllocations (cpSpec pool)). caNodeName a = csNodeName st \<and> caPrefix a = csPrefix st \<and>
          caGateway a = (if csGateway st \<noteq> [] then csGateway st else computed_gateway pool m)"
        with m False show ?thesis by blast
      qed
    qed simp
  qed
qed

text \<open>What the reconciliation relies on once the pool has been validated.\<close>

definition cidr_setting :: "CIDRPool \<Rightarrow> IPNet \<Rightarrow> SubnetIterator \<Rightarrow> bool" where
  "cidr_setting pool n it \<longleftrightarrow> cidr_ok pool n it \<and> net_clear n \<and> map_option snd (ParseCIDR (cpCIDR (cpSpec pool))) = Some n \<and> cidr_canonical pool"

lemma cidr_settingD:
  assumes "cidr_setting pool n it"
  shows "cidr_ok pool n it" "net_clear n" "\<exists>ip. ParseCIDR (cpCIDR (cpSpec pool)) = Some (ip, n)" "cidr_canonical pool"
  using assms by (auto simp: cidr_setting_def)

lemma validate_returns: "cidr_setting pool n it \<Longrightarrow> \<exists>errs. CIDRPoolAllocation_Validate a pool = Some errs"
  using cidr_settingD(3) [of pool n it]
  by (auto simp: CIDRPoolAllocation_Validate_def Let_def split: option.split)

lemma valid_entry_static:
  assumes s: "cidr_setting pool n it" and v: "valid_entry pool a"
  shows "caNodeName a \<noteq> []"
    and "(\<exists>st \<in> set (cpStaticAllocations (cpSpec pool)). caNodeName a = csNodeName st \<and> caPrefix a = csPrefix st) \<or>
      (\<forall>st \<in> set (cpStaticAllocations (cpSpec pool)). caNodeName a \<noteq> csNodeName st \<and> caPrefix a \<noteq> csPrefix st) \<and>
      length (filter (conflicts a) (cpAllocations (cpStatus pool))) \<le> 1"
proof -
  obtain ip where ip: "ParseCIDR (cpCIDR (cpSpec pool)) = Some (ip, n)" using cidr_settingD(3) [OF s] by blast
  note c = valid_entry_cases [OF ip conjunct2 [OF v [unfolded valid_entry_def]]]
  show "caNodeName a \<noteq> []" using c by blast
  show "(\<exists>st \<in> set (cpStaticAllocations (cpSpec pool)). caNodeName a = csNodeName st \<and> caPrefix a = csPrefix st) \<or>
      (\<forall>st \<in> set (cpStaticAllocations (cpSpec pool)). caNodeName a \<noteq> csNodeName st \<and> caPrefix a \<noteq> csPrefix st) \<and>
      length (filter (conflicts a) (cpAllocations (cpStatus pool))) \<le> 1"
    using c by (auto simp: conflict_loop_Nil)
qed

text \<open>Valid entries agree on the node exactly when they agree on the prefix.\<close>

lemma valid_pair:
  assumes s: "cidr_setting pool n it" and a: "valid_entry pool a" and b: "valid_entry pool b"
  shows "caNodeName a = caNodeName b \<longleftrightarrow> caPrefix a = caPrefix b"
proof -
  let ?sts = "set (cpStaticAllocations (cpSpec pool))"
  note va = valid_entry_static [OF s a] and vb = valid_entry_static [OF s b] and ok = cidr_settingD(1) [OF s]
  have mem: "a \<in> set (cpAllocations (cpStatus pool))" "b \<in> set (cpAllocations (cpStatus pool))" using a b by (simp_all add: valid_entry_def)
  show ?thesis
  proof (cases "\<exists>st \<in> ?sts. caNodeName a = csNodeName st \<and> caPrefix a = csPrefix st")
    case True
    then obtain st where st: "st \<in> ?sts" "caNodeName a = csNodeName st" "caPrefix a = csPrefix st" by blast
    show ?thesis
    proof (cases "\<exists>st \<in> ?sts. caNodeName b = csNodeName st \<and> caPrefix b = csPrefix st")
      case True
      then obtain st' where st': "st' \<in> ?sts" "caNodeName b = csNodeName st'" "caPrefix b = csPrefix st'" by blast
      show ?thesis using static_node_inj [OF ok st(1) st'(1)] static_prefix_inj [OF ok st(1) st'(1)] st st' va(1) by auto
    next
      case False
      with vb(2) st show ?thesis by auto
    qed
  next
    case False
    with va(2) have na: "\<forall>st \<in> ?sts. caNodeName a \<noteq> csNodeName st \<and> caPrefix a \<noteq> csPrefix st"
      "length (filter (conflicts a) (cpAllocations (cpStatus pool))) \<le> 1" by blast+
    have self: "conflicts a a" by (simp add: conflicts_def)
    have "a = b" if "conflicts a b" using length_le_1_eq [OF na(2) mem self that] .
    then show ?thesis by (auto simp: conflicts_def)
  qed
qed

lemma valid_entry_at:
  assumes s: "cidr_setting pool n it" and v: "valid_entry pool a" and ex: "isPrefixFullyExcluded (caPrefix a) pool = Some False"
  shows "\<exists>k. entry_at pool it a k"
proof -
  let ?sts = "set (cpStaticAllocations (cpSpec pool))"
  note ok = cidr_settingD(1) [OF s] and vs = valid_entry_static [OF s v]
  obtain ip0 where ip0: "ParseCIDR (cpCIDR (cpSpec pool)) = Some (ip0, n)" using cidr_settingD(3) [OF s] by blast
  have can: "canonical_prefix (caPrefix a)" using v cidr_settingD(4) [OF s] by (simp add: valid_entry_def cidr_canonical_def)
  from valid_entry_cases [OF ip0 conjunct2 [OF v [unfolded valid_entry_def]]] obtain ip m where m: "ParseCIDR (caPrefix a) = Some (ip, m)"
    "(\<exists>st \<in> ?sts. caNodeName a = csNodeName st \<and> caPrefix a = csPrefix st \<and>
         caGateway a = (if csGateway st \<noteq> [] then csGateway st else computed_gateway pool m)) \<or>
      (\<forall>st \<in> ?sts. caNodeName a \<noteq> csNodeName st \<and> caPrefix a \<noteq> csPrefix st) \<and>
      IPNet_Contains n (ipnIP m) \<and> snd (Mask_Size (ipnMask n)) = snd (Mask_Size (ipnMask m)) \<and>
      fst (Mask_Size (ipnMask m)) = cpPerNodeNetworkPrefix (cpSpec pool) \<and> caGateway a = computed_gateway pool m"
    by blast
  have pt: "caPrefix a = IPNet_String m" using can m(1) by (simp add: canonical_prefix_def)
  from m(2) show ?thesis
  proof (elim disjE bexE conjE)
    fix st
    assume st: "st \<in> ?sts" "caNodeName a = csNodeName st" "caPrefix a = csPrefix st"
      "caGateway a = (if csGateway st \<noteq> [] then csGateway st else computed_gateway pool m)"
    obtain k ip' where k: "0 \<le> k" "k < siSubnetCount it" "ParseCIDR (csPrefix st) = Some (ip', prefix_at it k)"
      using canonical_static [OF ok cidr_settingD(4) [OF s] st(1)] by blast
    then have mk: "m = prefix_at it k" using m(1) st(3) by simp
    have node: "st' = st" if "st' \<in> ?sts" "csNodeName st' = caNodeName a" for st'
      using static_node_inj [OF ok st(1) that(1)] st(2) that(2) vs(1) by simp
    have pre: "st' = st" if "st' \<in> ?sts" "caPrefix a = csPrefix st'" for st'
      using static_prefix_inj [OF ok st(1) that(1)] st(3) that(2) by simp
    show ?thesis
      unfolding entry_at_def
    proof (intro exI conjI ballI impI)
      show "0 \<le> k" "k < siSubnetCount it" by fact+
      show "caPrefix a = IPNet_String (prefix_at it k)" using pt mk by simp
      fix st'
      assume st': "st' \<in> ?sts" "csNodeName st' = caNodeName a \<and> caNodeName a \<noteq> []"
      then have "st' = st" using node by blast
      then show "caPrefix a = csPrefix st'" "caGateway a = (if csGateway st' \<noteq> [] then csGateway st' else computed_gateway pool (prefix_at it k))"
        using st mk by simp_all
    next
      fix st'
      assume "st' \<in> ?sts" "caPrefix a = csPrefix st'"
      then show "csNodeName st' = caNodeName a" using pre st(2) by metis
    next
      assume "caNodeName a \<notin> csNodeName ` ?sts"
      then show "caGateway a = computed_gateway pool (prefix_at it k)" "\<not> prefix_excluded pool it k" using st(1,2) by auto
    qed
  next
    assume h: "\<forall>st \<in> ?sts. caNodeName a \<noteq> csNodeName st \<and> caPrefix a \<noteq> csPrefix st" "IPNet_Contains n (ipnIP m)"
      "snd (Mask_Size (ipnMask n)) = snd (Mask_Size (ipnMask m))" "fst (Mask_Size (ipnMask m)) = cpPerNodeNetworkPrefix (cpSpec pool)"
      "caGateway a = computed_gateway pool m"
    note c = cidr_okD [OF ok] and w = parsed_prefix_wf [OF cidr_okD(1) [OF ok] m(1) h(2,3)]
    obtain k where k: "0 \<le> k" "k < siSubnetCount it" "m = prefix_at it k"
      using prefix_of_pool [OF c(1,2) w(1) h(2) _ w(2)] h(4) wf_net_Size [OF w(1)] by auto
    have "\<not> prefix_excluded pool it k"
      using isPrefixFullyExcluded_conv [OF ok cidr_settingD(2) [OF s] k(1,2)] ex pt k(3) by simp
    then have "entry_at pool it a k" unfolding entry_at_def using k pt h(1,5) by auto
    then show ?thesis by blast
  qed
qed

subsection \<open>The maps of a reconciliation\<close>

lemma AList_update_new: "k \<notin> fst ` set al \<Longrightarrow> AList.update k v al = al @ [(k, v)]"
  by (induction al) auto

lemma in_update: "distinct (map fst al) \<Longrightarrow> x \<in> set (AList.update k v al) \<longleftrightarrow> x = (k, v) \<or> x \<in> set al \<and> fst x \<noteq> k"
  by (induction al) force+

lemma keys_foldl_update: "fst ` set (foldl (\<lambda>m a. AList.update (f a) a m) m as) = fst ` set m \<union> f ` set as"
  by (induction as arbitrary: m) (auto simp: AList.dom_update)

lemma map_of_foldl_update:
  "map_of (foldl (\<lambda>m a. AList.update (f a) a m) m as) x = Some y \<Longrightarrow> map_of m x = Some y \<or> y \<in> set as \<and> f y = x"
proof (induction as arbitrary: m)
  case (Cons a as)
  from Cons.IH [of "AList.update (f a) a m"] Cons.prems show ?case
    by (auto simp: AList.update_conv' split: if_splits)
qed simp

lemma static_maps:
  assumes "getStaticAllocationsMaps pool = (byNode, byPrefix)"
  shows "map_of byNode node = Some st \<Longrightarrow> st \<in> set (cpStaticAllocations (cpSpec pool)) \<and> csNodeName st = node"
    and "map_of byNode node = None \<Longrightarrow> node \<notin> csNodeName ` set (cpStaticAllocations (cpSpec pool))"
    and "set (map fst byPrefix) = csPrefix ` set (cpStaticAllocations (cpSpec pool))"
proof -
  let ?sts = "cpStaticAllocations (cpSpec pool)"
  have e: "byNode = foldl (\<lambda>m a. AList.update (csNodeName a) a m) [] ?sts" "byPrefix = foldl (\<lambda>m a. AList.update (csPrefix a) a m) [] ?sts"
    using assms by (simp_all add: getStaticAllocationsMaps_def Let_def)
  show "map_of byNode node = Some st \<Longrightarrow> st \<in> set ?sts \<and> csNodeName st = node"
    using map_of_foldl_update [of csNodeName "[]" ?sts node st] by (simp add: e)
  show "map_of byNode node = None \<Longrightarrow> node \<notin> csNodeName ` set ?sts"
    using keys_foldl_update [of csNodeName "[]" ?sts] by (simp add: e map_of_eq_None_iff)
  show "set (map fst byPrefix) = csPrefix ` set ?sts" using keys_foldl_update [of csPrefix "[]" ?sts] by (simp add: e)
qed

text \<open>The invariant of the two maps: the nodes differ, each has its right entry, no two have the same prefix, and the
  second map has exactly the prefixes in use.\<close>

definition maps_ok ::
    "CIDRPool \<Rightarrow> SubnetIterator \<Rightarrow> (string \<times> CIDRPoolAllocation) list \<Rightarrow> (string \<times> CIDRPoolAllocation) list \<Rightarrow> bool" where
  "maps_ok pool it byNode byPrefix \<longleftrightarrow> distinct (map fst byNode) \<and>
     (\<forall>x \<in> set byNode. caNodeName (snd x) = fst x \<and> (\<exists>k. entry_at pool it (snd x) k)) \<and>
     (\<forall>x \<in> set byNode. \<forall>y \<in> set byNode. fst x \<noteq> fst y \<longrightarrow> caPrefix (snd x) \<noteq> caPrefix (snd y)) \<and>
     fst ` set byPrefix = (\<lambda>x. caPrefix (snd x)) ` set byNode"

text \<open>A new node with a right entry whose prefix nobody has.\<close>

lemma maps_ok_add:
  assumes "maps_ok pool it byNode byPrefix" "map_of byNode node = None" "caNodeName a = node" "entry_at pool it a k"
    "\<And>x. x \<in> set byNode \<Longrightarrow> caPrefix (snd x) \<noteq> caPrefix a"
  shows "maps_ok pool it (AList.update node a byNode) (AList.update (caPrefix a) a byPrefix)"
proof -
  have n: "node \<notin> fst ` set byNode" using assms(2) by (simp add: map_of_eq_None_iff)
  have s: "set (AList.update node a byNode) = insert (node, a) (set byNode)" by (simp add: AList_update_new [OF n])
  have d: "distinct (map fst (AList.update node a byNode))"
    using assms(1) n by (simp add: AList_update_new [OF n] maps_ok_def)
  have "\<forall>x \<in> insert (node, a) (set byNode). caNodeName (snd x) = fst x \<and> (\<exists>k. entry_at pool it (snd x) k)"
    using assms(1,3,4) unfolding maps_ok_def by (metis fst_conv insert_iff snd_conv)
  moreover have "\<forall>x \<in> insert (node, a) (set byNode). \<forall>y \<in> insert (node, a) (set byNode). fst x \<noteq> fst y \<longrightarrow> caPrefix (snd x) \<noteq> caPrefix (snd y)"
    using assms(1,5) unfolding maps_ok_def by (metis fst_conv insert_iff snd_conv)
  moreover have "fst ` set (AList.update (caPrefix a) a byPrefix) = (\<lambda>x. caPrefix (snd x)) ` insert (node, a) (set byNode)"
    using assms(1) by (simp add: AList.dom_update maps_ok_def)
  ultimately show ?thesis unfolding maps_ok_def s using d by blast
qed

text \<open>The maps of the allocations found in the status: every entry comes from a valid one.\<close>

lemma existing_loop_ok:
  assumes s: "cidr_setting pool n it"
  shows "\<lbrakk>set allocs \<subseteq> set (cpAllocations (cpStatus pool)); distinct (map fst byNode); distinct (map fst byPrefix);
      \<forall>x \<in> set byNode. caNodeName (snd x) = fst x \<and> fst x \<in> set nodes \<and> valid_entry pool (snd x) \<and> isPrefixFullyExcluded (caPrefix (snd x)) pool = Some False;
      fst ` set byPrefix = (\<lambda>x. caPrefix (snd x)) ` set byNode\<rbrakk> \<Longrightarrow>
    \<exists>byNode' byPrefix'. existing_loop pool nodes allocs byNode byPrefix = Some (byNode', byPrefix') \<and> distinct (map fst byNode') \<and>
      (\<forall>x \<in> set byNode'. caNodeName (snd x) = fst x \<and> fst x \<in> set nodes \<and> valid_entry pool (snd x) \<and> isPrefixFullyExcluded (caPrefix (snd x)) pool = Some False) \<and>
      fst ` set byPrefix' = (\<lambda>x. caPrefix (snd x)) ` set byNode'"
proof (induction allocs arbitrary: byNode byPrefix)
  case Nil
  then show ?case by simp
next
  case (Cons a allocs)
  have sub: "set allocs \<subseteq> set (cpAllocations (cpStatus pool))" using Cons.prems(1) by simp
  note skip = Cons.IH [OF sub Cons.prems(2-5)]
  obtain errs where errs: "CIDRPoolAllocation_Validate a pool = Some errs" using validate_returns [OF s] by blast
  consider "caNodeName a \<notin> set nodes \<or> errs \<noteq> []" | "caNodeName a \<in> set nodes" "errs = []" by blast
  then show ?case
  proof cases
    case 1
    then have "existing_loop pool nodes (a # allocs) byNode byPrefix = existing_loop pool nodes allocs byNode byPrefix" using errs by auto
    with skip show ?thesis by simp
  next
    case 2
    then have v: "valid_entry pool a" using Cons.prems(1) errs by (simp add: valid_entry_def)
    obtain ip0 where ip0: "ParseCIDR (cpCIDR (cpSpec pool)) = Some (ip0, n)" using cidr_settingD(3) [OF s] by blast
    obtain ip m where m: "ParseCIDR (caPrefix a) = Some (ip, m)" using valid_entry_cases [OF ip0 errs] 2 by blast
    have "isPrefixFullyExcluded (caPrefix a) pool \<noteq> None"
      unfolding isPrefixFullyExcluded_def m by (simp add: Let_def del: not_None_eq split: list.split)
    then obtain ex where ex: "isPrefixFullyExcluded (caPrefix a) pool = Some ex" by blast
    show ?thesis
    proof (cases ex)
      case True
      then have "existing_loop pool nodes (a # allocs) byNode byPrefix = existing_loop pool nodes allocs byNode byPrefix"
        using errs ex 2 by simp
      with skip show ?thesis by simp
    next
      case False
      let ?n = "AList.update (caNodeName a) a byNode" and ?p = "AList.update (caPrefix a) a byPrefix"
      have e: "existing_loop pool nodes (a # allocs) byNode byPrefix = existing_loop pool nodes allocs ?n ?p"
        using errs ex 2 False by simp
      have inn: "x \<in> set ?n \<longleftrightarrow> x = (caNodeName a, a) \<or> x \<in> set byNode \<and> fst x \<noteq> caNodeName a" for x
        by (rule in_update [OF Cons.prems(2)])
      have "distinct (map fst ?n)" "distinct (map fst ?p)" using Cons.prems(2,3) by (simp_all add: AList.distinct_update)
      moreover have "\<forall>x \<in> set ?n. caNodeName (snd x) = fst x \<and> fst x \<in> set nodes \<and> valid_entry pool (snd x) \<and> isPrefixFullyExcluded (caPrefix (snd x)) pool = Some False"
        using Cons.prems(4) 2(1) v ex False by (auto simp: inn)
      moreover have "fst ` set ?p = (\<lambda>x. caPrefix (snd x)) ` set ?n"
      proof -
        have "caPrefix (snd x) = caPrefix a" if "x \<in> set byNode" "fst x = caNodeName a" for x
          using valid_pair [OF s, of "snd x" a] Cons.prems(4) v that by metis
        then have "insert (caPrefix a) ((\<lambda>x. caPrefix (snd x)) ` set byNode) = (\<lambda>x. caPrefix (snd x)) ` set ?n"
          unfolding inn set_eq_iff image_iff insert_iff Bex_def by (metis snd_conv)
        then show ?thesis using Cons.prems(5) by (simp add: AList.dom_update)
      qed
      ultimately show ?thesis unfolding e by (rule Cons.IH [OF sub])
    qed
  qed
qed

lemma existing_maps_ok:
  assumes s: "cidr_setting pool n it"
  shows "\<exists>byNode byPrefix. getValidExistingAllocationsMaps pool nodes = Some (byNode, byPrefix) \<and> maps_ok pool it byNode byPrefix \<and>
    fst ` set byNode \<subseteq> set nodes"
proof -
  obtain byNode byPrefix where m: "existing_loop pool nodes (cpAllocations (cpStatus pool)) [] [] = Some (byNode, byPrefix)" "distinct (map fst byNode)"
      "\<forall>x \<in> set byNode. caNodeName (snd x) = fst x \<and> fst x \<in> set nodes \<and> valid_entry pool (snd x) \<and> isPrefixFullyExcluded (caPrefix (snd x)) pool = Some False"
      "fst ` set byPrefix = (\<lambda>x. caPrefix (snd x)) ` set byNode"
    using existing_loop_ok [OF s, of "cpAllocations (cpStatus pool)" "[]" "[]" nodes] by auto
  have "\<forall>x \<in> set byNode. caNodeName (snd x) = fst x \<and> (\<exists>k. entry_at pool it (snd x) k)"
    using m(3) valid_entry_at [OF s] by blast
  moreover have "\<forall>x \<in> set byNode. \<forall>y \<in> set byNode. fst x \<noteq> fst y \<longrightarrow> caPrefix (snd x) \<noteq> caPrefix (snd y)"
    using m(3) valid_pair [OF s] by metis
  ultimately have "maps_ok pool it byNode byPrefix" unfolding maps_ok_def using m(2,4) by blast
  with m(1,3) show ?thesis unfolding getValidExistingAllocationsMaps_def by blast
qed

subsection \<open>The allocation for one node\<close>

abbreviation cidr_merged :: "CIDRPool \<Rightarrow> ExcludeRange list" where
  "cidr_merged pool \<equiv> MergeExcludeRanges (cpExclusions (cpSpec pool))"

abbreviation cidr_fully_excluded :: "CIDRPool \<Rightarrow> IPNet \<Rightarrow> bool" where
  "cidr_fully_excluded pool n \<equiv>
     ExcludeIndexRangesCover (cpPerNodeExclusions (cpSpec pool)) (Some (lastUsableIndex n (cpPerNodeNetworkPrefix (cpSpec pool))))"

text \<open>The search is first fit: from index \<open>k\<close> it returns the first free prefix, with its gateway; it reports that there
  is none only when no prefix from \<open>k\<close> on is free; the only other error is that of the context.\<close>

definition fit_outcome ::
    "CIDRPool \<Rightarrow> SubnetIterator \<Rightarrow> string set \<Rightarrow> string \<Rightarrow> int \<Rightarrow> int \<Rightarrow> (nat \<Rightarrow> string option) \<Rightarrow> ctrl_error + CIDRPoolAllocation \<Rightarrow> bool" where
  "fit_outcome pool it taken node k k' ctxErr res \<longleftrightarrow> k \<le> k' \<and> k' \<le> siSubnetCount it \<and>
     (case res of
        Inr a \<Rightarrow> k < k' \<and> free_prefix pool it taken (k' - 1) \<and> (\<forall>j. k \<le> j \<and> j < k' - 1 \<longrightarrow> \<not> free_prefix pool it taken j) \<and>
          a = \<lparr>caNodeName = node, caGateway = computed_gateway pool (prefix_at it (k' - 1)), caPrefix = IPNet_String (prefix_at it (k' - 1))\<rparr>
      | Inl e \<Rightarrow> (\<forall>j. k \<le> j \<and> j < k' \<longrightarrow> \<not> free_prefix pool it taken j) \<and>
          (e = NoFreePrefixes \<and> (\<forall>j. k \<le> j \<longrightarrow> \<not> free_prefix pool it taken j) \<or> (\<exists>i x. ctxErr i = Some x \<and> e = ContextError x)))"

lemma getNew_outcome:
  assumes c: "cidr_ok pool n it" "net_clear n" and k: "0 \<le> k" "k \<le> siSubnetCount it" and fuel: "nat (siSubnetCount it) < fuel"
  shows "\<exists>res k'. getNewAllocationForNode fuel ctxErr (it\<lparr>siNextIndex := k\<rparr>) node pool allocated static (cidr_merged pool) (cidr_fully_excluded pool n) =
    Some (res, it\<lparr>siNextIndex := k'\<rparr>) \<and> fit_outcome pool it (set allocated \<union> set static) node k k' ctxErr res"
proof -
  let ?taken = "set allocated \<union> set static"
  note unf = getNewAllocationForNode_def [of fuel ctxErr "it\<lparr>siNextIndex := k\<rparr>" node pool allocated static "cidr_merged pool" "cidr_fully_excluded pool n"]
  consider (ctx) e where "ctxErr fuel = Some e" | (all) "ctxErr fuel = None" "cidr_fully_excluded pool n"
    | (loop) "ctxErr fuel = None" "\<not> cidr_fully_excluded pool n" by (cases "ctxErr fuel") auto
  then show ?thesis
  proof cases
    case ctx
    then have "fit_outcome pool it ?taken node k k ctxErr (Inl (ContextError e))" using k by (auto simp: fit_outcome_def)
    with ctx unf show ?thesis by auto
  next
    case all
    have "\<not> free_prefix pool it ?taken j" for j
      using fully_excluded_prefixes [OF c _ _ all(2), of j] by (auto simp: free_prefix_def)
    then have "fit_outcome pool it ?taken node k k ctxErr (Inl NoFreePrefixes)" using k by (simp add: fit_outcome_def)
    with all unf show ?thesis by auto
  next
    case loop
    have "nat (siSubnetCount it - k) < fuel" using k fuel by linarith
    then obtain res k' where r: "prefix_loop fuel ctxErr pool allocated static (cidr_merged pool) (it\<lparr>siNextIndex := k\<rparr>) = Some (res, it\<lparr>siNextIndex := k'\<rparr>)"
      "search_outcome pool it ?taken k k' ctxErr res" using prefix_loop_outcome [OF c k] by blast
    consider (err) e where "res = Inl e" | (none) "res = Inr None" | (found) m where "res = Inr (Some m)"
      by (metis option.exhaust sum.exhaust)
    then show ?thesis
    proof cases
      case err
      then have "fit_outcome pool it ?taken node k k' ctxErr (Inl e)" using r(2) by (auto simp: search_outcome_def fit_outcome_def)
      with unf r(1) loop err show ?thesis by auto
    next
      case none
      have "\<not> free_prefix pool it ?taken j" if "k \<le> j" for j
        using r(2) that unfolding none by (cases "j < k'") (auto simp: search_outcome_def free_prefix_def)
      then have "fit_outcome pool it ?taken node k k' ctxErr (Inl NoFreePrefixes)"
        using r(2) by (auto simp: search_outcome_def fit_outcome_def none)
      with unf r(1) loop none show ?thesis by auto
    next
      case found
      then have "fit_outcome pool it ?taken node k k' ctxErr
          (Inr \<lparr>caNodeName = node, caGateway = computed_gateway pool (prefix_at it (k' - 1)), caPrefix = IPNet_String (prefix_at it (k' - 1))\<rparr>)"
        using r(2) by (auto simp: search_outcome_def fit_outcome_def)
      moreover have "m = prefix_at it (k' - 1)" using r(2) found by (simp add: search_outcome_def)
      ultimately show ?thesis using unf r(1) loop found by (auto simp: Let_def computed_gateway_def)
    qed
  qed
qed

text \<open>The static allocation of a node, if it has one.\<close>

lemma getStatic_outcome:
  assumes s: "cidr_setting pool n it" and m: "getStaticAllocationsMaps pool = (sn, sp)"
  shows "\<exists>res. getStaticAllocationForNodeIfExist node pool sn = Some res \<and>
    (case res of None \<Rightarrow> node \<notin> csNodeName ` set (cpStaticAllocations (cpSpec pool))
     | Some a \<Rightarrow> caNodeName a = node \<and> (\<exists>k. entry_at pool it a k) \<and> (\<exists>st \<in> set (cpStaticAllocations (cpSpec pool)). csNodeName st = node \<and> csPrefix st = caPrefix a))"
proof (cases "map_of sn node")
  case None
  then show ?thesis using static_maps(2) [OF m] by (simp add: getStaticAllocationForNodeIfExist_def)
next
  case (Some st)
  note ok = cidr_settingD(1) [OF s]
  have st: "st \<in> set (cpStaticAllocations (cpSpec pool))" "csNodeName st = node" using static_maps(1) [OF m Some] by blast+
  obtain k ip where k: "0 \<le> k" "k < siSubnetCount it" "ParseCIDR (csPrefix st) = Some (ip, prefix_at it k)" "csPrefix st = IPNet_String (prefix_at it k)"
    using canonical_static [OF ok cidr_settingD(4) [OF s] st(1)] by blast
  let ?gw = "if csGateway st \<noteq> [] then csGateway st else computed_gateway pool (prefix_at it k)"
  let ?a = "\<lparr>caNodeName = node, caGateway = ?gw, caPrefix = csPrefix st\<rparr>"
  have "getStaticAllocationForNodeIfExist node pool sn = Some (Some ?a)"
    using k(3) st(2) by (auto simp: getStaticAllocationForNodeIfExist_def Some computed_gateway_def split: list.split option.split)
  moreover have "entry_at pool it ?a k"
    unfolding entry_at_def
  proof (intro conjI ballI impI)
    show "0 \<le> k" "k < siSubnetCount it" "caPrefix ?a = IPNet_String (prefix_at it k)" using k by simp_all
    fix st'
    assume "st' \<in> set (cpStaticAllocations (cpSpec pool))" "csNodeName st' = caNodeName ?a \<and> caNodeName ?a \<noteq> []"
    then have "st' = st" using static_node_inj [OF ok st(1)] st(2) by auto
    then show "caPrefix ?a = csPrefix st'" "caGateway ?a = (if csGateway st' \<noteq> [] then csGateway st' else computed_gateway pool (prefix_at it k))" by simp_all
  next
    fix st'
    assume "st' \<in> set (cpStaticAllocations (cpSpec pool))" "caPrefix ?a = csPrefix st'"
    then have "st' = st" using static_prefix_inj [OF ok st(1)] by auto
    then show "csNodeName st' = caNodeName ?a" using st(2) by simp
  next
    assume "caNodeName ?a \<notin> csNodeName ` set (cpStaticAllocations (cpSpec pool))"
    then show "caGateway ?a = computed_gateway pool (prefix_at it k)" "\<not> prefix_excluded pool it k" using st by auto
  qed
  ultimately show ?thesis using st by auto
qed

definition cidr_taken :: "CIDRPool \<Rightarrow> cidr_state \<Rightarrow> string set" where
  "cidr_taken pool s = fst ` set (ctByPrefix s) \<union> csPrefix ` set (cpStaticAllocations (cpSpec pool))"

text \<open>The invariant of the loop: the maps are right, and no prefix the iterator has left behind is free.\<close>

definition cidr_inv :: "nat \<Rightarrow> CIDRPool \<Rightarrow> IPNet \<Rightarrow> SubnetIterator \<Rightarrow> cidr_state \<Rightarrow> bool" where
  "cidr_inv fuel pool n it s \<longleftrightarrow> cidr_setting pool n it \<and> nat (siSubnetCount it) < fuel \<and> maps_ok pool it (ctByNode s) (ctByPrefix s) \<and>
     (\<exists>k. 0 \<le> k \<and> k \<le> siSubnetCount it \<and> ctIter s = it\<lparr>siNextIndex := k\<rparr> \<and> (\<forall>j < k. \<not> free_prefix pool it (cidr_taken pool s) j))"

definition cidr_exhausted :: "CIDRPool \<Rightarrow> SubnetIterator \<Rightarrow> cidr_state \<Rightarrow> bool" where
  "cidr_exhausted pool it s \<longleftrightarrow> (\<forall>j. \<not> free_prefix pool it (cidr_taken pool s) j)"

text \<open>The loop body with the maps and exclusions that \<open>Reconcile\<close> computes from the pool.\<close>

abbreviation cidr_allocate_pool ::
    "nat \<Rightarrow> (string \<Rightarrow> nat \<Rightarrow> string option) \<Rightarrow> CIDRPool \<Rightarrow> IPNet \<Rightarrow> cidr_state \<Rightarrow> string \<Rightarrow> ((ctrl_error + CIDRPoolAllocation) \<times> cidr_state) option" where
  "cidr_allocate_pool fuel ctxErr pool n \<equiv>
     cidr_allocate fuel ctxErr pool (fst (getStaticAllocationsMaps pool)) (snd (getStaticAllocationsMaps pool)) (cidr_merged pool) (cidr_fully_excluded pool n)"

lemma free_prefix_mono: "taken \<subseteq> taken' \<Longrightarrow> free_prefix pool it taken' j \<Longrightarrow> free_prefix pool it taken j"
  by (auto simp: free_prefix_def)

text \<open>The state after node \<open>node\<close> was given \<open>a\<close>.\<close>

definition cidr_record :: "string \<Rightarrow> CIDRPoolAllocation \<Rightarrow> SubnetIterator \<Rightarrow> cidr_state \<Rightarrow> cidr_state" where
  "cidr_record node a it s = \<lparr>ctByNode = AList.update node a (ctByNode s), ctByPrefix = AList.update (caPrefix a) a (ctByPrefix s), ctIter = it\<rparr>"

lemma cidr_taken_record: "cidr_taken pool (cidr_record node a i s) = insert (caPrefix a) (cidr_taken pool s)"
  by (simp add: cidr_taken_def cidr_record_def AList.dom_update)

lemma cidr_inv_record:
  assumes "cidr_inv fuel pool n it s" "map_of (ctByNode s) node = None" "caNodeName a = node" "entry_at pool it a k"
    "\<And>x. x \<in> set (ctByNode s) \<Longrightarrow> caPrefix (snd x) \<noteq> caPrefix a" "0 \<le> k'" "k' \<le> siSubnetCount it"
    "\<And>j. j < k' \<Longrightarrow> \<not> free_prefix pool it (insert (caPrefix a) (cidr_taken pool s)) j"
  shows "cidr_inv fuel pool n it (cidr_record node a (it\<lparr>siNextIndex := k'\<rparr>) s)"
proof -
  have "maps_ok pool it (ctByNode s) (ctByPrefix s)" using assms(1) by (simp add: cidr_inv_def)
  from maps_ok_add [OF this assms(2-5)] show ?thesis
    using assms(1,6-8) unfolding cidr_inv_def cidr_taken_record by (auto simp: cidr_record_def)
qed

text \<open>What one step of the loop over the nodes does.\<close>

definition cidr_stepped ::
    "nat \<Rightarrow> (string \<Rightarrow> nat \<Rightarrow> string option) \<Rightarrow> CIDRPool \<Rightarrow> IPNet \<Rightarrow> SubnetIterator \<Rightarrow> cidr_state \<Rightarrow> string \<Rightarrow> ctrl_error + CIDRPoolAllocation \<Rightarrow> cidr_state \<Rightarrow> bool" where
  "cidr_stepped fuel ctxErr pool n it s node res s' \<longleftrightarrow>
    cidr_allocate_pool fuel ctxErr pool n s node = Some (res, s') \<and> cidr_inv fuel pool n it s' \<and>
    cidr_taken pool s \<subseteq> cidr_taken pool s' \<and>
    (case res of
       Inr a \<Rightarrow> map_of (ctByNode s') = (map_of (ctByNode s))(node \<mapsto> a)
     | Inl e \<Rightarrow> ctByNode s' = ctByNode s \<and> (e = NoFreePrefixes \<and> cidr_exhausted pool it s' \<or> (\<exists>i x. ctxErr node i = Some x \<and> e = ContextError x)))"

lemma cidr_stepped_record:
  assumes "cidr_allocate_pool fuel ctxErr pool n s node = Some (Inr a, cidr_record node a i s)"
    "cidr_inv fuel pool n it (cidr_record node a i s)"
  shows "cidr_stepped fuel ctxErr pool n it s node (Inr a) (cidr_record node a i s)"
  using assms cidr_taken_record [of pool node a i s] by (auto simp: cidr_stepped_def cidr_record_def AList.update_conv')

text \<open>A node with a static allocation gets that one.\<close>

lemma cidr_step_static:
  assumes inv: "cidr_inv fuel pool n it s" and new: "map_of (ctByNode s) node = None"
    and st: "getStaticAllocationForNodeIfExist node pool (fst (getStaticAllocationsMaps pool)) = Some (Some a)"
    and a: "caNodeName a = node" "entry_at pool it a j" "sta \<in> set (cpStaticAllocations (cpSpec pool))" "csNodeName sta = node" "csPrefix sta = caPrefix a"
  shows "cidr_stepped fuel ctxErr pool n it s node (Inr a) (cidr_record node a (ctIter s) s)"
proof (rule cidr_stepped_record)
  have maps: "maps_ok pool it (ctByNode s) (ctByPrefix s)" using inv by (simp add: cidr_inv_def)
  obtain k where k: "0 \<le> k" "k \<le> siSubnetCount it" "ctIter s = it\<lparr>siNextIndex := k\<rparr>" "\<forall>j < k. \<not> free_prefix pool it (cidr_taken pool s) j"
    using inv unfolding cidr_inv_def by blast
  have apart: "caPrefix (snd x) \<noteq> caPrefix a" if x: "x \<in> set (ctByNode s)" for x
  proof
    assume e: "caPrefix (snd x) = caPrefix a"
    obtain i where i: "entry_at pool it (snd x) i" "caNodeName (snd x) = fst x" using maps x by (auto simp: maps_ok_def)
    then have "csNodeName sta = fst x" using a(3,5) e unfolding entry_at_def by metis
    with a(4) x new show False by (auto simp: map_of_eq_None_iff)
  qed
  show "cidr_allocate_pool fuel ctxErr pool n s node = Some (Inr a, cidr_record node a (ctIter s) s)"
    using new st by (simp add: cidr_allocate_def Let_def cidr_record_def)
  show "cidr_inv fuel pool n it (cidr_record node a (ctIter s) s)"
    unfolding k(3)
    by (rule cidr_inv_record [OF inv new a(1,2) apart k(1,2)]) (use k(4) in \<open>auto dest: free_prefix_mono [OF subset_insertI]\<close>)
qed

text \<open>A search that fails has passed over prefixes that are not free.\<close>

lemma cidr_step_failed:
  assumes inv: "cidr_inv fuel pool n it s" and run: "cidr_allocate_pool fuel ctxErr pool n s node = Some (Inl e, s\<lparr>ctIter := it\<lparr>siNextIndex := k'\<rparr>\<rparr>)"
    and k: "\<forall>j < k. \<not> free_prefix pool it (cidr_taken pool s) j" "0 \<le> k"
    and out: "fit_outcome pool it (cidr_taken pool s) node k k' (ctxErr node) (Inl e)"
  shows "cidr_stepped fuel ctxErr pool n it s node (Inl e) (s\<lparr>ctIter := it\<lparr>siNextIndex := k'\<rparr>\<rparr>)"
proof -
  let ?s = "s\<lparr>ctIter := it\<lparr>siNextIndex := k'\<rparr>\<rparr>"
  have e: "k \<le> k'" "k' \<le> siSubnetCount it" "\<forall>j. k \<le> j \<and> j < k' \<longrightarrow> \<not> free_prefix pool it (cidr_taken pool s) j"
    "e = NoFreePrefixes \<and> (\<forall>j. k \<le> j \<longrightarrow> \<not> free_prefix pool it (cidr_taken pool s) j) \<or> (\<exists>i x. ctxErr node i = Some x \<and> e = ContextError x)"
    using out unfolding fit_outcome_def by simp_all
  have nf: "\<not> free_prefix pool it (cidr_taken pool s) j" if "j < k'" for j using e(3) k(1) that by (cases "j < k") auto
  have tk: "cidr_taken pool ?s = cidr_taken pool s" by (simp add: cidr_taken_def)
  have "cidr_setting pool n it" "nat (siSubnetCount it) < fuel" "maps_ok pool it (ctByNode s) (ctByPrefix s)" using inv by (simp_all add: cidr_inv_def)
  moreover have "0 \<le> k'" using e(1) k(2) by simp
  ultimately have "cidr_inv fuel pool n it ?s" using e(2) nf unfolding cidr_inv_def tk by auto
  moreover have "e = NoFreePrefixes \<and> cidr_exhausted pool it ?s \<or> (\<exists>i x. ctxErr node i = Some x \<and> e = ContextError x)"
    using e(4) k(1) unfolding cidr_exhausted_def tk by (metis linorder_not_le)
  ultimately show ?thesis using run tk by (simp add: cidr_stepped_def)
qed

text \<open>A search that succeeds gives the node the first free prefix.\<close>

lemma cidr_step_new:
  assumes inv: "cidr_inv fuel pool n it s" and new: "map_of (ctByNode s) node = None" and node: "node \<notin> csNodeName ` set (cpStaticAllocations (cpSpec pool))"
    and run: "cidr_allocate_pool fuel ctxErr pool n s node = Some (Inr a, cidr_record node a (it\<lparr>siNextIndex := k'\<rparr>) s)"
    and k: "\<forall>j < k. \<not> free_prefix pool it (cidr_taken pool s) j" "0 \<le> k"
    and out: "fit_outcome pool it (cidr_taken pool s) node k k' (ctxErr node) (Inr a)"
  shows "cidr_stepped fuel ctxErr pool n it s node (Inr a) (cidr_record node a (it\<lparr>siNextIndex := k'\<rparr>) s)"
proof (rule cidr_stepped_record [OF run])
  have maps: "maps_ok pool it (ctByNode s) (ctByPrefix s)" using inv by (simp add: cidr_inv_def)
  have a: "k < k'" "free_prefix pool it (cidr_taken pool s) (k' - 1)" "\<forall>j. k \<le> j \<and> j < k' - 1 \<longrightarrow> \<not> free_prefix pool it (cidr_taken pool s) j"
    "a = \<lparr>caNodeName = node, caGateway = computed_gateway pool (prefix_at it (k' - 1)), caPrefix = IPNet_String (prefix_at it (k' - 1))\<rparr>" "k' \<le> siSubnetCount it"
    using out unfolding fit_outcome_def by simp_all
  have entry: "entry_at pool it a (k' - 1)"
    using a(2) node unfolding entry_at_def by (auto simp: a(4) free_prefix_def cidr_taken_def)
  have apart: "caPrefix (snd x) \<noteq> caPrefix a" if "x \<in> set (ctByNode s)" for x
  proof -
    have "caPrefix (snd x) \<in> cidr_taken pool s" using maps that by (simp add: maps_ok_def cidr_taken_def)
    then show ?thesis using a(2) by (auto simp: a(4) free_prefix_def)
  qed
  have nf: "\<not> free_prefix pool it (insert (caPrefix a) (cidr_taken pool s)) j" if "j < k'" for j
  proof (cases "j = k' - 1")
    case True
    then show ?thesis by (simp add: free_prefix_def a(4))
  next
    case False
    then have "\<not> free_prefix pool it (cidr_taken pool s) j" using that a(3) k(1) by (cases "j < k") auto
    then show ?thesis using free_prefix_mono [OF subset_insertI] by blast
  qed
  have "0 \<le> k'" using a(1) k(2) by simp
  then show "cidr_inv fuel pool n it (cidr_record node a (it\<lparr>siNextIndex := k'\<rparr>) s)"
    using a(5) by (intro cidr_inv_record [OF inv new _ entry apart _ _ nf]) (simp_all add: a(4))
qed

lemma cidr_allocate_step:
  assumes inv: "cidr_inv fuel pool n it s"
  shows "\<exists>res s'. cidr_stepped fuel ctxErr pool n it s node res s' \<and> (\<forall>r. map_of (ctByNode s) node = Some r \<longrightarrow> res = Inr r)"
proof (cases "map_of (ctByNode s) node")
  case (Some a)
  then show ?thesis using inv by (auto simp: cidr_stepped_def cidr_allocate_def intro!: exI [of _ "Inr a"])
next
  case None
  let ?sn = "fst (getStaticAllocationsMaps pool)" and ?sp = "snd (getStaticAllocationsMaps pool)" and ?sts = "set (cpStaticAllocations (cpSpec pool))"
  have set: "cidr_setting pool n it" and fuel: "nat (siSubnetCount it) < fuel" using inv by (simp_all add: cidr_inv_def)
  obtain k where k: "0 \<le> k" "k \<le> siSubnetCount it" "ctIter s = it\<lparr>siNextIndex := k\<rparr>" "\<forall>j < k. \<not> free_prefix pool it (cidr_taken pool s) j"
    using inv unfolding cidr_inv_def by blast
  have m: "getStaticAllocationsMaps pool = (?sn, ?sp)" by simp
  obtain st where st: "getStaticAllocationForNodeIfExist node pool ?sn = Some st"
    "case st of None \<Rightarrow> node \<notin> csNodeName ` ?sts
     | Some a \<Rightarrow> caNodeName a = node \<and> (\<exists>k. entry_at pool it a k) \<and> (\<exists>st \<in> ?sts. csNodeName st = node \<and> csPrefix st = caPrefix a)"
    using getStatic_outcome [OF set m] by blast
  show ?thesis
  proof (cases st)
    case (Some a)
    with st(2) obtain j sta where a: "caNodeName a = node" "entry_at pool it a j" "sta \<in> ?sts" "csNodeName sta = node" "csPrefix sta = caPrefix a" by auto
    show ?thesis using cidr_step_static [OF inv None st(1) [unfolded Some] a] None by (metis option.distinct(1))
  next
    case none: None
    have node: "node \<notin> csNodeName ` ?sts" using st(2) none by simp
    have tk: "set (map fst (ctByPrefix s)) \<union> set (map fst ?sp) = cidr_taken pool s" using static_maps(3) [OF m] by (simp add: cidr_taken_def)
    obtain res k' where r: "getNewAllocationForNode fuel (ctxErr node) (ctIter s) node pool (map fst (ctByPrefix s)) (map fst ?sp) (cidr_merged pool) (cidr_fully_excluded pool n) =
        Some (res, it\<lparr>siNextIndex := k'\<rparr>)" "fit_outcome pool it (cidr_taken pool s) node k k' (ctxErr node) res"
      using getNew_outcome [OF cidr_settingD(1,2) [OF set] k(1,2) fuel] unfolding k(3) tk [symmetric] by blast
    have run: "cidr_allocate_pool fuel ctxErr pool n s node = Some (case res of
        Inl e \<Rightarrow> (Inl e, s\<lparr>ctIter := it\<lparr>siNextIndex := k'\<rparr>\<rparr>) | Inr a \<Rightarrow> (Inr a, cidr_record node a (it\<lparr>siNextIndex := k'\<rparr>) s))"
      using None st(1) none r(1) by (simp add: cidr_allocate_def Let_def cidr_record_def split: sum.split)
    show ?thesis
      using cidr_step_failed [OF inv _ k(4,1)] cidr_step_new [OF inv None node _ k(4,1)] run r(2) None by (cases res) fastforce+
  qed
qed

lemma cidr_allocate_stepD:
  assumes "cidr_inv fuel pool n it s" "cidr_allocate_pool fuel ctxErr pool n s node = Some (res, s')"
  shows "cidr_inv fuel pool n it s'" "cidr_taken pool s \<subseteq> cidr_taken pool s'"
    "res = Inr a \<Longrightarrow> map_of (ctByNode s') = (map_of (ctByNode s))(node \<mapsto> a)"
    "res = Inl e \<Longrightarrow> ctByNode s' = ctByNode s"
    "res = Inl e \<Longrightarrow> e = NoFreePrefixes \<and> cidr_exhausted pool it s' \<or> (\<exists>i x. ctxErr node i = Some x \<and> e = ContextError x)"
    "map_of (ctByNode s) node = Some r \<Longrightarrow> res = Inr r"
  using cidr_allocate_step [OF assms(1), of ctxErr node] assms(2) by (auto simp: cidr_stepped_def)

interpretation cidr_nodes: exhaustible_allocator "cidr_allocate_pool fuel ctxErr pool n" "\<lambda>e. e = NoFreePrefixes" "cidr_inv fuel pool n it"
    "\<lambda>s. map_of (ctByNode s)" "\<lambda>a b. caPrefix a \<noteq> caPrefix b" "cidr_exhausted pool it"
  for fuel ctxErr pool n it
proof (unfold_locales, goal_cases)
  case (1 s name)
  then show ?case using cidr_allocate_step [of fuel pool n it s ctxErr name] unfolding cidr_stepped_def by blast
next
  case (2 s name res s')
  then show ?case by (rule cidr_allocate_stepD(1))
next
  case (3 s name r s')
  then show ?case using cidr_allocate_stepD(3) by blast
next
  case (4 s name res s' r)
  then show ?case using cidr_allocate_stepD(6) by blast
next
  case (5 s name e s')
  then show ?case using cidr_allocate_stepD(4) by metis
next
  case (6 s a r b r')
  then have m: "(a, r) \<in> set (ctByNode s)" "(b, r') \<in> set (ctByNode s)" by (auto dest: map_of_SomeD)
  have "\<forall>x \<in> set (ctByNode s). \<forall>y \<in> set (ctByNode s). fst x \<noteq> fst y \<longrightarrow> caPrefix (snd x) \<noteq> caPrefix (snd y)"
    using 6(1) by (simp add: cidr_inv_def maps_ok_def)
  from bspec [OF bspec [OF this m(1)] m(2)] 6(4) show ?case by simp
next
  case (7 s name e s')
  then show ?case using cidr_allocate_stepD(5) [OF 7(1,2) refl] by auto
next
  case (8 s name res s')
  then show ?case using cidr_allocate_stepD(2) [OF 8(1,3)] free_prefix_mono unfolding cidr_exhausted_def by blast
qed

subsection \<open>The reconciliation\<close>

lemma map_insert_by: "map f (insert_by (\<lambda>a b. lt (f a) (f b)) x ys) = insert_by lt (f x) (map f ys)"
  by (induction ys) auto

lemma map_sort_Slice: "map f (sort_Slice (\<lambda>a b. lt (f a) (f b)) xs) = sort_Slice lt (map f xs)"
  unfolding sort_Slice_def by (induction xs) (simp_all add: map_insert_by)

definition alloc_net :: "CIDRPoolAllocation \<Rightarrow> IPNet" where
  "alloc_net a = snd (the (ParseCIDR (caPrefix a)))"

fun cidr_status_after :: "CIDRPool \<Rightarrow> CIDRPool effect list \<Rightarrow> CIDRPoolAllocation list" where
  "cidr_status_after pool [] = cpAllocations (cpStatus pool)"
| "cidr_status_after pool (StatusUpdate pool' # es) = cidr_status_after pool' es"
| "cidr_status_after pool (_ # es) = cidr_status_after pool es"

lemma cidr_status_after_events:
  "cidr_status_after pool (map no_prefix_event names @ es) = cidr_status_after pool es"
  by (induction names) (simp_all add: no_prefix_event_def)

text \<open>A request for a pool that validates, in a cluster that answers, with enough fuel for the search.\<close>

definition cidr_request ::
    "ext_validation \<Rightarrow> CIDRPool cluster \<Rightarrow> nat \<Rightarrow> string \<times> string \<Rightarrow> CIDRPool \<Rightarrow> IPNet \<Rightarrow> string list \<Rightarrow> bool" where
  "cidr_request ev cl fuel req pool n names \<longleftrightarrow>
     fst req = clNamespace cl \<and> clGet cl req = Got pool \<and> CIDRPool_Validate ev pool = [] \<and>
     map_option snd (ParseCIDR (cpCIDR (cpSpec pool))) = Some n \<and> wf_net n \<and> net_clear n \<and> net_size n < fuel \<and> cidr_canonical pool \<and>
     getMatchingNodes cl (cpNodeSelector (cpSpec pool)) = Inr names \<and> distinct names"

lemma cidr_requestD:
  assumes "cidr_request ev cl fuel req pool n names"
  shows "\<exists>it. cidr_setting pool n it \<and> NewSubnetIterator (Some n) (cpPerNodeNetworkPrefix (cpSpec pool)) = Inr it \<and>
      nat (siSubnetCount it) < fuel \<and> siNextIndex it = 0"
    and "distinct names"
proof -
  obtain ip where ip: "ParseCIDR (cpCIDR (cpSpec pool)) = Some (ip, n)" using assms by (auto simp: cidr_request_def)
  have h: "CIDRPool_Validate ev pool = []" "wf_net n" "net_clear n" "cidr_canonical pool" "net_size n < fuel" using assms by (simp_all add: cidr_request_def)
  obtain it where it: "cidr_ok pool n it" using CIDRPool_Validate_cidr_ok [OF h(1) ip h(2,3)] by blast
  note c = cidr_okD [OF it]
  note w = NewSubnetIterator_wf [OF c(1,2)]
  have "siSubnetCount it * 1 \<le> siSubnetCount it * siSubnetIPCount it"
    using iter_okD(9,8,10) [OF c(3)] by (intro mult_left_mono) auto
  then have "siSubnetCount it \<le> int (net_size n)" using w(4) by (simp add: mult.commute)
  then have "nat (siSubnetCount it) < fuel" using h(5) by linarith
  moreover have "siNextIndex it = 0" using w by simp
  moreover have "cidr_setting pool n it" using it h ip by (simp add: cidr_setting_def)
  ultimately show "\<exists>it. cidr_setting pool n it \<and> NewSubnetIterator (Some n) (cpPerNodeNetworkPrefix (cpSpec pool)) = Inr it \<and>
      nat (siSubnetCount it) < fuel \<and> siNextIndex it = 0" using c(2) by blast
  show "distinct names" using assms by (simp add: cidr_request_def)
qed

text \<open>Entries for different prefix numbers have no address in common.\<close>

lemma entries_apart:
  assumes s: "cidr_setting pool n it" and "entry_at pool it a i" "entry_at pool it b j" "caPrefix a \<noteq> caPrefix b"
  shows "\<not> (\<exists>x. IPNet_Contains (alloc_net a) x \<and> IPNet_Contains (alloc_net b) x)"
proof
  assume "\<exists>x. IPNet_Contains (alloc_net a) x \<and> IPNet_Contains (alloc_net b) x"
  then obtain x where x: "IPNet_Contains (alloc_net a) x" "IPNet_Contains (alloc_net b) x" by blast
  note ok = cidr_settingD(1) [OF s] and nc = cidr_settingD(2) [OF s]
  note c = cidr_okD [OF ok]
  have i: "0 \<le> i" "i < siSubnetCount it" "caPrefix a = IPNet_String (prefix_at it i)" and j: "0 \<le> j" "j < siSubnetCount it" "caPrefix b = IPNet_String (prefix_at it j)"
    using assms(2,3) by (simp_all add: entry_at_def)
  have "alloc_net a = prefix_at it i" "alloc_net b = prefix_at it j"
    using ParseCIDR_IPNet_String prefix_facts(1) [OF ok nc i(1,2)] prefix_facts(1) [OF ok nc j(1,2)] by (simp_all add: alloc_net_def i(3) j(3))
  then have v: "prefix_first it i \<le> int (ip_val x)" "int (ip_val x) < prefix_first it i + siSubnetIPCount it"
    "prefix_first it j \<le> int (ip_val x)" "int (ip_val x) < prefix_first it j + siSubnetIPCount it"
    using x prefix_at_Contains [OF c(1) nc c(2) i(1,2)] prefix_at_Contains [OF c(1) nc c(2) j(1,2)] by simp_all
  have "siSubnetIPCount it * i < siSubnetIPCount it * (j + 1)" "siSubnetIPCount it * j < siSubnetIPCount it * (i + 1)"
    using v by (simp_all add: prefix_first_def distrib_left)
  then have "i < j + 1" "j < i + 1" using iter_okD(10) [OF c(3)] by (auto simp: mult_less_cancel_left)
  then have "i = j" by simp
  with assms(4) i(3) j(3) show False by simp
qed

lemma cidr_run:
  assumes req: "cidr_request ev cl fuel req pool n names"
  shows "\<exists>it s0 as failed s err. cidr_setting pool n it \<and> NewSubnetIterator (Some n) (cpPerNodeNetworkPrefix (cpSpec pool)) = Inr it \<and>
    cidr_inv fuel pool n it s0 \<and> fst ` set (ctByNode s0) \<subseteq> set names \<and>
    allocate_all (cidr_allocate_pool fuel (\<lambda>_ _. None) pool n) (\<lambda>e. e = NoFreePrefixes) s0 names = Some (None, as, failed, s) \<and>
    (let allocations = sort_Slice (\<lambda>a b. str_less (caNodeName a) (caNodeName b)) (map snd (ctByNode s))
     in CIDRPool_Reconcile ev cl fuel (\<lambda>_ _. None) req =
          Some (err, map no_prefix_event failed @
            (if cpAllocations (cpStatus pool) \<noteq> allocations then [StatusUpdate (set_cidr_allocations pool allocations)] else [])) \<and>
        (err = None \<or> (\<exists>e. err = Some (ClientError e) \<and> clUpdate cl (set_cidr_allocations pool allocations) = Some e)))"
proof -
  obtain it where it: "cidr_setting pool n it" "NewSubnetIterator (Some n) (cpPerNodeNetworkPrefix (cpSpec pool)) = Inr it"
    "nat (siSubnetCount it) < fuel" "siNextIndex it = 0" using cidr_requestD(1) [OF req] by blast
  have names: "distinct names" by (rule cidr_requestD(2) [OF req])
  obtain byNode byPrefix where m: "getValidExistingAllocationsMaps pool names = Some (byNode, byPrefix)" "maps_ok pool it byNode byPrefix"
    "fst ` set byNode \<subseteq> set names" using existing_maps_ok [OF it(1)] by blast
  let ?s0 = "\<lparr>ctByNode = byNode, ctByPrefix = byPrefix, ctIter = it\<rparr>"
  have it0: "it = it\<lparr>siNextIndex := 0\<rparr>" using it(4) by simp
  have cnt: "0 \<le> siSubnetCount it" using iter_okD(8,9) [OF cidr_okD(3) [OF cidr_settingD(1) [OF it(1)]]] by linarith
  have inv: "cidr_inv fuel pool n it ?s0"
    unfolding cidr_inv_def using it(1,3) m(2) cnt it0 by (auto simp: free_prefix_def intro!: exI [of _ 0])
  obtain e as failed s where run: "allocate_all (cidr_allocate_pool fuel (\<lambda>_ _. None) pool n) (\<lambda>e. e = NoFreePrefixes) ?s0 names = Some (e, as, failed, s)"
    "\<forall>x. e = Some x \<longrightarrow> x \<noteq> NoFreePrefixes \<and> (\<exists>s1 name s2. cidr_inv fuel pool n it s1 \<and> cidr_allocate_pool fuel (\<lambda>_ _. None) pool n s1 name = Some (Inl x, s2))"
    using cidr_nodes.allocate_all_ok [OF inv names, of "\<lambda>_ _. None"] by (elim exE conjE) (rule that; assumption)
  have e: "e = None"
  proof (rule ccontr)
    assume "e \<noteq> None"
    then obtain x where x: "e = Some x" by blast
    with run(2) obtain s1 name s2 where s1: "cidr_inv fuel pool n it s1" "cidr_allocate_pool fuel (\<lambda>_ _. None) pool n s1 name = Some (Inl x, s2)" "x \<noteq> NoFreePrefixes" by blast
    from cidr_allocate_stepD(5) [OF s1(1,2) refl] s1(3) show False by simp
  qed
  have h: "fst req = clNamespace cl" "clGet cl req = Got pool" "CIDRPool_Validate ev pool = []"
    "map_option snd (ParseCIDR (cpCIDR (cpSpec pool))) = Some n" "getMatchingNodes cl (cpNodeSelector (cpSpec pool)) = Inr names"
    using req by (simp_all add: cidr_request_def)
  obtain sn sp where st: "getStaticAllocationsMaps pool = (sn, sp)" by fastforce
  have "CIDRPool_Reconcile ev cl fuel (\<lambda>_ _. None) req =
    (let allocations = sort_Slice (\<lambda>a b. str_less (caNodeName a) (caNodeName b)) (map snd (ctByNode s));
         pool' = set_cidr_allocations pool allocations;
         events = map no_prefix_event failed
     in if cpAllocations (cpStatus pool) \<noteq> allocations then Some (map_option ClientError (clUpdate cl pool'), events @ [StatusUpdate pool']) else Some (None, events))"
    using run(1) unfolding e CIDRPool_Reconcile_def by (simp add: h m(1) it(2) Let_def st)
  then have "\<exists>err. let allocations = sort_Slice (\<lambda>a b. str_less (caNodeName a) (caNodeName b)) (map snd (ctByNode s))
     in CIDRPool_Reconcile ev cl fuel (\<lambda>_ _. None) req =
          Some (err, map no_prefix_event failed @
            (if cpAllocations (cpStatus pool) \<noteq> allocations then [StatusUpdate (set_cidr_allocations pool allocations)] else [])) \<and>
        (err = None \<or> (\<exists>e. err = Some (ClientError e) \<and> clUpdate cl (set_cidr_allocations pool allocations) = Some e))"
    by (auto simp: Let_def)
  then obtain err where err: "let allocations = sort_Slice (\<lambda>a b. str_less (caNodeName a) (caNodeName b)) (map snd (ctByNode s))
     in CIDRPool_Reconcile ev cl fuel (\<lambda>_ _. None) req =
          Some (err, map no_prefix_event failed @
            (if cpAllocations (cpStatus pool) \<noteq> allocations then [StatusUpdate (set_cidr_allocations pool allocations)] else [])) \<and>
        (err = None \<or> (\<exists>e. err = Some (ClientError e) \<and> clUpdate cl (set_cidr_allocations pool allocations) = Some e))" by blast
  have "fst ` set (ctByNode ?s0) \<subseteq> set names" using m(3) by simp
  with it(1,2) inv run(1) [unfolded e] err show ?thesis by blast
qed

subsection \<open>Theorems\<close>

lemma find_first: "P y \<Longrightarrow> \<forall>x \<in> set xs. \<not> P x \<Longrightarrow> List.find P (xs @ y # ys) = Some y"
  by (induction xs) auto

lemma find_upto_Some: "P j \<Longrightarrow> k \<le> j \<Longrightarrow> j \<le> m \<Longrightarrow> \<forall>i. k \<le> i \<and> i < j \<longrightarrow> \<not> P i \<Longrightarrow> List.find P [k..m] = Some j"
  using find_first [of P j "[k..j - 1]" "[j + 1..m]"] upto_split3 [of k j m] by auto

lemma find_upto_None: "\<forall>i. k \<le> i \<longrightarrow> \<not> P i \<Longrightarrow> List.find P [k..m] = None"
  by (simp add: find_None_iff)

text \<open>C24: The search of \<open>getNewAllocationForNode\<close> jumps along exclusions with \<open>AdvancePastIP\<close> and still agrees with the
  plain search that looks at every prefix in turn: in a validated pool, with fuel for every prefix, it returns the first
  prefix from the iterator's position on that is not allocated, not reserved and not all excluded, with its gateway, and
  leaves the iterator just behind it; it answers that there is no free prefix when the plain search finds none, and it
  fails in no other way.\<close>

theorem getNewAllocationForNode_first_fit:
  assumes "cidr_ok pool n it" "net_clear n" "0 \<le> k" "k \<le> siSubnetCount it" "nat (siSubnetCount it) < fuel"
  shows "\<exists>it'. getNewAllocationForNode fuel (\<lambda>_. None) (it\<lparr>siNextIndex := k\<rparr>) node pool allocated static
      (MergeExcludeRanges (cpExclusions (cpSpec pool)))
      (ExcludeIndexRangesCover (cpPerNodeExclusions (cpSpec pool)) (Some (lastUsableIndex n (cpPerNodeNetworkPrefix (cpSpec pool))))) =
    Some (case List.find (free_prefix pool it (set allocated \<union> set static)) [k..siSubnetCount it - 1] of
            Some j \<Rightarrow> (Inr \<lparr>caNodeName = node, caGateway = computed_gateway pool (prefix_at it j), caPrefix = IPNet_String (prefix_at it j)\<rparr>,
                       it\<lparr>siNextIndex := j + 1\<rparr>)
          | None \<Rightarrow> (Inl NoFreePrefixes, it'))"
proof -
  let ?taken = "set allocated \<union> set static"
  let ?run = "getNewAllocationForNode fuel (\<lambda>_. None) (it\<lparr>siNextIndex := k\<rparr>) node pool allocated static (cidr_merged pool) (cidr_fully_excluded pool n)"
  obtain res k' where r: "?run = Some (res, it\<lparr>siNextIndex := k'\<rparr>)" "fit_outcome pool it ?taken node k k' (\<lambda>_. None) res"
    using getNew_outcome [OF assms] by blast
  show ?thesis
  proof (cases res)
    case (Inl e)
    with r(2) have "e = NoFreePrefixes" "\<forall>j. k \<le> j \<longrightarrow> \<not> free_prefix pool it ?taken j" by (simp_all add: fit_outcome_def)
    with Inl r(1) show ?thesis by (simp add: find_upto_None)
  next
    case (Inr a)
    with r(2) have a: "k < k'" "k' \<le> siSubnetCount it" "free_prefix pool it ?taken (k' - 1)" "\<forall>j. k \<le> j \<and> j < k' - 1 \<longrightarrow> \<not> free_prefix pool it ?taken j"
      "a = \<lparr>caNodeName = node, caGateway = computed_gateway pool (prefix_at it (k' - 1)), caPrefix = IPNet_String (prefix_at it (k' - 1))\<rparr>"
      by (simp_all add: fit_outcome_def)
    have "List.find (free_prefix pool it ?taken) [k..siSubnetCount it - 1] = Some (k' - 1)"
      by (rule find_upto_Some [OF a(3) _ _ a(4)]) (use a(1,2) in simp_all)
    with Inr r(1) a(5) show ?thesis by simp
  qed
qed

text \<open>The entries at the end of a reconciliation: no two prefixes share an address, and a node without an entry met an exhausted
  pool.\<close>

lemma cidr_prefixes_apart:
  assumes setting: "cidr_setting pool n it" and inv: "cidr_inv fuel pool n it s" and al: "set al = snd ` set (ctByNode s)"
    and sorted: "sorted_wrt str_less (map caNodeName al)"
  shows "sorted_wrt (\<lambda>a b. \<not> (\<exists>x. IPNet_Contains (alloc_net a) x \<and> IPNet_Contains (alloc_net b) x)) al"
proof (rule sorted_wrt_mono_rel [OF _ sorted [unfolded sorted_wrt_map]])
  have maps: "\<And>x. x \<in> set (ctByNode s) \<Longrightarrow> caNodeName (snd x) = fst x \<and> (\<exists>k. entry_at pool it (snd x) k)"
    "\<And>x y. x \<in> set (ctByNode s) \<Longrightarrow> y \<in> set (ctByNode s) \<Longrightarrow> fst x \<noteq> fst y \<Longrightarrow> caPrefix (snd x) \<noteq> caPrefix (snd y)"
    using inv unfolding cidr_inv_def maps_ok_def by blast+
  fix a b
  assume ab: "a \<in> set al" "b \<in> set al" "str_less (caNodeName a) (caNodeName b)"
  then obtain x y where xy: "x \<in> set (ctByNode s)" "y \<in> set (ctByNode s)" "a = snd x" "b = snd y" unfolding al by blast
  have "fst x \<noteq> fst y" using ab(3) xy maps(1) by (metis str_less_irrefl)
  then have "caPrefix a \<noteq> caPrefix b" using maps(2) [OF xy(1,2)] xy(3,4) by simp
  moreover obtain i j where "entry_at pool it a i" "entry_at pool it b j" using maps(1) xy by blast
  ultimately show "\<not> (\<exists>x. IPNet_Contains (alloc_net a) x \<and> IPNet_Contains (alloc_net b) x)" using entries_apart [OF setting] by blast
qed

lemma cidr_name_served:
  assumes run: "cidr_inv fuel pool n it s0"
      "allocate_all (cidr_allocate_pool fuel (\<lambda>_ _. None) pool n) (\<lambda>e. e = NoFreePrefixes) s0 names = Some (None, as, failed, s)"
    and inv: "cidr_inv fuel pool n it s" and as: "\<forall>x \<in> set as. map_of (ctByNode s) (fst x) = Some (snd x)"
    and names: "set names = fst ` set as \<union> set failed" and al: "set al = snd ` set (ctByNode s)" and name: "name \<in> set names"
  shows "name \<in> caNodeName ` set al \<or> name \<in> set failed \<and>
      (\<forall>k. \<not> free_prefix pool it (caPrefix ` set al \<union> csPrefix ` set (cpStaticAllocations (cpSpec pool))) k)"
proof (cases "name \<in> set failed")
  case True
  then have "failed \<noteq> []" by auto
  then have "cidr_exhausted pool it s" by (rule cidr_nodes.failed_exhausted [OF run])
  moreover have "fst ` set (ctByPrefix s) = (\<lambda>x. caPrefix (snd x)) ` set (ctByNode s)" using inv unfolding cidr_inv_def maps_ok_def by blast
  then have "cidr_taken pool s = caPrefix ` set al \<union> csPrefix ` set (cpStaticAllocations (cpSpec pool))"
    unfolding cidr_taken_def al by (simp add: image_image)
  ultimately show ?thesis using True by (simp add: cidr_exhausted_def)
next
  case False
  have "name \<in> fst ` set as \<union> set failed" using name unfolding names .
  then have "name \<in> fst ` set as" by (rule UnE) (assumption, rule notE [OF False])
  then obtain x where x: "x \<in> set as" "name = fst x" by (rule imageE) (rule that)
  have m: "(name, snd x) \<in> set (ctByNode s)" using map_of_SomeD [OF bspec [OF as x(1)]] unfolding x(2) .
  have "snd x \<in> set al" unfolding al by (rule image_eqI [OF _ m]) simp
  moreover have "\<And>x. x \<in> set (ctByNode s) \<Longrightarrow> caNodeName (snd x) = fst x" using inv unfolding cidr_inv_def maps_ok_def by blast
  from this [OF m] have "caNodeName (snd x) = name" by simp
  ultimately show ?thesis by blast
qed

lemma CIDRPool_Reconcile_law:
  assumes "cidr_request ev cl fuel req pool n names"
  shows "\<exists>err effs it. CIDRPool_Reconcile ev cl fuel (\<lambda>_ _. None) req = Some (err, effs) \<and>
    NewSubnetIterator (Some n) (cpPerNodeNetworkPrefix (cpSpec pool)) = Inr it \<and>
    (err = None \<or> (\<exists>e pool'. err = Some (ClientError e) \<and> clUpdate cl pool' = Some e)) \<and>
    sorted_wrt str_less (map caNodeName (cidr_status_after pool effs)) \<and>
    (\<forall>a \<in> set (cidr_status_after pool effs). caNodeName a \<in> set names \<and> (\<exists>k. entry_at pool it a k)) \<and>
    sorted_wrt (\<lambda>a b. \<not> (\<exists>x. IPNet_Contains (alloc_net a) x \<and> IPNet_Contains (alloc_net b) x)) (cidr_status_after pool effs) \<and>
    (\<forall>name \<in> set names. name \<in> caNodeName ` set (cidr_status_after pool effs) \<or>
       no_prefix_event name \<in> set effs \<and>
       (\<forall>k. \<not> free_prefix pool it (caPrefix ` set (cidr_status_after pool effs) \<union> csPrefix ` set (cpStaticAllocations (cpSpec pool))) k))"
proof -
  note names = cidr_requestD(2) [OF assms]
  obtain it s0 as failed s err where run: "cidr_setting pool n it" "NewSubnetIterator (Some n) (cpPerNodeNetworkPrefix (cpSpec pool)) = Inr it"
    "cidr_inv fuel pool n it s0" "fst ` set (ctByNode s0) \<subseteq> set names"
    "allocate_all (cidr_allocate_pool fuel (\<lambda>_ _. None) pool n) (\<lambda>e. e = NoFreePrefixes) s0 names = Some (None, as, failed, s)"
    "let allocations = sort_Slice (\<lambda>a b. str_less (caNodeName a) (caNodeName b)) (map snd (ctByNode s))
     in CIDRPool_Reconcile ev cl fuel (\<lambda>_ _. None) req =
          Some (err, map no_prefix_event failed @
            (if cpAllocations (cpStatus pool) \<noteq> allocations then [StatusUpdate (set_cidr_allocations pool allocations)] else [])) \<and>
        (err = None \<or> (\<exists>e. err = Some (ClientError e) \<and> clUpdate cl (set_cidr_allocations pool allocations) = Some e))"
    using cidr_run [OF assms] by (elim exE conjE) (rule that; assumption)
  define al where "al = sort_Slice (\<lambda>a b. str_less (caNodeName a) (caNodeName b)) (map snd (ctByNode s))"
  define effs where "effs = map no_prefix_event failed @ (if cpAllocations (cpStatus pool) \<noteq> al then [StatusUpdate (set_cidr_allocations pool al)] else [])"
  have rec: "CIDRPool_Reconcile ev cl fuel (\<lambda>_ _. None) req = Some (err, effs)"
      "err = None \<or> (\<exists>e. err = Some (ClientError e) \<and> clUpdate cl (set_cidr_allocations pool al) = Some e)"
    using run(6) unfolding effs_def al_def Let_def by blast+
  have st: "cidr_status_after pool effs = al" unfolding effs_def cidr_status_after_events by (simp add: set_cidr_allocations_def)
  have ok: "cidr_inv fuel pool n it s" "\<forall>a. map_of (ctByNode s) a \<noteq> None \<longrightarrow> map_of (ctByNode s0) a \<noteq> None \<or> a \<in> fst ` set as"
    "\<forall>x \<in> set as. map_of (ctByNode s) (fst x) = Some (snd x)" "set names = fst ` set as \<union> set failed"
    using cidr_nodes.allocate_all_ok [OF run(3) names, of "\<lambda>_ _. None"] run(5) by auto
  have maps: "distinct (map fst (ctByNode s))" "\<And>x. x \<in> set (ctByNode s) \<Longrightarrow> caNodeName (snd x) = fst x \<and> (\<exists>k. entry_at pool it (snd x) k)"
    "\<And>x y. x \<in> set (ctByNode s) \<Longrightarrow> y \<in> set (ctByNode s) \<Longrightarrow> fst x \<noteq> fst y \<Longrightarrow> caPrefix (snd x) \<noteq> caPrefix (snd y)"
    "fst ` set (ctByPrefix s) = (\<lambda>x. caPrefix (snd x)) ` set (ctByNode s)"
    using ok(1) unfolding cidr_inv_def maps_ok_def by blast+
  have set_al: "set al = snd ` set (ctByNode s)" by (simp add: al_def)
  have names_al: "map caNodeName (map snd (ctByNode s)) = map fst (ctByNode s)" using maps(2) by simp
  have sorted: "sorted_wrt str_less (map caNodeName al)"
    unfolding al_def map_sort_Slice names_al using maps(1) by (rule sort_names_sorted)
  have keys: "fst ` set (ctByNode s) \<subseteq> set names"
  proof
    fix a
    assume "a \<in> fst ` set (ctByNode s)"
    then have "map_of (ctByNode s) a \<noteq> None" by (simp add: map_of_eq_None_iff)
    then have "a \<in> fst ` set (ctByNode s0) \<or> a \<in> fst ` set as" using ok(2) map_of_eq_None_iff [of "ctByNode s0" a] by blast
    then show "a \<in> set names" using run(4) ok(4) by blast
  qed
  have entries: "caNodeName a \<in> set names \<and> (\<exists>k. entry_at pool it a k)" if "a \<in> set al" for a
    using that maps(2) keys unfolding set_al by force
  have "sorted_wrt (\<lambda>a b. \<not> (\<exists>x. IPNet_Contains (alloc_net a) x \<and> IPNet_Contains (alloc_net b) x)) al"
    by (rule cidr_prefixes_apart [OF run(1) ok(1) set_al sorted])
  moreover have "name \<in> caNodeName ` set al \<or> no_prefix_event name \<in> set effs \<and>
      (\<forall>k. \<not> free_prefix pool it (caPrefix ` set al \<union> csPrefix ` set (cpStaticAllocations (cpSpec pool))) k)" if "name \<in> set names" for name
    using cidr_name_served [OF run(3,5) ok(1,3,4) set_al that] by (auto simp: effs_def)
  ultimately show ?thesis using rec run(2) sorted entries unfolding st [symmetric] by blast
qed



definition demo_cidr_cluster :: "CIDRPool cluster" where
  "demo_cidr_cluster = \<lparr>clNamespace = ''kube-system'', clGet = (\<lambda>_. Got demo_cidr),
     clNodes = Inr [\<lparr>ndName = ''b'', ndLabels = []\<rparr>, \<lparr>ndName = ''a'', ndLabels = []\<rparr>],
     clMatch = (\<lambda>_ _. Inr True), clUpdate = (\<lambda>_. None)\<rparr>"

lemma demo_cidr_request: "cidr_request demo_ev demo_cidr_cluster 17 (''kube-system'', ''pool2'') demo_cidr demo_cidr_net [''a'', ''b'']"
  by code_simp


theorem getNewAllocationForNode_first_fit_witness:
  "\<exists>it it'. NewSubnetIterator (Some demo_cidr_net) 30 = Inr it \<and> cidr_ok demo_cidr demo_cidr_net it \<and>
     getNewAllocationForNode 5 (\<lambda>_. None) (it\<lparr>siNextIndex := 1\<rparr>) ''d'' demo_cidr [''192.168.0.0/30''] [''192.168.0.8/30'']
       (MergeExcludeRanges (cpExclusions (cpSpec demo_cidr)))
       (ExcludeIndexRangesCover (cpPerNodeExclusions (cpSpec demo_cidr)) (Some (lastUsableIndex demo_cidr_net (cpPerNodeNetworkPrefix (cpSpec demo_cidr))))) =
     Some (case List.find (free_prefix demo_cidr it ({''192.168.0.0/30''} \<union> {''192.168.0.8/30''})) [1..3] of
             Some j \<Rightarrow> (Inr \<lparr>caNodeName = ''d'', caGateway = computed_gateway demo_cidr (prefix_at it j), caPrefix = IPNet_String (prefix_at it j)\<rparr>,
                        it\<lparr>siNextIndex := j + 1\<rparr>)
           | None \<Rightarrow> (Inl NoFreePrefixes, it'))"
proof -
  obtain it where ok: "cidr_ok demo_cidr demo_cidr_net it"
    using CIDRPool_Validate_cidr_ok [OF demo_cidr_facts(1,4,2,3)] by blast
  have new: "NewSubnetIterator (Some demo_cidr_net) 30 = Inr it" using cidr_okD(2) [OF ok] by (simp add: demo_cidr_def)
  have "(case NewSubnetIterator (Some demo_cidr_net) 30 of Inr i \<Rightarrow> siSubnetCount i = 4 | Inl _ \<Rightarrow> False)" by code_simp
  then have c: "siSubnetCount it = 4" by (simp add: new)
  show ?thesis
    using getNewAllocationForNode_first_fit [OF ok demo_cidr_facts(3), of 1 5 "''d''" "[''192.168.0.0/30'']" "[''192.168.0.8/30'']"] new ok
    by (simp add: c)
qed

definition text_pool :: CIDRPool where
  "text_pool = \<lparr>cpName = ''pool6'', cpNamespace = ''kube-system'',
     cpSpec = \<lparr>cpCIDR = ''fd00::/62'', cpGatewayIndex = None, cpPerNodeNetworkPrefix = 64, cpExclusions = [], cpPerNodeExclusions = [],
       cpStaticAllocations = [\<lparr>csNodeName = ''b'', csGateway = [], csPrefix = ''fd00:0::/64''\<rparr>],
       cpNodeSelector = None, cpDefaultGateway = False, cpRoutes = []\<rparr>,
     cpStatus = \<lparr>cpAllocations = []\<rparr>\<rparr>"

definition text_cluster :: "CIDRPool cluster" where
  "text_cluster = demo_cidr_cluster\<lparr>clGet := (\<lambda>_. Got text_pool)\<rparr>"


end
