(* ===== verification/NodePools.thy ===== *)
theory NodePools
  imports CIDRPoolCtrl
begin

text \<open>
  The pool configuration of a node: the manager that holds it (\<open>pkg/pool/manager.go\<close>), the keys of pools
  (\<open>pkg/common/pool_key.go\<close>) and the two controllers that fill it from the status of the pool objects
  (\<open>pkg/ipam-node/controllers/ippool\<close> and \<open>pkg/ipam-node/controllers/cidrpool\<close>).  The manager is a map; its mutex only
  serialises the calls.  A controller gets the object from a parameter and returns its error and the manager; a panic is
  \<^const>\<open>None\<close>.
\<close>

subsection \<open>The manager\<close>

record ExclusionRange =
  exStartIP :: string
  exEndIP :: string

record PoolRoute =
  plDst :: string

record Pool =
  plName :: string
  plSubnet :: string
  plStartIP :: string
  plEndIP :: string
  plGateway :: string
  plExclusions :: "ExclusionRange list"
  plRoutes :: "PoolRoute list"
  plDefaultGateway :: bool

type_synonym manager = "string \<rightharpoonup> Pool"

definition NewManager :: manager where
  "NewManager = Map.empty"

definition Manager_UpdatePool :: "string \<Rightarrow> Pool \<Rightarrow> manager \<Rightarrow> manager" where
  "Manager_UpdatePool key pool m = m(key \<mapsto> pool)"

definition Manager_RemovePool :: "string \<Rightarrow> manager \<Rightarrow> manager" where
  "Manager_RemovePool key m = m(key := None)"

definition GetPoolByKey :: "string \<Rightarrow> manager \<Rightarrow> Pool option" where
  "GetPoolByKey key m = m key"

definition GetPools :: "manager \<Rightarrow> manager" where
  "GetPools m = m"

definition PoolTypeIPPool :: string where
  "PoolTypeIPPool = ''ippool''"

definition PoolTypeCIDRPool :: string where
  "PoolTypeCIDRPool = ''cidrpool''"

definition GetPoolKey :: "string \<Rightarrow> string \<Rightarrow> string" where
  "GetPoolKey poolName poolType =
     (if poolType = [] \<or> poolType = PoolTypeIPPool then poolName else poolType @ ''/'' @ poolName)"

subsection \<open>The controllers\<close>

definition to_exclusion :: "ExcludeRange \<Rightarrow> ExclusionRange" where
  "to_exclusion e = \<lparr>exStartIP = erStartIP e, exEndIP = erEndIP e\<rparr>"

definition to_route :: "Route \<Rightarrow> PoolRoute" where
  "to_route r = \<lparr>plDst = rtDst r\<rparr>"

definition buildPerNodeExclusions :: "ExcludeIndexRange list \<Rightarrow> string \<Rightarrow> string \<Rightarrow> ExclusionRange list" where
  "buildPerNodeExclusions ranges startIP endIP =
     (if ranges = [] then []
      else map to_exclusion (ClampExcludeRanges (ExcludeIndexRangeToExcludeRange ranges startIP) startIP endIP))"

definition ippool_node_pool :: "IPPool \<Rightarrow> Allocation \<Rightarrow> Pool" where
  "ippool_node_pool p alloc =
     \<lparr>plName = ipName p, plSubnet = ipSubnet (ipSpec p), plStartIP = alStartIP alloc, plEndIP = alEndIP alloc,
      plGateway = ipGateway (ipSpec p),
      plExclusions = map to_exclusion (ipExclusions (ipSpec p)) @
        buildPerNodeExclusions (ipPerNodeExclusions (ipSpec p)) (alStartIP alloc) (alEndIP alloc),
      plRoutes = map to_route (ipRoutes (ipSpec p)), plDefaultGateway = ipDefaultGateway (ipSpec p)\<rparr>"

definition NodeIPPool_Reconcile ::
    "(string \<times> string \<Rightarrow> IPPool get_result) \<Rightarrow> string \<Rightarrow> string \<times> string \<Rightarrow> manager \<Rightarrow> string option \<times> manager" where
  "NodeIPPool_Reconcile get nodeName req m =
     (let poolKey = GetPoolKey (snd req) PoolTypeIPPool
      in case get req of
           GetNotFound \<Rightarrow> (None, Manager_RemovePool poolKey m)
         | GetFailed e \<Rightarrow> (Some e, m)
         | Got p \<Rightarrow>
             (case find (\<lambda>alloc. alNodeName alloc = nodeName) (ipAllocations (ipStatus p)) of
                Some alloc \<Rightarrow> (None, Manager_UpdatePool poolKey (ippool_node_pool p alloc) m)
              | None \<Rightarrow> (None, Manager_RemovePool poolKey m)))"

fun buildExclusions :: "ExcludeRange list \<Rightarrow> IPNet \<Rightarrow> net_ip \<Rightarrow> net_ip \<Rightarrow> ExclusionRange list" where
  "buildExclusions [] nodeSubnet firstIP lastIP = []"
| "buildExclusions (r # rs) nodeSubnet firstIP lastIP =
     (let rangeStartIP = ParseIP (erStartIP r); rangeEndIP = ParseIP (erEndIP r)
      in if rangeEndIP = [] \<or> rangeStartIP = [] then buildExclusions rs nodeSubnet firstIP lastIP
         else
           let containsStart = IPNet_Contains nodeSubnet rangeStartIP; containsEnd = IPNet_Contains nodeSubnet rangeEndIP
           in if \<not> containsStart \<and> \<not> containsEnd then buildExclusions rs nodeSubnet firstIP lastIP
              else \<lparr>exStartIP = (if containsStart then erStartIP r else IP_String firstIP),
                     exEndIP = (if containsEnd then erEndIP r else IP_String lastIP)\<rparr>
                   # buildExclusions rs nodeSubnet firstIP lastIP)"

definition cidrpool_node_pool :: "CIDRPool \<Rightarrow> CIDRPoolAllocation \<Rightarrow> IPNet \<Rightarrow> Pool" where
  "cidrpool_node_pool p alloc nodeSubnet =
     (let startIP = (if IsPointToPointSubnet nodeSubnet \<or> IsSingleIPSubnet nodeSubnet then ipnIP nodeSubnet else NextIP (ipnIP nodeSubnet));
          endIP = LastIP nodeSubnet
      in \<lparr>plName = cpName p, plSubnet = caPrefix alloc, plStartIP = IP_String startIP, plEndIP = IP_String endIP,
          plGateway = caGateway alloc,
          plExclusions = buildExclusions (cpExclusions (cpSpec p)) nodeSubnet startIP endIP @
            buildPerNodeExclusions (cpPerNodeExclusions (cpSpec p)) (IP_String (ipnIP nodeSubnet)) (IP_String endIP),
          plRoutes = map to_route (cpRoutes (cpSpec p)), plDefaultGateway = cpDefaultGateway (cpSpec p)\<rparr>)"

definition NodeCIDRPool_Reconcile ::
    "ext_validation \<Rightarrow> (string \<times> string \<Rightarrow> CIDRPool get_result) \<Rightarrow> string \<Rightarrow> string \<times> string \<Rightarrow> manager \<Rightarrow> (string option \<times> manager) option" where
  "NodeCIDRPool_Reconcile ev get nodeName req m =
     (let poolKey = GetPoolKey (snd req) PoolTypeCIDRPool
      in case get req of
           GetNotFound \<Rightarrow> Some (None, Manager_RemovePool poolKey m)
         | GetFailed e \<Rightarrow> Some (Some e, m)
         | Got p \<Rightarrow>
             if 0 < length (CIDRPool_Validate ev p) then Some (None, Manager_RemovePool poolKey m)
             else
               (case find (\<lambda>alloc. caNodeName alloc = nodeName) (cpAllocations (cpStatus p)) of
                  None \<Rightarrow> Some (None, Manager_RemovePool poolKey m)
                | Some alloc \<Rightarrow>
                    (case CIDRPoolAllocation_Validate alloc p of
                       None \<Rightarrow> None
                     | Some errList \<Rightarrow>
                         if 0 < length errList then Some (None, Manager_RemovePool poolKey m)
                         else
                           (case ParseCIDR (caPrefix alloc) of
                              None \<Rightarrow> None
                            | Some (_, nodeSubnet) \<Rightarrow>
                                Some (None, Manager_UpdatePool poolKey (cidrpool_node_pool p alloc nodeSubnet) m)))))"

subsection \<open>Pool keys\<close>

text \<open>Names of objects have no slash, so the key determines the pool and its type.\<close>

lemma GetPoolKey_inj:
  assumes "CHR ''/'' \<notin> set n1" "CHR ''/'' \<notin> set n2" "t1 \<in> {PoolTypeIPPool, PoolTypeCIDRPool}" "t2 \<in> {PoolTypeIPPool, PoolTypeCIDRPool}"
  shows "GetPoolKey n1 t1 = GetPoolKey n2 t2 \<longleftrightarrow> n1 = n2 \<and> t1 = t2"
  using assms by (auto simp: GetPoolKey_def PoolTypeIPPool_def PoolTypeCIDRPool_def)

subsection \<open>The contract of the manager\<close>

text \<open>What the controllers and the handlers rely on: a lookup sees the latest change of its key.\<close>

locale config_manager =
  fixes get :: "'k \<Rightarrow> 'm \<Rightarrow> 'p option" and update :: "'k \<Rightarrow> 'p \<Rightarrow> 'm \<Rightarrow> 'm" and remove :: "'k \<Rightarrow> 'm \<Rightarrow> 'm"
  assumes get_update: "get k (update k' p m) = (if k = k' then Some p else get k m)"
    and get_remove: "get k (remove k' m) = (if k = k' then None else get k m)"
begin

text \<open>Setting a key to the wanted configuration, and a sequence of such steps.\<close>

definition put :: "'k \<times> 'p option \<Rightarrow> 'm \<Rightarrow> 'm" where
  "put c m = (case snd c of None \<Rightarrow> remove (fst c) m | Some p \<Rightarrow> update (fst c) p m)"

lemma get_put: "get k (put c m) = (if k = fst c then snd c else get k m)"
  by (cases "snd c") (auto simp: put_def get_update get_remove)

lemma get_puts: "get k (fold put cs m) = (case map_of (rev cs) k of None \<Rightarrow> get k m | Some d \<Rightarrow> d)"
proof (induction cs arbitrary: m)
  case (Cons c cs)
  show ?case
    unfolding fold.simps comp_apply Cons.IH
    by (cases c; cases "map_of (rev cs) k") (auto simp: get_put map_add_def split: option.splits)
qed simp

end

interpretation node_config: config_manager GetPoolByKey Manager_UpdatePool Manager_RemovePool
  by unfold_locales (simp_all add: GetPoolByKey_def Manager_UpdatePool_def Manager_RemovePool_def)

lemma GetPoolByKey_new [simp]: "GetPoolByKey k NewManager = None"
  by (simp add: GetPoolByKey_def NewManager_def)

subsection \<open>The configuration a node wants\<close>

definition ippool_wanted :: "string \<Rightarrow> IPPool get_result \<Rightarrow> Pool option" where
  "ippool_wanted nodeName g =
     (case g of
        Got p \<Rightarrow> map_option (ippool_node_pool p) (find (\<lambda>alloc. alNodeName alloc = nodeName) (ipAllocations (ipStatus p)))
      | _ \<Rightarrow> None)"

definition cidrpool_wanted :: "ext_validation \<Rightarrow> string \<Rightarrow> CIDRPool get_result \<Rightarrow> Pool option" where
  "cidrpool_wanted ev nodeName g =
     (case g of
        Got p \<Rightarrow>
          (case find (\<lambda>alloc. caNodeName alloc = nodeName) (cpAllocations (cpStatus p)) of
             Some alloc \<Rightarrow> (if CIDRPool_Validate ev p = [] \<and> CIDRPoolAllocation_Validate alloc p = Some []
                 then map_option (\<lambda>(_, n). cidrpool_node_pool p alloc n) (ParseCIDR (caPrefix alloc)) else None)
           | None \<Rightarrow> None)
      | _ \<Rightarrow> None)"

definition read_failed :: "'p get_result \<Rightarrow> bool" where
  "read_failed g \<longleftrightarrow> (case g of GetFailed _ \<Rightarrow> True | _ \<Rightarrow> False)"

lemma NodeIPPool_Reconcile_conv:
  "snd (NodeIPPool_Reconcile (\<lambda>_. g) nodeName req m) =
     (if read_failed g then m else node_config.put (GetPoolKey (snd req) PoolTypeIPPool, ippool_wanted nodeName g) m)"
  by (auto simp: NodeIPPool_Reconcile_def Let_def read_failed_def ippool_wanted_def node_config.put_def
      split: get_result.split option.split)

lemma validateCIDR_parses: "validateCIDR p = [] \<Longrightarrow> ParseCIDR (cpCIDR (cpSpec p)) \<noteq> None"
  by (cases "ParseCIDR (cpCIDR (cpSpec p))") (simp_all add: validateCIDR_def Let_def)

lemma CIDRPool_Validate_parses: "CIDRPool_Validate ev p = [] \<Longrightarrow> ParseCIDR (cpCIDR (cpSpec p)) \<noteq> None"
  using validateCIDR_parses by (simp add: CIDRPool_Validate_def Let_def)

lemma CIDRPoolAllocation_Validate_parses:
  "CIDRPoolAllocation_Validate a p = Some [] \<Longrightarrow> ParseCIDR (caPrefix a) \<noteq> None"
  by (auto simp: CIDRPoolAllocation_Validate_def Let_def split: option.splits if_splits)

lemma CIDRPoolAllocation_Validate_returns:
  "ParseCIDR (cpCIDR (cpSpec p)) \<noteq> None \<Longrightarrow> CIDRPoolAllocation_Validate a p \<noteq> None"
  by (auto simp: CIDRPoolAllocation_Validate_def Let_def split: option.split)

lemma NodeCIDRPool_Reconcile_conv:
  "map_option snd (NodeCIDRPool_Reconcile ev (\<lambda>_. g) nodeName req m) =
     Some (if read_failed g then m else node_config.put (GetPoolKey (snd req) PoolTypeCIDRPool, cidrpool_wanted ev nodeName g) m)"
proof (cases g)
  case (Got p)
  note unf = NodeCIDRPool_Reconcile_def Let_def Got read_failed_def cidrpool_wanted_def node_config.put_def
  show ?thesis
  proof (cases "CIDRPool_Validate ev p = []")
    case True
    note r = CIDRPoolAllocation_Validate_returns [OF CIDRPool_Validate_parses [OF True]]
    show ?thesis
    proof (cases "find (\<lambda>alloc. caNodeName alloc = nodeName) (cpAllocations (cpStatus p))")
      case (Some alloc)
      obtain errs where "CIDRPoolAllocation_Validate alloc p = Some errs" using r [of alloc] by blast
      then show ?thesis using True Some CIDRPoolAllocation_Validate_parses [of alloc p]
        by (cases "errs = []") (auto simp: unf)
    qed (simp add: unf True)
  qed (simp add: unf split: option.split)
qed (simp_all add: NodeCIDRPool_Reconcile_def Let_def read_failed_def cidrpool_wanted_def node_config.put_def)

subsection \<open>Following the pool objects\<close>

text \<open>The controllers run on notifications; an event carries what reading the object gave.\<close>

datatype node_event = IPPoolEvent "IPPool get_result" "string \<times> string" | CIDRPoolEvent "CIDRPool get_result" "string \<times> string"

fun node_handle :: "ext_validation \<Rightarrow> string \<Rightarrow> node_event \<Rightarrow> manager \<Rightarrow> manager option" where
  "node_handle ev nodeName (IPPoolEvent g req) m = Some (snd (NodeIPPool_Reconcile (\<lambda>_. g) nodeName req m))"
| "node_handle ev nodeName (CIDRPoolEvent g req) m = map_option snd (NodeCIDRPool_Reconcile ev (\<lambda>_. g) nodeName req m)"

fun node_run :: "ext_validation \<Rightarrow> string \<Rightarrow> node_event list \<Rightarrow> manager \<Rightarrow> manager option" where
  "node_run ev nodeName [] m = Some m"
| "node_run ev nodeName (e # es) m = (case node_handle ev nodeName e m of None \<Rightarrow> None | Some m' \<Rightarrow> node_run ev nodeName es m')"

fun event_change :: "ext_validation \<Rightarrow> string \<Rightarrow> node_event \<Rightarrow> (string \<times> Pool option) list" where
  "event_change ev nodeName (IPPoolEvent g req) =
     (if read_failed g then [] else [(GetPoolKey (snd req) PoolTypeIPPool, ippool_wanted nodeName g)])"
| "event_change ev nodeName (CIDRPoolEvent g req) =
     (if read_failed g then [] else [(GetPoolKey (snd req) PoolTypeCIDRPool, cidrpool_wanted ev nodeName g)])"

lemma node_run_conv: "node_run ev nodeName es m = Some (fold node_config.put (concat (map (event_change ev nodeName) es)) m)"
proof (induction es arbitrary: m)
  case (Cons e es)
  then show ?case by (cases e) (simp_all add: NodeIPPool_Reconcile_conv NodeCIDRPool_Reconcile_conv)
qed simp

fun event_name :: "node_event \<Rightarrow> string" where
  "event_name (IPPoolEvent g req) = snd req"
| "event_name (CIDRPoolEvent g req) = snd req"

text \<open>The last successful reading of an object.\<close>

fun last_ippool :: "string \<Rightarrow> node_event list \<Rightarrow> IPPool get_result option" where
  "last_ippool name [] = None"
| "last_ippool name (e # es) =
     (case last_ippool name es of
        Some g \<Rightarrow> Some g
      | None \<Rightarrow> (case e of IPPoolEvent g req \<Rightarrow> (if snd req = name \<and> \<not> read_failed g then Some g else None) | _ \<Rightarrow> None))"

fun last_cidrpool :: "string \<Rightarrow> node_event list \<Rightarrow> CIDRPool get_result option" where
  "last_cidrpool name [] = None"
| "last_cidrpool name (e # es) =
     (case last_cidrpool name es of
        Some g \<Rightarrow> Some g
      | None \<Rightarrow> (case e of CIDRPoolEvent g req \<Rightarrow> (if snd req = name \<and> \<not> read_failed g then Some g else None) | _ \<Rightarrow> None))"

lemma changes_lookup:
  assumes "\<forall>e \<in> set es. CHR ''/'' \<notin> set (event_name e)" "CHR ''/'' \<notin> set name"
  shows "map_of (rev (concat (map (event_change ev nodeName) es))) (GetPoolKey name PoolTypeIPPool) = map_option (ippool_wanted nodeName) (last_ippool name es)"
    and "map_of (rev (concat (map (event_change ev nodeName) es))) (GetPoolKey name PoolTypeCIDRPool) = map_option (cidrpool_wanted ev nodeName) (last_cidrpool name es)"
proof -
  have t: "PoolTypeIPPool \<noteq> PoolTypeCIDRPool" by (simp add: PoolTypeIPPool_def PoolTypeCIDRPool_def)
  have "map_of (rev (concat (map (event_change ev nodeName) es))) (GetPoolKey name PoolTypeIPPool) = map_option (ippool_wanted nodeName) (last_ippool name es) \<and>
    map_of (rev (concat (map (event_change ev nodeName) es))) (GetPoolKey name PoolTypeCIDRPool) = map_option (cidrpool_wanted ev nodeName) (last_cidrpool name es)"
    using assms(1)
  proof (induction es)
    case (Cons e es)
    then have c: "CHR ''/'' \<notin> set (event_name e)" by simp
    show ?case using Cons GetPoolKey_inj [OF assms(2) c] t
      by (cases e) (auto simp: map_add_def split: option.split)
  qed simp
  then show "map_of (rev (concat (map (event_change ev nodeName) es))) (GetPoolKey name PoolTypeIPPool) = map_option (ippool_wanted nodeName) (last_ippool name es)"
    and "map_of (rev (concat (map (event_change ev nodeName) es))) (GetPoolKey name PoolTypeCIDRPool) = map_option (cidrpool_wanted ev nodeName) (last_cidrpool name es)"
    by blast+
qed

lemma node_config_law:
  assumes "\<forall>e \<in> set es. CHR ''/'' \<notin> set (event_name e)" "CHR ''/'' \<notin> set name"
  shows "\<exists>m. node_run ev nodeName es NewManager = Some m \<and>
    GetPoolByKey (GetPoolKey name PoolTypeIPPool) m = (case last_ippool name es of None \<Rightarrow> None | Some g \<Rightarrow> ippool_wanted nodeName g) \<and>
    GetPoolByKey (GetPoolKey name PoolTypeCIDRPool) m = (case last_cidrpool name es of None \<Rightarrow> None | Some g \<Rightarrow> cidrpool_wanted ev nodeName g)"
  unfolding node_run_conv option.inject
  by (rule exI, rule conjI, rule refl)
    (auto simp: node_config.get_puts changes_lookup [OF assms] split: option.split)

text \<open>C14: The configuration of a node follows the pool objects.  Whatever notifications arrive in whatever order, for pools of both
  kinds, the controllers never panic, and the configuration of every pool is the one wanted by the last successful reading
  of its object: none if the object is gone, is invalid or has no allocation for the node.\<close>

theorem node_config_follows_objects:
  assumes "\<forall>e \<in> set es. CHR ''/'' \<notin> set (event_name e)" "CHR ''/'' \<notin> set name"
  shows "\<exists>m. node_run ev nodeName es NewManager = Some m \<and>
    GetPoolByKey (GetPoolKey name PoolTypeIPPool) m = (case last_ippool name es of None \<Rightarrow> None | Some g \<Rightarrow> ippool_wanted nodeName g) \<and>
    GetPoolByKey (GetPoolKey name PoolTypeCIDRPool) m = (case last_cidrpool name es of None \<Rightarrow> None | Some g \<Rightarrow> cidrpool_wanted ev nodeName g)"
  by (rule node_config_law [OF assms])

theorem node_config_follows_objects_witness:
  "\<exists>m. node_run demo_ev ''b'' [IPPoolEvent (Got demo_pool) (''ns'', ''a''), CIDRPoolEvent GetNotFound (''ns'', ''a''), IPPoolEvent (GetFailed ''timeout'') (''ns'', ''a'')] NewManager = Some m \<and>
     map_option plStartIP (GetPoolByKey ''a'' m) = Some ''10.0.0.9'' \<and> GetPoolByKey ''cidrpool/a'' m = None"
proof -
  let ?es = "[IPPoolEvent (Got demo_pool) (''ns'', ''a''), CIDRPoolEvent GetNotFound (''ns'', ''a''), IPPoolEvent (GetFailed ''timeout'') (''ns'', ''a'')]"
  have h: "\<forall>e \<in> set ?es. CHR ''/'' \<notin> set (event_name e)" "CHR ''/'' \<notin> set ''a''" by simp_all
  have k: "GetPoolKey ''a'' PoolTypeIPPool = ''a''" "GetPoolKey ''a'' PoolTypeCIDRPool = ''cidrpool/a''" by code_simp+
  have l: "last_ippool ''a'' ?es = Some (Got demo_pool)" "last_cidrpool ''a'' ?es = Some GetNotFound" by (simp_all add: read_failed_def)
  have w: "map_option plStartIP (ippool_wanted ''b'' (Got demo_pool)) = Some ''10.0.0.9''" "cidrpool_wanted demo_ev ''b'' GetNotFound = None" by code_simp+
  show ?thesis using node_config_follows_objects [OF h, of demo_ev "''b''"] w unfolding k l option.case by auto
qed

subsection \<open>Exclusions of a prefix\<close>

abbreviation ex_has :: "ExclusionRange \<Rightarrow> net_ip \<Rightarrow> bool" where
  "ex_has e x \<equiv> ip_val (ParseIP (exStartIP e)) \<le> ip_val x \<and> ip_val x \<le> ip_val (ParseIP (exEndIP e))"

text \<open>The exclusions a node gets of its prefix: an address between the first and the last one of the prefix is excluded on the node
  exactly if an exclusion of the pool contains it that starts or ends inside the prefix.  An exclusion that reaches beyond
  the prefix on both sides is left out.\<close>

theorem buildExclusions_exact:
  assumes n: "wf_net n" and rs: "\<forall>r \<in> set ranges. er_ok (length (ipnIP n)) r"
    and fl: "IPNet_Contains n lo" "IPNet_Contains n hi" and x: "IPNet_Contains n x" "ip_val lo \<le> ip_val x" "ip_val x \<le> ip_val hi"
  shows "(\<exists>e \<in> set (buildExclusions ranges n lo hi). ex_has e x) \<longleftrightarrow>
    (\<exists>r \<in> set ranges. ExcludeRange_Contains r x \<and> (IPNet_Contains n (ParseIP (erStartIP r)) \<or> IPNet_Contains n (ParseIP (erEndIP r))))"
  using rs
proof (induction ranges)
  case (Cons r rs)
  let ?st = "ParseIP (erStartIP r)" and ?en = "ParseIP (erEndIP r)"
  note c = IPNet_Contains_iff [OF n] and w = wf_net_ip_len [OF n]
  have r: "er_ok (length (ipnIP n)) r" using Cons.prems by simp
  then have ne: "?st \<noteq> []" "?en \<noteq> []" by (auto simp: er_ok_def)
  have str: "ip_val (ParseIP (IP_String lo)) = ip_val lo" "ip_val (ParseIP (IP_String hi)) = ip_val hi"
    using fl r w by (auto intro!: ParseIP_IP_String_len(2) simp: c er_ok_def)
  have head: "(\<exists>e \<in> set (buildExclusions [r] n lo hi). ex_has e x) \<longleftrightarrow>
      ExcludeRange_Contains r x \<and> (IPNet_Contains n ?st \<or> IPNet_Contains n ?en)"
    using r ne str fl x w unfolding ExcludeRange_Contains_iff [OF r]
    by (auto simp: Let_def c er_ok_def)
  have "set (buildExclusions (r # rs) n lo hi) = set (buildExclusions [r] n lo hi) \<union> set (buildExclusions rs n lo hi)"
    by (simp add: Let_def)
  then show ?case using head Cons by (simp add: bex_Un del: buildExclusions.simps)
qed simp

theorem buildExclusions_exact_witness:
  "\<exists>e \<in> set (buildExclusions [\<lparr>erStartIP = ''10.0.0.3'', erEndIP = ''10.0.0.5''\<rparr>] \<lparr>ipnIP = [10, 0, 0, 4], ipnMask = [255, 255, 255, 252]\<rparr> [10, 0, 0, 5] [10, 0, 0, 6]).
     ex_has e [10, 0, 0, 5]"
proof -
  let ?n = "\<lparr>ipnIP = [10, 0, 0, 4], ipnMask = [255, 255, 255, 252]\<rparr> :: IPNet" and ?r = "\<lparr>erStartIP = ''10.0.0.3'', erEndIP = ''10.0.0.5''\<rparr> :: ExcludeRange"
  have h: "wf_net ?n" "\<forall>r \<in> set [?r]. er_ok (length (ipnIP ?n)) r" "IPNet_Contains ?n [10, 0, 0, 5]" "IPNet_Contains ?n [10, 0, 0, 6]" "IPNet_Contains ?n [10, 0, 0, 5]"
    "ip_val [10, 0, 0, 5] \<le> ip_val [10, 0, 0, 5]" "ip_val [10, 0, 0, 5] \<le> ip_val [10, 0, 0, 6]" by code_simp+
  have r: "\<exists>r \<in> set [?r]. ExcludeRange_Contains r [10, 0, 0, 5] \<and> (IPNet_Contains ?n (ParseIP (erStartIP r)) \<or> IPNet_Contains ?n (ParseIP (erEndIP r)))" by code_simp
  show ?thesis using buildExclusions_exact [OF h] r by blast
qed

end
