(* ===== verification/StoreTypes.thy ===== *)
theory StoreTypes
  imports IpCidr "HOL-Library.AList"
begin

unbundle bit_operations_syntax

text \<open>
  Package \<open>pkg/ipam-node/types\<close> (\<open>types.go\<close>, \<open>checksum.go\<close>): the layout of the node's reservation
  store and its checksum.  A Go map is an association list with distinct keys (the list order is
  one possible iteration order), a nil map is \<^const>\<open>None\<close>; a \<open>time.Time\<close> is a number of nanoseconds
  on one clock, zero being the zero value.  \<open>json.Marshal\<close> is a parameter that returns \<^const>\<open>None\<close> on
  an error; the hash is \<open>hash/fnv\<close>'s 32-bit FNV-1a.
\<close>

type_synonym time = int

record ReservationMetadata =
  rmCreateTime :: string
  rmPodUUID :: string
  rmPodName :: string
  rmPodNamespace :: string
  rmDeviceID :: string
  rmPoolConfigSnapshot :: string

record Reservation =
  rsContainerID :: string
  rsInterfaceName :: string
  rsIPAddress :: net_ip
  rsMetadata :: ReservationMetadata
  rsReleasedAt :: time

record PoolReservations =
  prName :: string
  prEntries :: "(string \<times> Reservation) list option"
  prLastPoolConfig :: string
  prLastReservedIP :: net_ip

record Root =
  rtVersion :: int
  rtChecksum :: "32 word"
  rtPools :: "(string \<times> PoolReservations) list option"

definition ImplementedVersion :: int where
  "ImplementedVersion = 1"

definition NewRoot :: Root where
  "NewRoot = \<lparr>rtVersion = ImplementedVersion, rtChecksum = 0, rtPools = Some []\<rparr>"

definition NewPoolReservations :: "string \<Rightarrow> PoolReservations" where
  "NewPoolReservations name =
     \<lparr>prName = name, prEntries = Some [], prLastPoolConfig = [], prLastReservedIP = []\<rparr>"

definition IsReleased :: "Reservation \<Rightarrow> bool" where
  "IsReleased r \<longleftrightarrow> rsReleasedAt r \<noteq> 0"

subsection \<open>Deep copies\<close>

text \<open>Copying a struct and then the maps and slices it points to, one entry at a time.  (The last
  assignment of \<open>Reservation.DeepCopy\<close> writes the metadata back to its receiver, which does not
  change it.)\<close>

definition ReservationMetadata_DeepCopy :: "ReservationMetadata \<Rightarrow> ReservationMetadata" where
  "ReservationMetadata_DeepCopy m = m"

definition Reservation_DeepCopy :: "Reservation \<Rightarrow> Reservation" where
  "Reservation_DeepCopy r =
     (if rsIPAddress r \<noteq> [] then r\<lparr>rsIPAddress := map (\<lambda>b. b) (rsIPAddress r)\<rparr> else r)"

definition PoolReservations_DeepCopy :: "PoolReservations \<Rightarrow> PoolReservations" where
  "PoolReservations_DeepCopy p =
     p\<lparr>prEntries := map_option (map (\<lambda>(k, v). (k, Reservation_DeepCopy v))) (prEntries p),
       prLastReservedIP := (if prLastReservedIP p \<noteq> [] then map (\<lambda>b. b) (prLastReservedIP p) else prLastReservedIP p)\<rparr>"

definition Root_DeepCopy :: "Root \<Rightarrow> Root" where
  "Root_DeepCopy r =
     r\<lparr>rtPools := map_option (map (\<lambda>(k, v). (k, PoolReservations_DeepCopy v))) (rtPools r)\<rparr>"

lemma Reservation_DeepCopy_id [simp]: "Reservation_DeepCopy r = r"
  by (simp add: Reservation_DeepCopy_def)

lemma PoolReservations_DeepCopy_id [simp]: "PoolReservations_DeepCopy p = p"
  by (simp add: PoolReservations_DeepCopy_def option.map_id)

lemma Root_DeepCopy_id [simp]: "Root_DeepCopy r = r"
  by (simp add: Root_DeepCopy_def option.map_id)

subsection \<open>Checksum\<close>

definition fnv_Write :: "32 word \<Rightarrow> string \<Rightarrow> 32 word" where
  "fnv_Write h data = foldl (\<lambda>h c. (h XOR word_of_nat (of_char c)) * 16777619) h data"

definition fnv32a :: "string \<Rightarrow> 32 word" where
  "fnv32a data = fnv_Write 2166136261 data"

definition strip_entry :: "Reservation \<Rightarrow> Reservation" where
  "strip_entry r = r\<lparr>rsReleasedAt := 0\<rparr>"

definition strip_pool :: "PoolReservations \<Rightarrow> PoolReservations" where
  "strip_pool p = p\<lparr>prEntries := map_option (map (\<lambda>(k, v). (k, strip_entry v))) (prEntries p)\<rparr>"

text \<open>The copy the checksum is computed on: no checksum, every \<open>ReleasedAt\<close> zeroed.\<close>

definition checksum_input :: "Root \<Rightarrow> Root" where
  "checksum_input r =
     (let stripped = Root_DeepCopy r
      in stripped\<lparr>rtChecksum := 0, rtPools := map_option (map (\<lambda>(k, v). (k, strip_pool v))) (rtPools stripped)\<rparr>)"

text \<open>\<open>getChecksum\<close>; \<^const>\<open>None\<close> is its panic when the data cannot be marshalled.\<close>

definition getChecksum :: "(Root \<Rightarrow> string option) \<Rightarrow> Root \<Rightarrow> 32 word option" where
  "getChecksum marshal r = map_option fnv32a (marshal (checksum_input r))"

definition NewChecksum :: "(Root \<Rightarrow> string option) \<Rightarrow> Root \<Rightarrow> 32 word option" where
  "NewChecksum marshal r = getChecksum marshal r"

definition Checksum_Verify :: "(Root \<Rightarrow> string option) \<Rightarrow> 32 word \<Rightarrow> Root \<Rightarrow> bool option" where
  "Checksum_Verify marshal cs r = map_option (\<lambda>c. cs = c) (NewChecksum marshal r)"

text \<open>What the layout of an older release keeps of a root: it has no \<open>ReleasedAt\<close>.\<close>

definition drop_released :: "Root \<Rightarrow> Root" where
  "drop_released r = r\<lparr>rtPools := map_option (map (\<lambda>(k, v). (k, strip_pool v))) (rtPools r)\<rparr>"

lemma strip_pool_idem [simp]: "strip_pool (strip_pool p) = strip_pool p"
  by (simp add: strip_pool_def strip_entry_def option.map_comp comp_def case_prod_unfold)

lemma checksum_input_drop_released: "checksum_input (drop_released r) = checksum_input r"
  by (simp add: checksum_input_def drop_released_def option.map_comp comp_def case_prod_unfold)

lemma checksum_input_Checksum: "checksum_input (r\<lparr>rtChecksum := c\<rparr>) = checksum_input r"
  by (simp add: checksum_input_def)

text \<open>The checksum depends neither on the stored checksum nor on the release time of any
  reservation.\<close>

lemma checksum_rollback:
  "NewChecksum marshal (drop_released (r\<lparr>rtChecksum := c\<rparr>)) = NewChecksum marshal r \<and>
   Checksum_Verify marshal cs (drop_released (r\<lparr>rtChecksum := cs\<rparr>)) = map_option ((=) cs) (NewChecksum marshal r)"
  by (simp add: NewChecksum_def getChecksum_def Checksum_Verify_def checksum_input_drop_released checksum_input_Checksum)

end
