(* ===== verification/Store.thy ===== *)
theory Store
  imports StoreTypes
begin

text \<open>
  Package \<open>pkg/ipam-node/store\<close> (\<open>store.go\<close>): the persistent reservation store of a node and its
  exclusive sessions.  The store is the file, the cached data and the lock; a session is the private
  copy of the data with its two flags.  A session operation returns \<^const>\<open>None\<close> where the code
  panics (a closed session, a write to a nil map) and otherwise its result and the new session.
  \<open>encoding/json\<close> is a pair of parameters, the outcome of an I/O call and the clock are arguments.
\<close>

subsection \<open>Sessions\<close>

datatype session_error = ErrReservationAlreadyExist | ErrIPAlreadyReserved

record session =
  ssTmpData :: Root
  ssIsModified :: bool
  ssIsClosed :: bool

definition newStore :: "Root \<Rightarrow> session" where
  "newStore persistentData = \<lparr>ssTmpData = Root_DeepCopy persistentData, ssIsModified = False, ssIsClosed = False\<rparr>"

definition getKey :: "string \<Rightarrow> string \<Rightarrow> string" where
  "getKey cid ifName = cid @ ''_'' @ ifName"

definition root_pool :: "Root \<Rightarrow> string \<Rightarrow> PoolReservations option" where
  "root_pool layout poolKey = (case rtPools layout of None \<Rightarrow> None | Some ps \<Rightarrow> map_of ps poolKey)"

definition getPoolData :: "string \<Rightarrow> Root \<Rightarrow> PoolReservations" where
  "getPoolData poolKey layout =
     (case root_pool layout poolKey of
        Some res \<Rightarrow> (if prEntries res = None then res\<lparr>prEntries := Some []\<rparr> else res)
      | None \<Rightarrow> NewPoolReservations poolKey)"

definition updatePoolData :: "string \<Rightarrow> PoolReservations \<Rightarrow> session \<Rightarrow> session option" where
  "updatePoolData poolKey poolData s =
     (case rtPools (ssTmpData s) of
        None \<Rightarrow> None
      | Some ps \<Rightarrow> Some (s\<lparr>ssTmpData := (ssTmpData s)\<lparr>rtPools := Some (AList.update poolKey poolData ps)\<rparr>,
                         ssIsModified := True\<rparr>))"

abbreviation pool_entries :: "PoolReservations \<Rightarrow> (string \<times> Reservation) list" where
  "pool_entries p \<equiv> (case prEntries p of None \<Rightarrow> [] | Some es \<Rightarrow> es)"

definition Reserve ::
    "string \<Rightarrow> string \<Rightarrow> string \<Rightarrow> string \<Rightarrow> ReservationMetadata \<Rightarrow> net_ip \<Rightarrow> session \<Rightarrow> (session_error option \<times> session) option"
where
  "Reserve nowText poolKey cid ifName meta address s =
     (if ssIsClosed s then None
      else
        let reservationKey = getKey cid ifName;
            poolData = getPoolData poolKey (ssTmpData s);
            entries = pool_entries poolData
        in if map_of entries reservationKey \<noteq> None then Some (Some ErrReservationAlreadyExist, s)
           else if \<exists>(k, r) \<in> set entries. IP_Equal address (rsIPAddress r) then Some (Some ErrIPAlreadyReserved, s)
           else
             let reservation = \<lparr>rsContainerID = cid, rsInterfaceName = ifName, rsIPAddress = address,
                                rsMetadata = meta\<lparr>rmCreateTime := nowText\<rparr>, rsReleasedAt = 0\<rparr>;
                 poolData' = poolData\<lparr>prLastReservedIP := address,
                                      prLastPoolConfig := rmPoolConfigSnapshot meta,
                                      prEntries := Some (AList.update reservationKey reservation entries)\<rparr>
             in map_option (\<lambda>s'. (None, s')) (updatePoolData poolKey poolData' s))"

definition ListReservations :: "string \<Rightarrow> session \<Rightarrow> Reservation list option" where
  "ListReservations poolKey s =
     (if ssIsClosed s then None
      else Some (map snd (pool_entries (getPoolData poolKey (ssTmpData s)))))"

definition ListPools :: "session \<Rightarrow> string list option" where
  "ListPools s =
     (if ssIsClosed s then None
      else Some (case rtPools (ssTmpData s) of None \<Rightarrow> [] | Some ps \<Rightarrow> map fst ps))"

definition RemovePool :: "string \<Rightarrow> session \<Rightarrow> session option" where
  "RemovePool poolKey s =
     (if ssIsClosed s then None
      else Some (s\<lparr>ssTmpData := (ssTmpData s)\<lparr>rtPools := map_option (AList.delete poolKey) (rtPools (ssTmpData s))\<rparr>,
                   ssIsModified := True\<rparr>))"

definition GetLastReservedIP :: "string \<Rightarrow> session \<Rightarrow> net_ip option" where
  "GetLastReservedIP poolKey s =
     (if ssIsClosed s then None else Some (prLastReservedIP (getPoolData poolKey (ssTmpData s))))"

definition SetLastReservedIP :: "string \<Rightarrow> net_ip \<Rightarrow> session \<Rightarrow> session option" where
  "SetLastReservedIP poolKey ip s =
     (if ssIsClosed s then None
      else updatePoolData poolKey ((getPoolData poolKey (ssTmpData s))\<lparr>prLastReservedIP := ip\<rparr>) s)"

text \<open>\<open>time.Since\<close>: the difference of two times, saturated at the bounds of \<open>time.Duration\<close>.\<close>

definition time_Since :: "time \<Rightarrow> time \<Rightarrow> int" where
  "time_Since now t = max (- (2 ^ 63)) (min (2 ^ 63 - 1) (now - t))"

definition ReleaseReservationByID ::
    "time \<Rightarrow> string \<Rightarrow> string \<Rightarrow> string \<Rightarrow> int \<Rightarrow> session \<Rightarrow> (bool \<times> session) option" where
  "ReleaseReservationByID now poolKey cid ifName cooldown s =
     (if ssIsClosed s then None
      else
        let key = getKey cid ifName;
            poolData = getPoolData poolKey (ssTmpData s);
            entries = pool_entries poolData
        in case map_of entries key of
             None \<Rightarrow> Some (False, s)
           | Some reservation \<Rightarrow>
               let expired = (IsReleased reservation \<and> cooldown \<le> time_Since now (rsReleasedAt reservation))
               in if 0 < cooldown \<and> IsReleased reservation \<and> \<not> expired then Some (False, s)
                  else
                    let remove = (cooldown \<le> 0 \<or> expired);
                        entries' = (if remove then AList.delete key entries
                                    else AList.update key (reservation\<lparr>rsReleasedAt := now\<rparr>) entries)
                    in map_option (\<lambda>s'. (remove, s')) (updatePoolData poolKey (poolData\<lparr>prEntries := Some entries'\<rparr>) s))"

definition GetReservationByID :: "string \<Rightarrow> string \<Rightarrow> string \<Rightarrow> session \<Rightarrow> Reservation option option" where
  "GetReservationByID poolKey cid ifName s =
     (if ssIsClosed s then None
      else Some (case map_of (pool_entries (getPoolData poolKey (ssTmpData s))) (getKey cid ifName) of
                   None \<Rightarrow> None
                 | Some reservation \<Rightarrow> if IsReleased reservation then None else Some reservation))"

subsection \<open>The store\<close>

datatype file_content = FileData string | FileNotExist | FileReadError

datatype store_error = ReadError | UnmarshalError | ChecksumNotSet | ChecksumMismatch | MarshalError | WriteError

record store =
  stFile :: file_content
  stPersistedData :: "Root option"
  stLocked :: bool

text \<open>Loading: \<^const>\<open>None\<close> is the panic of the checksum computation.\<close>

definition loadFromDisk ::
    "(Root \<Rightarrow> string option) \<Rightarrow> (string \<Rightarrow> Root option) \<Rightarrow> file_content \<Rightarrow> (store_error + Root) option" where
  "loadFromDisk marshal unmarshal f =
     (let fixup = (\<lambda>dst. if rtPools dst = None then dst\<lparr>rtPools := Some []\<rparr> else dst)
      in case f of
           FileReadError \<Rightarrow> Some (Inl ReadError)
         | FileNotExist \<Rightarrow> Some (Inr (fixup NewRoot))
         | FileData data \<Rightarrow>
             if data = [] then Some (Inr (fixup NewRoot))
             else (case unmarshal data of
                     None \<Rightarrow> Some (Inl UnmarshalError)
                   | Some dst \<Rightarrow>
                       if rtChecksum dst = 0 then Some (Inl ChecksumNotSet)
                       else (case Checksum_Verify marshal (rtChecksum dst) dst of
                               None \<Rightarrow> None
                             | Some ok \<Rightarrow> if \<not> ok then Some (Inl ChecksumMismatch) else Some (Inr (fixup dst)))))"

text \<open>Opening an unlocked store (an attempt on a locked one waits, which is a disabled step of the
  transition relation below).\<close>

definition Open ::
    "(Root \<Rightarrow> string option) \<Rightarrow> (string \<Rightarrow> Root option) \<Rightarrow> store \<Rightarrow> ((store_error + session) \<times> store) option" where
  "Open marshal unmarshal m =
     (case stPersistedData m of
        None \<Rightarrow>
          (case loadFromDisk marshal unmarshal (stFile m) of
             None \<Rightarrow> None
           | Some (Inl err) \<Rightarrow> Some (Inl err, m\<lparr>stLocked := False\<rparr>)
           | Some (Inr diskData) \<Rightarrow>
               Some (Inr (newStore diskData), m\<lparr>stLocked := True, stPersistedData := Some diskData\<rparr>))
      | Some d \<Rightarrow> Some (Inr (newStore d), m\<lparr>stLocked := True\<rparr>))"

text \<open>\<open>writeToDisk\<close>: the checksum is stored in the data first; \<open>renameio.WriteFile\<close> replaces the file
  atomically or fails and leaves it.\<close>

definition writeToDisk ::
    "(Root \<Rightarrow> string option) \<Rightarrow> bool \<Rightarrow> Root \<Rightarrow> file_content \<Rightarrow> (store_error option \<times> Root \<times> file_content) option" where
  "writeToDisk marshal writeOk src f =
     (case NewChecksum marshal src of
        None \<Rightarrow> None
      | Some cs \<Rightarrow>
          let src' = src\<lparr>rtChecksum := cs\<rparr>
          in case marshal src' of
               None \<Rightarrow> Some (Some MarshalError, src', f)
             | Some data \<Rightarrow> if \<not> writeOk then Some (Some WriteError, src', f) else Some (None, src', FileData data))"

definition Commit ::
    "(Root \<Rightarrow> string option) \<Rightarrow> bool \<Rightarrow> session \<Rightarrow> store \<Rightarrow> (store_error option \<times> session \<times> store) option" where
  "Commit marshal writeOk s m =
     (if ssIsClosed s then None
      else if \<not> ssIsModified s then Some (None, s\<lparr>ssIsClosed := True\<rparr>, m\<lparr>stLocked := False\<rparr>)
      else case writeToDisk marshal writeOk (ssTmpData s) (stFile m) of
             None \<Rightarrow> None
           | Some (err, data, f) \<Rightarrow>
               Some (err, s\<lparr>ssTmpData := data, ssIsClosed := True\<rparr>,
                     m\<lparr>stFile := f, stLocked := False,
                       stPersistedData := (if err = None then Some data else stPersistedData m)\<rparr>))"

definition Cancel :: "session \<Rightarrow> store \<Rightarrow> (session \<times> store) option" where
  "Cancel s m =
     (if ssIsClosed s then None else Some (s\<lparr>ssIsClosed := True\<rparr>, m\<lparr>stLocked := False\<rparr>))"

subsection \<open>The session seen as a table of reservations\<close>

definition ssn_entries :: "session \<Rightarrow> string \<Rightarrow> (string \<times> Reservation) list" where
  "ssn_entries s poolKey = pool_entries (getPoolData poolKey (ssTmpData s))"

definition ssn_blocked :: "session \<Rightarrow> string \<Rightarrow> net_ip \<Rightarrow> bool" where
  "ssn_blocked s poolKey ip \<longleftrightarrow> (\<exists>(k, r) \<in> set (ssn_entries s poolKey). IP_Equal ip (rsIPAddress r))"

text \<open>The invariant of the stored data: keys are unique and belong to their reservation, and no
  address is held twice in a pool.\<close>

definition entries_ok :: "(string \<times> Reservation) list \<Rightarrow> bool" where
  "entries_ok es \<longleftrightarrow> distinct (map fst es) \<and>
     (\<forall>(k, r) \<in> set es. k = getKey (rsContainerID r) (rsInterfaceName r)) \<and>
     (\<forall>(k, r) \<in> set es. \<forall>(k', r') \<in> set es. IP_Equal (rsIPAddress r) (rsIPAddress r') \<longrightarrow> k = k')"

definition root_ok :: "Root \<Rightarrow> bool" where
  "root_ok d \<longleftrightarrow> (case rtPools d of None \<Rightarrow> False | Some ps \<Rightarrow>
     distinct (map fst ps) \<and> (\<forall>(k, p) \<in> set ps. entries_ok (pool_entries p)))"

definition session_ok :: "session \<Rightarrow> bool" where
  "session_ok s \<longleftrightarrow> \<not> ssIsClosed s \<and> root_ok (ssTmpData s)"

lemma IP_Equal_sym: "IP_Equal a b \<longleftrightarrow> IP_Equal b a"
  by (auto simp: IP_Equal_def)

lemma IP_Equal_refl [simp]: "IP_Equal a a"
  by (simp add: IP_Equal_def)

lemma entries_ok_Nil [simp]: "entries_ok []"
  by (simp add: entries_ok_def)

lemma entries_ok_map:
  "entries_ok es \<longleftrightarrow> distinct (map fst es) \<and>
     (\<forall>k r. map_of es k = Some r \<longrightarrow> k = getKey (rsContainerID r) (rsInterfaceName r)) \<and>
     (\<forall>k r k' r'. map_of es k = Some r \<longrightarrow> map_of es k' = Some r' \<longrightarrow>
        IP_Equal (rsIPAddress r) (rsIPAddress r') \<longrightarrow> k = k')"
  unfolding entries_ok_def by (intro conj_cong refl) (simp only: map_of_eq_Some_iff split_paired_Ball_Sigma Ball_def split_paired_All prod.case; blast)+

lemma entries_ok_update_fresh:
  assumes "entries_ok es" "k = getKey (rsContainerID r) (rsInterfaceName r)"
    and "\<not> (\<exists>(k, x) \<in> set es. IP_Equal (rsIPAddress r) (rsIPAddress x))"
  shows "entries_ok (AList.update k r es)"
proof -
  have "\<not> IP_Equal (rsIPAddress r) (rsIPAddress x)" "\<not> IP_Equal (rsIPAddress x) (rsIPAddress r)"
    if "map_of es k' = Some x" for k' x
    using assms(3) map_of_SomeD [OF that] IP_Equal_sym by auto
  with assms(1,2) show ?thesis
    unfolding entries_ok_map by (auto simp: AList.update_conv' distinct_update split: if_splits)
qed

lemma entries_ok_update_same:
  assumes "entries_ok es" "map_of es k = Some r"
    "rsContainerID r' = rsContainerID r" "rsInterfaceName r' = rsInterfaceName r" "rsIPAddress r' = rsIPAddress r"
  shows "entries_ok (AList.update k r' es)"
  using assms unfolding entries_ok_map by (auto simp: AList.update_conv' distinct_update split: if_splits)

lemma entries_ok_delete: "entries_ok es \<Longrightarrow> entries_ok (AList.delete k es)"
  unfolding entries_ok_map by (auto simp: AList.delete_conv' distinct_delete split: if_splits)

lemma getPoolData_entries: "prEntries (getPoolData k d) \<noteq> None"
  by (auto simp: getPoolData_def NewPoolReservations_def split: option.splits)

lemma root_ok_entries: "root_ok d \<Longrightarrow> entries_ok (pool_entries (getPoolData k d))"
  by (auto simp: root_ok_def getPoolData_def root_pool_def NewPoolReservations_def
      split: option.splits dest!: map_of_SomeD)

lemma root_ok_update:
  assumes "root_ok d" "rtPools d = Some ps" "entries_ok (pool_entries p)"
  shows "root_ok (d\<lparr>rtPools := Some (AList.update k p ps)\<rparr>)"
proof -
  have "entries_ok (pool_entries q)" if "(k', q) \<in> set (AList.update k p ps)" for k' q
  proof -
    have d: "distinct (map fst ps)" using assms(1,2) by (simp add: root_ok_def)
    from that have "map_of (AList.update k p ps) k' = Some q" using distinct_update [OF d] by simp
    then have "q = p \<or> map_of ps k' = Some q" by (auto simp: AList.update_conv' split: if_splits)
    with assms show ?thesis by (auto simp: root_ok_def dest!: map_of_SomeD)
  qed
  with assms show ?thesis by (auto simp: root_ok_def distinct_update)
qed

lemma root_ok_delete:
  assumes "root_ok d"
  shows "root_ok (d\<lparr>rtPools := map_option (AList.delete k) (rtPools d)\<rparr>)"
  using assms by (auto simp: root_ok_def AList.delete_eq intro: distinct_map_filter split: option.splits)

lemma NewRoot_ok: "root_ok NewRoot"
  by (simp add: root_ok_def NewRoot_def)

text \<open>One lemma for the only way a pool changes.\<close>

lemma updatePoolData_conv:
  assumes "session_ok s"
  obtains s' where "updatePoolData k p s = Some s'" "ssIsModified s'" "ssIsClosed s' = ssIsClosed s"
    "getPoolData k (ssTmpData s') = (if prEntries p = None then p\<lparr>prEntries := Some []\<rparr> else p)"
    "\<And>k'. k' \<noteq> k \<Longrightarrow> getPoolData k' (ssTmpData s') = getPoolData k' (ssTmpData s)"
    "entries_ok (pool_entries p) \<Longrightarrow> session_ok s'"
proof -
  obtain ps where ps: "rtPools (ssTmpData s) = Some ps"
    using assms by (auto simp: session_ok_def root_ok_def split: option.splits)
  let ?s = "s\<lparr>ssTmpData := (ssTmpData s)\<lparr>rtPools := Some (AList.update k p ps)\<rparr>, ssIsModified := True\<rparr>"
  show ?thesis
  proof (rule that [of ?s])
    show "updatePoolData k p s = Some ?s" by (simp add: updatePoolData_def ps)
    show "entries_ok (pool_entries p) \<Longrightarrow> session_ok ?s"
      using assms root_ok_update [OF _ ps] by (simp add: session_ok_def)
  qed (simp_all add: getPoolData_def root_pool_def ps AList.update_conv')
qed

lemma session_ok_entries: "session_ok s \<Longrightarrow> entries_ok (ssn_entries s k)"
  by (simp add: session_ok_def ssn_entries_def root_ok_entries)

subsection \<open>The operations on the table\<close>

definition new_reservation ::
    "string \<Rightarrow> string \<Rightarrow> string \<Rightarrow> ReservationMetadata \<Rightarrow> net_ip \<Rightarrow> Reservation" where
  "new_reservation nowText cid ifName meta address =
     \<lparr>rsContainerID = cid, rsInterfaceName = ifName, rsIPAddress = address,
      rsMetadata = meta\<lparr>rmCreateTime := nowText\<rparr>, rsReleasedAt = 0\<rparr>"

lemma Reserve_fail:
  assumes "session_ok s"
  shows "map_of (ssn_entries s pk) (getKey cid ifn) \<noteq> None \<Longrightarrow>
      Reserve t pk cid ifn meta ip s = Some (Some ErrReservationAlreadyExist, s)"
    and "map_of (ssn_entries s pk) (getKey cid ifn) = None \<Longrightarrow> ssn_blocked s pk ip \<Longrightarrow>
      Reserve t pk cid ifn meta ip s = Some (Some ErrIPAlreadyReserved, s)"
  using assms by (auto simp: Reserve_def Let_def session_ok_def ssn_entries_def ssn_blocked_def)

lemma Reserve_ok:
  assumes "session_ok s" "map_of (ssn_entries s pk) (getKey cid ifn) = None" "\<not> ssn_blocked s pk ip"
  obtains s' where "Reserve t pk cid ifn meta ip s = Some (None, s')" "session_ok s'" "ssIsModified s'"
    "ssn_entries s' pk = AList.update (getKey cid ifn) (new_reservation t cid ifn meta ip) (ssn_entries s pk)"
    "\<And>pk'. pk' \<noteq> pk \<Longrightarrow> getPoolData pk' (ssTmpData s') = getPoolData pk' (ssTmpData s)"
    "GetLastReservedIP pk s' = Some ip"
proof -
  let ?k = "getKey cid ifn" and ?r = "new_reservation t cid ifn meta ip"
  let ?p = "(getPoolData pk (ssTmpData s))\<lparr>prLastReservedIP := ip, prLastPoolConfig := rmPoolConfigSnapshot meta,
     prEntries := Some (AList.update ?k ?r (ssn_entries s pk))\<rparr>"
  obtain s' where s': "updatePoolData pk ?p s = Some s'" "ssIsModified s'" "ssIsClosed s' = ssIsClosed s"
    "getPoolData pk (ssTmpData s') = (if prEntries ?p = None then ?p\<lparr>prEntries := Some []\<rparr> else ?p)"
    "\<And>k'. k' \<noteq> pk \<Longrightarrow> getPoolData k' (ssTmpData s') = getPoolData k' (ssTmpData s)"
    "entries_ok (pool_entries ?p) \<Longrightarrow> session_ok s'"
    by (rule updatePoolData_conv [OF assms(1), of pk ?p]) (rule that)
  have "Reserve t pk cid ifn meta ip s = Some (None, s')"
    using assms s'(1) unfolding new_reservation_def
    by (auto simp: Reserve_def Let_def session_ok_def ssn_entries_def ssn_blocked_def)
  moreover have "entries_ok (AList.update ?k ?r (ssn_entries s pk))"
    using entries_ok_update_fresh [OF session_ok_entries [OF assms(1)], of ?k ?r] assms(3)
    by (simp add: new_reservation_def ssn_blocked_def)
  then have "session_ok s'" using s'(6) by simp
  ultimately show ?thesis
    using that [of s'] s'(2-5) by (simp add: ssn_entries_def GetLastReservedIP_def session_ok_def)
qed

lemma SetLastReservedIP_ok:
  assumes "session_ok s"
  obtains s' where "SetLastReservedIP pk ip s = Some s'" "session_ok s'"
    "\<And>k. ssn_entries s' k = ssn_entries s k" "GetLastReservedIP pk s' = Some ip"
proof -
  let ?p = "(getPoolData pk (ssTmpData s))\<lparr>prLastReservedIP := ip\<rparr>"
  obtain s' where s': "updatePoolData pk ?p s = Some s'" "ssIsClosed s' = ssIsClosed s"
    "getPoolData pk (ssTmpData s') = (if prEntries ?p = None then ?p\<lparr>prEntries := Some []\<rparr> else ?p)"
    "\<And>k'. k' \<noteq> pk \<Longrightarrow> getPoolData k' (ssTmpData s') = getPoolData k' (ssTmpData s)"
    "entries_ok (pool_entries ?p) \<Longrightarrow> session_ok s'"
    by (rule updatePoolData_conv [OF assms, of pk ?p]) (rule that)
  have "session_ok s'" using s'(5) session_ok_entries [OF assms, of pk] by (simp add: ssn_entries_def)
  moreover have "ssn_entries s' k = ssn_entries s k" for k
    using s'(3,4) getPoolData_entries [of pk "ssTmpData s"] by (cases "k = pk") (auto simp: ssn_entries_def)
  ultimately show ?thesis
    using that [of s'] s'(1-3) assms by (simp add: SetLastReservedIP_def session_ok_def GetLastReservedIP_def)
qed

lemma RemovePool_ok:
  assumes "session_ok s"
  obtains s' where "RemovePool pk s = Some s'" "session_ok s'" "ssn_entries s' pk = []"
    "\<And>k. k \<noteq> pk \<Longrightarrow> getPoolData k (ssTmpData s') = getPoolData k (ssTmpData s)"
proof -
  obtain ps where ps: "rtPools (ssTmpData s) = Some ps"
    using assms by (auto simp: session_ok_def root_ok_def split: option.splits)
  let ?s = "s\<lparr>ssTmpData := (ssTmpData s)\<lparr>rtPools := Some (AList.delete pk ps)\<rparr>, ssIsModified := True\<rparr>"
  have "session_ok ?s" using assms root_ok_delete [of "ssTmpData s" pk] by (simp add: session_ok_def ps)
  moreover have "ssn_entries ?s pk = []"
    by (simp add: ssn_entries_def getPoolData_def root_pool_def AList.delete_conv' NewPoolReservations_def)
  ultimately show ?thesis
    using that [of ?s] assms
    by (simp add: RemovePool_def session_ok_def ps getPoolData_def root_pool_def AList.delete_conv')
qed

text \<open>What \<open>ReleaseReservationByID\<close> decides, as a function of the reservation found.\<close>

datatype release_outcome = Keep | Mark | Drop

definition release_outcome_of :: "time \<Rightarrow> int \<Rightarrow> Reservation \<Rightarrow> release_outcome" where
  "release_outcome_of now cooldown r =
     (if cooldown \<le> 0 then Drop
      else if \<not> IsReleased r then Mark
      else if cooldown \<le> time_Since now (rsReleasedAt r) then Drop else Keep)"

lemma Release_absent:
  "session_ok s \<Longrightarrow> map_of (ssn_entries s pk) (getKey cid ifn) = None \<Longrightarrow>
   ReleaseReservationByID now pk cid ifn cooldown s = Some (False, s)"
  by (simp add: ReleaseReservationByID_def Let_def session_ok_def ssn_entries_def)

lemma Release_keep:
  "session_ok s \<Longrightarrow> map_of (ssn_entries s pk) (getKey cid ifn) = Some r \<Longrightarrow>
   release_outcome_of now cooldown r = Keep \<Longrightarrow>
   ReleaseReservationByID now pk cid ifn cooldown s = Some (False, s)"
  by (auto simp: ReleaseReservationByID_def Let_def session_ok_def ssn_entries_def release_outcome_of_def split: if_splits)

lemma Release_change:
  assumes "session_ok s" "map_of (ssn_entries s pk) (getKey cid ifn) = Some r" "release_outcome_of now cooldown r \<noteq> Keep"
  obtains s' where "ReleaseReservationByID now pk cid ifn cooldown s = Some (release_outcome_of now cooldown r = Drop, s')"
    "session_ok s'"
    "ssn_entries s' pk = (if release_outcome_of now cooldown r = Drop then AList.delete (getKey cid ifn) (ssn_entries s pk)
       else AList.update (getKey cid ifn) (r\<lparr>rsReleasedAt := now\<rparr>) (ssn_entries s pk))"
    "\<And>pk'. pk' \<noteq> pk \<Longrightarrow> getPoolData pk' (ssTmpData s') = getPoolData pk' (ssTmpData s)"
proof -
  let ?k = "getKey cid ifn" and ?d = "release_outcome_of now cooldown r = Drop"
  let ?es = "if ?d then AList.delete ?k (ssn_entries s pk) else AList.update ?k (r\<lparr>rsReleasedAt := now\<rparr>) (ssn_entries s pk)"
  let ?p = "(getPoolData pk (ssTmpData s))\<lparr>prEntries := Some ?es\<rparr>"
  obtain s' where s': "updatePoolData pk ?p s = Some s'" "ssIsClosed s' = ssIsClosed s"
    "getPoolData pk (ssTmpData s') = (if prEntries ?p = None then ?p\<lparr>prEntries := Some []\<rparr> else ?p)"
    "\<And>k'. k' \<noteq> pk \<Longrightarrow> getPoolData k' (ssTmpData s') = getPoolData k' (ssTmpData s)"
    "entries_ok (pool_entries ?p) \<Longrightarrow> session_ok s'"
    by (rule updatePoolData_conv [OF assms(1), of pk ?p]) (rule that)
  have "ReleaseReservationByID now pk cid ifn cooldown s = Some (?d, s')"
    using assms s'(1)
    by (auto simp: ReleaseReservationByID_def Let_def session_ok_def ssn_entries_def release_outcome_of_def split: if_splits)
  moreover have "entries_ok ?es"
    using entries_ok_delete [OF session_ok_entries [OF assms(1)]]
      entries_ok_update_same [OF session_ok_entries [OF assms(1)] assms(2)] by simp
  then have "session_ok s'" using s'(5) by simp
  ultimately show ?thesis using that [of s'] s'(3,4) by (simp add: ssn_entries_def)
qed

lemma blocked_update_fresh:
  assumes "map_of es k = None"
  shows "(\<exists>(k', r') \<in> set (AList.update k r es). P r') \<longleftrightarrow> P r \<or> (\<exists>(k', r') \<in> set es. P r')"
  using assms by (induction es) auto

lemma GetReservationByID_conv:
  "session_ok s \<Longrightarrow> GetReservationByID pk cid ifn s =
     Some (case map_of (ssn_entries s pk) (getKey cid ifn) of None \<Rightarrow> None | Some r \<Rightarrow> if IsReleased r then None else Some r)"
  by (simp add: GetReservationByID_def session_ok_def ssn_entries_def)

text \<open>\<open>Reserve\<close> on every branch: it refuses a key that is present (active or in its cooldown) and an
  address held under another key, both without touching the session; otherwise the new reservation
  is found under its id and interface, it becomes the last reserved address of the pool, the invariant
  of the store holds and every other id and interface is looked up as before.\<close>

theorem Reserve_spec:
  assumes "session_ok s"
  shows "\<exists>r s'. Reserve t pk cid ifn meta ip s = Some (r, s') \<and> session_ok s' \<and>
    (r = Some ErrReservationAlreadyExist \<longleftrightarrow> map_of (ssn_entries s pk) (getKey cid ifn) \<noteq> None) \<and>
    (r = Some ErrIPAlreadyReserved \<longleftrightarrow> map_of (ssn_entries s pk) (getKey cid ifn) = None \<and> ssn_blocked s pk ip) \<and>
    (r \<noteq> None \<longrightarrow> s' = s) \<and>
    (r = None \<longrightarrow> GetReservationByID pk cid ifn s' = Some (Some (new_reservation t cid ifn meta ip)) \<and>
       GetLastReservedIP pk s' = Some ip \<and>
       (\<forall>pk' cid' ifn'. (pk', getKey cid' ifn') \<noteq> (pk, getKey cid ifn) \<longrightarrow>
          GetReservationByID pk' cid' ifn' s' = GetReservationByID pk' cid' ifn' s))"
proof (cases "map_of (ssn_entries s pk) (getKey cid ifn) = None \<and> \<not> ssn_blocked s pk ip")
  case False
  then show ?thesis
    using Reserve_fail [OF assms, where pk = pk and cid = cid and ifn = ifn and t = t and meta = meta and ip = ip] assms
    by (cases "map_of (ssn_entries s pk) (getKey cid ifn) = None") auto
next
  case True
  then obtain s' where s': "Reserve t pk cid ifn meta ip s = Some (None, s')" "session_ok s'"
    "ssn_entries s' pk = AList.update (getKey cid ifn) (new_reservation t cid ifn meta ip) (ssn_entries s pk)"
    "\<And>pk'. pk' \<noteq> pk \<Longrightarrow> getPoolData pk' (ssTmpData s') = getPoolData pk' (ssTmpData s)"
    "GetLastReservedIP pk s' = Some ip"
    using Reserve_ok [OF assms] by metis
  have "GetReservationByID pk cid ifn s' = Some (Some (new_reservation t cid ifn meta ip))"
    by (simp add: GetReservationByID_conv [OF s'(2)] s'(3) AList.update_conv' IsReleased_def new_reservation_def)
  moreover have "GetReservationByID pk' cid' ifn' s' = GetReservationByID pk' cid' ifn' s"
    if "(pk', getKey cid' ifn') \<noteq> (pk, getKey cid ifn)" for pk' cid' ifn'
    using that s'(3,4) assms s'(2)
    by (cases "pk' = pk") (auto simp: GetReservationByID_conv AList.update_conv' ssn_entries_def)
  ultimately show ?thesis using s' True by auto
qed

definition ex_meta :: ReservationMetadata where
  "ex_meta = \<lparr>rmCreateTime = [], rmPodUUID = ''u'', rmPodName = ''p'', rmPodNamespace = ''ns'', rmDeviceID = [],
     rmPoolConfigSnapshot = ''cfg''\<rparr>"

theorem Reserve_spec_witness:
  "\<exists>s'. Reserve ''t'' ''pool'' ''c1'' ''net0'' ex_meta [10, 0, 0, 5] (newStore NewRoot) = Some (None, s') \<and>
     GetLastReservedIP ''pool'' s' = Some [10, 0, 0, 5]"
proof -
  have h: "session_ok (newStore NewRoot)" by code_simp
  have e: "map_of (ssn_entries (newStore NewRoot) ''pool'') (getKey ''c1'' ''net0'') = None"
    "\<not> ssn_blocked (newStore NewRoot) ''pool'' [10, 0, 0, 5]" by code_simp+
  obtain r s' where r: "Reserve ''t'' ''pool'' ''c1'' ''net0'' ex_meta [10, 0, 0, 5] (newStore NewRoot) = Some (r, s')"
    "r \<noteq> Some ErrReservationAlreadyExist" "r \<noteq> Some ErrIPAlreadyReserved"
    "r = None \<longrightarrow> GetLastReservedIP ''pool'' s' = Some [10, 0, 0, 5]"
    using Reserve_spec [OF h, of "''t''" "''pool''" "''c1''" "''net0''" ex_meta "[10, 0, 0, 5]"] e by blast
  have "r = None" using r(2,3) by (cases r; cases "the r") auto
  with r show ?thesis by blast
qed

subsection \<open>The session interface\<close>

text \<open>What an allocator relies on: \<open>reserve\<close> is total on good sessions, grants an address only when it is
  not blocked in the pool and then blocks it, and changes nothing when it fails.\<close>

locale reservation_session =
  fixes inv :: "'s \<Rightarrow> bool"
    and blocked :: "'s \<Rightarrow> string \<Rightarrow> net_ip \<Rightarrow> bool"
    and reserve :: "string \<Rightarrow> string \<Rightarrow> string \<Rightarrow> string \<Rightarrow> ReservationMetadata \<Rightarrow> net_ip \<Rightarrow> 's \<Rightarrow> (session_error option \<times> 's) option"
  assumes reserve_total: "inv s \<Longrightarrow> \<exists>r s'. reserve t pk cid ifn meta ip s = Some (r, s') \<and> inv s'"
    and reserve_grants: "inv s \<Longrightarrow> reserve t pk cid ifn meta ip s = Some (None, s') \<Longrightarrow>
      \<not> blocked s pk ip \<and> (\<forall>pk' x. blocked s' pk' x \<longleftrightarrow> blocked s pk' x \<or> pk' = pk \<and> IP_Equal x ip)"
    and reserve_fails: "inv s \<Longrightarrow> reserve t pk cid ifn meta ip s = Some (Some e, s') \<Longrightarrow> s' = s"
begin

lemma reserve_inv: "inv s \<Longrightarrow> reserve t pk cid ifn meta ip s = Some (r, s') \<Longrightarrow> inv s'"
  using reserve_total [of s t pk cid ifn meta ip] by auto

lemma blocked_mono: "inv s \<Longrightarrow> reserve t pk cid ifn meta ip s = Some (r, s') \<Longrightarrow> blocked s pk' x \<Longrightarrow> blocked s' pk' x"
  by (cases r) (auto dest: reserve_grants reserve_fails)

end

type_synonym reserve_request = "string \<times> string \<times> string \<times> string \<times> ReservationMetadata \<times> net_ip"

text \<open>The addresses granted to a sequence of requests.\<close>

fun granted ::
    "(string \<Rightarrow> string \<Rightarrow> string \<Rightarrow> string \<Rightarrow> ReservationMetadata \<Rightarrow> net_ip \<Rightarrow> 's \<Rightarrow> (session_error option \<times> 's) option) \<Rightarrow>
     reserve_request list \<Rightarrow> 's \<Rightarrow> (string \<times> net_ip) list" where
  "granted reserve [] s = []"
| "granted reserve ((t, pk, cid, ifn, meta, ip) # rs) s =
     (case reserve t pk cid ifn meta ip s of
        None \<Rightarrow> []
      | Some (None, s') \<Rightarrow> (pk, ip) # granted reserve rs s'
      | Some (Some e, s') \<Rightarrow> granted reserve rs s')"

context reservation_session
begin

lemma granted_not_blocked: "inv s \<Longrightarrow> (pk, ip) \<in> set (granted reserve rs s) \<Longrightarrow> \<not> blocked s pk ip"
proof (induction rs arbitrary: s)
  case Nil
  then show ?case by simp
next
  case (Cons q rs)
  obtain t pk0 cid ifn meta ip0 where q: "q = (t, pk0, cid, ifn, meta, ip0)" by (cases q) auto
  obtain r s' where r: "reserve t pk0 cid ifn meta ip0 s = Some (r, s')" "inv s'"
    using reserve_total [OF Cons.prems(1)] by blast
  show ?case
  proof (cases r)
    case None
    with r Cons.prems have "(pk, ip) = (pk0, ip0) \<or> (pk, ip) \<in> set (granted reserve rs s')" by (auto simp: q)
    then show ?thesis
      using reserve_grants [OF Cons.prems(1)] Cons.IH [OF r(2)] r(1) None by auto
  next
    case (Some e)
    with r have "s' = s" using reserve_fails [OF Cons.prems(1)] by blast
    with Some r Cons.prems show ?thesis using Cons.IH [of s] by (simp add: q)
  qed
qed

lemma granted_distinct:
  "inv s \<Longrightarrow> sorted_wrt (\<lambda>(pk, ip) (pk', ip'). pk' = pk \<longrightarrow> \<not> IP_Equal ip' ip) (granted reserve rs s)"
proof (induction rs arbitrary: s)
  case Nil
  then show ?case by simp
next
  case (Cons q rs)
  obtain t pk0 cid ifn meta ip0 where q: "q = (t, pk0, cid, ifn, meta, ip0)" by (cases q) auto
  obtain r s' where r: "reserve t pk0 cid ifn meta ip0 s = Some (r, s')" "inv s'"
    using reserve_total [OF Cons.prems] by blast
  show ?case
  proof (cases r)
    case None
    have "\<not> IP_Equal ip' ip0" if "(pk0, ip') \<in> set (granted reserve rs s')" for ip'
      using granted_not_blocked [OF r(2) that] reserve_grants [OF Cons.prems] r(1) None by blast
    with None r Cons.IH [OF r(2)] show ?thesis by (auto simp: q)
  next
    case (Some e)
    with r Cons.IH [OF r(2)] show ?thesis by (simp add: q)
  qed
qed

end

interpretation node_session: reservation_session session_ok ssn_blocked Reserve
proof
  fix s t pk cid ifn meta ip
  assume s: "session_ok s"
  show "\<exists>r s'. Reserve t pk cid ifn meta ip s = Some (r, s') \<and> session_ok s'"
    using Reserve_fail [OF s, where pk = pk and cid = cid and ifn = ifn and t = t and meta = meta and ip = ip] Reserve_ok [OF s, of pk cid ifn ip] s by (metis (no_types))
next
  fix s t pk cid ifn meta ip s'
  assume s: "session_ok s" and r: "Reserve t pk cid ifn meta ip s = Some (None, s')"
  have c: "map_of (ssn_entries s pk) (getKey cid ifn) = None" "\<not> ssn_blocked s pk ip"
    using Reserve_fail [OF s, where pk = pk and cid = cid and ifn = ifn and t = t and meta = meta and ip = ip] r by (auto, force)
  then have "ssn_entries s' pk = AList.update (getKey cid ifn) (new_reservation t cid ifn meta ip) (ssn_entries s pk)"
    and "\<And>pk'. pk' \<noteq> pk \<Longrightarrow> ssn_entries s' pk' = ssn_entries s pk'"
    using Reserve_ok [OF s c, of t meta] r unfolding ssn_entries_def by (metis option.inject prod.inject)+
  then have "ssn_blocked s' pk' x \<longleftrightarrow> ssn_blocked s pk' x \<or> pk' = pk \<and> IP_Equal x ip" for pk' x
    using blocked_update_fresh [OF c(1), of "new_reservation t cid ifn meta ip" "\<lambda>r. IP_Equal x (rsIPAddress r)"]
    by (cases "pk' = pk") (auto simp: ssn_blocked_def new_reservation_def)
  with c show "\<not> ssn_blocked s pk ip \<and>
      (\<forall>pk' x. ssn_blocked s' pk' x \<longleftrightarrow> ssn_blocked s pk' x \<or> pk' = pk \<and> IP_Equal x ip)" by blast
next
  fix s t pk cid ifn meta ip e s'
  assume s: "session_ok s" and r: "Reserve t pk cid ifn meta ip s = Some (Some e, s')"
  show "s' = s"
  proof (cases "map_of (ssn_entries s pk) (getKey cid ifn) = None \<and> \<not> ssn_blocked s pk ip")
    case True
    then show ?thesis using Reserve_ok [OF s, of pk cid ifn ip t meta] r by auto
  next
    case False
    then show ?thesis using Reserve_fail [OF s, where pk = pk and cid = cid and ifn = ifn and t = t and meta = meta and ip = ip] r by (cases "map_of (ssn_entries s pk) (getKey cid ifn)") auto
  qed
qed

text \<open>Whatever sequence of requests is made in a session, no address of a pool is granted twice and none
  that was held before, by an active reservation or by one in its cooldown.\<close>

theorem Reserve_never_twice:
  assumes "session_ok s"
  shows "sorted_wrt (\<lambda>(pk, ip) (pk', ip'). pk' = pk \<longrightarrow> \<not> IP_Equal ip' ip) (granted Reserve rs s) \<and>
    (\<forall>(pk, ip) \<in> set (granted Reserve rs s). \<not> ssn_blocked s pk ip)"
  using node_session.granted_distinct [OF assms] node_session.granted_not_blocked [OF assms] by blast

theorem Reserve_never_twice_witness:
  "sorted_wrt (\<lambda>(pk, ip) (pk', ip'). pk' = pk \<longrightarrow> \<not> IP_Equal ip' ip)
     (granted Reserve [(''t'', ''a'', ''c1'', ''i'', ex_meta, [10, 0, 0, 5]), (''t'', ''a'', ''c2'', ''i'', ex_meta, To16 [10, 0, 0, 5]),
        (''t'', ''b'', ''c2'', ''i'', ex_meta, [10, 0, 0, 5])] (newStore NewRoot)) \<and>
   granted Reserve [(''t'', ''a'', ''c1'', ''i'', ex_meta, [10, 0, 0, 5]), (''t'', ''a'', ''c2'', ''i'', ex_meta, To16 [10, 0, 0, 5]),
        (''t'', ''b'', ''c2'', ''i'', ex_meta, [10, 0, 0, 5])] (newStore NewRoot) = [(''a'', [10, 0, 0, 5]), (''b'', [10, 0, 0, 5])]"
proof -
  have h: "session_ok (newStore NewRoot)" by code_simp
  show ?thesis using Reserve_never_twice [OF h] by (intro conjI) (blast, code_simp)
qed

subsection \<open>Release and cooldown\<close>

lemma blocked_update_same:
  assumes "map_of es k = Some r" "Q r' = Q r"  "distinct (map fst es)"
  shows "(\<exists>(k', r') \<in> set (AList.update k r' es). Q r') \<longleftrightarrow> (\<exists>(k', r') \<in> set es. Q r')"
  using assms by (induction es) (auto split: if_splits)

lemma not_blocked_after_delete:
  assumes "entries_ok es" "map_of es k = Some r"
  shows "\<not> (\<exists>(k', r') \<in> set (AList.delete k es). IP_Equal (rsIPAddress r) (rsIPAddress r'))"
  using assms map_of_SomeD [OF assms(2)] by (fastforce simp: entries_ok_def AList.delete_eq)

lemma blockedI: "map_of (ssn_entries s pk) k = Some r \<Longrightarrow> IP_Equal ip (rsIPAddress r) \<Longrightarrow> ssn_blocked s pk ip"
  by (auto simp: ssn_blocked_def dest!: map_of_SomeD)

lemma Reserve_blocked:
  "session_ok s \<Longrightarrow> ssn_blocked s pk ip \<Longrightarrow> \<exists>e. Reserve t pk cid ifn meta ip s = Some (Some e, s)"
  using Reserve_fail [where s = s and pk = pk and cid = cid and ifn = ifn and t = t and meta = meta and ip = ip]
  by (cases "map_of (ssn_entries s pk) (getKey cid ifn)") auto

lemma Release_mark:
  assumes "session_ok s" "map_of (ssn_entries s pk) (getKey cid ifn) = Some r" "\<not> IsReleased r" "0 < cooldown"
  obtains s' where "ReleaseReservationByID now pk cid ifn cooldown s = Some (False, s')" "session_ok s'"
    "map_of (ssn_entries s' pk) (getKey cid ifn) = Some (r\<lparr>rsReleasedAt := now\<rparr>)"
proof -
  have o: "release_outcome_of now cooldown r = Mark" using assms(3,4) by (simp add: release_outcome_of_def)
  show ?thesis
    by (rule Release_change [OF assms(1,2), of now cooldown]) (simp_all add: o AList.update_conv' that)
qed

lemma Release_drop:
  assumes "session_ok s" "map_of (ssn_entries s pk) (getKey cid ifn) = Some r" "release_outcome_of now cooldown r = Drop"
  obtains s' where "ReleaseReservationByID now pk cid ifn cooldown s = Some (True, s')" "session_ok s'"
    "map_of (ssn_entries s' pk) (getKey cid ifn) = None" "\<not> ssn_blocked s' pk (rsIPAddress r)"
proof -
  have b: "\<not> (\<exists>(k', r') \<in> set (AList.delete (getKey cid ifn) (ssn_entries s pk)). IP_Equal (rsIPAddress r) (rsIPAddress r'))"
    by (rule not_blocked_after_delete [OF session_ok_entries [OF assms(1)] assms(2)])
  show ?thesis
    by (rule Release_change [OF assms(1,2), of now cooldown])
      (use b in \<open>simp_all add: assms(3) AList.delete_conv' ssn_blocked_def that\<close>)
qed

text \<open>C26: The release cooldown.  Releasing an active reservation with a positive cooldown at \<open>t1\<close> hides it
  from lookups but keeps its address blocked for every owner.  Releasing it again at \<open>t2\<close> does not restart
  the clock: before the cooldown has elapsed it changes nothing, and from then on it removes the reservation,
  after which the address can be reserved again.\<close>

theorem Release_cooldown:
  assumes "session_ok s" "GetReservationByID pk cid ifn s = Some (Some r)"
    "0 < cooldown" "0 < t1" "t1 \<le> t2" "t2 - t1 < 2 ^ 63"
  shows "\<exists>s1. ReleaseReservationByID t1 pk cid ifn cooldown s = Some (False, s1) \<and>
    GetReservationByID pk cid ifn s1 = Some None \<and>
    (\<forall>t cid' ifn' meta. \<exists>e. Reserve t pk cid' ifn' meta (rsIPAddress r) s1 = Some (Some e, s1)) \<and>
    (t2 - t1 < cooldown \<longrightarrow> ReleaseReservationByID t2 pk cid ifn cooldown s1 = Some (False, s1)) \<and>
    (cooldown \<le> t2 - t1 \<longrightarrow> (\<exists>s2. ReleaseReservationByID t2 pk cid ifn cooldown s1 = Some (True, s2) \<and>
       (\<forall>t meta. \<exists>s3. Reserve t pk cid ifn meta (rsIPAddress r) s2 = Some (None, s3))))"
proof -
  have r: "map_of (ssn_entries s pk) (getKey cid ifn) = Some r" "\<not> IsReleased r"
    using assms(2) by (auto simp: GetReservationByID_conv [OF assms(1)] split: option.splits if_splits)
  obtain s1 where s1: "ReleaseReservationByID t1 pk cid ifn cooldown s = Some (False, s1)" "session_ok s1"
    "map_of (ssn_entries s1 pk) (getKey cid ifn) = Some (r\<lparr>rsReleasedAt := t1\<rparr>)"
    by (rule Release_mark [OF assms(1) r assms(3)])
  have since: "time_Since t2 t1 = t2 - t1" using assms(5,6) by (simp add: time_Since_def)
  have out: "release_outcome_of t2 cooldown (r\<lparr>rsReleasedAt := t1\<rparr>) = (if cooldown \<le> t2 - t1 then Drop else Keep)"
    using assms(3,4) by (simp add: release_outcome_of_def IsReleased_def since)
  have "GetReservationByID pk cid ifn s1 = Some None"
    using assms(4) by (simp add: GetReservationByID_conv [OF s1(2)] s1(3) IsReleased_def)
  moreover have "ssn_blocked s1 pk (rsIPAddress r)" by (rule blockedI [OF s1(3)]) simp
  then have "\<forall>t cid' ifn' meta. \<exists>e. Reserve t pk cid' ifn' meta (rsIPAddress r) s1 = Some (Some e, s1)"
    using Reserve_blocked [OF s1(2)] by blast
  moreover have "ReleaseReservationByID t2 pk cid ifn cooldown s1 = Some (False, s1)" if "t2 - t1 < cooldown"
    using Release_keep [OF s1(2,3)] out that by simp
  moreover have "\<exists>s2. ReleaseReservationByID t2 pk cid ifn cooldown s1 = Some (True, s2) \<and>
       (\<forall>t meta. \<exists>s3. Reserve t pk cid ifn meta (rsIPAddress r) s2 = Some (None, s3))" if "cooldown \<le> t2 - t1"
  proof -
    have o: "release_outcome_of t2 cooldown (r\<lparr>rsReleasedAt := t1\<rparr>) = Drop" using out that by simp
    obtain s2 where s2: "ReleaseReservationByID t2 pk cid ifn cooldown s1 = Some (True, s2)" "session_ok s2"
      "map_of (ssn_entries s2 pk) (getKey cid ifn) = None" "\<not> ssn_blocked s2 pk (rsIPAddress r)"
      by (rule Release_drop [OF s1(2,3) o]) simp
    then show ?thesis using Reserve_ok [OF s2(2-4)] by metis
  qed
  ultimately show ?thesis using s1(1) by blast
qed

definition ex_session :: session where
  "ex_session = snd (the (Reserve ''t'' ''pool'' ''c1'' ''net0'' ex_meta [10, 0, 0, 5] (newStore NewRoot)))"

theorem Release_cooldown_witness:
  "\<exists>s1. ReleaseReservationByID 100 ''pool'' ''c1'' ''net0'' 60 ex_session = Some (False, s1) \<and>
     GetReservationByID ''pool'' ''c1'' ''net0'' s1 = Some None \<and>
     (\<exists>s2. ReleaseReservationByID 160 ''pool'' ''c1'' ''net0'' 60 s1 = Some (True, s2))"
proof -
  have h: "session_ok ex_session" by code_simp
  have g: "GetReservationByID ''pool'' ''c1'' ''net0'' ex_session =
      Some (Some (new_reservation ''t'' ''c1'' ''net0'' ex_meta [10, 0, 0, 5]))" by code_simp
  have n: "(0 :: int) < 60" "(0 :: int) < 100" "(100 :: int) \<le> 160" "(160 :: int) - 100 < 2 ^ 63" by simp_all
  show ?thesis using Release_cooldown [OF h g n] by fastforce
qed


subsection \<open>Sessions on the store\<close>

datatype session_op =
    OpReserve string string string string ReservationMetadata net_ip
  | OpRelease time string string string int
  | OpRemovePool string
  | OpSetLastReservedIP string net_ip

fun run_op :: "session_op \<Rightarrow> session \<Rightarrow> session option" where
  "run_op (OpReserve t pk cid ifn meta ip) s = map_option snd (Reserve t pk cid ifn meta ip s)"
| "run_op (OpRelease now pk cid ifn cooldown) s = map_option snd (ReleaseReservationByID now pk cid ifn cooldown s)"
| "run_op (OpRemovePool pk) s = RemovePool pk s"
| "run_op (OpSetLastReservedIP pk ip) s = SetLastReservedIP pk ip s"

text \<open>The life of a store in one process: a state is the store with the session that holds its lock, if
  any.  Opening waits for the lock, an open session runs operations and is committed (the write may fail) or
  cancelled.\<close>

inductive store_step ::
    "(Root \<Rightarrow> string option) \<Rightarrow> (string \<Rightarrow> Root option) \<Rightarrow> store \<times> session option \<Rightarrow> store \<times> session option \<Rightarrow> bool"
  for marshal unmarshal where
  open_ok: "\<not> stLocked m \<Longrightarrow> Open marshal unmarshal m = Some (Inr s, m') \<Longrightarrow>
    store_step marshal unmarshal (m, None) (m', Some s)"
| open_error: "\<not> stLocked m \<Longrightarrow> Open marshal unmarshal m = Some (Inl e, m') \<Longrightarrow>
    store_step marshal unmarshal (m, None) (m', None)"
| operation: "run_op op s = Some s' \<Longrightarrow> store_step marshal unmarshal (m, Some s) (m, Some s')"
| commit: "Commit marshal writeOk s m = Some (e, s', m') \<Longrightarrow> store_step marshal unmarshal (m, Some s) (m', None)"
| cancel: "Cancel s m = Some (s', m') \<Longrightarrow> store_step marshal unmarshal (m, Some s) (m', None)"

inductive_cases store_stepE: "store_step marshal unmarshal (m, so) (m', so')"

text \<open>The store is locked exactly while a session is open, and both copies of the data are good.\<close>

definition store_inv :: "store \<times> session option \<Rightarrow> bool" where
  "store_inv st = (case st of (m, so) \<Rightarrow>
     (stLocked m \<longleftrightarrow> so \<noteq> None) \<and>
     (case stPersistedData m of None \<Rightarrow> True | Some d \<Rightarrow> root_ok d) \<and>
     (case so of None \<Rightarrow> True | Some s \<Rightarrow> session_ok s \<and> stPersistedData m \<noteq> None))"

lemma run_op_ok: "session_ok s \<Longrightarrow> \<exists>s'. run_op op s = Some s' \<and> session_ok s'"
proof (cases op)
  case (OpReserve t pk cid ifn meta ip)
  assume "session_ok s"
  then show ?thesis using node_session.reserve_total [of s t pk cid ifn meta ip] OpReserve by auto
next
  case (OpRelease now pk cid ifn cooldown)
  assume s: "session_ok s"
  consider "map_of (ssn_entries s pk) (getKey cid ifn) = None"
    | r where "map_of (ssn_entries s pk) (getKey cid ifn) = Some r" "release_outcome_of now cooldown r = Keep"
    | r where "map_of (ssn_entries s pk) (getKey cid ifn) = Some r" "release_outcome_of now cooldown r \<noteq> Keep"
    by (cases "map_of (ssn_entries s pk) (getKey cid ifn)") auto
  then show ?thesis
  proof cases
    case 1
    with s show ?thesis by (simp add: OpRelease Release_absent)
  next
    case 2
    with s show ?thesis by (simp add: OpRelease Release_keep)
  next
    case 3
    from Release_change [OF s 3] show ?thesis by (metis OpRelease option.map(2) run_op.simps(2) snd_conv)
  qed
next
  case (OpRemovePool pk)
  assume "session_ok s"
  from RemovePool_ok [OF this] show ?thesis by (metis OpRemovePool run_op.simps(3))
next
  case (OpSetLastReservedIP pk ip)
  assume "session_ok s"
  from SetLastReservedIP_ok [OF this] show ?thesis by (metis OpSetLastReservedIP run_op.simps(4))
qed

lemma newStore_ok: "root_ok d \<Longrightarrow> session_ok (newStore d)"
  by (simp add: newStore_def session_ok_def)

lemma root_ok_checksum [simp]: "root_ok (d\<lparr>rtChecksum := c\<rparr>) = root_ok d"
  by (simp add: root_ok_def)

lemma writeToDisk_root: "writeToDisk marshal w d f = Some (e, d', f') \<Longrightarrow> root_ok d \<Longrightarrow> root_ok d'"
  by (auto simp: writeToDisk_def Let_def split: option.splits if_splits)

lemma Commit_inv:
  assumes "store_inv (m, Some s)" "Commit marshal w s m = Some (e, s', m')"
  shows "store_inv (m', None)"
  using assms writeToDisk_root [of marshal w "ssTmpData s" "stFile m"]
  by (auto simp: store_inv_def Commit_def session_ok_def split: option.splits if_splits)

text \<open>Loading is good when whatever the file decodes to is good; a missing or empty file is.\<close>

definition file_ok :: "(Root \<Rightarrow> string option) \<Rightarrow> (string \<Rightarrow> Root option) \<Rightarrow> file_content \<Rightarrow> bool" where
  "file_ok marshal unmarshal f \<longleftrightarrow>
     (case loadFromDisk marshal unmarshal f of Some (Inr d) \<Rightarrow> root_ok d | _ \<Rightarrow> True)"

definition boot_inv :: "(Root \<Rightarrow> string option) \<Rightarrow> (string \<Rightarrow> Root option) \<Rightarrow> store \<times> session option \<Rightarrow> bool" where
  "boot_inv marshal unmarshal st \<longleftrightarrow> store_inv st \<and>
     (stPersistedData (fst st) = None \<longrightarrow> snd st = None \<and> file_ok marshal unmarshal (stFile (fst st)))"

lemma Open_inv:
  assumes "boot_inv marshal unmarshal (m, None)" "Open marshal unmarshal m = Some (r, m')"
  shows "case r of Inl e \<Rightarrow> boot_inv marshal unmarshal (m', None) | Inr s \<Rightarrow> boot_inv marshal unmarshal (m', Some s)"
  using assms by (auto simp: boot_inv_def store_inv_def Open_def file_ok_def newStore_ok split: option.splits sum.splits)

lemma store_step_inv:
  assumes "store_step marshal unmarshal st st'" "boot_inv marshal unmarshal st"
  shows "boot_inv marshal unmarshal st'"
  using assms(1)
proof cases
  case (open_ok m s m')
  with Open_inv [of marshal unmarshal m "Inr s" m'] assms(2) show ?thesis by simp
next
  case (open_error m e m')
  with Open_inv [of marshal unmarshal m "Inl e" m'] assms(2) show ?thesis by simp
next
  case (operation op s s' m)
  then have "session_ok s" using assms(2) by (simp add: boot_inv_def store_inv_def)
  with operation run_op_ok [of s op] assms(2) show ?thesis by (auto simp: boot_inv_def store_inv_def)
next
  case (commit writeOk s m e s' m')
  then have "store_inv (m', None)" using Commit_inv assms(2) by (auto simp: boot_inv_def)
  moreover have "stPersistedData m' \<noteq> None"
    using commit assms(2) by (auto simp: Commit_def boot_inv_def store_inv_def split: option.splits if_splits)
  ultimately show ?thesis using commit by (auto simp: boot_inv_def)
next
  case (cancel s m s' m')
  with assms(2) show ?thesis by (auto simp: boot_inv_def store_inv_def Cancel_def split: if_splits)
qed

lemma store_steps_inv:
  "(store_step marshal unmarshal)\<^sup>*\<^sup>* st st' \<Longrightarrow> boot_inv marshal unmarshal st \<Longrightarrow> boot_inv marshal unmarshal st'"
  by (induction rule: rtranclp_induct) (auto intro: store_step_inv)

text \<open>C25: In every state the store can reach from process start, over any interleaving of sessions, operations,
  commits (also failing ones) and cancellations: the store is locked exactly while a session is open, and neither
  the persisted data nor the data of the open session holds one address twice in a pool.\<close>

theorem store_reachable_unique:
  assumes "(store_step marshal unmarshal)\<^sup>*\<^sup>* (\<lparr>stFile = f, stPersistedData = None, stLocked = False\<rparr>, None) (m, so)"
    and "file_ok marshal unmarshal f"
  shows "(stLocked m \<longleftrightarrow> so \<noteq> None) \<and>
    (\<forall>d pk. stPersistedData m = Some d \<or> (\<exists>s. so = Some s \<and> d = ssTmpData s) \<longrightarrow> entries_ok (pool_entries (getPoolData pk d)))"
proof -
  have "boot_inv marshal unmarshal (\<lparr>stFile = f, stPersistedData = None, stLocked = False\<rparr>, None)"
    using assms(2) by (simp add: boot_inv_def store_inv_def)
  from store_steps_inv [OF assms(1) this] have "store_inv (m, so)" by (simp add: boot_inv_def)
  then have "(stLocked m \<longleftrightarrow> so \<noteq> None) \<and>
      (\<forall>d. stPersistedData m = Some d \<or> (\<exists>s. so = Some s \<and> d = ssTmpData s) \<longrightarrow> root_ok d)"
    by (auto simp: store_inv_def session_ok_def split: option.splits)
  then show ?thesis using root_ok_entries by blast
qed

lemma ex_reachable:
  "(store_step (\<lambda>_. None) (\<lambda>_. None))\<^sup>*\<^sup>* (\<lparr>stFile = FileNotExist, stPersistedData = None, stLocked = False\<rparr>, None)
     (\<lparr>stFile = FileNotExist, stPersistedData = Some NewRoot, stLocked = True\<rparr>, Some ex_session)"
proof -
  let ?m0 = "\<lparr>stFile = FileNotExist, stPersistedData = None, stLocked = False\<rparr>"
  let ?m1 = "\<lparr>stFile = FileNotExist, stPersistedData = Some NewRoot, stLocked = True\<rparr>"
  have "Open (\<lambda>_. None) (\<lambda>_. None) ?m0 = Some (Inr (newStore NewRoot), ?m1)"
    by (simp add: Open_def loadFromDisk_def NewRoot_def)
  then have "store_step (\<lambda>_. None) (\<lambda>_. None) (?m0, None) (?m1, Some (newStore NewRoot))"
    by (intro store_step.open_ok) simp_all
  moreover have "run_op (OpReserve ''t'' ''pool'' ''c1'' ''net0'' ex_meta [10, 0, 0, 5]) (newStore NewRoot) = Some ex_session"
    by code_simp
  then have "store_step (\<lambda>_. None) (\<lambda>_. None) (?m1, Some (newStore NewRoot)) (?m1, Some ex_session)"
    by (rule store_step.operation)
  ultimately show ?thesis by (meson rtranclp.simps converse_rtranclp_into_rtranclp)
qed

theorem store_reachable_unique_witness:
  "\<exists>m s. (store_step (\<lambda>_. None) (\<lambda>_. None))\<^sup>*\<^sup>* (\<lparr>stFile = FileNotExist, stPersistedData = None, stLocked = False\<rparr>, None) (m, Some s) \<and>
     file_ok (\<lambda>_. None) (\<lambda>_. None) FileNotExist \<and> stLocked m \<and>
     length (pool_entries (getPoolData ''pool'' (ssTmpData s))) = 1 \<and> entries_ok (pool_entries (getPoolData ''pool'' (ssTmpData s)))"
proof -
  have f: "file_ok (\<lambda>_. None) (\<lambda>_. None) FileNotExist" by code_simp
  have l: "length (pool_entries (getPoolData ''pool'' (ssTmpData ex_session))) = 1" by code_simp
  show ?thesis using store_reachable_unique [OF ex_reachable f] ex_reachable f l by blast
qed

subsection \<open>Atomicity and durability\<close>

lemma Open_persisted:
  "stPersistedData m = Some d \<Longrightarrow> Open marshal unmarshal m = Some (Inr (newStore d), m\<lparr>stLocked := True\<rparr>)"
  by (simp add: Open_def)

text \<open>What reading back a JSON document makes of an address: \<open>net.IP\<close> unmarshals to its 16-byte form.\<close>

definition json_norm_entry :: "Reservation \<Rightarrow> Reservation" where
  "json_norm_entry r = r\<lparr>rsIPAddress := To16 (rsIPAddress r)\<rparr>"

definition json_norm_pool :: "PoolReservations \<Rightarrow> PoolReservations" where
  "json_norm_pool p = p\<lparr>prEntries := map_option (map (\<lambda>(k, r). (k, json_norm_entry r))) (prEntries p),
     prLastReservedIP := To16 (prLastReservedIP p)\<rparr>"

definition json_norm :: "Root \<Rightarrow> Root" where
  "json_norm d = d\<lparr>rtPools := map_option (map (\<lambda>(k, p). (k, json_norm_pool p))) (rtPools d)\<rparr>"

lemma json_norm_checksum [simp]: "rtChecksum (json_norm d) = rtChecksum d"
  by (simp add: json_norm_def)

lemma strip_norm_entry: "strip_entry (json_norm_entry r) = json_norm_entry (strip_entry r)"
  by (simp add: strip_entry_def json_norm_entry_def)

lemma strip_norm_pool: "strip_pool (json_norm_pool p) = json_norm_pool (strip_pool p)"
  by (simp add: strip_pool_def json_norm_pool_def option.map_comp comp_def case_prod_unfold strip_norm_entry)

lemma checksum_input_json_norm: "checksum_input (json_norm d) = json_norm (checksum_input d)"
  by (simp add: checksum_input_def json_norm_def option.map_comp comp_def case_prod_unfold strip_norm_pool)

lemma writeToDisk_ok:
  assumes "writeToDisk marshal w d f = Some (None, d', f')"
  obtains cs data where "NewChecksum marshal d = Some cs" "d' = d\<lparr>rtChecksum := cs\<rparr>" "marshal d' = Some data" "f' = FileData data"
  using assms by (auto simp: writeToDisk_def Let_def split: option.splits if_splits)

text \<open>C27: Sessions are atomic: a cancelled session and one whose commit fails leave the file and the persisted data
  as they were, so that the next session starts from the same data; after a successful commit the next session
  starts from exactly the data of the committed one.\<close>

theorem session_atomic:
  assumes "session_ok s" "stPersistedData m = Some d" "Commit marshal writeOk s m = Some (e, s', m')"
  shows "(\<exists>sc mc. Cancel s m = Some (sc, mc) \<and> stFile mc = stFile m \<and>
      Open marshal unmarshal mc = Some (Inr (newStore d), m\<lparr>stLocked := True\<rparr>)) \<and>
    (e \<noteq> None \<longrightarrow> m' = m\<lparr>stLocked := False\<rparr>) \<and>
    (e = None \<and> ssIsModified s \<longrightarrow> (\<exists>cs m''. NewChecksum marshal (ssTmpData s) = Some cs \<and>
       Open marshal unmarshal m' = Some (Inr (newStore ((ssTmpData s)\<lparr>rtChecksum := cs\<rparr>)), m''))) \<and>
    Commit marshal writeOk s' m' = None \<and> Reserve t pk cid ifn meta ip s' = None"
proof -
  have c: "\<not> ssIsClosed s" using assms(1) by (simp add: session_ok_def)
  have "\<exists>sc mc. Cancel s m = Some (sc, mc) \<and> stFile mc = stFile m \<and>
      Open marshal unmarshal mc = Some (Inr (newStore d), m\<lparr>stLocked := True\<rparr>)"
    using c assms(2) by (simp add: Cancel_def Open_persisted [of _ d])
  moreover have "m' = m\<lparr>stLocked := False\<rparr>" if "e \<noteq> None"
    using assms(3) that c by (auto simp: Commit_def writeToDisk_def Let_def split: option.splits if_splits)
  moreover have "\<exists>cs m''. NewChecksum marshal (ssTmpData s) = Some cs \<and>
       Open marshal unmarshal m' = Some (Inr (newStore ((ssTmpData s)\<lparr>rtChecksum := cs\<rparr>)), m'')"
    if "e = None" "ssIsModified s"
    using assms(3) that c
    by (auto simp: Commit_def Open_def elim!: writeToDisk_ok split: option.splits if_splits)
  moreover have "ssIsClosed s'" using assms(3) c by (auto simp: Commit_def split: option.splits if_splits)
  ultimately show ?thesis by (simp add: Commit_def Reserve_def)
qed

definition ex_marshal :: "Root \<Rightarrow> string option" where
  "ex_marshal d = Some (''{'' @ concat (map fst (case rtPools d of None \<Rightarrow> [] | Some ps \<Rightarrow> ps)) @ ''}'')"

theorem session_atomic_witness:
  "\<exists>s' m' m''. Commit ex_marshal True ex_session \<lparr>stFile = FileNotExist, stPersistedData = Some NewRoot, stLocked = True\<rparr> = Some (None, s', m') \<and>
     Open ex_marshal (\<lambda>_. None) m' = Some (Inr (newStore ((ssTmpData ex_session)\<lparr>rtChecksum := fnv32a ''{pool}''\<rparr>)), m'')"
proof -
  let ?m = "\<lparr>stFile = FileNotExist, stPersistedData = Some NewRoot, stLocked = True\<rparr>"
  have h: "session_ok ex_session" by code_simp
  have p: "stPersistedData ?m = Some NewRoot" by simp
  have md: "ssIsModified ex_session" by code_simp
  have e: "map_option fst (Commit ex_marshal True ex_session ?m) = Some None" by code_simp
  then obtain s' m' where c: "Commit ex_marshal True ex_session ?m = Some (None, s', m')" by auto
  have k: "NewChecksum ex_marshal (ssTmpData ex_session) = Some (fnv32a ''{pool}'')" by code_simp
  show ?thesis using session_atomic [OF h p c, of "\<lambda>_. None"] md c k by auto
qed

text \<open>A commit survives a restart: a new process that reads the file back gets the committed data, with
  addresses in 16-byte form and every reservation, last address and release time kept.  The JSON codec is assumed to
  read back what it wrote; the one value of the checksum that the loader takes for a missing checksum is excluded.\<close>

theorem commit_durable:
  assumes "session_ok s" "ssIsModified s" "Commit marshal True s m = Some (None, s', m')"
    and codec: "\<And>data. marshal (ssTmpData s') = Some data \<Longrightarrow> data \<noteq> [] \<and> unmarshal data = Some (json_norm (ssTmpData s'))"
    and same_text: "marshal (json_norm (checksum_input (ssTmpData s'))) = marshal (checksum_input (ssTmpData s'))"
    and "rtChecksum (ssTmpData s') \<noteq> 0"
  shows "\<exists>m''. Open marshal unmarshal (m'\<lparr>stPersistedData := None\<rparr>) = Some (Inr (newStore (json_norm (ssTmpData s'))), m'') \<and>
    rtPools (ssTmpData s') = rtPools (ssTmpData s)"
proof -
  obtain cs data where w: "NewChecksum marshal (ssTmpData s) = Some cs" "ssTmpData s' = (ssTmpData s)\<lparr>rtChecksum := cs\<rparr>"
    "marshal (ssTmpData s') = Some data" "stFile m' = FileData data"
    using assms(1-3) by (auto simp: Commit_def session_ok_def elim!: writeToDisk_ok split: option.splits if_splits)
  let ?d = "json_norm (ssTmpData s')"
  have "NewChecksum marshal ?d = Some cs"
    using w(1,2) same_text by (simp add: NewChecksum_def getChecksum_def checksum_input_json_norm checksum_input_Checksum)
  moreover have "rtPools ?d \<noteq> None" using assms(1) w(2) by (auto simp: json_norm_def session_ok_def root_ok_def split: option.splits)
  ultimately have "loadFromDisk marshal unmarshal (FileData data) = Some (Inr ?d)"
    using codec [OF w(3)] assms(6) w(2) by (simp add: loadFromDisk_def Checksum_Verify_def)
  then show ?thesis using w(2,4) by (simp add: Open_def)
qed

theorem commit_durable_witness:
  "\<exists>s' m' m''. Commit ex_marshal True ex_session \<lparr>stFile = FileNotExist, stPersistedData = Some NewRoot, stLocked = True\<rparr> = Some (None, s', m') \<and>
     Open ex_marshal (\<lambda>_. Some (json_norm (ssTmpData s'))) (m'\<lparr>stPersistedData := None\<rparr>) = Some (Inr (newStore (json_norm (ssTmpData s'))), m'')"
proof -
  let ?m = "\<lparr>stFile = FileNotExist, stPersistedData = Some NewRoot, stLocked = True\<rparr>"
  have h: "session_ok ex_session" and md: "ssIsModified ex_session" by code_simp+
  have e: "map_option (\<lambda>(e, s', m'). (e, rtChecksum (ssTmpData s') = 0)) (Commit ex_marshal True ex_session ?m) = Some (None, False)" by code_simp
  then obtain s' m' where c: "Commit ex_marshal True ex_session ?m = Some (None, s', m')" "rtChecksum (ssTmpData s') \<noteq> 0" by auto
  have "ex_marshal (json_norm d) = ex_marshal d" for d
    by (cases "rtPools d") (simp_all add: ex_marshal_def json_norm_def comp_def case_prod_unfold)
  then show ?thesis
    using commit_durable [OF h md c(1), of "\<lambda>_. Some (json_norm (ssTmpData s'))"] c by (auto simp: ex_marshal_def)
qed

end
