(* ===== verification/NodeAllocator.thy ===== *)
theory NodeAllocator
  imports Store
begin

text \<open>
  Package \<open>pkg/ipam-node/allocator\<close> (\<open>range.go\<close>, \<open>range_set.go\<close>, \<open>allocator.go\<close>): the allocator that picks an
  address for a container on a node.  A range set is a list of ranges; the round-robin iterator is a record
  and its \<open>Next\<close> returns the updated record.  The two loops of the code (the retry in \<open>Next\<close> past a gateway and
  the search in \<open>Allocate\<close>) carry fuel; \<^const>\<open>None\<close> stands for a call that does not return normally (fuel spent, or
  a panic of the session).  The theorems show that one unit of fuel per address and two more always give a result.
\<close>

datatype alloc_error =
    IPNotV4NorV6
  | MaskVersionMismatch
  | SubnetHostBitsSet
  | RangeStartNotInNetwork
  | RangeStartInvalid
  | RangeEndNotInNetwork
  | NotInRangeSet
  | EmptyRangeSet
  | MixedAddressFamilies
  | SubnetsOverlap
  | ErrNoFreeAddresses
  | SessionError session_error
  | NoRangeForStaticIP

subsection \<open>Ranges\<close>

record Range =
  rgRangeStart :: net_ip
  rgRangeEnd :: net_ip
  rgSubnet :: IPNet
  rgGateway :: net_ip

definition CanonicalizeIP :: "net_ip \<Rightarrow> alloc_error + net_ip" where
  "CanonicalizeIP addr = (if NormalizeIP addr = [] then Inl IPNotV4NorV6 else Inr (NormalizeIP addr))"

definition Range_Contains :: "Range \<Rightarrow> net_ip \<Rightarrow> bool" where
  "Range_Contains r addr0 =
     (case CanonicalizeIP addr0 of
        Inl _ \<Rightarrow> False
      | Inr addr \<Rightarrow>
          if length addr \<noteq> length (ipnIP (rgSubnet r)) then False
          else if \<not> IPNet_Contains (rgSubnet r) addr then False
          else if Cmp addr (rgRangeStart r) < 0 then False
          else if 0 < Cmp addr (rgRangeEnd r) then False
          else True)"

definition Canonicalize_Subnet :: "Range \<Rightarrow> alloc_error + Range" where
  "Canonicalize_Subnet r =
     bind_result (CanonicalizeIP (ipnIP (rgSubnet r))) (\<lambda>sip.
       let r1 = r\<lparr>rgSubnet := (rgSubnet r)\<lparr>ipnIP := sip\<rparr>\<rparr>
       in if length sip \<noteq> length (ipnMask (rgSubnet r)) then Inl MaskVersionMismatch
          else if \<not> IP_Equal sip (IP_Mask sip (ipnMask (rgSubnet r))) then Inl SubnetHostBitsSet
          else Inr r1)"

definition Canonicalize_Gateway :: "Range \<Rightarrow> alloc_error + Range" where
  "Canonicalize_Gateway r =
     (if rgGateway r \<noteq> [] then bind_result (CanonicalizeIP (rgGateway r)) (\<lambda>gw. Inr (r\<lparr>rgGateway := gw\<rparr>)) else Inr r)"

definition Canonicalize_Start :: "Range \<Rightarrow> alloc_error + Range" where
  "Canonicalize_Start r =
     (if rgRangeStart r \<noteq> [] then
        bind_result (CanonicalizeIP (rgRangeStart r)) (\<lambda>st.
          let r1 = r\<lparr>rgRangeStart := st\<rparr>
          in if \<not> Range_Contains r1 st then Inl RangeStartNotInNetwork else Inr r1)
      else if IsPointToPointSubnet (rgSubnet r) \<or> IsSingleIPSubnet (rgSubnet r)
      then Inr (r\<lparr>rgRangeStart := ipnIP (rgSubnet r)\<rparr>)
      else
        let st = NextIP (ipnIP (rgSubnet r))
        in if st = [] then Inl RangeStartInvalid else Inr (r\<lparr>rgRangeStart := st\<rparr>))"

definition Canonicalize_End :: "Range \<Rightarrow> alloc_error + Range" where
  "Canonicalize_End r =
     (if rgRangeEnd r \<noteq> [] then
        bind_result (CanonicalizeIP (rgRangeEnd r)) (\<lambda>e.
          let r1 = r\<lparr>rgRangeEnd := e\<rparr>
          in if \<not> Range_Contains r1 e then Inl RangeEndNotInNetwork else Inr r1)
      else Inr (r\<lparr>rgRangeEnd := LastIP (rgSubnet r)\<rparr>))"

definition Range_Canonicalize :: "Range \<Rightarrow> alloc_error + Range" where
  "Range_Canonicalize r =
     bind_result (Canonicalize_Subnet r) (\<lambda>r1.
     bind_result (Canonicalize_Gateway r1) (\<lambda>r2.
     bind_result (Canonicalize_Start r2) (\<lambda>r3.
     Canonicalize_End r3)))"

definition Range_Overlaps :: "Range \<Rightarrow> Range \<Rightarrow> bool" where
  "Range_Overlaps r r1 =
     (if length (rgRangeStart r) \<noteq> length (rgRangeStart r1) then False
      else Range_Contains r (rgRangeStart r1) \<or> Range_Contains r (rgRangeEnd r1) \<or>
           Range_Contains r1 (rgRangeStart r) \<or> Range_Contains r1 (rgRangeEnd r))"

definition Range_String :: "Range \<Rightarrow> string" where
  "Range_String r = IP_String (rgRangeStart r) @ ''-'' @ IP_String (rgRangeEnd r)"

subsection \<open>Range sets\<close>

type_synonym RangeSet = "Range list"

definition RangeFor :: "RangeSet \<Rightarrow> net_ip \<Rightarrow> alloc_error + Range" where
  "RangeFor s addr0 =
     bind_result (CanonicalizeIP addr0) (\<lambda>addr.
       case find (\<lambda>r. Range_Contains r addr) s of Some r \<Rightarrow> Inr r | None \<Rightarrow> Inl NotInRangeSet)"

definition RangeSet_Contains :: "RangeSet \<Rightarrow> net_ip \<Rightarrow> bool" where
  "RangeSet_Contains s addr = (case RangeFor s addr of Inr _ \<Rightarrow> True | Inl _ \<Rightarrow> False)"

definition RangeSet_Overlaps :: "RangeSet \<Rightarrow> RangeSet \<Rightarrow> bool" where
  "RangeSet_Overlaps s p1 = (\<exists>r \<in> set s. \<exists>r1 \<in> set p1. Range_Overlaps r r1)"

text \<open>The loop over the ranges; \<open>fam\<close> is \<^const>\<open>None\<close> before the first one.\<close>

fun canonicalize_ranges :: "nat option \<Rightarrow> RangeSet \<Rightarrow> alloc_error + RangeSet" where
  "canonicalize_ranges fam [] = Inr []"
| "canonicalize_ranges fam (r # rs) =
     bind_result (Range_Canonicalize r) (\<lambda>r'.
       let l = length (rgRangeStart r')
       in if fam \<noteq> None \<and> fam \<noteq> Some l then Inl MixedAddressFamilies
          else bind_result (canonicalize_ranges (if fam = None then Some l else fam) rs) (\<lambda>rs'. Inr (r' # rs')))"

fun pairwise_overlap :: "RangeSet \<Rightarrow> bool" where
  "pairwise_overlap [] = False"
| "pairwise_overlap (r1 # rs) = ((\<exists>r2 \<in> set rs. Range_Overlaps r1 r2) \<or> pairwise_overlap rs)"

definition RangeSet_Canonicalize :: "RangeSet \<Rightarrow> alloc_error + RangeSet" where
  "RangeSet_Canonicalize s =
     (if s = [] then Inl EmptyRangeSet
      else bind_result (canonicalize_ranges None s) (\<lambda>s'.
        if pairwise_overlap s' then Inl SubnetsOverlap else Inr s'))"

fun join_comma :: "string list \<Rightarrow> string" where
  "join_comma [] = []"
| "join_comma [s] = s"
| "join_comma (s # t # ss) = s @ '','' @ join_comma (t # ss)"

definition RangeSet_String :: "RangeSet \<Rightarrow> string" where
  "RangeSet_String s = join_comma (map Range_String s)"

subsection \<open>The round-robin iterator\<close>

record RangeIter =
  riRangeSet :: RangeSet
  riRangeIdx :: nat
  riCur :: net_ip
  riStartIP :: net_ip

text \<open>Indexing the range set out of range (an empty set) panics.\<close>

fun RangeIter_Next :: "nat \<Rightarrow> RangeIter \<Rightarrow> ((IPNet \<times> net_ip) option \<times> RangeIter) option" where
  "RangeIter_Next 0 i = None"
| "RangeIter_Next (Suc fuel) i =
     (if length (riRangeSet i) \<le> riRangeIdx i then None
      else
        let r = riRangeSet i ! riRangeIdx i
        in if riCur i = [] then
             let i' = i\<lparr>riCur := rgRangeStart r, riStartIP := rgRangeStart r\<rparr>
             in if rgGateway r \<noteq> [] \<and> IP_Equal (riCur i') (rgGateway r) then RangeIter_Next fuel i'
                else Some (Some (\<lparr>ipnIP = riCur i', ipnMask = ipnMask (rgSubnet r)\<rparr>, rgGateway r), i')
           else
             let nextIP = NextIP (riCur i);
                 wrap = (IP_Equal (riCur i) (rgRangeEnd r) \<or> nextIP = []);
                 idx = (if wrap then (riRangeIdx i + 1) mod length (riRangeSet i) else riRangeIdx i);
                 r1 = riRangeSet i ! idx;
                 i1 = i\<lparr>riRangeIdx := idx, riCur := (if wrap then rgRangeStart r1 else nextIP)\<rparr>
             in if riStartIP i1 \<noteq> [] \<and> IP_Equal (riCur i1) (riStartIP i1) then Some (None, i1)
                else
                  let i2 = (if riStartIP i1 = [] then i1\<lparr>riStartIP := riCur i1\<rparr> else i1)
                  in if rgGateway r1 \<noteq> [] \<and> IP_Equal (riCur i2) (rgGateway r1) then RangeIter_Next fuel i2
                     else Some (Some (\<lparr>ipnIP = riCur i2, ipnMask = ipnMask (rgSubnet r1)\<rparr>, rgGateway r1), i2))"

subsection \<open>The allocator\<close>

record allocator =
  alRangeSet :: RangeSet
  alPoolKey :: string
  alExclusions :: "RangeSet option"

record IPConfig =
  icAddress :: IPNet
  icGateway :: net_ip

definition NewIPAllocator :: "RangeSet \<Rightarrow> RangeSet option \<Rightarrow> string \<Rightarrow> allocator" where
  "NewIPAllocator s exclusions poolKey = \<lparr>alRangeSet = s, alPoolKey = poolKey, alExclusions = exclusions\<rparr>"

fun find_range_index :: "nat \<Rightarrow> net_ip \<Rightarrow> RangeSet \<Rightarrow> nat option" where
  "find_range_index i addr [] = None"
| "find_range_index i addr (r # rs) = (if Range_Contains r addr then Some i else find_range_index (i + 1) addr rs)"

definition getIter :: "allocator \<Rightarrow> session \<Rightarrow> RangeIter option" where
  "getIter a s =
     (case GetLastReservedIP (alPoolKey a) s of
        None \<Rightarrow> None
      | Some lastReservedIP \<Rightarrow>
          let iter = \<lparr>riRangeSet = alRangeSet a, riRangeIdx = 0, riCur = [], riStartIP = []\<rparr>;
              startFromLastReservedIP = (lastReservedIP \<noteq> [] \<and> RangeSet_Contains (alRangeSet a) lastReservedIP)
          in if startFromLastReservedIP then
               Some (case find_range_index 0 lastReservedIP (alRangeSet a) of
                       Some i \<Rightarrow> iter\<lparr>riRangeIdx := i, riCur := lastReservedIP\<rparr>
                     | None \<Rightarrow> iter)
             else if alRangeSet a = [] then None
             else Some (iter\<lparr>riStartIP := rgRangeStart (hd (alRangeSet a))\<rparr>))"

fun Allocate_loop ::
    "nat \<Rightarrow> allocator \<Rightarrow> string \<Rightarrow> string \<Rightarrow> string \<Rightarrow> ReservationMetadata \<Rightarrow> RangeIter \<Rightarrow> session \<Rightarrow>
     ((alloc_error + IPConfig) \<times> session) option" where
  "Allocate_loop 0 a nowText cid ifName meta iter s = None"
| "Allocate_loop (Suc fuel) a nowText cid ifName meta iter s =
     (case RangeIter_Next (Suc fuel) iter of
        None \<Rightarrow> None
      | Some (None, iter') \<Rightarrow> Some (Inl ErrNoFreeAddresses, s)
      | Some (Some (reservedIP, gw), iter') \<Rightarrow>
          if (case alExclusions a of None \<Rightarrow> False | Some ex \<Rightarrow> RangeSet_Contains ex (ipnIP reservedIP))
          then Allocate_loop fuel a nowText cid ifName meta iter' s
          else
            (case Reserve nowText (alPoolKey a) cid ifName meta (ipnIP reservedIP) s of
               None \<Rightarrow> None
             | Some (None, s') \<Rightarrow> Some (Inr \<lparr>icAddress = reservedIP, icGateway = gw\<rparr>, s')
             | Some (Some e, s') \<Rightarrow>
                 if e = ErrIPAlreadyReserved then Allocate_loop fuel a nowText cid ifName meta iter' s'
                 else Some (Inl (SessionError e), s')))"

definition allocateStaticIP ::
    "allocator \<Rightarrow> string \<Rightarrow> string \<Rightarrow> string \<Rightarrow> ReservationMetadata \<Rightarrow> net_ip \<Rightarrow> session \<Rightarrow>
     ((alloc_error + IPConfig) \<times> session) option" where
  "allocateStaticIP a nowText cid ifName meta staticIP s =
     (case find (\<lambda>r. IPNet_Contains (rgSubnet r) staticIP) (alRangeSet a) of
        None \<Rightarrow> Some (Inl NoRangeForStaticIP, s)
      | Some r \<Rightarrow>
          (case GetLastReservedIP (alPoolKey a) s of
             None \<Rightarrow> None
           | Some lastReservedIP \<Rightarrow>
               (case Reserve nowText (alPoolKey a) cid ifName meta staticIP s of
                  None \<Rightarrow> None
                | Some (Some e, s') \<Rightarrow> Some (Inl (SessionError e), s')
                | Some (None, s') \<Rightarrow>
                    map_option (\<lambda>s''. (Inr \<lparr>icAddress = \<lparr>ipnIP = staticIP, ipnMask = ipnMask (rgSubnet r)\<rparr>,
                                            icGateway = rgGateway r\<rparr>, s''))
                      (SetLastReservedIP (alPoolKey a) lastReservedIP s'))))"

definition Allocate ::
    "nat \<Rightarrow> allocator \<Rightarrow> string \<Rightarrow> string \<Rightarrow> string \<Rightarrow> ReservationMetadata \<Rightarrow> net_ip \<Rightarrow> session \<Rightarrow>
     ((alloc_error + IPConfig) \<times> session) option" where
  "Allocate fuel a nowText cid ifName meta staticIP s =
     (if staticIP \<noteq> [] then allocateStaticIP a nowText cid ifName meta staticIP s
      else case getIter a s of
             None \<Rightarrow> None
           | Some iter \<Rightarrow> Allocate_loop fuel a nowText cid ifName meta iter s)"

subsection \<open>Canonical ranges are intervals\<close>

definition range_ok :: "nat \<Rightarrow> Range \<Rightarrow> bool" where
  "range_ok L r \<longleftrightarrow>
     wf_net (rgSubnet r) \<and> net_clear (rgSubnet r) \<and> length (ipnIP (rgSubnet r)) = L \<and>
     NormalizeIP (rgRangeStart r) = rgRangeStart r \<and> NormalizeIP (rgRangeEnd r) = rgRangeEnd r \<and>
     IPNet_Contains (rgSubnet r) (rgRangeStart r) \<and> IPNet_Contains (rgSubnet r) (rgRangeEnd r) \<and>
     ip_val (rgRangeStart r) \<le> ip_val (rgRangeEnd r)"

abbreviation rg_lo :: "Range \<Rightarrow> nat" where "rg_lo r \<equiv> ip_val (rgRangeStart r)"
abbreviation rg_hi :: "Range \<Rightarrow> nat" where "rg_hi r \<equiv> ip_val (rgRangeEnd r)"

lemma range_okD:
  assumes "range_ok L r"
  shows "wf_net (rgSubnet r)" "net_clear (rgSubnet r)" "L = 4 \<or> L = 16" "ip_len (ipnIP (rgSubnet r)) = L"
    "ip_len (rgRangeStart r) = L" "ip_len (rgRangeEnd r) = L" "rg_lo r \<le> rg_hi r"
    "net_base (rgSubnet r) \<le> rg_lo r" "rg_hi r < net_base (rgSubnet r) + net_size (rgSubnet r)"
    "length (ipnIP (rgSubnet r)) = L" "rgRangeStart r = be_bytes L (rg_lo r)"
proof -
  show wf: "wf_net (rgSubnet r)" and "net_clear (rgSubnet r)" and len: "length (ipnIP (rgSubnet r)) = L"
    and "rg_lo r \<le> rg_hi r" using assms by (simp_all add: range_ok_def)
  show L: "L = 4 \<or> L = 16" using wf_net_width [OF wf] len by simp
  show l: "ip_len (ipnIP (rgSubnet r)) = L" using wf_net_ip_len [OF wf] len by simp
  show st: "ip_len (rgRangeStart r) = L" and "ip_len (rgRangeEnd r) = L"
    and "net_base (rgSubnet r) \<le> rg_lo r" and "rg_hi r < net_base (rgSubnet r) + net_size (rgSubnet r)"
    using assms l by (simp_all add: range_ok_def IPNet_Contains_iff [OF wf])
  show "rgRangeStart r = be_bytes L (rg_lo r)"
    using assms st NormalizeIP_conv [of "rgRangeStart r"] by (simp add: range_ok_def)
qed

lemma CanonicalizeIP_conv: "CanonicalizeIP ip = (if ip_len ip = 0 then Inl IPNotV4NorV6 else Inr (NormalizeIP ip))"
  by (simp add: CanonicalizeIP_def NormalizeIP_eq_Nil_iff)

lemma ip_len_same_contains: "wf_net n \<Longrightarrow> IPNet_Contains n (NormalizeIP ip) = IPNet_Contains n ip"
  by (simp add: IPNet_Contains_iff)

text \<open>The general form of the membership test, for start and end that may be missing.\<close>

lemma Range_Contains_conv:
  assumes "wf_net (rgSubnet r)"
  shows "Range_Contains r x \<longleftrightarrow> IPNet_Contains (rgSubnet r) x \<and> 0 \<le> Cmp x (rgRangeStart r) \<and> Cmp x (rgRangeEnd r) \<le> 0"
proof (cases "ip_len x = 0")
  case True
  then show ?thesis by (auto simp: Range_Contains_def CanonicalizeIP_conv Cmp_iffs)
next
  case False
  have c: "Cmp (NormalizeIP x) y = Cmp x y" for y by (simp add: Cmp_conv)
  have "IPNet_Contains (rgSubnet r) x \<Longrightarrow> length (NormalizeIP x) = length (ipnIP (rgSubnet r))"
    using wf_net_ip_len [OF assms] by (simp add: IPNet_Contains_iff [OF assms] ip_len_def)
  with False c ip_len_same_contains [OF assms, of x] show ?thesis
    by (auto simp: Range_Contains_def CanonicalizeIP_conv)
qed

lemma Range_Contains_iff:
  assumes "range_ok L r"
  shows "Range_Contains r x \<longleftrightarrow> ip_len x = L \<and> rg_lo r \<le> ip_val x \<and> ip_val x \<le> rg_hi r"
  using range_okD [OF assms]
  by (auto simp: Range_Contains_conv IPNet_Contains_iff Cmp_conv sgn_if)

lemma range_plain: "range_ok L r \<Longrightarrow> rg_lo r \<le> v \<Longrightarrow> v \<le> rg_hi r \<Longrightarrow> plain L v"
  using net_clear_plain [of "rgSubnet r" v] range_okD [of L r] by auto

text \<open>Two canonical ranges of one family overlap, as \<open>Range.Overlaps\<close> tests with the four end points,
  exactly when some address belongs to both.\<close>

theorem Range_Overlaps_iff:
  assumes "range_ok L r" "range_ok L r1"
  shows "Range_Overlaps r r1 \<longleftrightarrow> (\<exists>ip. Range_Contains r ip \<and> Range_Contains r1 ip)"
proof -
  note d = range_okD [OF assms(1)] and d1 = range_okD [OF assms(2)]
  have len: "length (rgRangeStart r) = length (rgRangeStart r1)"
    using d(11) d1(11) by (metis length_be_bytes)
  have "Range_Overlaps r r1 \<longleftrightarrow> rg_lo r \<le> rg_hi r1 \<and> rg_lo r1 \<le> rg_hi r"
    using len d(5-7) d1(5-7) by (auto simp: Range_Overlaps_def Range_Contains_iff [OF assms(1)] Range_Contains_iff [OF assms(2)])
  also have "\<dots> \<longleftrightarrow> (\<exists>ip. Range_Contains r ip \<and> Range_Contains r1 ip)"
  proof
    assume h: "rg_lo r \<le> rg_hi r1 \<and> rg_lo r1 \<le> rg_hi r"
    then show "\<exists>ip. Range_Contains r ip \<and> Range_Contains r1 ip"
      using d(5-7) d1(5-7) unfolding Range_Contains_iff [OF assms(1)] Range_Contains_iff [OF assms(2)]
      by (metis le_cases order_refl)
  qed (use Range_Contains_iff [OF assms(1)] Range_Contains_iff [OF assms(2)] in auto)
  finally show ?thesis .
qed

definition ex_range :: Range where
  "ex_range = \<lparr>rgRangeStart = [10, 0, 0, 1], rgRangeEnd = [10, 0, 0, 4], rgSubnet = net_10_0_0_0_24, rgGateway = [10, 0, 0, 1]\<rparr>"

theorem Range_Overlaps_iff_witness:
  "Range_Overlaps ex_range (ex_range\<lparr>rgRangeStart := [10, 0, 0, 3]\<rparr>) \<and>
   (\<exists>ip. Range_Contains ex_range ip \<and> Range_Contains (ex_range\<lparr>rgRangeStart := [10, 0, 0, 3]\<rparr>) ip)"
proof -
  have h: "range_ok 4 ex_range" "range_ok 4 (ex_range\<lparr>rgRangeStart := [10, 0, 0, 3]\<rparr>)" by code_simp+
  have o: "Range_Overlaps ex_range (ex_range\<lparr>rgRangeStart := [10, 0, 0, 3]\<rparr>)" by code_simp
  show ?thesis using Range_Overlaps_iff [OF h] o by blast
qed

subsection \<open>Canonicalization establishes canonical ranges\<close>

lemma IP_Mask_same_width: "length ip = length m \<Longrightarrow> length ip = 4 \<or> length ip = 16 \<Longrightarrow> IP_Mask ip m = map2 (AND) ip m"
  by (auto simp: IP_Mask_def)

lemma Canonicalize_Subnet_ok:
  assumes "Canonicalize_Subnet r = Inr r1" "simpleMaskLength (ipnMask (rgSubnet r)) = Some p"
    "ipnMask (rgSubnet r) = mask_bytes (length (ipnMask (rgSubnet r))) p" "p \<le> 8 * length (ipnMask (rgSubnet r))"
  shows "wf_net (rgSubnet r1)" "rgRangeStart r1 = rgRangeStart r" "rgRangeEnd r1 = rgRangeEnd r" "rgGateway r1 = rgGateway r"
proof -
  let ?ip = "NormalizeIP (ipnIP (rgSubnet r))" and ?m = "ipnMask (rgSubnet r)"
  have h: "r1 = r\<lparr>rgSubnet := (rgSubnet r)\<lparr>ipnIP := ?ip\<rparr>\<rparr>" "length ?ip = length ?m" "IP_Equal ?ip (IP_Mask ?ip ?m)"
    "ip_len (ipnIP (rgSubnet r)) \<noteq> 0"
    using assms(1) by (auto simp: Canonicalize_Subnet_def bind_result_Inr_iff CanonicalizeIP_conv Let_def split: if_splits)
  have w: "length ?ip = 4 \<or> length ?ip = 16" using ip_len_4_16 [OF h(4)] by (simp add: ip_len_def)
  have m: "IP_Mask ?ip ?m = map2 (AND) ?ip ?m" using IP_Mask_same_width [OF h(2) w] .
  then have "map2 (AND) ?ip ?m = ?ip" using h(2,3) by (simp add: IP_Equal_def)
  moreover have "length ?ip = 16 \<Longrightarrow> To4 ?ip = []"
    using ip_len_eq_16_iff [of ?ip] by (simp add: ip_len_def)
  ultimately show "wf_net (rgSubnet r1)" using w h(2) assms(2-4) by (auto simp: h(1) wf_net_def)
  show "rgRangeStart r1 = rgRangeStart r" "rgRangeEnd r1 = rgRangeEnd r" "rgGateway r1 = rgGateway r" by (simp_all add: h(1))
qed

lemma Canonicalize_Start_ok:
  assumes "Canonicalize_Start r = Inr r1" "wf_net (rgSubnet r)" "net_clear (rgSubnet r)"
  shows "NormalizeIP (rgRangeStart r1) = rgRangeStart r1" "IPNet_Contains (rgSubnet r) (rgRangeStart r1)"
    "rgSubnet r1 = rgSubnet r" "rgRangeEnd r1 = rgRangeEnd r" "rgRangeStart r1 \<noteq> []"
    "rgRangeStart r = [] \<Longrightarrow> ip_val (rgRangeStart r1) =
       (if net_size (rgSubnet r) \<le> 2 then net_base (rgSubnet r) else net_base (rgSubnet r) + 1)"
proof -
  let ?n = "rgSubnet r" and ?L = "length (ipnIP (rgSubnet r))"
  have "NormalizeIP (rgRangeStart r1) = rgRangeStart r1 \<and> IPNet_Contains ?n (rgRangeStart r1) \<and>
      rgSubnet r1 = ?n \<and> rgRangeEnd r1 = rgRangeEnd r \<and> rgRangeStart r1 \<noteq> [] \<and>
      (rgRangeStart r = [] \<longrightarrow> ip_val (rgRangeStart r1) = (if net_size ?n \<le> 2 then net_base ?n else net_base ?n + 1))"
  proof (cases "rgRangeStart r = []")
    case False
    with assms(1) have "r1 = r\<lparr>rgRangeStart := NormalizeIP (rgRangeStart r)\<rparr>" "Range_Contains r1 (NormalizeIP (rgRangeStart r))"
      "ip_len (rgRangeStart r) \<noteq> 0"
      by (auto simp: Canonicalize_Start_def bind_result_Inr_iff CanonicalizeIP_conv Let_def split: if_splits)
    with False assms(2) show ?thesis by (simp add: Range_Contains_conv NormalizeIP_eq_Nil_iff)
  next
    case True
    define v where "v = (if net_size ?n \<le> 2 then net_base ?n else net_base ?n + 1)"
    have v: "net_base ?n \<le> v" "v < net_base ?n + net_size ?n" using net_size_pos [of ?n] by (auto simp: v_def simp del: net_size_pos)
    note p = net_clear_plain [OF assms(2,3) v]
    have l: "ip_len (ipnIP ?n) = ?L" "ip_val (ipnIP ?n) = net_base ?n" "?L \<noteq> 0"
      using wf_net_ip_len [OF assms(2)] wf_net_ip_val [OF assms(2)] wf_net_width [OF assms(2)] by auto
    have small: "IsPointToPointSubnet ?n \<or> IsSingleIPSubnet ?n \<longleftrightarrow> net_size ?n \<le> 2"
      using net_size_pos [of ?n] unfolding IsPointToPoint_wf [OF assms(2)] IsSingle_wf [OF assms(2)] by linarith
    have "ipnIP ?n = be_bytes ?L (net_base ?n)" by (simp add: net_base_def be_bytes_be_val)
    moreover have "net_size ?n > 2 \<Longrightarrow> NextIP (ipnIP ?n) = be_bytes ?L (net_base ?n + 1)"
      using NextIP_conv [of "ipnIP ?n"] l p by (simp add: v_def plain_def)
    ultimately have "r1 = r\<lparr>rgRangeStart := be_bytes ?L v\<rparr>"
      using assms(1) True l(3) by (auto simp: Canonicalize_Start_def small Let_def v_def not_le split: if_splits)
    with p v l show ?thesis
      using NormalizeIP_be_bytes [OF p] by (simp add: IPNet_Contains_iff [OF assms(2)] v_def [symmetric])
  qed
  then show "NormalizeIP (rgRangeStart r1) = rgRangeStart r1" "IPNet_Contains ?n (rgRangeStart r1)"
    "rgSubnet r1 = ?n" "rgRangeEnd r1 = rgRangeEnd r" "rgRangeStart r1 \<noteq> []"
    "rgRangeStart r = [] \<Longrightarrow> ip_val (rgRangeStart r1) = (if net_size ?n \<le> 2 then net_base ?n else net_base ?n + 1)"
    by blast+
qed

definition prefix_mask :: "ip_mask \<Rightarrow> bool" where
  "prefix_mask m \<longleftrightarrow> (case simpleMaskLength m of None \<Rightarrow> False | Some p \<Rightarrow> p \<le> 8 * length m \<and> m = mask_bytes (length m) p)"

lemma Canonicalize_End_ok:
  assumes "Canonicalize_End r = Inr r1" "wf_net (rgSubnet r)" "net_clear (rgSubnet r)"
    "IPNet_Contains (rgSubnet r) (rgRangeStart r)"
    "rgRangeEnd r = [] \<Longrightarrow> IsBroadcast (rgRangeStart r) (Some (rgSubnet r)) \<noteq> Some True"
  shows "NormalizeIP (rgRangeEnd r1) = rgRangeEnd r1 \<and> IPNet_Contains (rgSubnet r) (rgRangeEnd r1) \<and>
    ip_val (rgRangeStart r) \<le> ip_val (rgRangeEnd r1) \<and> rgSubnet r1 = rgSubnet r \<and> rgRangeStart r1 = rgRangeStart r"
proof (cases "rgRangeEnd r = []")
  case False
  with assms(1) have "r1 = r\<lparr>rgRangeEnd := NormalizeIP (rgRangeEnd r)\<rparr>" "Range_Contains r1 (NormalizeIP (rgRangeEnd r))"
    by (auto simp: Canonicalize_End_def bind_result_Inr_iff CanonicalizeIP_conv Let_def split: if_splits)
  with assms(2) show ?thesis by (simp add: Range_Contains_conv Cmp_iffs)
next
  case True
  then have r1: "r1 = r\<lparr>rgRangeEnd := LastIP (rgSubnet r)\<rparr>" using assms(1) by (simp add: Canonicalize_End_def)
  let ?n = "rgSubnet r" and ?L = "length (ipnIP (rgSubnet r))"
  define v where "v = (if ?L = 4 \<and> 2 < net_size ?n then net_base ?n + net_size ?n - 2 else net_base ?n + net_size ?n - 1)"
  have v: "net_base ?n \<le> v" "v < net_base ?n + net_size ?n"
    using net_size_pos [of ?n] by (auto simp: v_def simp del: net_size_pos)
  note p = net_clear_plain [OF assms(2,3) v]
  have last: "LastIP ?n = be_bytes ?L v" using LastIP_conv [OF assms(2)] by (simp add: v_def)
  have "ip_val (rgRangeStart r) \<le> v"
    using assms(4,5) True wf_net_ip_len [OF assms(2)]
    by (auto simp: v_def IPNet_Contains_iff [OF assms(2)] IsBroadcast_conv [OF assms(2)])
  then show ?thesis
    using p v wf_net_ip_len [OF assms(2)] NormalizeIP_be_bytes [OF p]
    by (simp add: r1 last IPNet_Contains_iff [OF assms(2)])
qed

lemma canonicalize_range_ok:
  assumes "Range_Canonicalize r = Inr r'" "prefix_mask (ipnMask (rgSubnet r))" "net_clear (rgSubnet r')"
    "rgRangeEnd r \<noteq> [] \<or> rgRangeStart r = [] \<or> IsBroadcast (rgRangeStart r') (Some (rgSubnet r')) = Some False"
  shows "range_ok (length (ipnIP (rgSubnet r'))) r'"
proof -
  obtain r1 r2 r3 where c: "Canonicalize_Subnet r = Inr r1" "Canonicalize_Gateway r1 = Inr r2"
    "Canonicalize_Start r2 = Inr r3" "Canonicalize_End r3 = Inr r'"
    using assms(1) by (auto simp: Range_Canonicalize_def bind_result_Inr_iff)
  obtain p where p: "simpleMaskLength (ipnMask (rgSubnet r)) = Some p" "p \<le> 8 * length (ipnMask (rgSubnet r))"
    "ipnMask (rgSubnet r) = mask_bytes (length (ipnMask (rgSubnet r))) p"
    using assms(2) unfolding prefix_mask_def by (cases "simpleMaskLength (ipnMask (rgSubnet r))") (simp, force)
  note r1 = Canonicalize_Subnet_ok [OF c(1) p(1,3,2)]
  have r2: "rgSubnet r2 = rgSubnet r1" "rgRangeStart r2 = rgRangeStart r1" "rgRangeEnd r2 = rgRangeEnd r1"
    using c(2) by (auto simp: Canonicalize_Gateway_def bind_result_Inr_iff split: if_splits)
  have sub: "rgSubnet r' = rgSubnet r3" "rgRangeStart r' = rgRangeStart r3"
    using c(4) by (auto simp: Canonicalize_End_def bind_result_Inr_iff Let_def split: if_splits)
  have "rgSubnet r3 = rgSubnet r2"
    using c(3) by (auto simp: Canonicalize_Start_def bind_result_Inr_iff Let_def split: if_splits)
  then have wf: "wf_net (rgSubnet r2)" "net_clear (rgSubnet r2)" using r1(1) r2(1) sub(1) assms(3) by simp_all
  note r3 = Canonicalize_Start_ok [OF c(3) wf]
  have nb: "IsBroadcast (rgRangeStart r3) (Some (rgSubnet r3)) \<noteq> Some True" if "rgRangeEnd r3 = []"
  proof (cases "rgRangeStart r = []")
    case True
    then show ?thesis using r3(6) r1(2) r2(2) wf(1) by (auto simp: IsBroadcast_conv r3(3) split: if_splits)
  next
    case False
    then show ?thesis using assms(4) that sub r3(4) r2(3) r1(3) by auto
  qed
  from Canonicalize_End_ok [OF c(4) _ _ _ nb] r3 wf show ?thesis by (simp add: range_ok_def)
qed

text \<open>\<open>Range.Canonicalize\<close> accepts a range only if its subnet is a network address and leaves a range that is an
  interval of that subnet: start and end in normal form, both in the subnet, the start not above the end.  The
  exception is a range with no end whose start is the broadcast address of the subnet.\<close>

theorem Range_Canonicalize_ok:
  assumes "Range_Canonicalize r = Inr r'" "prefix_mask (ipnMask (rgSubnet r))" "net_clear (rgSubnet r')"
    "rgRangeEnd r \<noteq> [] \<or> rgRangeStart r = [] \<or> IsBroadcast (rgRangeStart r') (Some (rgSubnet r')) = Some False"
  shows "range_ok (length (ipnIP (rgSubnet r'))) r'"
  by (rule canonicalize_range_ok [OF assms])

theorem Range_Canonicalize_ok_witness:
  "\<exists>r'. Range_Canonicalize \<lparr>rgRangeStart = [], rgRangeEnd = [], rgSubnet = net_10_0_0_0_24, rgGateway = []\<rparr> = Inr r' \<and>
     range_ok 4 r' \<and> rgRangeStart r' = [10, 0, 0, 1] \<and> rgRangeEnd r' = [10, 0, 0, 254]"
proof -
  let ?r = "\<lparr>rgRangeStart = [], rgRangeEnd = [], rgSubnet = net_10_0_0_0_24, rgGateway = []\<rparr>"
  let ?r' = "\<lparr>rgRangeStart = [10, 0, 0, 1], rgRangeEnd = [10, 0, 0, 254], rgSubnet = net_10_0_0_0_24, rgGateway = []\<rparr>"
  have c: "Range_Canonicalize ?r = Inr ?r'" by code_simp
  have m: "prefix_mask (ipnMask (rgSubnet ?r))" and n: "net_clear (rgSubnet ?r')" by code_simp+
  have l: "length (ipnIP (rgSubnet ?r')) = 4" by code_simp
  show ?thesis using Range_Canonicalize_ok [OF c m n] c unfolding l by auto
qed

text \<open>The exception is real: with the broadcast address as start and no end, the code accepts a range whose
  end precedes its start, and the iterator over it walks out of the subnet.\<close>

theorem Range_Canonicalize_inverted:
  "\<exists>r it. Range_Canonicalize \<lparr>rgRangeStart = [10, 0, 0, 255], rgRangeEnd = [], rgSubnet = net_10_0_0_0_24, rgGateway = []\<rparr> = Inr r \<and>
     Cmp (rgRangeEnd r) (rgRangeStart r) = - 1 \<and>
     RangeIter_Next 1 \<lparr>riRangeSet = [r], riRangeIdx = 0, riCur = [10, 0, 0, 255], riStartIP = [10, 0, 0, 255]\<rparr> =
       Some (Some (\<lparr>ipnIP = [10, 0, 1, 0], ipnMask = ipnMask net_10_0_0_0_24\<rparr>, []), it) \<and>
     \<not> IPNet_Contains (rgSubnet r) [10, 0, 1, 0]"
proof -
  let ?r = "\<lparr>rgRangeStart = [10, 0, 0, 255], rgRangeEnd = [10, 0, 0, 254], rgSubnet = net_10_0_0_0_24, rgGateway = []\<rparr>"
  have "Range_Canonicalize \<lparr>rgRangeStart = [10, 0, 0, 255], rgRangeEnd = [], rgSubnet = net_10_0_0_0_24, rgGateway = []\<rparr> = Inr ?r"
    "Cmp (rgRangeEnd ?r) (rgRangeStart ?r) = - 1" "\<not> IPNet_Contains (rgSubnet ?r) [10, 0, 1, 0]" by code_simp+
  moreover have "RangeIter_Next 1 \<lparr>riRangeSet = [?r], riRangeIdx = 0, riCur = [10, 0, 0, 255], riStartIP = [10, 0, 0, 255]\<rparr> =
       Some (Some (\<lparr>ipnIP = [10, 0, 1, 0], ipnMask = ipnMask net_10_0_0_0_24\<rparr>, []),
         \<lparr>riRangeSet = [?r], riRangeIdx = 0, riCur = [10, 0, 1, 0], riStartIP = [10, 0, 0, 255]\<rparr>)" by code_simp
  ultimately show ?thesis by blast
qed

subsection \<open>Canonical range sets\<close>

definition ranges_ok :: "nat \<Rightarrow> RangeSet \<Rightarrow> bool" where
  "ranges_ok L rs \<longleftrightarrow> rs \<noteq> [] \<and> (\<forall>r \<in> set rs. range_ok L r) \<and>
     sorted_wrt (\<lambda>r r1. rg_hi r < rg_lo r1 \<or> rg_hi r1 < rg_lo r) rs"

lemma Range_Overlaps_vals:
  assumes "range_ok L r" "range_ok L r1"
  shows "\<not> Range_Overlaps r r1 \<longleftrightarrow> rg_hi r < rg_lo r1 \<or> rg_hi r1 < rg_lo r"
proof -
  have len: "length (rgRangeStart r) = length (rgRangeStart r1)"
    using range_okD(11) [OF assms(1)] range_okD(11) [OF assms(2)] by (metis length_be_bytes)
  then show ?thesis
    using range_okD(5-7) [OF assms(1)] range_okD(5-7) [OF assms(2)]
    by (auto simp: Range_Overlaps_def Range_Contains_iff [OF assms(1)] Range_Contains_iff [OF assms(2)])
qed

lemma pairwise_overlap_sorted:
  "(\<forall>r \<in> set rs. range_ok L r) \<Longrightarrow> \<not> pairwise_overlap rs \<longleftrightarrow>
     sorted_wrt (\<lambda>r r1. rg_hi r < rg_lo r1 \<or> rg_hi r1 < rg_lo r) rs"
proof (induction rs)
  case Nil
  show ?case by simp
next
  case (Cons r rs)
  have "(\<exists>r1 \<in> set rs. Range_Overlaps r r1) \<longleftrightarrow> \<not> (\<forall>r1 \<in> set rs. rg_hi r < rg_lo r1 \<or> rg_hi r1 < rg_lo r)"
    using Cons.prems Range_Overlaps_vals [of L r] by auto
  with Cons show ?case by auto
qed

lemma canonicalize_ranges_list:
  "canonicalize_ranges fam rs = Inr rs' \<Longrightarrow>
   list_all2 (\<lambda>r r'. Range_Canonicalize r = Inr r') rs rs' \<and>
   (\<forall>r' \<in> set rs'. \<forall>l. fam = Some l \<longrightarrow> length (rgRangeStart r') = l) \<and>
   (\<forall>r' \<in> set rs'. length (rgRangeStart r') = length (rgRangeStart (hd rs')))"
proof (induction rs arbitrary: fam rs')
  case Nil
  then show ?case by simp
next
  case (Cons r rs)
  from Cons.prems obtain r' t where c: "Range_Canonicalize r = Inr r'" "rs' = r' # t"
    "fam = None \<or> fam = Some (length (rgRangeStart r'))"
    "canonicalize_ranges (Some (length (rgRangeStart r'))) rs = Inr t"
    by (auto simp: bind_result_Inr_iff Let_def split: if_splits)
  from Cons.IH [OF c(4)] c(1-3) show ?case by auto
qed

text \<open>\<open>RangeSet.Canonicalize\<close> succeeds only on sets whose ranges become canonical, of one address family and
  pairwise disjoint; in particular every address belongs to at most one range of the set.\<close>

theorem RangeSet_Canonicalize_ok:
  assumes "RangeSet_Canonicalize rs = Inr rs'"
    "\<forall>r \<in> set rs. prefix_mask (ipnMask (rgSubnet r)) \<and> rgRangeEnd r \<noteq> []" "\<forall>r' \<in> set rs'. net_clear (rgSubnet r')"
  shows "\<exists>L. ranges_ok L rs'"
proof -
  have c: "canonicalize_ranges None rs = Inr rs'" "\<not> pairwise_overlap rs'" "rs \<noteq> []"
    using assms(1) by (auto simp: RangeSet_Canonicalize_def bind_result_Inr_iff split: if_splits)
  note l = canonicalize_ranges_list [OF c(1)]
  have ne: "rs' \<noteq> []" using l c(3) by auto
  have ok: "range_ok (length (ipnIP (rgSubnet r'))) r'" if r': "r' \<in> set rs'" for r'
  proof -
    have a: "list_all2 (\<lambda>r r'. Range_Canonicalize r = Inr r') rs rs'" using l by blast
    obtain i where i: "i < length rs'" "rs' ! i = r'" using r' by (auto simp: in_set_conv_nth)
    with list_all2_nthD2 [OF a, of i] list_all2_lengthD [OF a]
    have "rs ! i \<in> set rs" "Range_Canonicalize (rs ! i) = Inr r'" by simp_all
    then show ?thesis using canonicalize_range_ok [of "rs ! i" r'] assms(2,3) r' by auto
  qed
  have wid: "length (ipnIP (rgSubnet r')) = length (rgRangeStart r')" if "r' \<in> set rs'" for r'
    using range_okD(11) [OF ok [OF that]] by (metis length_be_bytes)
  let ?L = "length (rgRangeStart (hd rs'))"
  have "range_ok ?L r'" if "r' \<in> set rs'" for r'
  proof -
    have "length (ipnIP (rgSubnet r')) = ?L" using wid [OF that] l that by auto
    with ok [OF that] show ?thesis by simp
  qed
  then have "\<forall>r' \<in> set rs'. range_ok ?L r'" by blast
  with pairwise_overlap_sorted [of rs' ?L] c(2) ne show ?thesis unfolding ranges_ok_def by blast
qed

theorem RangeSet_Canonicalize_ok_witness:
  "\<exists>rs'. RangeSet_Canonicalize [ex_range] = Inr rs' \<and> (\<exists>L. ranges_ok L rs')"
proof -
  have c: "RangeSet_Canonicalize [ex_range] = Inr [ex_range]" by code_simp
  have m: "\<forall>r \<in> set [ex_range]. prefix_mask (ipnMask (rgSubnet r)) \<and> rgRangeEnd r \<noteq> []"
    and n: "\<forall>r' \<in> set [ex_range]. net_clear (rgSubnet r')" by code_simp+
  show ?thesis using RangeSet_Canonicalize_ok [OF c m n] c by blast
qed

subsection \<open>The cycle of addresses\<close>

text \<open>A position is a range index and an address value.  The iterator moves over the positions in a
  cycle: through each range in ascending order, then to the next range.\<close>

type_synonym position = "nat \<times> nat"

definition pos_range :: "RangeSet \<Rightarrow> position \<Rightarrow> Range" where
  "pos_range rs p = rs ! fst p"

definition pos_ok :: "RangeSet \<Rightarrow> position \<Rightarrow> bool" where
  "pos_ok rs p \<longleftrightarrow> fst p < length rs \<and> rg_lo (pos_range rs p) \<le> snd p \<and> snd p \<le> rg_hi (pos_range rs p)"

definition pos_succ :: "RangeSet \<Rightarrow> position \<Rightarrow> position" where
  "pos_succ rs p =
     (if snd p = rg_hi (pos_range rs p)
      then (let j = (fst p + 1) mod length rs in (j, rg_lo (rs ! j)))
      else (fst p, snd p + 1))"

definition range_positions :: "RangeSet \<Rightarrow> nat \<Rightarrow> position list" where
  "range_positions rs i = map (Pair i) [rg_lo (rs ! i)..<Suc (rg_hi (rs ! i))]"

definition positions :: "RangeSet \<Rightarrow> position list" where
  "positions rs = concat (map (range_positions rs) [0..<length rs])"

definition ring :: "RangeSet \<Rightarrow> position list \<Rightarrow> bool" where
  "ring rs zs \<longleftrightarrow> zs \<noteq> [] \<and> distinct zs \<and> successively (\<lambda>p q. q = pos_succ rs p) zs \<and> pos_succ rs (last zs) = hd zs"

lemma set_positions: "set (positions rs) = {p. pos_ok rs p}"
  by (auto simp: positions_def range_positions_def pos_ok_def pos_range_def simp del: upt_Suc)

lemma ranges_ok_nth: "ranges_ok L rs \<Longrightarrow> i < length rs \<Longrightarrow> range_ok L (rs ! i)"
  by (simp add: ranges_ok_def)

lemma ranges_ok_disjoint:
  assumes "ranges_ok L rs" "i < length rs" "j < length rs" "i \<noteq> j"
  shows "rg_hi (rs ! i) < rg_lo (rs ! j) \<or> rg_hi (rs ! j) < rg_lo (rs ! i)"
proof -
  have "sorted_wrt (\<lambda>r r1. rg_hi r < rg_lo r1 \<or> rg_hi r1 < rg_lo r) rs" using assms(1) by (simp add: ranges_ok_def)
  then show ?thesis using assms(2-4) sorted_wrt_nth_less by (metis (no_types, lifting) linorder_neqE_nat)
qed

lemma pos_eq_iff:
  assumes "ranges_ok L rs" "pos_ok rs p" "pos_ok rs q"
  shows "snd p = snd q \<longleftrightarrow> p = q"
  using ranges_ok_disjoint [OF assms(1), of "fst p" "fst q"] assms(2,3)
  by (cases "fst p = fst q") (auto simp: pos_ok_def pos_range_def prod_eq_iff)

lemma pos_succ_ok:
  assumes "ranges_ok L rs" "pos_ok rs p"
  shows "pos_ok rs (pos_succ rs p)"
proof -
  have j: "(fst p + 1) mod length rs < length rs" using assms(2) by (intro mod_less_divisor) (auto simp: pos_ok_def)
  show ?thesis
    using assms(2) j range_okD(7) [OF ranges_ok_nth [OF assms(1) j]]
    by (auto simp: pos_ok_def pos_succ_def pos_range_def Let_def)
qed

lemma range_positions_chain:
  assumes "rg_lo (rs ! i) \<le> rg_hi (rs ! i)"
  shows "range_positions rs i \<noteq> []" "hd (range_positions rs i) = (i, rg_lo (rs ! i))"
    "last (range_positions rs i) = (i, rg_hi (rs ! i))"
    "successively (\<lambda>p q. q = pos_succ rs p) (range_positions rs i)"
proof -
  have *: "successively (\<lambda>p q. q = pos_succ rs p) (map (Pair i) [a..<Suc b])" if "b \<le> rg_hi (rs ! i)" for a b
    using that by (induction b) (auto simp: successively_append_iff pos_succ_def pos_range_def last_map split: if_splits)
  show "range_positions rs i \<noteq> []" "hd (range_positions rs i) = (i, rg_lo (rs ! i))"
    "last (range_positions rs i) = (i, rg_hi (rs ! i))"
    using assms by (simp_all add: range_positions_def hd_map last_map del: upt_Suc)
  show "successively (\<lambda>p q. q = pos_succ rs p) (range_positions rs i)"
    unfolding range_positions_def by (rule *) simp
qed

lemma positions_prefix_chain:
  assumes "\<And>i. i < m \<Longrightarrow> rg_lo (rs ! i) \<le> rg_hi (rs ! i)" "m \<le> length rs" "0 < m"
  shows "successively (\<lambda>p q. q = pos_succ rs p) (concat (map (range_positions rs) [0..<m])) \<and>
    concat (map (range_positions rs) [0..<m]) \<noteq> [] \<and>
    hd (concat (map (range_positions rs) [0..<m])) = (0, rg_lo (rs ! 0)) \<and>
    last (concat (map (range_positions rs) [0..<m])) = (m - 1, rg_hi (rs ! (m - 1)))"
  using assms
proof (induction m)
  case 0
  then show ?case by simp
next
  case (Suc m)
  note c = range_positions_chain [OF Suc.prems(1) [of m]]
  show ?case
  proof (cases "m = 0")
    case True
    with c show ?thesis by simp
  next
    case False
    have IH: "successively (\<lambda>p q. q = pos_succ rs p) (concat (map (range_positions rs) [0..<m]))"
      "concat (map (range_positions rs) [0..<m]) \<noteq> []"
      "hd (concat (map (range_positions rs) [0..<m])) = (0, rg_lo (rs ! 0))"
      "last (concat (map (range_positions rs) [0..<m])) = (m - 1, rg_hi (rs ! (m - 1)))"
      using Suc False by auto
    have "pos_succ rs (m - 1, rg_hi (rs ! (m - 1))) = (m, rg_lo (rs ! m))"
      using False Suc.prems(2) by (simp add: pos_succ_def pos_range_def)
    with IH c show ?thesis
      by (simp add: successively_append_iff del: concat_eq_Nil_conv)
  qed
qed

lemma positions_distinct: "distinct (positions rs)"
proof -
  have "distinct (concat (map (range_positions rs) [0..<m]))" for m
    by (induction m) (auto simp: range_positions_def distinct_map inj_on_def)
  then show ?thesis by (simp add: positions_def)
qed

lemma ring_positions:
  assumes "ranges_ok L rs"
  shows "ring rs (positions rs)"
proof -
  have "rs \<noteq> []" using assms by (simp add: ranges_ok_def)
  moreover have "rg_lo (rs ! i) \<le> rg_hi (rs ! i)" if "i < length rs" for i
    using range_okD(7) [OF ranges_ok_nth [OF assms that]] .
  ultimately show ?thesis
    using positions_prefix_chain [of "length rs" rs] positions_distinct [of rs]
    by (simp add: ring_def positions_def pos_succ_def pos_range_def)
qed

lemma ring_rotate: "ring rs (us @ vs) \<Longrightarrow> ring rs (vs @ us)"
  by (cases "us = [] \<or> vs = []") (auto simp: ring_def successively_append_iff)

text \<open>The order in which an allocation tries the positions: all of them from the first one, or, when the last
  reserved address is in the set, those after it, then those before it, then itself.\<close>

definition rr_order :: "RangeSet \<Rightarrow> net_ip \<Rightarrow> position list" where
  "rr_order rs last_ip =
     (if RangeSet_Contains rs last_ip
      then (let P = (\<lambda>p. snd p \<noteq> ip_val last_ip)
            in tl (dropWhile P (positions rs)) @ takeWhile P (positions rs) @ [hd (dropWhile P (positions rs))])
      else positions rs)"

lemma find_not_None: "find P xs \<noteq> None \<longleftrightarrow> (\<exists>x \<in> set xs. P x)"
  by (auto simp: find_None_iff)

lemma RangeSet_Contains_iff:
  assumes "ranges_ok L rs"
  shows "RangeSet_Contains rs x \<longleftrightarrow> ip_len x = L \<and> (\<exists>p. pos_ok rs p \<and> snd p = ip_val x)"
proof -
  have ok: "\<forall>r \<in> set rs. range_ok L r" and L: "L \<noteq> 0"
    using assms range_okD(3) unfolding ranges_ok_def by (blast, metis hd_in_set numeral_neq_zero)
  have "RangeSet_Contains rs x \<longleftrightarrow> ip_len x \<noteq> 0 \<and> (\<exists>r \<in> set rs. Range_Contains r (NormalizeIP x))"
    unfolding find_not_None [symmetric]
    by (auto simp: RangeSet_Contains_def RangeFor_def CanonicalizeIP_conv split: option.splits sum.splits)
  also have "\<dots> \<longleftrightarrow> ip_len x = L \<and> (\<exists>r \<in> set rs. rg_lo r \<le> ip_val x \<and> ip_val x \<le> rg_hi r)"
  proof -
    have "Range_Contains r (NormalizeIP x) \<longleftrightarrow> ip_len x = L \<and> rg_lo r \<le> ip_val x \<and> ip_val x \<le> rg_hi r" if "r \<in> set rs" for r
      using Range_Contains_iff [of L r "NormalizeIP x"] ok that by simp
    with L show ?thesis by auto
  qed
  also have "(\<exists>r \<in> set rs. rg_lo r \<le> ip_val x \<and> ip_val x \<le> rg_hi r) \<longleftrightarrow> (\<exists>p. pos_ok rs p \<and> snd p = ip_val x)"
    by (auto simp: pos_ok_def pos_range_def set_conv_nth)
  finally show ?thesis .
qed

subsection \<open>The iterator walks along the cycle\<close>

declare RangeIter_Next.simps(2) [simp del] Allocate_loop.simps(2) [simp del]

definition pos_gateway :: "nat \<Rightarrow> RangeSet \<Rightarrow> position \<Rightarrow> bool" where
  "pos_gateway L rs p \<longleftrightarrow> (let gw = rgGateway (pos_range rs p) in gw \<noteq> [] \<and> IP_Equal (be_bytes L (snd p)) gw)"

definition pos_net :: "nat \<Rightarrow> RangeSet \<Rightarrow> position \<Rightarrow> IPNet" where
  "pos_net L rs p = \<lparr>ipnIP = be_bytes L (snd p), ipnMask = ipnMask (rgSubnet (pos_range rs p))\<rparr>"

definition iter_at :: "nat \<Rightarrow> RangeSet \<Rightarrow> position \<Rightarrow> position \<Rightarrow> RangeIter \<Rightarrow> bool" where
  "iter_at L rs k p it \<longleftrightarrow> riRangeSet it = rs \<and> riRangeIdx it = fst p \<and>
     ip_len (riCur it) = L \<and> ip_val (riCur it) = snd p \<and> ip_len (riStartIP it) = L \<and> ip_val (riStartIP it) = snd k"

lemma pos_plain: "ranges_ok L rs \<Longrightarrow> pos_ok rs p \<Longrightarrow> plain L (snd p)"
  using range_plain [of L "pos_range rs p" "snd p"] by (simp add: pos_ok_def pos_range_def ranges_ok_nth)

lemma nonempty_of_len: "ip_len ip = L \<Longrightarrow> L \<noteq> 0 \<Longrightarrow> ip \<noteq> []"
  by (auto simp: ip_len_def)

text \<open>The move of \<open>Next\<close> from an address to its successor.\<close>

lemma Next_move:
  assumes ok: "ranges_ok L rs" "pos_ok rs p" and it: "riRangeSet it = rs" "riRangeIdx it = fst p"
    "ip_len (riCur it) = L" "ip_val (riCur it) = snd p" and q: "q = pos_succ rs p"
  shows "RangeIter_Next (Suc f) it =
    (let i1 = it\<lparr>riRangeIdx := fst q, riCur := be_bytes L (snd q)\<rparr>
     in if riStartIP it \<noteq> [] \<and> IP_Equal (be_bytes L (snd q)) (riStartIP it) then Some (None, i1)
        else let i2 = (if riStartIP it = [] then i1\<lparr>riStartIP := be_bytes L (snd q)\<rparr> else i1)
             in if pos_gateway L rs q then RangeIter_Next f i2
                else Some (Some (pos_net L rs q, rgGateway (pos_range rs q)), i2))"
proof -
  have idx: "fst p < length rs" using ok(2) by (simp add: pos_ok_def)
  have r: "range_ok L (rs ! fst p)" by (rule ranges_ok_nth [OF ok(1) idx])
  have L: "L \<noteq> 0" using range_okD(3) [OF r] by auto
  have cur: "riCur it \<noteq> []" by (rule nonempty_of_len [OF it(3) L])
  have eq: "IP_Equal (riCur it) (rgRangeEnd (rs ! fst p)) \<longleftrightarrow> snd p = rg_hi (rs ! fst p)"
    using range_okD(6) [OF r] L it(3,4) by (simp add: IP_Equal_iff)
  have nx: "NextIP (riCur it) = be_bytes L (snd p + 1)" if "snd p \<noteq> rg_hi (rs ! fst p)"
  proof -
    have "plain L (snd p + 1)" using range_plain [OF r, of "snd p + 1"] that ok(2) by (simp add: pos_ok_def pos_range_def)
    then show ?thesis using NextIP_conv [of "riCur it"] it(3,4) L by (simp add: plain_def)
  qed
  have wr: "rgRangeStart (rs ! j) = be_bytes L (rg_lo (rs ! j))" if "j < length rs" for j
    using range_okD(11) [OF ranges_ok_nth [OF ok(1) that]] .
  have j: "(fst p + 1) mod length rs < length rs" using idx by (intro mod_less_divisor) auto
  show ?thesis
  proof (cases "snd p = rg_hi (rs ! fst p)")
    case True
    then have "q = ((fst p + 1) mod length rs, rg_lo (rs ! ((fst p + 1) mod length rs)))"
      by (simp add: q pos_succ_def pos_range_def Let_def)
    then show ?thesis
      using idx it(1,2) cur True wr [OF j] by (simp add: RangeIter_Next.simps(2) eq Let_def pos_gateway_def pos_net_def pos_range_def)
  next
    case False
    then have "q = (fst p, snd p + 1)" by (simp add: q pos_succ_def pos_range_def)
    with False L show ?thesis
      using idx it(1,2) cur nx by (simp add: RangeIter_Next.simps(2) eq Let_def pos_gateway_def pos_net_def pos_range_def)
  qed
qed

lemma Next_at_pos:
  assumes "ranges_ok L rs" "pos_ok rs p" "pos_ok rs k" "iter_at L rs k p it"
  obtains it' where "iter_at L rs k (pos_succ rs p) it'"
    "RangeIter_Next (Suc f) it =
      (if pos_succ rs p = k then Some (None, it')
       else if pos_gateway L rs (pos_succ rs p) then RangeIter_Next f it'
       else Some (Some (pos_net L rs (pos_succ rs p), rgGateway (pos_range rs (pos_succ rs p))), it'))"
proof -
  let ?q = "pos_succ rs p"
  have q: "pos_ok rs ?q" by (rule pos_succ_ok [OF assms(1,2)])
  note pl = pos_plain [OF assms(1) q]
  have L: "L \<noteq> 0" using plain_not_0 [OF pl] .
  let ?it = "it\<lparr>riRangeIdx := fst ?q, riCur := be_bytes L (snd ?q)\<rparr>"
  have st: "riStartIP it \<noteq> []" using assms(4) L nonempty_of_len by (auto simp: iter_at_def)
  have "IP_Equal (be_bytes L (snd ?q)) (riStartIP it) \<longleftrightarrow> ?q = k"
    using assms(4) pl L pos_eq_iff [OF assms(1) q assms(3)] by (simp add: IP_Equal_iff iter_at_def)
  moreover have "iter_at L rs k ?q ?it" using assms(4) pl by (simp add: iter_at_def)
  moreover note Next_move [OF assms(1,2), of it ?q f]
  ultimately show ?thesis using that [of ?it] assms(4) st by (simp add: iter_at_def Let_def)
qed

text \<open>A path from \<open>p\<close> over \<open>xs\<close> to the start \<open>k\<close> of the cycle.\<close>

definition path :: "RangeSet \<Rightarrow> position \<Rightarrow> position list \<Rightarrow> position \<Rightarrow> bool" where
  "path rs p xs k \<longleftrightarrow> (\<forall>q \<in> set (p # xs). pos_ok rs q) \<and> pos_ok rs k \<and> k \<notin> set xs \<and>
     successively (\<lambda>p q. q = pos_succ rs p) (p # xs) \<and> pos_succ rs (last (p # xs)) = k"

lemma path_Cons: "path rs p (q # xs) k \<Longrightarrow> q = pos_succ rs p \<and> q \<noteq> k \<and> path rs q xs k"
  by (auto simp: path_def)

lemma path_Nil: "path rs p [] k \<Longrightarrow> pos_succ rs p = k"
  by (simp add: path_def)

lemma path_append: "path rs p (us @ q # xs) k \<Longrightarrow> path rs q xs k"
proof (induction us arbitrary: p)
  case Nil
  then show ?case using path_Cons by auto
next
  case (Cons u us)
  from Cons.prems have "path rs p (u # us @ q # xs) k" by simp
  then have "path rs u (us @ q # xs) k" using path_Cons by blast
  then show ?case by (rule Cons.IH)
qed

lemma Next_path:
  assumes "ranges_ok L rs"
  shows "path rs p xs k \<Longrightarrow> iter_at L rs k p it \<Longrightarrow> length xs < f \<Longrightarrow>
    \<exists>it'. case dropWhile (pos_gateway L rs) xs of
        [] \<Rightarrow> RangeIter_Next f it = Some (None, it')
      | q # ys \<Rightarrow> RangeIter_Next f it = Some (Some (pos_net L rs q, rgGateway (pos_range rs q)), it') \<and> iter_at L rs k q it'"
proof (induction xs arbitrary: p it f)
  case Nil
  then obtain g where f: "f = Suc g" by (cases f) auto
  have "pos_ok rs p" "pos_ok rs k" using Nil.prems(1) by (auto simp: path_def)
  from Next_at_pos [OF assms this Nil.prems(2), of g] obtain it' where "RangeIter_Next (Suc g) it = Some (None, it')"
    unfolding path_Nil [OF Nil.prems(1)] by (metis (full_types))
  then show ?case by (simp add: f)
next
  case (Cons q xs)
  then obtain g where f: "f = Suc g" "length xs < g" by (cases f) auto
  have c: "pos_succ rs p = q" "q \<noteq> k" "path rs q xs k" using path_Cons [OF Cons.prems(1)] by auto
  have p: "pos_ok rs p" "pos_ok rs k" using Cons.prems(1) by (auto simp: path_def)
  obtain it' where it': "iter_at L rs k q it'" "RangeIter_Next f it =
      (if pos_gateway L rs q then RangeIter_Next g it' else Some (Some (pos_net L rs q, rgGateway (pos_range rs q)), it'))"
  proof (rule Next_at_pos [OF assms p Cons.prems(2), of g])
    fix it'
    assume "iter_at L rs k (pos_succ rs p) it'"
      "RangeIter_Next (Suc g) it = (if pos_succ rs p = k then Some (None, it')
       else if pos_gateway L rs (pos_succ rs p) then RangeIter_Next g it'
       else Some (Some (pos_net L rs (pos_succ rs p), rgGateway (pos_range rs (pos_succ rs p))), it'))"
    then show thesis using c(2) f(1) that [of it'] unfolding c(1) by simp
  qed
  show ?case
  proof (cases "pos_gateway L rs q")
    case True
    then have e: "RangeIter_Next f it = RangeIter_Next g it'" using it'(2) by simp
    show ?thesis unfolding e using Cons.IH [OF c(3) it'(1) f(2)] True by simp
  next
    case False
    with it' show ?thesis by auto
  qed
qed

subsection \<open>The search\<close>

definition pos_excluded :: "nat \<Rightarrow> allocator \<Rightarrow> position \<Rightarrow> bool" where
  "pos_excluded L a p \<longleftrightarrow> (case alExclusions a of None \<Rightarrow> False | Some ex \<Rightarrow> RangeSet_Contains ex (be_bytes L (snd p)))"

text \<open>The abstract allocation: try the positions of a list in order, skip gateways and exclusions, reserve the first
  address that is not held.\<close>

fun alloc_spec ::
    "nat \<Rightarrow> allocator \<Rightarrow> string \<Rightarrow> string \<Rightarrow> string \<Rightarrow> ReservationMetadata \<Rightarrow> position list \<Rightarrow> session \<Rightarrow>
     ((alloc_error + IPConfig) \<times> session) option" where
  "alloc_spec L a t cid ifn meta [] s = Some (Inl ErrNoFreeAddresses, s)"
| "alloc_spec L a t cid ifn meta (p # ps) s =
     (if pos_gateway L (alRangeSet a) p \<or> pos_excluded L a p then alloc_spec L a t cid ifn meta ps s
      else case Reserve t (alPoolKey a) cid ifn meta (be_bytes L (snd p)) s of
             None \<Rightarrow> None
           | Some (None, s') \<Rightarrow>
               Some (Inr \<lparr>icAddress = pos_net L (alRangeSet a) p, icGateway = rgGateway (pos_range (alRangeSet a) p)\<rparr>, s')
           | Some (Some e, s') \<Rightarrow>
               if e = ErrIPAlreadyReserved then alloc_spec L a t cid ifn meta ps s' else Some (Inl (SessionError e), s'))"

lemma alloc_spec_skip_gateways:
  "alloc_spec L a t cid ifn meta xs s = alloc_spec L a t cid ifn meta (dropWhile (pos_gateway L (alRangeSet a)) xs) s"
  by (induction xs) auto

lemma Allocate_loop_step:
  assumes "RangeIter_Next (Suc f) it = Some (Some (pos_net L (alRangeSet a) q, rgGateway (pos_range (alRangeSet a) q)), it')"
    "\<not> pos_gateway L (alRangeSet a) q"
    "\<And>s. Allocate_loop f a t cid ifn meta it' s = alloc_spec L a t cid ifn meta ys s"
  shows "Allocate_loop (Suc f) a t cid ifn meta it s = alloc_spec L a t cid ifn meta (q # ys) s"
proof -
  have ip: "ipnIP (pos_net L (alRangeSet a) q) = be_bytes L (snd q)" by (simp add: pos_net_def)
  show ?thesis
    unfolding Allocate_loop.simps(2) assms(1) alloc_spec.simps(2) pos_excluded_def
    by (simp add: ip assms(2,3) split: option.split)
qed

lemma Allocate_loop_from:
  assumes "ranges_ok L (alRangeSet a)" "path (alRangeSet a) p xs k" "iter_at L (alRangeSet a) k p it'" "length xs < h"
    "RangeIter_Next (Suc g) it = RangeIter_Next h it'"
    "\<And>q ys it'' s. path (alRangeSet a) q ys k \<Longrightarrow> iter_at L (alRangeSet a) k q it'' \<Longrightarrow> length ys < length xs \<Longrightarrow>
       Allocate_loop g a t cid ifn meta it'' s = alloc_spec L a t cid ifn meta ys s"
  shows "Allocate_loop (Suc g) a t cid ifn meta it s = alloc_spec L a t cid ifn meta xs s"
proof -
  let ?rs = "alRangeSet a" and ?d = "dropWhile (pos_gateway L (alRangeSet a)) xs"
  obtain it'' where n: "case ?d of [] \<Rightarrow> RangeIter_Next (Suc g) it = Some (None, it'')
      | q # ys \<Rightarrow> RangeIter_Next (Suc g) it = Some (Some (pos_net L ?rs q, rgGateway (pos_range ?rs q)), it'') \<and> iter_at L ?rs k q it''"
    using Next_path [OF assms(1-4)] unfolding assms(5) by blast
  have "Allocate_loop (Suc g) a t cid ifn meta it s = alloc_spec L a t cid ifn meta ?d s"
  proof (cases ?d)
    case Nil
    then have "RangeIter_Next (Suc g) it = Some (None, it'')" using n unfolding Nil by simp
    then show ?thesis unfolding Nil by (simp add: Allocate_loop.simps(2))
  next
    case (Cons q ys)
    have xs: "xs = takeWhile (pos_gateway L ?rs) xs @ q # ys" using Cons takeWhile_dropWhile_id [of _ xs] by metis
    have path: "path ?rs q ys k" using assms(2) by (subst (asm) xs) (rule path_append)
    have "length (takeWhile (pos_gateway L ?rs) xs @ q # ys) = length xs" using xs by simp
    then have len: "length ys < length xs" by simp
    have ng: "\<not> pos_gateway L ?rs q" using Cons hd_dropWhile [of "pos_gateway L ?rs" xs] by simp
    have n': "RangeIter_Next (Suc g) it = Some (Some (pos_net L ?rs q, rgGateway (pos_range ?rs q)), it'')"
      "iter_at L ?rs k q it''" using n Cons by auto
    from Allocate_loop_step [OF n'(1) ng assms(6) [OF path n'(2) len]] show ?thesis unfolding Cons .
  qed
  then show ?thesis by (simp flip: alloc_spec_skip_gateways)
qed

lemma Allocate_loop_path:
  assumes "ranges_ok L (alRangeSet a)"
  shows "path (alRangeSet a) p xs k \<Longrightarrow> iter_at L (alRangeSet a) k p it \<Longrightarrow> length xs < f \<Longrightarrow>
    Allocate_loop f a t cid ifn meta it s = alloc_spec L a t cid ifn meta xs s"
proof (induction "length xs" arbitrary: xs p it f s rule: less_induct)
  case less
  obtain g where f: "f = Suc g" "length xs \<le> g" using less.prems(3) by (cases f) auto
  show ?case
    unfolding f(1)
    by (rule Allocate_loop_from [OF assms less.prems(1,2), of "Suc g"]) (use f less.hyps in auto)
qed

lemma ring_path:
  assumes "ring rs (k # xs)" "\<forall>p \<in> set (k # xs). pos_ok rs p"
  shows "path rs k xs k"
  using assms by (simp add: path_def ring_def)

text \<open>The first call of \<open>Next\<close> reaches the first position of the order.\<close>

lemma Allocate_loop_first:
  assumes "ranges_ok L (alRangeSet a)" "ring (alRangeSet a) (k # xs)" "\<forall>p \<in> set (k # xs). pos_ok (alRangeSet a) p"
    "length xs + 1 < f" "iter_at L (alRangeSet a) k k it'"
    "\<And>g. RangeIter_Next (Suc g) it = (if pos_gateway L (alRangeSet a) k then RangeIter_Next g it'
       else Some (Some (pos_net L (alRangeSet a) k, rgGateway (pos_range (alRangeSet a) k)), it'))"
  shows "Allocate_loop f a t cid ifn meta it s = alloc_spec L a t cid ifn meta (k # xs) s"
proof -
  obtain g where f: "f = Suc g" "length xs < g" using assms(4) by (cases f) auto
  have path: "path (alRangeSet a) k xs k" by (rule ring_path [OF assms(2,3)])
  note loop = Allocate_loop_path [OF assms(1)]
  show ?thesis
  proof (cases "pos_gateway L (alRangeSet a) k")
    case False
    then show ?thesis
      unfolding f(1) using Allocate_loop_step [of g it L a k it'] assms(6) loop [OF path assms(5) f(2)] by simp
  next
    case True
    have "Allocate_loop (Suc g) a t cid ifn meta it s = alloc_spec L a t cid ifn meta xs s"
      by (rule Allocate_loop_from [OF assms(1) path assms(5) f(2)]) (use True assms(6) loop f(2) in auto)
    with True show ?thesis by (simp add: f(1))
  qed
qed

lemma find_range_index_Some:
  "find_range_index i x rs = Some j \<Longrightarrow> i \<le> j \<and> j - i < length rs \<and> Range_Contains (rs ! (j - i)) x"
proof (induction rs arbitrary: i)
  case (Cons r rs)
  show ?case
  proof (cases "Range_Contains r x")
    case True
    with Cons.prems show ?thesis by simp
  next
    case False
    with Cons.prems Cons.IH [of "i + 1"] have "i + 1 \<le> j" "j - (i + 1) < length rs" "Range_Contains (rs ! (j - (i + 1))) x" by auto
    moreover from this(1) obtain m where "j = i + Suc m" by (metis add.assoc le_iff_add plus_1_eq_Suc)
    ultimately show ?thesis by simp
  qed
qed simp

lemma find_range_index_None: "find_range_index i x rs = None \<Longrightarrow> r \<in> set rs \<Longrightarrow> \<not> Range_Contains r x"
  by (induction rs arbitrary: i) (auto split: if_splits)

lemma getIter_start:
  assumes "session_ok s" "GetLastReservedIP (alPoolKey a) s = Some ls" "alRangeSet a \<noteq> []"
    "\<not> RangeSet_Contains (alRangeSet a) ls"
  shows "getIter a s = Some \<lparr>riRangeSet = alRangeSet a, riRangeIdx = 0, riCur = [], riStartIP = rgRangeStart (hd (alRangeSet a))\<rparr>"
  using assms by (simp add: getIter_def Let_def)

lemma getIter_last:
  assumes ok: "ranges_ok L (alRangeSet a)" and "GetLastReservedIP (alPoolKey a) s = Some ls" "RangeSet_Contains (alRangeSet a) ls"
  obtains p where "pos_ok (alRangeSet a) p" "snd p = ip_val ls" "ip_len ls = L"
    "getIter a s = Some \<lparr>riRangeSet = alRangeSet a, riRangeIdx = fst p, riCur = ls, riStartIP = []\<rparr>"
proof -
  obtain q where q: "ip_len ls = L" "pos_ok (alRangeSet a) q" "snd q = ip_val ls"
    using assms(3) RangeSet_Contains_iff [OF ok] by blast
  have r: "range_ok L (pos_range (alRangeSet a) q)" using ranges_ok_nth [OF ok] q(2) by (simp add: pos_ok_def pos_range_def)
  have "Range_Contains (pos_range (alRangeSet a) q) ls"
    using Range_Contains_iff [OF r] q by (simp add: pos_ok_def)
  moreover have "pos_range (alRangeSet a) q \<in> set (alRangeSet a)" using q(2) by (simp add: pos_ok_def pos_range_def)
  ultimately obtain i where i: "find_range_index 0 ls (alRangeSet a) = Some i"
    using find_range_index_None by (metis not_None_eq)
  from find_range_index_Some [OF i] have i': "i < length (alRangeSet a)" "Range_Contains (alRangeSet a ! i) ls" by auto
  have "pos_ok (alRangeSet a) (i, ip_val ls)"
    using i' Range_Contains_iff [OF ranges_ok_nth [OF ok i'(1)]] by (simp add: pos_ok_def pos_range_def)
  moreover have "ls \<noteq> []" using q(1) range_okD(3) [OF r] by (auto simp: ip_len_def)
  then have "getIter a s = Some \<lparr>riRangeSet = alRangeSet a, riRangeIdx = i, riCur = ls, riStartIP = []\<rparr>"
    using assms(2,3) i by (simp add: getIter_def Let_def)
  ultimately show ?thesis using that [of "(i, ip_val ls)"] q(1) by simp
qed

lemma positions_hd: "ranges_ok L rs \<Longrightarrow> hd (positions rs) = (0, rg_lo (rs ! 0)) \<and> positions rs \<noteq> []"
  using positions_prefix_chain [of "length rs" rs] range_okD(7) [OF ranges_ok_nth [of L rs]]
  by (simp add: positions_def ranges_ok_def)

text \<open>The order after a last reserved address is a rotation of the cycle that ends with that address.\<close>

lemma rr_order_last:
  assumes ok: "ranges_ok L rs" and "RangeSet_Contains rs ls" "pos_ok rs p" "snd p = ip_val ls"
  shows "ring rs (rr_order rs ls)" "last (rr_order rs ls) = p" "set (rr_order rs ls) = set (positions rs)"
    "length (rr_order rs ls) = length (positions rs)"
proof -
  let ?P = "\<lambda>q :: position. snd q \<noteq> ip_val ls"
  let ?us = "takeWhile ?P (positions rs)" and ?d = "dropWhile ?P (positions rs)"
  have "p \<in> set (positions rs)" using assms(3) by (simp add: set_positions)
  with assms(4) have d: "?d \<noteq> []" by (auto simp: dropWhile_eq_Nil_conv)
  have hd_in: "hd ?d \<in> set (positions rs)" using d by (metis hd_in_set set_dropWhileD)
  have "snd (hd ?d) = ip_val ls" using hd_dropWhile [OF d] by simp
  then have hp: "hd ?d = p" using pos_eq_iff [OF ok _ assms(3), of "hd ?d"] hd_in assms(4) by (simp add: set_positions)
  have split: "positions rs = (?us @ [p]) @ tl ?d" using d hp by (metis append.assoc append_Cons append_Nil list.collapse takeWhile_dropWhile_id)
  have o: "rr_order rs ls = tl ?d @ ?us @ [p]" using assms(2) hp by (simp add: rr_order_def Let_def)
  show "ring rs (rr_order rs ls)"
    unfolding o using ring_rotate [of rs "?us @ [p]" "tl ?d"] ring_positions [OF ok] split by simp
  show "last (rr_order rs ls) = p" by (simp add: o)
  show "set (rr_order rs ls) = set (positions rs)" "length (rr_order rs ls) = length (positions rs)"
    using arg_cong [OF split, of set] arg_cong [OF split, of length] unfolding o by auto
qed

lemma Allocate_first_start:
  assumes ok: "ranges_ok L rs" and k: "k = (0, rg_lo (rs ! 0))"
    and it: "it = \<lparr>riRangeSet = rs, riRangeIdx = 0, riCur = [], riStartIP = st\<rparr>"
    and it': "it' = \<lparr>riRangeSet = rs, riRangeIdx = 0, riCur = rgRangeStart (rs ! 0), riStartIP = rgRangeStart (rs ! 0)\<rparr>"
  shows "iter_at L rs k k it'"
    and "RangeIter_Next (Suc g) it = (if pos_gateway L rs k then RangeIter_Next g it'
       else Some (Some (pos_net L rs k, rgGateway (pos_range rs k)), it'))"
proof -
  have r: "range_ok L (rs ! 0)" and ne: "rs \<noteq> []" using ranges_ok_nth [OF ok, of 0] ok by (auto simp: ranges_ok_def)
  show "iter_at L rs k k it'" using range_okD(5) [OF r] by (simp add: iter_at_def it' k)
  show "RangeIter_Next (Suc g) it = (if pos_gateway L rs k then RangeIter_Next g it'
       else Some (Some (pos_net L rs k, rgGateway (pos_range rs k)), it'))"
    using ne range_okD(11) [OF r]
    by (simp add: RangeIter_Next.simps(2) it it' k pos_gateway_def pos_net_def pos_range_def Let_def)
qed

lemma Allocate_conv:
  assumes ok: "ranges_ok L (alRangeSet a)" and s: "session_ok s"
    and ls: "GetLastReservedIP (alPoolKey a) s = Some ls" and fuel: "length (positions (alRangeSet a)) < fuel"
  shows "Allocate fuel a t cid ifn meta [] s = alloc_spec L a t cid ifn meta (rr_order (alRangeSet a) ls) s"
proof (cases "RangeSet_Contains (alRangeSet a) ls")
  case False
  let ?rs = "alRangeSet a"
  have o: "rr_order ?rs ls = positions ?rs" using False by (simp add: rr_order_def)
  obtain k xs where kx: "positions ?rs = k # xs" "k = (0, rg_lo (?rs ! 0))"
    using positions_hd [OF ok] by (cases "positions ?rs") auto
  have "?rs \<noteq> []" using ok by (simp add: ranges_ok_def)
  note g = getIter_start [OF s ls this False]
  have all: "\<forall>p \<in> set (k # xs). pos_ok ?rs p" using set_positions [of ?rs] kx(1) by auto
  have ring: "ring ?rs (k # xs)" using ring_positions [OF ok] kx(1) by simp
  show ?thesis
    unfolding o kx(1)
    using Allocate_loop_first [OF ok ring all _ Allocate_first_start [OF ok kx(2) refl refl]] fuel kx(1)
    by (simp add: Allocate_def g)
next
  case True
  let ?rs = "alRangeSet a"
  obtain p where p: "pos_ok ?rs p" "snd p = ip_val ls" "ip_len ls = L"
    and g: "getIter a s = Some \<lparr>riRangeSet = ?rs, riRangeIdx = fst p, riCur = ls, riStartIP = []\<rparr>"
    by (rule getIter_last [OF ok ls True])
  note o = rr_order_last [OF ok True p(1,2)]
  obtain k xs where kx: "rr_order ?rs ls = k # xs" using o(1) by (cases "rr_order ?rs ls") (auto simp: ring_def)
  have all: "\<forall>q \<in> set (k # xs). pos_ok ?rs q" using o(3) set_positions [of ?rs] kx by auto
  have k: "k = pos_succ ?rs p" using o(1,2) kx by (simp add: ring_def)
  let ?it = "\<lparr>riRangeSet = ?rs, riRangeIdx = fst p, riCur = ls, riStartIP = []\<rparr>"
  let ?it' = "\<lparr>riRangeSet = ?rs, riRangeIdx = fst k, riCur = be_bytes L (snd k), riStartIP = be_bytes L (snd k)\<rparr>"
  have at: "iter_at L ?rs k k ?it'" using pos_plain [OF ok, of k] all by (simp add: iter_at_def)
  have "RangeIter_Next (Suc m) ?it = (if pos_gateway L ?rs k then RangeIter_Next m ?it'
       else Some (Some (pos_net L ?rs k, rgGateway (pos_range ?rs k)), ?it'))" for m
    using Next_move [OF ok p(1), of ?it k m] p k by (simp add: Let_def)
  from Allocate_loop_first [OF ok _ all _ at this] show ?thesis
    unfolding kx using o(1,4) kx fuel by (simp add: Allocate_def g)
qed

subsection \<open>Allocation\<close>

text \<open>An address that an allocation may hand out.\<close>

definition usable :: "allocator \<Rightarrow> session \<Rightarrow> Range \<Rightarrow> net_ip \<Rightarrow> bool" where
  "usable a s r ip \<longleftrightarrow> Range_Contains r ip \<and> \<not> (rgGateway r \<noteq> [] \<and> IP_Equal ip (rgGateway r)) \<and>
     \<not> (case alExclusions a of None \<Rightarrow> False | Some ex \<Rightarrow> RangeSet_Contains ex ip) \<and> \<not> ssn_blocked s (alPoolKey a) ip"

definition pos_usable :: "nat \<Rightarrow> allocator \<Rightarrow> session \<Rightarrow> position \<Rightarrow> bool" where
  "pos_usable L a s p \<longleftrightarrow> usable a s (pos_range (alRangeSet a) p) (be_bytes L (snd p))"

lemma pos_usable_conv:
  assumes "ranges_ok L (alRangeSet a)" "pos_ok (alRangeSet a) p"
  shows "pos_usable L a s p \<longleftrightarrow> \<not> pos_gateway L (alRangeSet a) p \<and> \<not> pos_excluded L a p \<and> \<not> ssn_blocked s (alPoolKey a) (be_bytes L (snd p))"
proof -
  have r: "range_ok L (pos_range (alRangeSet a) p)" using ranges_ok_nth [OF assms(1)] assms(2) by (simp add: pos_ok_def pos_range_def)
  have "Range_Contains (pos_range (alRangeSet a) p) (be_bytes L (snd p))"
    using assms(2) pos_plain [OF assms] by (simp add: Range_Contains_iff [OF r] pos_ok_def)
  then show ?thesis by (simp add: pos_usable_def usable_def pos_gateway_def pos_excluded_def Let_def)
qed

text \<open>The outcome of the abstract allocation over a list of positions.\<close>

definition alloc_outcome ::
    "nat \<Rightarrow> allocator \<Rightarrow> string \<Rightarrow> string \<Rightarrow> string \<Rightarrow> ReservationMetadata \<Rightarrow> session \<Rightarrow> position list \<Rightarrow>
     ((alloc_error + IPConfig) \<times> session) option \<Rightarrow> bool" where
  "alloc_outcome L a t cid ifn meta s ps res \<longleftrightarrow>
    (\<exists>us p vs s'. ps = us @ p # vs \<and> pos_usable L a s p \<and> (\<forall>q \<in> set us. \<not> pos_usable L a s q) \<and>
       Reserve t (alPoolKey a) cid ifn meta (be_bytes L (snd p)) s = Some (None, s') \<and>
       res = Some (Inr \<lparr>icAddress = pos_net L (alRangeSet a) p, icGateway = rgGateway (pos_range (alRangeSet a) p)\<rparr>, s')) \<or>
    (\<forall>q \<in> set ps. \<not> pos_usable L a s q) \<and> res = Some (Inl ErrNoFreeAddresses, s) \<or>
    map_of (ssn_entries s (alPoolKey a)) (getKey cid ifn) \<noteq> None \<and>
       res = Some (Inl (SessionError ErrReservationAlreadyExist), s)"

lemma alloc_outcome_skip:
  assumes "alloc_outcome L a t cid ifn meta s ps res" "\<not> pos_usable L a s p"
  shows "alloc_outcome L a t cid ifn meta s (p # ps) res"
  using assms(1) [unfolded alloc_outcome_def]
proof (elim disjE exE conjE)
  fix us p' vs s'
  assume "ps = us @ p' # vs" "pos_usable L a s p'" "\<forall>q \<in> set us. \<not> pos_usable L a s q"
    "Reserve t (alPoolKey a) cid ifn meta (be_bytes L (snd p')) s = Some (None, s')"
    "res = Some (Inr \<lparr>icAddress = pos_net L (alRangeSet a) p', icGateway = rgGateway (pos_range (alRangeSet a) p')\<rparr>, s')"
  with assms(2) show ?thesis
    unfolding alloc_outcome_def by (intro disjI1 exI [of _ "p # us"] exI [of _ p'] exI [of _ vs] exI [of _ s']) simp
qed (use assms(2) in \<open>simp_all add: alloc_outcome_def\<close>)

lemma alloc_spec_outcome:
  assumes "ranges_ok L (alRangeSet a)" "session_ok s"
  shows "\<forall>p \<in> set ps. pos_ok (alRangeSet a) p \<Longrightarrow>
    alloc_outcome L a t cid ifn meta s ps (alloc_spec L a t cid ifn meta ps s)"
proof (induction ps)
  case Nil
  show ?case by (simp add: alloc_outcome_def)
next
  case (Cons p ps)
  let ?ip = "be_bytes L (snd p)" and ?key = "map_of (ssn_entries s (alPoolKey a)) (getKey cid ifn)"
  let ?skip = "pos_gateway L (alRangeSet a) p \<or> pos_excluded L a p"
  have IH: "alloc_outcome L a t cid ifn meta s ps (alloc_spec L a t cid ifn meta ps s)" using Cons by simp
  note u = pos_usable_conv [OF assms(1), of p s]
  consider (skip) "alloc_spec L a t cid ifn meta (p # ps) s = alloc_spec L a t cid ifn meta ps s" "\<not> pos_usable L a s p"
    | (exist) "\<not> ?skip" "?key \<noteq> None" | (free) "\<not> ?skip" "?key = None" "\<not> ssn_blocked s (alPoolKey a) ?ip"
    using u Cons.prems Reserve_fail(2) [OF assms(2), of "alPoolKey a" cid ifn ?ip t meta] by (cases ?skip; cases ?key) auto
  then show ?case
  proof cases
    case skip
    then show ?thesis using alloc_outcome_skip [OF IH] by simp
  next
    case exist
    then show ?thesis using Reserve_fail(1) [OF assms(2) exist(2), of t meta ?ip] by (simp add: alloc_outcome_def)
  next
    case free
    obtain s' where "Reserve t (alPoolKey a) cid ifn meta ?ip s = Some (None, s')"
      using Reserve_ok [OF assms(2) free(2,3), of t meta] by blast
    with free u Cons.prems show ?thesis
      unfolding alloc_outcome_def by (intro disjI1 exI [of _ "[]"] exI [of _ p] exI [of _ ps] exI [of _ s']) auto
  qed
qed

lemma usable_pos:
  assumes "ranges_ok L (alRangeSet a)" "r \<in> set (alRangeSet a)" "usable a s r ip"
  shows "\<exists>p. pos_ok (alRangeSet a) p \<and> pos_range (alRangeSet a) p = r \<and> NormalizeIP ip = be_bytes L (snd p)"
proof -
  obtain i where i: "i < length (alRangeSet a)" "alRangeSet a ! i = r" using assms(2) by (auto simp: in_set_conv_nth)
  have r: "range_ok L r" using assms(1,2) by (simp add: ranges_ok_def)
  have c: "Range_Contains r ip" using assms(3) by (simp add: usable_def)
  then have "NormalizeIP ip = be_bytes L (ip_val ip)" using NormalizeIP_conv [of ip] by (simp add: Range_Contains_iff [OF r])
  with i c show ?thesis by (intro exI [of _ "(i, ip_val ip)"]) (simp add: pos_ok_def pos_range_def Range_Contains_iff [OF r])
qed

lemma IP_Equal_Normalize:
  assumes "ip_len ip \<noteq> 0"
  shows "IP_Equal (NormalizeIP ip) x = IP_Equal ip x"
proof (cases "ip_len x = 0")
  case False
  with assms show ?thesis by (simp add: IP_Equal_iff)
next
  case True
  have "length ip = 4 \<or> length ip = 16" using assms by (simp add: ip_len_width [symmetric])
  moreover have "length (NormalizeIP ip) = 4 \<or> length (NormalizeIP ip) = 16" using ip_len_4_16 [OF assms] by (simp add: ip_len_def)
  moreover have "length x \<noteq> 4" "length x \<noteq> 16" using True ip_len_width [of x] by auto
  ultimately show ?thesis by (auto simp: IP_Equal_def)
qed

lemma rr_order_set:
  assumes "ranges_ok L rs"
  shows "set (rr_order rs ls) = set (positions rs)"
proof (cases "RangeSet_Contains rs ls")
  case True
  then obtain p where "pos_ok rs p" "snd p = ip_val ls" using RangeSet_Contains_iff [OF assms] by blast
  then show ?thesis by (rule rr_order_last [OF assms True])
qed (simp add: rr_order_def)

lemma reserved_lookup:
  assumes "session_ok s" "Reserve t pk cid ifn meta ip s = Some (None, s')"
  shows "session_ok s'" "GetReservationByID pk cid ifn s' = Some (Some (new_reservation t cid ifn meta ip))"
proof -
  have c: "map_of (ssn_entries s pk) (getKey cid ifn) = None" "\<not> ssn_blocked s pk ip"
    using Reserve_fail [OF assms(1), where pk = pk and cid = cid and ifn = ifn and t = t and meta = meta and ip = ip] assms(2)
    by (auto, force)
  obtain s'' where s'': "Reserve t pk cid ifn meta ip s = Some (None, s'')" "session_ok s''"
    "ssn_entries s'' pk = AList.update (getKey cid ifn) (new_reservation t cid ifn meta ip) (ssn_entries s pk)"
    by (rule Reserve_ok [OF assms(1) c, of t meta])
  then show "session_ok s'" "GetReservationByID pk cid ifn s' = Some (Some (new_reservation t cid ifn meta ip))"
    using assms(2) by (auto simp: GetReservationByID_conv AList.update_conv' IsReleased_def new_reservation_def)
qed

lemma RangeSet_Contains_Normalize [simp]: "RangeSet_Contains ex (NormalizeIP ip) = RangeSet_Contains ex ip"
  by (simp add: RangeSet_Contains_def RangeFor_def CanonicalizeIP_conv)

lemma Range_Contains_Normalize [simp]: "Range_Contains r (NormalizeIP ip) = Range_Contains r ip"
  by (simp add: Range_Contains_def CanonicalizeIP_conv)

lemma usable_Normalize:
  assumes "ip_len ip \<noteq> 0"
  shows "usable a s r (NormalizeIP ip) = usable a s r ip"
  using IP_Equal_Normalize [OF assms] by (simp add: usable_def ssn_blocked_def split: option.split)

lemma no_usable:
  assumes "ranges_ok L (alRangeSet a)" "\<forall>p. pos_ok (alRangeSet a) p \<longrightarrow> \<not> pos_usable L a s p"
  shows "\<not> (\<exists>r ip. r \<in> set (alRangeSet a) \<and> usable a s r ip)"
proof
  assume "\<exists>r ip. r \<in> set (alRangeSet a) \<and> usable a s r ip"
  then obtain r ip where u: "r \<in> set (alRangeSet a)" "usable a s r ip" by blast
  obtain p where p: "pos_ok (alRangeSet a) p" "pos_range (alRangeSet a) p = r" "NormalizeIP ip = be_bytes L (snd p)"
    using usable_pos [OF assms(1) u] by blast
  have "be_bytes L (snd p) \<noteq> []" using plain_not_0 [OF pos_plain [OF assms(1) p(1)]] by simp
  then have "ip_len ip \<noteq> 0" using p(3) by (simp add: ip_len_def)
  then have "pos_usable L a s p" using usable_Normalize [of ip a s r] u(2) p(2,3) by (simp add: pos_usable_def)
  with p(1) assms(2) show False by blast
qed

text \<open>C8: The search of \<open>Allocate\<close> implements the abstract round-robin allocation: on a canonical range set and a
  good session it returns (with one unit of fuel per address and one more), and what it returns is what trying the
  addresses in round-robin order from the last reserved one gives.\<close>

theorem Allocate_refines_round_robin:
  assumes "ranges_ok L (alRangeSet a)" "session_ok s" "GetLastReservedIP (alPoolKey a) s = Some ls"
    "length (positions (alRangeSet a)) < fuel"
  shows "Allocate fuel a t cid ifn meta [] s = alloc_spec L a t cid ifn meta (rr_order (alRangeSet a) ls) s \<and>
    Allocate fuel a t cid ifn meta [] s \<noteq> None"
proof -
  have ok: "\<forall>p \<in> set (rr_order (alRangeSet a) ls). pos_ok (alRangeSet a) p"
    using rr_order_set [OF assms(1), of ls] by (simp add: set_positions)
  from alloc_spec_outcome [OF assms(1,2) ok, of t cid ifn meta] Allocate_conv [OF assms] show ?thesis
    by (auto simp: alloc_outcome_def)
qed

definition ex_allocator :: allocator where
  "ex_allocator = NewIPAllocator [ex_range] None ''pool''"

theorem Allocate_refines_round_robin_witness:
  "Allocate 5 ex_allocator ''t'' ''c'' ''i'' ex_meta [] (newStore NewRoot) =
   alloc_spec 4 ex_allocator ''t'' ''c'' ''i'' ex_meta (rr_order [ex_range] []) (newStore NewRoot)"
proof -
  have h: "ranges_ok 4 (alRangeSet ex_allocator)" "session_ok (newStore NewRoot)"
    "GetLastReservedIP (alPoolKey ex_allocator) (newStore NewRoot) = Some []"
    "length (positions (alRangeSet ex_allocator)) < 5" by code_simp+
  have r: "alRangeSet ex_allocator = [ex_range]" by code_simp
  show ?thesis using Allocate_refines_round_robin [OF h, of "''t''" "''c''" "''i''" ex_meta] unfolding r by blast
qed

text \<open>C7: What a dynamic allocation returns is safe and it fails only when it must.  A returned address lies in a range
  of the pool, carries its mask and gateway, is not the gateway, not excluded, was held by nobody, and is now reserved
  for the caller.  \<open>ErrNoFreeAddresses\<close> means that no address of any range was usable; the only other failure is that
  the caller already has a reservation.  A failed allocation leaves the session unchanged.\<close>

theorem Allocate_sound_complete:
  assumes "ranges_ok L (alRangeSet a)" "session_ok s" "length (positions (alRangeSet a)) < fuel"
  shows "\<exists>res s'. Allocate fuel a t cid ifn meta [] s = Some (res, s') \<and> session_ok s' \<and>
    (case res of
       Inr cfg \<Rightarrow> \<exists>r \<in> set (alRangeSet a). usable a s r (ipnIP (icAddress cfg)) \<and>
         ipnMask (icAddress cfg) = ipnMask (rgSubnet r) \<and> icGateway cfg = rgGateway r \<and>
         GetReservationByID (alPoolKey a) cid ifn s' = Some (Some (new_reservation t cid ifn meta (ipnIP (icAddress cfg))))
     | Inl e \<Rightarrow> s' = s \<and>
         (e = ErrNoFreeAddresses \<and> \<not> (\<exists>r ip. r \<in> set (alRangeSet a) \<and> usable a s r ip) \<or>
          e = SessionError ErrReservationAlreadyExist \<and> map_of (ssn_entries s (alPoolKey a)) (getKey cid ifn) \<noteq> None))"
proof -
  let ?rs = "alRangeSet a"
  obtain ls where ls: "GetLastReservedIP (alPoolKey a) s = Some ls"
    using assms(2) by (auto simp: GetLastReservedIP_def session_ok_def)
  have ok: "\<forall>p \<in> set (rr_order ?rs ls). pos_ok ?rs p" and all: "set (rr_order ?rs ls) = {p. pos_ok ?rs p}"
    using rr_order_set [OF assms(1), of ls] by (simp_all add: set_positions)
  have out: "alloc_outcome L a t cid ifn meta s (rr_order ?rs ls) (Allocate fuel a t cid ifn meta [] s)"
    unfolding Allocate_conv [OF assms(1,2) ls assms(3)] by (rule alloc_spec_outcome [OF assms(1,2) ok])
  then show ?thesis
    unfolding alloc_outcome_def
  proof (elim disjE exE conjE)
    fix us p vs s'
    assume h: "rr_order ?rs ls = us @ p # vs" "pos_usable L a s p"
      "Reserve t (alPoolKey a) cid ifn meta (be_bytes L (snd p)) s = Some (None, s')"
      "Allocate fuel a t cid ifn meta [] s = Some (Inr \<lparr>icAddress = pos_net L ?rs p, icGateway = rgGateway (pos_range ?rs p)\<rparr>, s')"
    have "pos_ok ?rs p" using ok h(1) by simp
    then have "pos_range ?rs p \<in> set ?rs" by (simp add: pos_ok_def pos_range_def)
    with h reserved_lookup [OF assms(2) h(3)] show ?thesis by (auto simp: pos_net_def pos_usable_def)
  next
    assume h: "\<forall>q \<in> set (rr_order ?rs ls). \<not> pos_usable L a s q"
      "Allocate fuel a t cid ifn meta [] s = Some (Inl ErrNoFreeAddresses, s)"
    then show ?thesis using no_usable [OF assms(1), of s] assms(2) all by auto
  qed (use assms(2) in auto)
qed

theorem Allocate_sound_complete_witness:
  "\<exists>cfg s'. Allocate 5 ex_allocator ''t'' ''c'' ''i'' ex_meta [] (newStore NewRoot) = Some (Inr cfg, s') \<and>
     ipnIP (icAddress cfg) = [10, 0, 0, 2] \<and> (\<exists>r \<in> set [ex_range]. usable ex_allocator (newStore NewRoot) r [10, 0, 0, 2])"
proof -
  have h: "ranges_ok 4 (alRangeSet ex_allocator)" "session_ok (newStore NewRoot)"
    "length (positions (alRangeSet ex_allocator)) < 5" by code_simp+
  have r: "alRangeSet ex_allocator = [ex_range]" by code_simp
  have e: "map_option (\<lambda>(res, _). case res of Inr cfg \<Rightarrow> ipnIP (icAddress cfg) | Inl _ \<Rightarrow> [])
     (Allocate 5 ex_allocator ''t'' ''c'' ''i'' ex_meta [] (newStore NewRoot)) = Some [10, 0, 0, 2]" by code_simp
  obtain res s' where a: "Allocate 5 ex_allocator ''t'' ''c'' ''i'' ex_meta [] (newStore NewRoot) = Some (res, s')"
    and c: "case res of Inr cfg \<Rightarrow> \<exists>r \<in> set [ex_range]. usable ex_allocator (newStore NewRoot) r (ipnIP (icAddress cfg)) | Inl e \<Rightarrow> True"
    using Allocate_sound_complete [OF h, of "''t''" "''c''" "''i''" ex_meta] unfolding r by (fastforce split: sum.splits)
  with e show ?thesis by (auto split: sum.splits)
qed

text \<open>A static allocation reserves exactly the requested address, if it is in the subnet of a range and held by
  nobody, with the mask and gateway of that range, and does not move the round-robin position of the pool.  It fails,
  without changing the session, when no range has the address in its subnet, when the address is held or when the
  caller already has a reservation.\<close>

theorem allocateStaticIP_spec:
  assumes "session_ok s" "staticIP \<noteq> []"
  shows "\<exists>res s'. Allocate fuel a t cid ifn meta staticIP s = Some (res, s') \<and> session_ok s' \<and>
    GetLastReservedIP (alPoolKey a) s' = GetLastReservedIP (alPoolKey a) s \<and>
    (case res of
       Inr cfg \<Rightarrow> \<not> ssn_blocked s (alPoolKey a) staticIP \<and> ipnIP (icAddress cfg) = staticIP \<and>
         (\<exists>r \<in> set (alRangeSet a). IPNet_Contains (rgSubnet r) staticIP \<and>
            ipnMask (icAddress cfg) = ipnMask (rgSubnet r) \<and> icGateway cfg = rgGateway r) \<and>
         GetReservationByID (alPoolKey a) cid ifn s' = Some (Some (new_reservation t cid ifn meta staticIP))
     | Inl e \<Rightarrow> s' = s \<and>
         (e = NoRangeForStaticIP \<and> \<not> (\<exists>r. r \<in> set (alRangeSet a) \<and> IPNet_Contains (rgSubnet r) staticIP) \<or>
          e = SessionError ErrReservationAlreadyExist \<and> map_of (ssn_entries s (alPoolKey a)) (getKey cid ifn) \<noteq> None \<or>
          e = SessionError ErrIPAlreadyReserved \<and> ssn_blocked s (alPoolKey a) staticIP))"
proof (cases "find (\<lambda>r. IPNet_Contains (rgSubnet r) staticIP) (alRangeSet a)")
  case None
  then have "Allocate fuel a t cid ifn meta staticIP s = Some (Inl NoRangeForStaticIP, s)"
    using assms by (simp add: Allocate_def allocateStaticIP_def)
  moreover have "\<not> (\<exists>r. r \<in> set (alRangeSet a) \<and> IPNet_Contains (rgSubnet r) staticIP)" using None by (simp add: find_None_iff)
  ultimately show ?thesis using assms by auto
next
  case (Some r)
  let ?pk = "alPoolKey a"
  have r: "r \<in> set (alRangeSet a)" "IPNet_Contains (rgSubnet r) staticIP"
    using Some by (auto simp: find_Some_iff)
  obtain ls where ls: "GetLastReservedIP ?pk s = Some ls" using assms(1) by (auto simp: GetLastReservedIP_def session_ok_def)
  obtain e s1 where e: "Reserve t ?pk cid ifn meta staticIP s = Some (e, s1)"
    using node_session.reserve_total [OF assms(1)] by blast
  have fail: "s1 = s \<and> (e = Some ErrReservationAlreadyExist \<and> map_of (ssn_entries s ?pk) (getKey cid ifn) \<noteq> None \<or>
      e = Some ErrIPAlreadyReserved \<and> ssn_blocked s ?pk staticIP)" if "e \<noteq> None"
    using that e Reserve_fail [OF assms(1), where pk = ?pk and cid = cid and ifn = ifn and t = t and meta = meta and ip = staticIP]
      Reserve_ok [OF assms(1), of ?pk cid ifn staticIP t meta]
    by (cases "map_of (ssn_entries s ?pk) (getKey cid ifn) = None"; cases "ssn_blocked s ?pk staticIP") fastforce+
  show ?thesis
  proof (cases e)
    case (Some er)
    with fail e ls \<open>find _ _ = Some r\<close> assms show ?thesis by (auto simp: Allocate_def allocateStaticIP_def)
  next
    case None
    note s1 = reserved_lookup [OF assms(1) e [unfolded None]] and g = node_session.reserve_grants [OF assms(1) e [unfolded None]]
    obtain s2 where s2: "SetLastReservedIP ?pk ls s1 = Some s2" "session_ok s2"
      "\<And>k. ssn_entries s2 k = ssn_entries s1 k" "GetLastReservedIP ?pk s2 = Some ls"
      by (rule SetLastReservedIP_ok [OF s1(1), of ?pk ls]) (rule that)
    then have "GetReservationByID ?pk cid ifn s2 = Some (Some (new_reservation t cid ifn meta staticIP))"
      using s1 by (simp add: GetReservationByID_conv)
    with s2 g r ls e None \<open>find _ _ = Some r\<close> assms show ?thesis by (auto simp: Allocate_def allocateStaticIP_def)
  qed
qed

theorem allocateStaticIP_spec_witness:
  "\<exists>cfg s'. Allocate 0 ex_allocator ''t'' ''c'' ''i'' ex_meta [10, 0, 0, 9] (newStore NewRoot) = Some (Inr cfg, s') \<and>
     ipnIP (icAddress cfg) = [10, 0, 0, 9] \<and> GetLastReservedIP ''pool'' s' = Some []"
proof -
  have h: "session_ok (newStore NewRoot)" by code_simp
  have n: "[10, 0, 0, 9] \<noteq> ([] :: net_ip)" by simp
  have l: "GetLastReservedIP ''pool'' (newStore NewRoot) = Some []" and k: "alPoolKey ex_allocator = ''pool''" by code_simp+
  have e: "map_option (\<lambda>(res, _). case res of Inr cfg \<Rightarrow> True | Inl _ \<Rightarrow> False)
     (Allocate 0 ex_allocator ''t'' ''c'' ''i'' ex_meta [10, 0, 0, 9] (newStore NewRoot)) = Some True" by code_simp
  obtain res s' where a0: "Allocate 0 ex_allocator ''t'' ''c'' ''i'' ex_meta [10, 0, 0, 9] (newStore NewRoot) = Some (res, s')"
    using e by auto
  with e obtain cfg where a: "Allocate 0 ex_allocator ''t'' ''c'' ''i'' ex_meta [10, 0, 0, 9] (newStore NewRoot) = Some (Inr cfg, s')"
    by (cases res) auto
  from allocateStaticIP_spec [OF h n, of 0 ex_allocator "''t''" "''c''" "''i''" ex_meta] l k a show ?thesis by auto
qed

end
