(* ===== verification/Handlers.thy ===== *)
theory Handlers
  imports NodePools NodeAllocator
begin

text \<open>
  The gRPC handlers of the node daemon (\<open>pkg/ipam-node/handlers\<close>): \<open>Allocate\<close>, \<open>Deallocate\<close> and \<open>IsAllocated\<close>.  A
  handler validates the request, opens a session of the store, works on it and commits it or, after an error, cancels it.
  What a call gets from outside is in \<open>env\<close>: JSON encoding and decoding of the store, whether writing the file succeeds, the
  clock, whether the request was cancelled, the JSON text of a pool, and the fuel of the address search.  A handler
  returns its answer and the store; \<^const>\<open>None\<close> is a panic or spent fuel.  The store is unlocked when a handler is
  called: waiting for the lock is the caller's business.
\<close>

subsection \<open>Requests and answers\<close>

datatype PoolType = POOL_TYPE_UNSPECIFIED | POOL_TYPE_IPPOOL | POOL_TYPE_CIDRPOOL | POOL_TYPE_UNKNOWN int

record IPAMMetadata =
  mdPodName :: string
  mdPodNamespace :: string
  mdPodUid :: string
  mdDeviceId :: string

record IPAMFeatures =
  ftAllocateDefaultGateway :: bool
  ftAllocateIpWithIndex :: "int option"

record IPAMParameters =
  pmPools :: "string list"
  pmCniContainerid :: string
  pmCniIfname :: string
  pmMetadata :: "IPAMMetadata option"
  pmRequestedIps :: "string list"
  pmPoolType :: PoolType
  pmFeatures :: "IPAMFeatures option"

record AllocationInfo =
  aiPool :: string
  aiIp :: string
  aiPoolType :: PoolType
  aiGateway :: string
  aiRoutes :: "string list"

datatype grpc_code = InvalidArgument | NotFound | Internal | AlreadyExists | ResourceExhausted | Canceled

type_synonym status = "grpc_code \<times> string"

record env =
  evMarshal :: "Root \<Rightarrow> string option"
  evUnmarshal :: "string \<Rightarrow> Root option"
  evWriteOk :: bool
  evNow :: time
  evNowText :: string
  evCanceled :: bool
  evPoolString :: "Pool \<Rightarrow> string"
  evFuel :: nat

record handlers =
  hdPools :: manager
  hdReleaseCooldown :: int

subsection \<open>Validation\<close>

definition fieldIsRequiredError :: "string \<Rightarrow> status" where
  "fieldIsRequiredError field = (InvalidArgument, field @ '' is required field'')"

definition fieldsIsInvalidError :: "string \<Rightarrow> status" where
  "fieldsIsInvalidError field = (InvalidArgument, field @ '' is invalid'')"

fun first_index :: "nat \<Rightarrow> ('a \<Rightarrow> bool) \<Rightarrow> 'a list \<Rightarrow> nat option" where
  "first_index i P [] = None"
| "first_index i P (x # xs) = (if P x then Some i else first_index (i + 1) P xs)"

definition validateReq :: "IPAMParameters option \<Rightarrow> status option" where
  "validateReq req =
     (case req of
        None \<Rightarrow> Some (fieldIsRequiredError ''parameters'')
      | Some params \<Rightarrow>
          if length (pmPools params) = 0 \<or> 2 < length (pmPools params) then Some (fieldsIsInvalidError ''parameters.pools'')
          else
            (case first_index 0 (\<lambda>p. p = []) (pmPools params) of
               Some i \<Rightarrow> Some (fieldsIsInvalidError (''parameters.pools['' @ itoa (int i) @ '']''))
             | None \<Rightarrow>
                 if pmCniContainerid params = [] then Some (fieldIsRequiredError ''parameters.cni_containerid'')
                 else if pmCniIfname params = [] then Some (fieldIsRequiredError ''parameters.cni_ifname'')
                 else
                   (case pmMetadata params of
                      None \<Rightarrow> Some (fieldIsRequiredError ''parameters.metadata'')
                    | Some md \<Rightarrow>
                        if mdPodName md = [] then Some (fieldIsRequiredError ''parameters.metadata.k8s_pod_name'')
                        else if mdPodNamespace md = [] then Some (fieldIsRequiredError ''parameters.metadata.k8s_pod_namespace'')
                        else
                          (case first_index 0 (\<lambda>v. ParseIP v = []) (pmRequestedIps params) of
                             Some i \<Rightarrow> Some (fieldsIsInvalidError (''parameters.requested_ips['' @ itoa (int i) @ '']''))
                           | None \<Rightarrow>
                               if (case pmFeatures params of None \<Rightarrow> False | Some f \<Rightarrow> ftAllocateDefaultGateway f) \<and>
                                  0 < length (pmRequestedIps params)
                               then Some (InvalidArgument, ''parameters.features.allocate_default_gateway can't be used together with static IPs'')
                               else None))))"

definition setDefaultsToParams :: "IPAMParameters \<Rightarrow> IPAMParameters" where
  "setDefaultsToParams params =
     (if pmPoolType params = POOL_TYPE_UNSPECIFIED then params\<lparr>pmPoolType := POOL_TYPE_IPPOOL\<rparr> else params)"

definition poolTypeAsString :: "PoolType \<Rightarrow> string" where
  "poolTypeAsString poolType = (if poolType = POOL_TYPE_CIDRPOOL then PoolTypeCIDRPool else PoolTypeIPPool)"

definition checkReqIsCanceled :: "env \<Rightarrow> status option" where
  "checkReqIsCanceled ev = (if evCanceled ev then Some (Canceled, ''request has been canceled'') else None)"

subsection \<open>Sessions\<close>

definition openStore :: "env \<Rightarrow> store \<Rightarrow> ((status + session) \<times> store) option" where
  "openStore ev m =
     (case Open (evMarshal ev) (evUnmarshal ev) m of
        None \<Rightarrow> None
      | Some (Inl _, m') \<Rightarrow> Some (Inl (Internal, ''failed to open store''), m')
      | Some (Inr s, m') \<Rightarrow> Some (Inr s, m'))"

definition closeSession :: "env \<Rightarrow> session \<Rightarrow> status option \<Rightarrow> store \<Rightarrow> (status option \<times> store) option" where
  "closeSession ev s err m =
     (case err of
        None \<Rightarrow>
          (case Commit (evMarshal ev) (evWriteOk ev) s m of
             None \<Rightarrow> None
           | Some (Some _, _, m') \<Rightarrow> Some (Some (Internal, ''failed to close session''), m')
           | Some (None, _, m') \<Rightarrow> Some (None, m'))
      | Some e \<Rightarrow>
          (case Cancel s m of
             None \<Rightarrow> None
           | Some (_, m') \<Rightarrow> Some (Some e, m')))"

subsection \<open>Allocation in one pool\<close>

record PoolAlloc =
  paPool :: string
  paIPConfig :: IPConfig
  paRoutes :: "IPNet list"

definition pool_text :: "string \<Rightarrow> string \<Rightarrow> string" where
  "pool_text poolName poolType = ''\"'' @ poolName @ ''\", poolType \"'' @ poolType @ ''\"''"

definition poolCfgError :: "string \<Rightarrow> string \<Rightarrow> status" where
  "poolCfgError poolName poolType = (Internal, ''invalid config for pool '' @ pool_text poolName poolType)"

definition specificError :: "alloc_error \<Rightarrow> string \<Rightarrow> string \<Rightarrow> status" where
  "specificError err poolName poolType =
     (case err of
        SessionError ErrReservationAlreadyExist \<Rightarrow> (AlreadyExists, ''allocation already exist in the pool '' @ pool_text poolName poolType)
      | ErrNoFreeAddresses \<Rightarrow> (ResourceExhausted, ''no free addresses in the pool '' @ pool_text poolName poolType)
      | SessionError ErrIPAlreadyReserved \<Rightarrow> (ResourceExhausted, ''requested IP is already reserved in the pool '' @ pool_text poolName poolType)
      | _ \<Rightarrow> (Internal, ''failed to allocate IP address in pool '' @ pool_text poolName poolType))"

text \<open>The range set with one range, the start address, the subnet and the gateway; \<^const>\<open>None\<close> is an invalid pool.\<close>

definition newRangeSetAndDependenciesForPoolCfg :: "Pool \<Rightarrow> (RangeSet \<times> net_ip \<times> IPNet \<times> net_ip) option" where
  "newRangeSetAndDependenciesForPoolCfg poolCfg =
     (let rangeStart = ParseIP (plStartIP poolCfg)
      in if rangeStart = [] then None
         else
           let rangeEnd = ParseIP (plEndIP poolCfg)
           in if rangeEnd = [] then None
              else
                (case ParseCIDR (plSubnet poolCfg) of
                   None \<Rightarrow> None
                 | Some (_, subnet) \<Rightarrow>
                     if ipnIP subnet = [] \<or> ipnMask subnet = [] then None
                     else
                       let gateway = ParseIP (plGateway poolCfg)
                       in Some ([\<lparr>rgRangeStart = rangeStart, rgRangeEnd = rangeEnd, rgSubnet = subnet, rgGateway = gateway\<rparr>],
                                rangeStart, subnet, gateway)))"

definition createDefaultRoute :: "net_ip \<Rightarrow> IPNet" where
  "createDefaultRoute gateway =
     (if To4 gateway \<noteq> [] then \<lparr>ipnIP = v4InV6Prefix @ [0, 0, 0, 0], ipnMask = CIDRMask 0 32\<rparr>
      else \<lparr>ipnIP = replicate 16 0, ipnMask = CIDRMask 0 128\<rparr>)"

text \<open>\<open>bytes.Compare(a, b) < 0\<close>.\<close>

fun bytes_less :: "byte list \<Rightarrow> byte list \<Rightarrow> bool" where
  "bytes_less _ [] = False"
| "bytes_less [] (_ # _) = True"
| "bytes_less (a # as) (b # bs) = (if a = b then bytes_less as bs else a < b)"

definition ipnet_less :: "IPNet \<Rightarrow> IPNet \<Rightarrow> bool" where
  "ipnet_less a b =
     (if \<not> IP_Equal (ipnIP a) (ipnIP b) then bytes_less (ipnIP a) (ipnIP b) else bytes_less (ipnMask a) (ipnMask b))"

definition ipnet_same :: "IPNet \<Rightarrow> IPNet \<Rightarrow> bool" where
  "ipnet_same a b \<longleftrightarrow> IP_Equal (ipnIP a) (ipnIP b) \<and> ipnMask a = ipnMask b"

text \<open>\<open>slices.CompactFunc\<close> drops every element that equals its predecessor.\<close>

fun compact_after :: "('a \<Rightarrow> 'a \<Rightarrow> bool) \<Rightarrow> 'a \<Rightarrow> 'a list \<Rightarrow> 'a list" where
  "compact_after eq x [] = []"
| "compact_after eq x (y # ys) = (if eq y x then compact_after eq y ys else y # compact_after eq y ys)"

fun compact :: "('a \<Rightarrow> 'a \<Rightarrow> bool) \<Rightarrow> 'a list \<Rightarrow> 'a list" where
  "compact eq [] = []"
| "compact eq (x # xs) = x # compact_after eq x xs"

definition sortAndDedupIPNets :: "IPNet list \<Rightarrow> IPNet list" where
  "sortAndDedupIPNets ns = (if length ns = 0 then ns else compact ipnet_same (sort_Slice ipnet_less ns))"

fun parse_routes :: "PoolRoute list \<Rightarrow> status + IPNet list" where
  "parse_routes [] = Inr []"
| "parse_routes (r # rs) =
     (case ParseCIDR (plDst r) of
        None \<Rightarrow> Inl (InvalidArgument, ''unexpected Route destination format, received value: '' @ plDst r @
                  '', error: invalid CIDR address: '' @ plDst r)
      | Some (_, ipNet) \<Rightarrow> bind_result (parse_routes rs) (\<lambda>ns. Inr (ipNet # ns)))"

definition getRoutes :: "net_ip \<Rightarrow> PoolRoute list \<Rightarrow> bool \<Rightarrow> status + IPNet list" where
  "getRoutes gateway routesCfg defaultGateway =
     (if gateway = [] then Inr []
      else bind_result (parse_routes routesCfg) (\<lambda>routes.
        Inr (sortAndDedupIPNets (if defaultGateway then routes @ [createDefaultRoute gateway] else routes))))"

text \<open>The static address a request selects in a pool: a requested address of the subnet, overridden by the gateway and by
  the address with the requested index.\<close>

definition select_static ::
    "IPAMParameters \<Rightarrow> string \<Rightarrow> string \<Rightarrow> net_ip list \<Rightarrow> RangeSet \<Rightarrow> net_ip \<Rightarrow> IPNet \<Rightarrow> net_ip \<Rightarrow> status + net_ip" where
  "select_static params poolName poolType requestedIPs rangeSet rangeStart subnet gateway =
     (let selected = (case find (\<lambda>ipAddr. IPNet_Contains subnet ipAddr) requestedIPs of Some a \<Rightarrow> a | None \<Rightarrow> [])
      in case pmFeatures params of
           None \<Rightarrow> Inr selected
         | Some f \<Rightarrow>
             if ftAllocateDefaultGateway f \<and> gateway = [] then
               Inl (InvalidArgument, ''pool without gateway can't be used with allocate_default_gateway feature,pool '' @ pool_text poolName poolType)
             else
               let selected1 = (if ftAllocateDefaultGateway f then gateway else selected)
               in (case ftAllocateIpWithIndex f of
                     None \<Rightarrow> Inr selected1
                   | Some idx \<Rightarrow>
                       let outside = (InvalidArgument, ''requested IP index \"'' @ itoa idx @ ''\" is outside of the given chunk'')
                       in (case NextIPWithOffset rangeStart (Some idx) of
                             Inl _ \<Rightarrow> Inl outside
                           | Inr selectedIP \<Rightarrow>
                               if IP_Equal selectedIP gateway then
                                 Inl (InvalidArgument, ''requested IP index \"'' @ itoa idx @
                                   ''\" is the actual gateway, use allocate_default_gateway feature instead'')
                               else if \<not> RangeSet_Contains rangeSet selectedIP then Inl outside
                               else Inr selectedIP)))"

definition exclusion_ranges :: "Pool \<Rightarrow> IPNet \<Rightarrow> RangeSet" where
  "exclusion_ranges poolCfg subnet =
     map (\<lambda>e. \<lparr>rgRangeStart = ParseIP (exStartIP e), rgRangeEnd = ParseIP (exEndIP e), rgSubnet = subnet, rgGateway = []\<rparr>)
       (plExclusions poolCfg)"

definition setAllocMetadata :: "ReservationMetadata \<Rightarrow> IPAMMetadata option \<Rightarrow> ReservationMetadata" where
  "setAllocMetadata allocMeta paramsMetadata =
     (case paramsMetadata of
        None \<Rightarrow> allocMeta
      | Some md \<Rightarrow> allocMeta\<lparr>rmPodUUID := mdPodUid md, rmPodName := mdPodName md, rmPodNamespace := mdPodNamespace md,
                            rmDeviceID := mdDeviceId md\<rparr>)"

text \<open>What \<open>allocateInPool\<close> makes of the answer of the allocator.\<close>

definition finish_in_pool ::
    "IPAMParameters \<Rightarrow> string \<Rightarrow> string \<Rightarrow> Pool \<Rightarrow> (alloc_error + IPConfig) \<times> session \<Rightarrow> (status + PoolAlloc) \<times> session" where
  "finish_in_pool params poolName poolType poolCfg answer =
     (case answer of
        (Inl err, session) \<Rightarrow> (Inl (specificError err poolName poolType), session)
      | (Inr result0, session) \<Rightarrow>
          let result = (case pmFeatures params of
                Some f \<Rightarrow> (if ftAllocateDefaultGateway f then result0\<lparr>icGateway := []\<rparr> else result0)
              | None \<Rightarrow> result0)
          in (case getRoutes (icGateway result) (plRoutes poolCfg) (plDefaultGateway poolCfg) of
                Inl e \<Rightarrow> (Inl e, session)
              | Inr routes \<Rightarrow> (Inr \<lparr>paPool = poolName, paIPConfig = result, paRoutes = routes\<rparr>, session)))"

definition allocateInPool ::
    "env \<Rightarrow> handlers \<Rightarrow> string \<Rightarrow> IPAMParameters \<Rightarrow> net_ip list \<Rightarrow> session \<Rightarrow> ((status + PoolAlloc) \<times> session) option" where
  "allocateInPool ev h poolName params requestedIPs session =
     (let poolType = poolTypeAsString (pmPoolType params);
          poolKey = GetPoolKey poolName poolType;
          fail = (\<lambda>e. Some (Inl e, session))
      in case GetPoolByKey poolKey (hdPools h) of
           None \<Rightarrow> fail (NotFound, ''configuration for pool '' @ pool_text poolName poolType @ '' not found'')
         | Some poolCfg \<Rightarrow>
             (case newRangeSetAndDependenciesForPoolCfg poolCfg of
                None \<Rightarrow> fail (poolCfgError poolName poolType)
              | Some (rangeSet0, rangeStart, subnet, gateway) \<Rightarrow>
                  (case RangeSet_Canonicalize rangeSet0 of
                     Inl _ \<Rightarrow> fail (poolCfgError poolName poolType)
                   | Inr rangeSet \<Rightarrow>
                       (case select_static params poolName poolType requestedIPs rangeSet rangeStart subnet gateway of
                          Inl e \<Rightarrow> fail e
                        | Inr selectedStaticIP \<Rightarrow>
                            let exclusionRangeSet0 = exclusion_ranges poolCfg subnet
                            in (case (if 0 < length exclusionRangeSet0 then RangeSet_Canonicalize exclusionRangeSet0 else Inr []) of
                                  Inl _ \<Rightarrow> fail (poolCfgError poolName poolType)
                                | Inr exclusionRangeSet \<Rightarrow>
                                    let alloc = NewIPAllocator rangeSet (Some exclusionRangeSet) poolKey;
                                        allocMeta = setAllocMetadata \<lparr>rmCreateTime = evNowText ev, rmPodUUID = [], rmPodName = [], rmPodNamespace = [],
                                          rmDeviceID = [], rmPoolConfigSnapshot = evPoolString ev poolCfg\<rparr> (pmMetadata params)
                                    in map_option (finish_in_pool params poolName poolType poolCfg)
                                         (Allocate (evFuel ev) alloc (evNowText ev) (pmCniContainerid params) (pmCniIfname params)
                                            allocMeta selectedStaticIP session))))))"

subsection \<open>The handlers\<close>

fun allocate_pools ::
    "env \<Rightarrow> handlers \<Rightarrow> IPAMParameters \<Rightarrow> net_ip list \<Rightarrow> string list \<Rightarrow> session \<Rightarrow> ((status + PoolAlloc list) \<times> session) option" where
  "allocate_pools ev h params requestedIPs [] session = Some (Inr [], session)"
| "allocate_pools ev h params requestedIPs (poolName # poolNames) session =
     (case allocateInPool ev h poolName params requestedIPs session of
        None \<Rightarrow> None
      | Some (Inl e, session') \<Rightarrow> Some (Inl e, session')
      | Some (Inr alloc, session') \<Rightarrow>
          (case allocate_pools ev h params requestedIPs poolNames session' of
             None \<Rightarrow> None
           | Some (Inl e, session'') \<Rightarrow> Some (Inl e, session'')
           | Some (Inr allocs, session'') \<Rightarrow> Some (Inr (alloc # allocs), session'')))"

definition handler_allocate :: "env \<Rightarrow> handlers \<Rightarrow> IPAMParameters \<Rightarrow> session \<Rightarrow> ((status + PoolAlloc list) \<times> session) option" where
  "handler_allocate ev h params session =
     (let requestedIPs = map ParseIP (pmRequestedIps params)
      in case allocate_pools ev h params requestedIPs (pmPools params) session of
           None \<Rightarrow> None
         | Some (Inl e, session') \<Rightarrow> Some (Inl e, session')
         | Some (Inr result, session') \<Rightarrow>
             (case find (\<lambda>ipAddr. \<not> (\<exists>r \<in> set result. IP_Equal (ipnIP (icAddress (paIPConfig r))) ipAddr)) requestedIPs of
                Some ipAddr \<Rightarrow>
                  Some (Inl (InvalidArgument, ''not all requested static IPs can be allocated from the ranges available on the node, ip '' @
                    IP_String ipAddr @ '' has no matching Pool''), session')
              | None \<Rightarrow> Some (Inr result, session')))"

definition allocation_info :: "PoolType \<Rightarrow> PoolAlloc \<Rightarrow> AllocationInfo" where
  "allocation_info poolType r =
     \<lparr>aiPool = paPool r, aiIp = IPNet_String (icAddress (paIPConfig r)), aiPoolType = poolType,
      aiGateway = (if icGateway (paIPConfig r) \<noteq> [] then IP_String (icGateway (paIPConfig r)) else []),
      aiRoutes = (if icGateway (paIPConfig r) \<noteq> [] then map IPNet_String (paRoutes r) else [])\<rparr>"

definition Handlers_Allocate ::
    "env \<Rightarrow> handlers \<Rightarrow> IPAMParameters option \<Rightarrow> store \<Rightarrow> ((status + AllocationInfo list) \<times> store) option" where
  "Handlers_Allocate ev h req m =
     (case validateReq req of
        Some e \<Rightarrow> Some (Inl e, m)
      | None \<Rightarrow>
          let params = setDefaultsToParams (the req)
          in (case openStore ev m of
                None \<Rightarrow> None
              | Some (Inl e, m1) \<Rightarrow> Some (Inl e, m1)
              | Some (Inr session, m1) \<Rightarrow>
                  (case checkReqIsCanceled ev of
                     Some e \<Rightarrow> map_option (\<lambda>(err, m2). (Inl (the err), m2)) (closeSession ev session (Some e) m1)
                   | None \<Rightarrow>
                       (case handler_allocate ev h params session of
                          None \<Rightarrow> None
                        | Some (result, session') \<Rightarrow>
                            (case closeSession ev session' (case result of Inl e \<Rightarrow> Some e | Inr _ \<Rightarrow> None) m1 of
                               None \<Rightarrow> None
                             | Some (Some e, m2) \<Rightarrow> Some (Inl e, m2)
                             | Some (None, m2) \<Rightarrow>
                                 (case result of
                                    Inl e \<Rightarrow> Some (Inl e, m2)
                                  | Inr allocs \<Rightarrow> Some (Inr (map (allocation_info (pmPoolType params)) allocs), m2)))))))"

fun release_pools :: "env \<Rightarrow> handlers \<Rightarrow> IPAMParameters \<Rightarrow> string list \<Rightarrow> session \<Rightarrow> session option" where
  "release_pools ev h params [] session = Some session"
| "release_pools ev h params (poolName # poolNames) session =
     (case ReleaseReservationByID (evNow ev) (GetPoolKey poolName (poolTypeAsString (pmPoolType params)))
             (pmCniContainerid params) (pmCniIfname params) (hdReleaseCooldown h) session of
        None \<Rightarrow> None
      | Some (_, session') \<Rightarrow> release_pools ev h params poolNames session')"

definition Handlers_Deallocate :: "env \<Rightarrow> handlers \<Rightarrow> IPAMParameters option \<Rightarrow> store \<Rightarrow> (status option \<times> store) option" where
  "Handlers_Deallocate ev h req m =
     (case validateReq req of
        Some e \<Rightarrow> Some (Some e, m)
      | None \<Rightarrow>
          let params = setDefaultsToParams (the req)
          in (case openStore ev m of
                None \<Rightarrow> None
              | Some (Inl e, m1) \<Rightarrow> Some (Some e, m1)
              | Some (Inr session, m1) \<Rightarrow>
                  (case checkReqIsCanceled ev of
                     Some e \<Rightarrow> closeSession ev session (Some e) m1
                   | None \<Rightarrow>
                       (case release_pools ev h params (pmPools params) session of
                          None \<Rightarrow> None
                        | Some session' \<Rightarrow> closeSession ev session' None m1))))"

fun find_pools :: "IPAMParameters \<Rightarrow> string list \<Rightarrow> session \<Rightarrow> status option option" where
  "find_pools params [] session = Some None"
| "find_pools params (poolName # poolNames) session =
     (let poolType = poolTypeAsString (pmPoolType params)
      in case GetReservationByID (GetPoolKey poolName poolType) (pmCniContainerid params) (pmCniIfname params) session of
           None \<Rightarrow> None
         | Some None \<Rightarrow> Some (Some (NotFound, ''reservation for pool '' @ pool_text poolName poolType @ '' not found''))
         | Some (Some _) \<Rightarrow> find_pools params poolNames session)"

definition Handlers_IsAllocated :: "env \<Rightarrow> IPAMParameters option \<Rightarrow> store \<Rightarrow> (status option \<times> store) option" where
  "Handlers_IsAllocated ev req m =
     (case validateReq req of
        Some e \<Rightarrow> Some (Some e, m)
      | None \<Rightarrow>
          let params = setDefaultsToParams (the req)
          in (case openStore ev m of
                None \<Rightarrow> None
              | Some (Inl e, m1) \<Rightarrow> Some (Some e, m1)
              | Some (Inr session, m1) \<Rightarrow>
                  (case checkReqIsCanceled ev of
                     Some e \<Rightarrow> closeSession ev session (Some e) m1
                   | None \<Rightarrow>
                       (case find_pools params (pmPools params) session of
                          None \<Rightarrow> None
                        | Some err \<Rightarrow> closeSession ev session err m1))))"

end
