(* ===== verification/HandlerPools.thy ===== *)
theory HandlerPools
  imports Handlers
begin

text \<open>
  Allocation in one pool: what the range set and the exclusions made from a configuration contain, what a call of the
  allocator does to the session, and the effect of \<open>allocateInPool\<close> on every branch.
\<close>

subsection \<open>Ranges of a configuration\<close>

definition canonical_range :: "Range \<Rightarrow> Range" where
  "canonical_range r = r\<lparr>rgRangeStart := NormalizeIP (rgRangeStart r), rgRangeEnd := NormalizeIP (rgRangeEnd r),
     rgGateway := NormalizeIP (rgGateway r)\<rparr>"

text \<open>A range whose ends are given and whose subnet is canonical is accepted exactly when it is an interval of the subnet.\<close>

definition interval_in :: "Range \<Rightarrow> bool" where
  "interval_in r \<longleftrightarrow> IPNet_Contains (rgSubnet r) (rgRangeStart r) \<and> IPNet_Contains (rgSubnet r) (rgRangeEnd r) \<and> rg_lo r \<le> rg_hi r"

definition given_range :: "Range \<Rightarrow> bool" where
  "given_range r \<longleftrightarrow> wf_net (rgSubnet r) \<and> ip_len (rgRangeStart r) \<noteq> 0 \<and> ip_len (rgRangeEnd r) \<noteq> 0 \<and>
     (rgGateway r = [] \<or> ip_len (rgGateway r) \<noteq> 0)"

lemma Range_Canonicalize_iff:
  assumes "given_range r"
  shows "Range_Canonicalize r = Inr r' \<longleftrightarrow> interval_in r \<and> r' = canonical_range r"
proof -
  let ?n = "rgSubnet r" and ?st = "rgRangeStart r" and ?en = "rgRangeEnd r"
  have g: "wf_net ?n" "ip_len ?st \<noteq> 0" "ip_len ?en \<noteq> 0" "rgGateway r = [] \<or> ip_len (rgGateway r) \<noteq> 0"
    using assms by (simp_all add: given_range_def)
  have ne: "?st \<noteq> []" "?en \<noteq> []" using g by auto
  note w = wf_net_ip_len [OF g(1)] wf_net_Normalize [OF g(1)] wf_net_width [OF g(1)]
  have sub: "Canonicalize_Subnet r = Inr r"
    using w wf_netD [OF g(1)] wf_net_mask_width [OF g(1)]
    by (auto simp: Canonicalize_Subnet_def CanonicalizeIP_conv Let_def IP_Mask_same_width)
  let ?r1 = "r\<lparr>rgGateway := NormalizeIP (rgGateway r)\<rparr>"
  have gw: "Canonicalize_Gateway r = Inr ?r1" using g(4) by (auto simp: Canonicalize_Gateway_def CanonicalizeIP_conv)
  let ?r2 = "?r1\<lparr>rgRangeStart := NormalizeIP ?st\<rparr>"
  have start: "Canonicalize_Start ?r1 = (if IPNet_Contains ?n ?st \<and> Cmp ?st ?en \<le> 0 then Inr ?r2 else Inl RangeStartNotInNetwork)"
    using ne g(2) by (simp add: Canonicalize_Start_def CanonicalizeIP_conv Let_def Range_Contains_conv g(1) ip_len_same_contains Cmp_conv)
  have end': "Canonicalize_End ?r2 = (if IPNet_Contains ?n ?en \<and> 0 \<le> Cmp ?en ?st then Inr (canonical_range r) else Inl RangeEndNotInNetwork)"
    using ne g(3) by (simp add: Canonicalize_End_def CanonicalizeIP_conv Let_def Range_Contains_conv g(1) ip_len_same_contains Cmp_conv canonical_range_def)
  show ?thesis
    unfolding Range_Canonicalize_def sub gw bind_result_simps start
    using g(2,3) by (auto simp: end' interval_in_def IPNet_Contains_iff [OF g(1)] Cmp_conv sgn_if split: if_splits)
qed

lemma canonical_range_simps [simp]:
  "rgSubnet (canonical_range r) = rgSubnet r" "ip_len (rgRangeStart (canonical_range r)) = ip_len (rgRangeStart r)"
  "rg_lo (canonical_range r) = rg_lo r" "rg_hi (canonical_range r) = rg_hi r" "rgGateway (canonical_range r) = NormalizeIP (rgGateway r)"
  by (simp_all add: canonical_range_def ip_val_def)

lemma canonical_range_ok:
  "given_range r \<Longrightarrow> interval_in r \<Longrightarrow> net_clear (rgSubnet r) \<Longrightarrow> range_ok (length (ipnIP (rgSubnet r))) (canonical_range r)"
  unfolding range_ok_def given_range_def interval_in_def by (simp add: canonical_range_def ip_len_same_contains ip_val_def)

lemma RangeSet_Canonicalize_single:
  assumes "given_range r"
  shows "RangeSet_Canonicalize [r] = Inr rs \<longleftrightarrow> interval_in r \<and> rs = [canonical_range r]"
  using Range_Canonicalize_iff [OF assms]
  by (auto simp: RangeSet_Canonicalize_def bind_result_Inr_iff Let_def)

text \<open>Several ranges of one subnet.\<close>

lemma canonicalize_ranges_same:
  assumes "\<forall>r \<in> set rs. given_range r \<and> rgSubnet r = n" "fam = None \<or> fam = Some (length (ipnIP n))"
  shows "canonicalize_ranges fam rs = Inr rs' \<longleftrightarrow> (\<forall>r \<in> set rs. interval_in r) \<and> rs' = map canonical_range rs"
  using assms
proof (induction rs arbitrary: fam rs')
  case Nil
  show ?case by auto
next
  case (Cons r rs)
  have r: "given_range r" "rgSubnet r = n" and rs: "\<forall>r \<in> set rs. given_range r \<and> rgSubnet r = n" using Cons.prems(1) by auto
  note c = Range_Canonicalize_iff [OF r(1)]
  have len: "length (rgRangeStart (canonical_range r)) = length (ipnIP n)" if "interval_in r"
    using that r(2) r(1) by (simp add: interval_in_def given_range_def IPNet_Contains_iff canonical_range_def ip_len_def wf_net_Normalize)
  have l: "Some (length (ipnIP n)) = None \<or> Some (length (ipnIP n)) = Some (length (ipnIP n))" by simp
  show ?case
  proof (cases "interval_in r")
    case True
    then have e: "Range_Canonicalize r = Inr (canonical_range r)" using c by blast
    have f: "(if fam = None then Some (length (ipnIP n)) else fam) = Some (length (ipnIP n))" "\<not> (fam \<noteq> None \<and> fam \<noteq> Some (length (ipnIP n)))"
      using Cons.prems(2) by auto
    have "canonicalize_ranges fam (r # rs) = bind_result (canonicalize_ranges (Some (length (ipnIP n))) rs) (\<lambda>rs'. Inr (canonical_range r # rs'))"
      unfolding canonicalize_ranges.simps e bind_result_simps Let_def len [OF True] f if_not_P [OF f(2)] ..
    then show ?thesis using Cons.IH [OF rs l] True by (auto simp: bind_result_Inr_iff)
  next
    case False
    then have "Range_Canonicalize r \<noteq> Inr x" for x using c by blast
    then show ?thesis using False by (auto simp: bind_result_Inr_iff)
  qed
qed

lemma RangeSet_Canonicalize_same:
  assumes "\<forall>r \<in> set rs. given_range r \<and> rgSubnet r = n" "net_clear n" "rs \<noteq> []"
  shows "RangeSet_Canonicalize rs = Inr rs' \<longleftrightarrow>
    (\<forall>r \<in> set rs. interval_in r) \<and> sorted_wrt (\<lambda>r r1. rg_hi r < rg_lo r1 \<or> rg_hi r1 < rg_lo r) rs \<and> rs' = map canonical_range rs"
proof -
  have ok: "\<forall>r \<in> set (map canonical_range rs). range_ok (length (ipnIP n)) r" if "\<forall>r \<in> set rs. interval_in r"
    using assms(1,2) that canonical_range_ok by auto
  show ?thesis
    using assms(3) canonicalize_ranges_same [OF assms(1), of None] pairwise_overlap_sorted [OF ok]
    by (auto simp: RangeSet_Canonicalize_def bind_result_Inr_iff sorted_wrt_map split: if_splits)
qed

lemma RangeSet_Contains_canonical:
  assumes "\<forall>r \<in> set rs. range_ok L r"
  shows "RangeSet_Contains rs x \<longleftrightarrow> (\<exists>r \<in> set rs. ip_len x = L \<and> rg_lo r \<le> ip_val x \<and> ip_val x \<le> rg_hi r)"
proof -
  have c: "Range_Contains r y \<longleftrightarrow> ip_len y = L \<and> rg_lo r \<le> ip_val y \<and> ip_val y \<le> rg_hi r" if "r \<in> set rs" for r y
    by (rule Range_Contains_iff) (use assms that in blast)
  show ?thesis
  proof (cases "ip_len x = 0")
    case True
    have "L \<noteq> 0" if "r \<in> set rs" for r using assms that range_okD(3) by fastforce
    with True show ?thesis by (auto simp: RangeSet_Contains_def RangeFor_def CanonicalizeIP_conv)
  next
    case False
    have "find (\<lambda>r. Range_Contains r (NormalizeIP x)) rs = None \<longleftrightarrow> \<not> (\<exists>r \<in> set rs. Range_Contains r x)"
      using c by (auto simp: find_None_iff ip_val_def)
    with False show ?thesis
      using c by (cases "find (\<lambda>r. Range_Contains r (NormalizeIP x)) rs") (auto simp: RangeSet_Contains_def RangeFor_def CanonicalizeIP_conv)
  qed
qed

lemma positions_single:
  assumes "range_ok L r"
  shows "length (positions [r]) = Suc (rg_hi r) - rg_lo r" "length (positions [r]) \<le> net_size (rgSubnet r)"
proof -
  have "positions [r] = map (Pair 0) [rg_lo r..<Suc (rg_hi r)]" by (simp add: positions_def range_positions_def del: upt_Suc) (simp add: range_positions_def)
  then show "length (positions [r]) = Suc (rg_hi r) - rg_lo r" by (simp del: upt_Suc)
  then show "length (positions [r]) \<le> net_size (rgSubnet r)" using range_okD(7-9) [OF assms] by linarith
qed

subsection \<open>The effect on the session\<close>

text \<open>Session \<open>s'\<close> is \<open>s\<close> with one more reservation, of an address nobody held.\<close>

definition grants :: "string \<Rightarrow> string \<Rightarrow> Reservation \<Rightarrow> session \<Rightarrow> session \<Rightarrow> bool" where
  "grants pk key r s s' \<longleftrightarrow> session_ok s' \<and> ssIsModified s' \<and> map_of (ssn_entries s pk) key = None \<and> \<not> ssn_blocked s pk (rsIPAddress r) \<and>
     ssn_entries s' pk = AList.update key r (ssn_entries s pk) \<and> (\<forall>pk'. pk' \<noteq> pk \<longrightarrow> ssn_entries s' pk' = ssn_entries s pk')"

lemma Reserve_effect:
  assumes "session_ok s" "Reserve t pk cid ifn meta ip s = Some (None, s')"
  shows "grants pk (getKey cid ifn) (new_reservation t cid ifn meta ip) s s'"
proof -
  have c: "map_of (ssn_entries s pk) (getKey cid ifn) = None" "\<not> ssn_blocked s pk ip"
    using Reserve_fail [OF assms(1), where pk = pk and cid = cid and ifn = ifn and t = t and meta = meta and ip = ip] assms(2)
    by (auto, force)
  obtain s1 where s1: "Reserve t pk cid ifn meta ip s = Some (None, s1)" "session_ok s1" "ssIsModified s1"
    "ssn_entries s1 pk = AList.update (getKey cid ifn) (new_reservation t cid ifn meta ip) (ssn_entries s pk)"
    "\<And>pk'. pk' \<noteq> pk \<Longrightarrow> getPoolData pk' (ssTmpData s1) = getPoolData pk' (ssTmpData s)"
    by (rule Reserve_ok [OF assms(1) c, of t meta]) (rule that)
  then show ?thesis using assms(2) c by (auto simp: grants_def ssn_entries_def new_reservation_def)
qed

lemma SetLast_grants:
  assumes "grants pk key r s s1" "SetLastReservedIP pk ip s1 = Some s2"
  shows "grants pk key r s s2"
proof -
  have ok: "session_ok s1" using assms(1) by (simp add: grants_def)
  obtain s' where s': "SetLastReservedIP pk ip s1 = Some s'" "session_ok s'" "\<And>k. ssn_entries s' k = ssn_entries s1 k"
    by (rule SetLastReservedIP_ok [OF ok, of pk ip]) (rule that)
  moreover have "ssIsModified s2"
    using assms(2) by (auto simp: SetLastReservedIP_def updatePoolData_def split: if_splits option.splits)
  ultimately show ?thesis using assms by (simp add: grants_def)
qed

text \<open>What \<open>IPAllocator.Allocate\<close> does to a session, for both kinds of requests.\<close>

lemma Allocate_effect:
  assumes ok: "ranges_ok L (alRangeSet a)" "session_ok s" and fuel: "length (positions (alRangeSet a)) < fuel"
  shows "\<exists>res s'. Allocate fuel a t cid ifn meta sip s = Some (res, s') \<and> session_ok s' \<and>
    (case res of
       Inl e \<Rightarrow> s' = s
     | Inr cfg \<Rightarrow> grants (alPoolKey a) (getKey cid ifn) (new_reservation t cid ifn meta (ipnIP (icAddress cfg))) s s' \<and>
         (\<exists>r \<in> set (alRangeSet a). ipnMask (icAddress cfg) = ipnMask (rgSubnet r) \<and> icGateway cfg = rgGateway r \<and>
            IPNet_Contains (rgSubnet r) (ipnIP (icAddress cfg)) \<and>
            (if sip = [] then usable a s r (ipnIP (icAddress cfg)) else ipnIP (icAddress cfg) = sip)))"
proof (cases "sip = []")
  case True
  let ?rs = "alRangeSet a"
  obtain ls where ls: "GetLastReservedIP (alPoolKey a) s = Some ls"
    using ok(2) by (auto simp: GetLastReservedIP_def session_ok_def)
  have pos: "\<forall>p \<in> set (rr_order ?rs ls). pos_ok ?rs p" using rr_order_set [OF ok(1), of ls] by (simp add: set_positions)
  have "alloc_outcome L a t cid ifn meta s (rr_order ?rs ls) (Allocate fuel a t cid ifn meta sip s)"
    unfolding True Allocate_conv [OF ok ls fuel] by (rule alloc_spec_outcome [OF ok pos])
  then show ?thesis
    unfolding alloc_outcome_def
  proof (elim disjE exE conjE)
    fix us p vs s'
    assume h: "rr_order ?rs ls = us @ p # vs" "pos_usable L a s p"
      "Reserve t (alPoolKey a) cid ifn meta (be_bytes L (snd p)) s = Some (None, s')"
      "Allocate fuel a t cid ifn meta sip s = Some (Inr \<lparr>icAddress = pos_net L ?rs p, icGateway = rgGateway (pos_range ?rs p)\<rparr>, s')"
    have "pos_ok ?rs p" using pos h(1) by simp
    then have r: "pos_range ?rs p \<in> set ?rs" by (simp add: pos_ok_def pos_range_def)
    then have "range_ok L (pos_range ?rs p)" using ok(1) by (simp add: ranges_ok_def)
    then have "IPNet_Contains (rgSubnet (pos_range ?rs p)) (be_bytes L (snd p))"
      using h(2) range_okD(1) Range_Contains_conv by (auto simp: pos_usable_def usable_def)
    with h r Reserve_effect [OF ok(2) h(3)] True show ?thesis
      by (intro exI conjI) (auto simp: pos_net_def pos_usable_def grants_def)
  qed (use ok(2) in auto)
next
  case False
  then have al: "Allocate fuel a t cid ifn meta sip s = allocateStaticIP a t cid ifn meta sip s" by (simp add: Allocate_def)
  show ?thesis
  proof (cases "find (\<lambda>r. IPNet_Contains (rgSubnet r) sip) (alRangeSet a)")
    case None
    then show ?thesis using ok(2) al by (simp add: allocateStaticIP_def)
  next
    case (Some r)
    let ?pk = "alPoolKey a"
    have r: "r \<in> set (alRangeSet a)" "IPNet_Contains (rgSubnet r) sip" using Some by (auto simp: find_Some_iff)
    obtain ls where ls: "GetLastReservedIP ?pk s = Some ls" using ok(2) by (auto simp: GetLastReservedIP_def session_ok_def)
    obtain e s1 where e: "Reserve t ?pk cid ifn meta sip s = Some (e, s1)" using node_session.reserve_total [OF ok(2)] by blast
    show ?thesis
    proof (cases e)
      case (Some er)
      then have "s1 = s"
        using e Reserve_fail [OF ok(2), where pk = ?pk and cid = cid and ifn = ifn and t = t and meta = meta and ip = sip]
          Reserve_ok [OF ok(2), of ?pk cid ifn sip t meta]
        by (cases "map_of (ssn_entries s ?pk) (getKey cid ifn) = None"; cases "ssn_blocked s ?pk sip") fastforce+
      with Some e ls ok(2) al \<open>find _ _ = Some r\<close> show ?thesis by (simp add: allocateStaticIP_def)
    next
      case None
      note g = Reserve_effect [OF ok(2) e [unfolded None]]
      have s1: "session_ok s1" using g by (simp add: grants_def)
      obtain s2 where s2: "SetLastReservedIP ?pk ls s1 = Some s2" by (rule SetLastReservedIP_ok [OF s1, of ?pk ls]) (rule that)
      note g2 = SetLast_grants [OF g s2]
      have "allocateStaticIP a t cid ifn meta sip s =
          Some (Inr \<lparr>icAddress = \<lparr>ipnIP = sip, ipnMask = ipnMask (rgSubnet r)\<rparr>, icGateway = rgGateway r\<rparr>, s2)"
        using e None ls s2 \<open>find _ _ = Some r\<close> by (simp add: allocateStaticIP_def)
      with g2 r al False show ?thesis by (auto simp: grants_def)
    qed
  qed
qed

subsection \<open>Allocation in one pool\<close>

text \<open>A configuration the address search can work with: the subnet is in its family's notation and smaller than the fuel.\<close>

definition pool_plain :: "nat \<Rightarrow> Pool \<Rightarrow> bool" where
  "pool_plain fuel cfg \<longleftrightarrow>
     (case ParseCIDR (plSubnet cfg) of None \<Rightarrow> True | Some (_, n) \<Rightarrow> wf_net n \<and> net_clear n \<and> net_size n < fuel)"

text \<open>A request that uses none of the features that select an address.  The CNI plugin always sends a features record.\<close>

definition wants_any :: "IPAMParameters \<Rightarrow> bool" where
  "wants_any params \<longleftrightarrow>
     (case pmFeatures params of None \<Rightarrow> True | Some f \<Rightarrow> \<not> ftAllocateDefaultGateway f \<and> ftAllocateIpWithIndex f = None)"

lemma select_static_any: "wants_any params \<Longrightarrow> select_static params poolName poolType [] rangeSet rangeStart subnet gateway = Inr []"
  by (auto simp: wants_any_def select_static_def split: option.splits)

text \<open>The addresses a configuration offers: those from the start to the end address that are neither the gateway nor in a
  well-formed exclusion.\<close>

definition pool_offers :: "Pool \<Rightarrow> net_ip \<Rightarrow> bool" where
  "pool_offers cfg x \<longleftrightarrow>
     (let st = ParseIP (plStartIP cfg); en = ParseIP (plEndIP cfg); gw = ParseIP (plGateway cfg)
      in ip_len x = ip_len st \<and> ip_val st \<le> ip_val x \<and> ip_val x \<le> ip_val en \<and> \<not> (gw \<noteq> [] \<and> IP_Equal x gw) \<and>
         (\<forall>e \<in> set (plExclusions cfg). ParseIP (exStartIP e) \<noteq> [] \<and> ParseIP (exEndIP e) \<noteq> [] \<longrightarrow>
            \<not> (ip_val (ParseIP (exStartIP e)) \<le> ip_val x \<and> ip_val x \<le> ip_val (ParseIP (exEndIP e)))))"

lemma RangeSet_Contains_mem:
  assumes "r \<in> set rs" "Range_Contains r x"
  shows "RangeSet_Contains rs x"
proof -
  have "ip_len x \<noteq> 0" using assms(2) by (cases "ip_len x = 0") (simp_all add: Range_Contains_def CanonicalizeIP_conv)
  moreover have "find (\<lambda>r. Range_Contains r (NormalizeIP x)) rs \<noteq> None"
    using assms by (auto simp: find_None_iff Range_Contains_Normalize)
  ultimately show ?thesis by (auto simp: RangeSet_Contains_def RangeFor_def CanonicalizeIP_conv)
qed

lemma exclusion_kept:
  assumes c: "RangeSet_Canonicalize (exclusion_ranges cfg n) = Inr ex" and n: "wf_net n" "net_clear n"
    and e: "e \<in> set (plExclusions cfg)" "ParseIP (exStartIP e) \<noteq> []" "ParseIP (exEndIP e) \<noteq> []"
    and x: "ip_len x = length (ipnIP n)" "ip_val (ParseIP (exStartIP e)) \<le> ip_val x" "ip_val x \<le> ip_val (ParseIP (exEndIP e))"
  shows "RangeSet_Contains ex x"
proof -
  let ?r = "\<lparr>rgRangeStart = ParseIP (exStartIP e), rgRangeEnd = ParseIP (exEndIP e), rgSubnet = n, rgGateway = []\<rparr>"
  have g: "given_range ?r" using n(1) e(2,3) ParseIP_len by (simp add: given_range_def)
  have mem: "?r \<in> set (exclusion_ranges cfg n)" using e(1) by (auto simp: exclusion_ranges_def)
  have "canonicalize_ranges None (exclusion_ranges cfg n) = Inr ex"
    using c by (auto simp: RangeSet_Canonicalize_def bind_result_Inr_iff split: if_splits)
  from canonicalize_ranges_list [OF this] have l: "list_all2 (\<lambda>r r'. Range_Canonicalize r = Inr r') (exclusion_ranges cfg n) ex" by blast
  obtain i where i: "i < length (exclusion_ranges cfg n)" "exclusion_ranges cfg n ! i = ?r" using mem by (auto simp: in_set_conv_nth)
  from list_all2_nthD [OF l i(1)] i(2) have r: "Range_Canonicalize ?r = Inr (ex ! i)" by simp
  have iv: "interval_in ?r" and exi: "ex ! i = canonical_range ?r" using Range_Canonicalize_iff [OF g] r by blast+
  have "range_ok (length (ipnIP n)) (ex ! i)" unfolding exi using canonical_range_ok [OF g iv] n(2) by simp
  then have "Range_Contains (ex ! i) x" using x by (simp add: Range_Contains_iff exi)
  moreover have "ex ! i \<in> set ex" using i(1) list_all2_lengthD [OF l] by simp
  ultimately show ?thesis by (rule RangeSet_Contains_mem [rotated])
qed

lemma IP_Equal_gw: "ip_len y \<noteq> 0 \<Longrightarrow> IP_Equal x (NormalizeIP y) = IP_Equal x y"
  using IP_Equal_Normalize [of y x] by (simp add: IP_Equal_sym)

text \<open>The gateway of the answer: none if the caller gets the gateway's address itself.  The routes follow from it.\<close>

definition answer_gateway :: "IPAMParameters \<Rightarrow> Pool \<Rightarrow> net_ip" where
  "answer_gateway params cfg =
     (if (case pmFeatures params of None \<Rightarrow> False | Some f \<Rightarrow> ftAllocateDefaultGateway f) then [] else NormalizeIP (ParseIP (plGateway cfg)))"

definition answered :: "IPAMParameters \<Rightarrow> Pool \<Rightarrow> PoolAlloc \<Rightarrow> bool" where
  "answered params cfg a \<longleftrightarrow> icGateway (paIPConfig a) = answer_gateway params cfg \<and>
     getRoutes (answer_gateway params cfg) (plRoutes cfg) (plDefaultGateway cfg) = Inr (paRoutes a)"

text \<open>The outcome for one pool: on success the caller has a reservation for the address, which lies in the subnet of the pool; a
  request that selects no address gets one that the configuration offers.\<close>

definition pool_outcome :: "handlers \<Rightarrow> IPAMParameters \<Rightarrow> net_ip list \<Rightarrow> string \<Rightarrow> session \<Rightarrow> PoolAlloc \<Rightarrow> session \<Rightarrow> bool" where
  "pool_outcome h params ips poolName s a s' \<longleftrightarrow> paPool a = poolName \<and>
     (\<exists>cfg ip n r. GetPoolByKey (GetPoolKey poolName (poolTypeAsString (pmPoolType params))) (hdPools h) = Some cfg \<and>
        ParseCIDR (plSubnet cfg) = Some (ip, n) \<and>
        grants (GetPoolKey poolName (poolTypeAsString (pmPoolType params))) (getKey (pmCniContainerid params) (pmCniIfname params)) r s s' \<and>
        \<not> IsReleased r \<and> rsIPAddress r = ipnIP (icAddress (paIPConfig a)) \<and>
        IPNet_Contains n (ipnIP (icAddress (paIPConfig a))) \<and> ipnMask (icAddress (paIPConfig a)) = ipnMask n \<and> answered params cfg a \<and>
        (wants_any params \<and> ips = [] \<longrightarrow> pool_offers cfg (ipnIP (icAddress (paIPConfig a)))))"

text \<open>Before the address search nothing happens to the session: either an error is returned, or the search runs on the range and
  the exclusions of the configuration.\<close>

lemma allocateInPool_cases:
  obtains (error) e where "allocateInPool ev h poolName params ips s = Some (Inl e, s)"
  | (search) cfg ip n ex sip meta rs where
      "GetPoolByKey (GetPoolKey poolName (poolTypeAsString (pmPoolType params))) (hdPools h) = Some cfg"
      "ParseCIDR (plSubnet cfg) = Some (ip, n)" "ParseIP (plStartIP cfg) \<noteq> []" "ParseIP (plEndIP cfg) \<noteq> []"
      "RangeSet_Canonicalize [\<lparr>rgRangeStart = ParseIP (plStartIP cfg), rgRangeEnd = ParseIP (plEndIP cfg), rgSubnet = n,
         rgGateway = ParseIP (plGateway cfg)\<rparr>] = Inr rs"
      "wants_any params \<and> ips = [] \<longrightarrow> sip = []"
      "(if exclusion_ranges cfg n = [] then Inr [] else RangeSet_Canonicalize (exclusion_ranges cfg n)) = Inr ex"
      "allocateInPool ev h poolName params ips s =
         map_option (finish_in_pool params poolName (poolTypeAsString (pmPoolType params)) cfg)
           (Allocate (evFuel ev) (NewIPAllocator rs (Some ex) (GetPoolKey poolName (poolTypeAsString (pmPoolType params)))) (evNowText ev)
              (pmCniContainerid params) (pmCniIfname params) meta sip s)"
proof -
  let ?pt = "poolTypeAsString (pmPoolType params)"
  note unf = allocateInPool_def [of ev h poolName params ips s, unfolded Let_def]
  show ?thesis
  proof (cases "GetPoolByKey (GetPoolKey poolName ?pt) (hdPools h)")
    case None
    then show ?thesis using error unf by simp
  next
    case cfg: (Some cfg)
    show ?thesis
    proof (cases "newRangeSetAndDependenciesForPoolCfg cfg")
      case None
      then show ?thesis using error unf cfg by simp
    next
      case (Some q)
      let ?st = "ParseIP (plStartIP cfg)" and ?en = "ParseIP (plEndIP cfg)" and ?gw = "ParseIP (plGateway cfg)"
      obtain ip n where n: "ParseCIDR (plSubnet cfg) = Some (ip, n)" "?st \<noteq> []" "?en \<noteq> []"
        "q = ([\<lparr>rgRangeStart = ?st, rgRangeEnd = ?en, rgSubnet = n, rgGateway = ?gw\<rparr>], ?st, n, ?gw)"
        using Some by (auto simp: newRangeSetAndDependenciesForPoolCfg_def Let_def split: if_splits option.splits)
      note unf2 = unf [unfolded cfg option.case Some n(4) prod.case]
      consider e where "RangeSet_Canonicalize [\<lparr>rgRangeStart = ?st, rgRangeEnd = ?en, rgSubnet = n, rgGateway = ?gw\<rparr>] = Inl e"
        | rs e where "RangeSet_Canonicalize [\<lparr>rgRangeStart = ?st, rgRangeEnd = ?en, rgSubnet = n, rgGateway = ?gw\<rparr>] = Inr rs"
            "select_static params poolName ?pt ips rs ?st n ?gw = Inl e"
        | rs sip e where "RangeSet_Canonicalize [\<lparr>rgRangeStart = ?st, rgRangeEnd = ?en, rgSubnet = n, rgGateway = ?gw\<rparr>] = Inr rs"
            "select_static params poolName ?pt ips rs ?st n ?gw = Inr sip"
            "(if 0 < length (exclusion_ranges cfg n) then RangeSet_Canonicalize (exclusion_ranges cfg n) else Inr []) = Inl e"
        | rs sip ex where "RangeSet_Canonicalize [\<lparr>rgRangeStart = ?st, rgRangeEnd = ?en, rgSubnet = n, rgGateway = ?gw\<rparr>] = Inr rs"
            "select_static params poolName ?pt ips rs ?st n ?gw = Inr sip"
            "(if 0 < length (exclusion_ranges cfg n) then RangeSet_Canonicalize (exclusion_ranges cfg n) else Inr []) = Inr ex"
        by (metis sum.exhaust)
      then show ?thesis
      proof cases
        case 4
        have "wants_any params \<and> ips = [] \<longrightarrow> sip = []" using 4(2) select_static_any by fastforce
        moreover have "(if exclusion_ranges cfg n = [] then Inr [] else RangeSet_Canonicalize (exclusion_ranges cfg n)) = Inr ex"
          using 4(3) by (simp split: if_splits)
        ultimately show ?thesis
          using search [OF cfg n(1-3) 4(1)] unf2 [unfolded 4 sum.case] by blast
      qed (use error unf2 in simp_all)
    qed
  qed
qed

text \<open>An address the search finds on its own is one the configuration offers.\<close>

lemma usable_offers:
  assumes n: "ParseCIDR (plSubnet cfg) = Some (ip, n)" "wf_net n" "net_clear n"
    and r: "r = \<lparr>rgRangeStart = ParseIP (plStartIP cfg), rgRangeEnd = ParseIP (plEndIP cfg), rgSubnet = n, rgGateway = ParseIP (plGateway cfg)\<rparr>"
      "given_range r" "interval_in r"
    and ex: "(if exclusion_ranges cfg n = [] then Inr [] else RangeSet_Canonicalize (exclusion_ranges cfg n)) = Inr ex"
    and u: "usable (NewIPAllocator [canonical_range r] (Some ex) key) s (canonical_range r) x"
  shows "pool_offers cfg x"
proof -
  let ?st = "ParseIP (plStartIP cfg)" and ?en = "ParseIP (plEndIP cfg)" and ?gw = "ParseIP (plGateway cfg)"
  have ok: "range_ok (length (ipnIP n)) (canonical_range r)" using canonical_range_ok [OF r(2,3)] n(3) by (simp add: r(1))
  have u: "Range_Contains (canonical_range r) x" "\<not> (NormalizeIP ?gw \<noteq> [] \<and> IP_Equal x (NormalizeIP ?gw))" "\<not> RangeSet_Contains ex x"
    using u by (simp_all add: usable_def NewIPAllocator_def r(1))
  have x: "ip_len x = length (ipnIP n)" "ip_val ?st \<le> ip_val x" "ip_val x \<le> ip_val ?en"
    using u(1) unfolding Range_Contains_iff [OF ok] by (simp_all add: r(1))
  moreover have "ip_len ?st = length (ipnIP n)"
    using r(3) wf_net_ip_len [OF n(2)] by (simp add: interval_in_def IPNet_Contains_iff [OF n(2)] r(1))
  moreover have "\<not> (?gw \<noteq> [] \<and> IP_Equal x ?gw)"
    using u(2) ParseIP_len [of "plGateway cfg"] by (auto simp: IP_Equal_gw NormalizeIP_eq_Nil_iff)
  moreover have "\<not> (ip_val (ParseIP (exStartIP e)) \<le> ip_val x \<and> ip_val x \<le> ip_val (ParseIP (exEndIP e)))"
    if e: "e \<in> set (plExclusions cfg)" "ParseIP (exStartIP e) \<noteq> []" "ParseIP (exEndIP e) \<noteq> []" for e
  proof -
    have "exclusion_ranges cfg n \<noteq> []" using e(1) by (auto simp: exclusion_ranges_def)
    then have "RangeSet_Canonicalize (exclusion_ranges cfg n) = Inr ex" using ex by simp
    from exclusion_kept [OF this n(2,3) e x(1)] u(3) show ?thesis by blast
  qed
  ultimately show ?thesis by (simp add: pool_offers_def Let_def)
qed

lemma finish_in_pool_answer:
  assumes "icGateway c = NormalizeIP (ParseIP (plGateway cfg))"
  shows "\<exists>res. finish_in_pool params poolName poolType cfg (Inr c, s) = (res, s) \<and>
    (case res of Inl e \<Rightarrow> True | Inr a \<Rightarrow> paPool a = poolName \<and> icAddress (paIPConfig a) = icAddress c \<and> answered params cfg a)"
proof -
  let ?c = "case pmFeatures params of Some f \<Rightarrow> (if ftAllocateDefaultGateway f then c\<lparr>icGateway := []\<rparr> else c) | None \<Rightarrow> c"
  have g: "icGateway ?c = answer_gateway params cfg" "icAddress ?c = icAddress c" using assms by (simp_all add: answer_gateway_def split: option.split)
  have "finish_in_pool params poolName poolType cfg (Inr c, s) = (case getRoutes (answer_gateway params cfg) (plRoutes cfg) (plDefaultGateway cfg) of
      Inl e \<Rightarrow> (Inl e, s) | Inr routes \<Rightarrow> (Inr \<lparr>paPool = poolName, paIPConfig = ?c, paRoutes = routes\<rparr>, s))"
    unfolding finish_in_pool_def Let_def prod.case sum.case g(1) ..
  then show ?thesis using g by (cases "getRoutes (answer_gateway params cfg) (plRoutes cfg) (plDefaultGateway cfg)") (simp_all add: answered_def)
qed

lemma allocateInPool_effect:
  assumes s: "session_ok s"
    and plain: "\<And>cfg. GetPoolByKey (GetPoolKey poolName (poolTypeAsString (pmPoolType params))) (hdPools h) = Some cfg \<Longrightarrow> pool_plain (evFuel ev) cfg"
  shows "\<exists>res s'. allocateInPool ev h poolName params ips s = Some (res, s') \<and> session_ok s' \<and>
    (case res of Inl e \<Rightarrow> True | Inr a \<Rightarrow> pool_outcome h params ips poolName s a s')"
proof (cases rule: allocateInPool_cases [of ev h poolName params ips s])
  case (error e)
  then show ?thesis using s by simp
next
  case (search cfg ip n ex sip meta rs)
  let ?r = "\<lparr>rgRangeStart = ParseIP (plStartIP cfg), rgRangeEnd = ParseIP (plEndIP cfg), rgSubnet = n, rgGateway = ParseIP (plGateway cfg)\<rparr>"
  let ?key = "GetPoolKey poolName (poolTypeAsString (pmPoolType params))"
  have wf: "wf_net n" "net_clear n" "net_size n < evFuel ev" using plain [OF search(1)] search(2) by (simp_all add: pool_plain_def)
  have "ParseIP (plGateway cfg) = [] \<or> ip_len (ParseIP (plGateway cfg)) \<noteq> 0" using ParseIP_len by blast
  then have g: "given_range ?r"
    using wf(1) ParseIP_len [OF search(3)] ParseIP_len [OF search(4)] by (simp add: given_range_def)
  have iv: "interval_in ?r" and rs: "rs = [canonical_range ?r]" using search(5) RangeSet_Canonicalize_single [OF g] by blast+
  have ok: "range_ok (length (ipnIP n)) (canonical_range ?r)" using canonical_range_ok [OF g iv] wf(2) by simp
  let ?a = "NewIPAllocator rs (Some ex) ?key" and ?cid = "pmCniContainerid params" and ?ifn = "pmCniIfname params"
  have al: "ranges_ok (length (ipnIP n)) (alRangeSet ?a)" "length (positions (alRangeSet ?a)) < evFuel ev"
    using ok positions_single(2) [OF ok] wf(3) by (simp_all add: NewIPAllocator_def rs ranges_ok_def)
  obtain res s' where run: "Allocate (evFuel ev) ?a (evNowText ev) ?cid ?ifn meta sip s = Some (res, s')" "session_ok s'"
    "case res of Inl e \<Rightarrow> s' = s
     | Inr c \<Rightarrow> grants (alPoolKey ?a) (getKey ?cid ?ifn) (new_reservation (evNowText ev) ?cid ?ifn meta (ipnIP (icAddress c))) s s' \<and>
         (\<exists>r \<in> set (alRangeSet ?a). ipnMask (icAddress c) = ipnMask (rgSubnet r) \<and> icGateway c = rgGateway r \<and>
            IPNet_Contains (rgSubnet r) (ipnIP (icAddress c)) \<and>
            (if sip = [] then usable ?a s r (ipnIP (icAddress c)) else ipnIP (icAddress c) = sip))"
    using Allocate_effect [OF al(1) s al(2)] by blast
  show ?thesis
  proof (cases res)
    case (Inl e)
    then show ?thesis using run(1,2) search(8) by (simp add: finish_in_pool_def)
  next
    case (Inr c)
    have f: "grants ?key (getKey ?cid ?ifn) (new_reservation (evNowText ev) ?cid ?ifn meta (ipnIP (icAddress c))) s s'"
      "ipnMask (icAddress c) = ipnMask n" "IPNet_Contains n (ipnIP (icAddress c))"
      "sip = [] \<Longrightarrow> usable ?a s (canonical_range ?r) (ipnIP (icAddress c))" "icGateway c = NormalizeIP (ParseIP (plGateway cfg))"
      using run(3) unfolding Inr by (auto simp: NewIPAllocator_def rs)
    have offers: "wants_any params \<and> ips = [] \<Longrightarrow> pool_offers cfg (ipnIP (icAddress c))"
      using usable_offers [OF search(2) wf(1,2) refl g iv search(7)] f(4) search(6) unfolding rs by blast
    have out: "pool_outcome h params ips poolName s a s'" if "paPool a = poolName" "icAddress (paIPConfig a) = icAddress c" "answered params cfg a" for a
      unfolding pool_outcome_def that(1,2)
      by (intro conjI refl exI [of _ cfg] exI [of _ ip] exI [of _ n] exI [of _ "new_reservation (evNowText ev) ?cid ?ifn meta (ipnIP (icAddress c))"]
          search(1,2) f(1-3) that(3) impI offers) (simp_all add: new_reservation_def IsReleased_def)
    obtain res' where fin: "finish_in_pool params poolName (poolTypeAsString (pmPoolType params)) cfg (Inr c, s') = (res', s')"
      "case res' of Inl e \<Rightarrow> True | Inr a \<Rightarrow> paPool a = poolName \<and> icAddress (paIPConfig a) = icAddress c \<and> answered params cfg a"
      using finish_in_pool_answer [OF f(5)] by blast
    then have "case res' of Inl e \<Rightarrow> True | Inr a \<Rightarrow> pool_outcome h params ips poolName s a s'" using out by (auto split: sum.splits)
    then show ?thesis using run(1,2) search(8) Inr fin(1) by simp
  qed
qed

end
