(* ===== verification/HandlerCalls.thy ===== *)
theory HandlerCalls
  imports HandlerPools
begin

text \<open>
  Whole requests to the node daemon: \<open>Allocate\<close> is atomic, an allocation lives until it is released, and two
  configurations the daemon does not serve as their author meant them.
\<close>

subsection \<open>The whole request\<close>

abbreviation pkey :: "IPAMParameters \<Rightarrow> string \<Rightarrow> string" where
  "pkey params poolName \<equiv> GetPoolKey poolName (poolTypeAsString (pmPoolType params))"

abbreviation rkey :: "IPAMParameters \<Rightarrow> string" where
  "rkey params \<equiv> getKey (pmCniContainerid params) (pmCniIfname params)"

text \<open>Session \<open>s'\<close> is \<open>s\<close> with new reservations under one key, in given pools which had none under it.\<close>

definition ssn_extends :: "string \<Rightarrow> string set \<Rightarrow> session \<Rightarrow> session \<Rightarrow> bool" where
  "ssn_extends key pks s s' \<longleftrightarrow> (\<forall>pk \<in> pks. map_of (ssn_entries s pk) key = None) \<and>
     (\<forall>pk k. \<not> (k = key \<and> pk \<in> pks) \<longrightarrow> map_of (ssn_entries s' pk) k = map_of (ssn_entries s pk) k)"

lemma ssn_extends_refl [simp]: "ssn_extends key {} s s"
  by (simp add: ssn_extends_def)

lemma ssn_extends_trans: "ssn_extends key P s s1 \<Longrightarrow> ssn_extends key Q s1 s2 \<Longrightarrow> ssn_extends key (P \<union> Q) s s2"
  unfolding ssn_extends_def by (metis Un_iff)

lemma ssn_extends_kept: "ssn_extends key P s s' \<Longrightarrow> map_of (ssn_entries s pk) k = Some r \<Longrightarrow> map_of (ssn_entries s' pk) k = Some r"
  unfolding ssn_extends_def by (metis option.distinct(1))

lemma ssn_extends_blocked:
  assumes "session_ok s" "ssn_extends key P s s'" "ssn_blocked s pk x"
  shows "ssn_blocked s' pk x"
proof -
  obtain k r where kr: "(k, r) \<in> set (ssn_entries s pk)" "IP_Equal x (rsIPAddress r)" using assms(3) by (auto simp: ssn_blocked_def)
  have "distinct (map fst (ssn_entries s pk))" using session_ok_entries [OF assms(1)] by (simp add: entries_ok_def)
  then have "map_of (ssn_entries s pk) k = Some r" using kr(1) by simp
  from blockedI [OF ssn_extends_kept [OF assms(2) this] kr(2)] show ?thesis .
qed

lemma grants_extends: "grants pk key r s s' \<Longrightarrow> ssn_extends key {pk} s s' \<and> map_of (ssn_entries s' pk) key = Some r"
  unfolding grants_def ssn_extends_def by (metis AList.update_conv' fun_upd_apply singletonD singletonI)

text \<open>The part of a pool in a successful request.\<close>

definition served :: "handlers \<Rightarrow> IPAMParameters \<Rightarrow> net_ip list \<Rightarrow> session \<Rightarrow> session \<Rightarrow> PoolAlloc \<Rightarrow> bool" where
  "served h params ips s s' a \<longleftrightarrow>
     (\<exists>cfg ip n r. GetPoolByKey (pkey params (paPool a)) (hdPools h) = Some cfg \<and> ParseCIDR (plSubnet cfg) = Some (ip, n) \<and>
        map_of (ssn_entries s' (pkey params (paPool a))) (rkey params) = Some r \<and> \<not> IsReleased r \<and>
        rsIPAddress r = ipnIP (icAddress (paIPConfig a)) \<and> \<not> ssn_blocked s (pkey params (paPool a)) (rsIPAddress r) \<and>
        IPNet_Contains n (rsIPAddress r) \<and> ipnMask (icAddress (paIPConfig a)) = ipnMask n \<and> answered params cfg a \<and>
        (wants_any params \<and> ips = [] \<longrightarrow> pool_offers cfg (rsIPAddress r)))"

lemma allocate_pools_effect:
  assumes plain: "\<And>name cfg. name \<in> set names \<Longrightarrow> GetPoolByKey (pkey params name) (hdPools h) = Some cfg \<Longrightarrow> pool_plain (evFuel ev) cfg"
  shows "session_ok s \<Longrightarrow> \<exists>res s'. allocate_pools ev h params ips names s = Some (res, s') \<and> session_ok s' \<and>
    (case res of
       Inl e \<Rightarrow> True
     | Inr allocs \<Rightarrow> map paPool allocs = names \<and> ssn_extends (rkey params) (pkey params ` set names) s s' \<and> (names \<noteq> [] \<longrightarrow> ssIsModified s') \<and>
         (\<forall>a \<in> set allocs. served h params ips s s' a))"
  using plain
proof (induction names arbitrary: s)
  case Nil
  then show ?case by simp
next
  case (Cons name names)
  obtain res s1 where r: "allocateInPool ev h name params ips s = Some (res, s1)" "session_ok s1"
    "case res of Inl e \<Rightarrow> True | Inr a \<Rightarrow> pool_outcome h params ips name s a s1"
    using allocateInPool_effect [OF Cons.prems(1), of name params h ev ips] Cons.prems(2) by auto
  show ?case
  proof (cases res)
    case (Inl e)
    then show ?thesis using r(1,2) by simp
  next
    case (Inr a)
    have o: "pool_outcome h params ips name s a s1" using r(3) Inr by simp
    then obtain cfg ip n q where q: "paPool a = name" "GetPoolByKey (pkey params name) (hdPools h) = Some cfg" "ParseCIDR (plSubnet cfg) = Some (ip, n)"
      "grants (pkey params name) (rkey params) q s s1" "\<not> IsReleased q" "rsIPAddress q = ipnIP (icAddress (paIPConfig a))"
      "IPNet_Contains n (ipnIP (icAddress (paIPConfig a)))" "ipnMask (icAddress (paIPConfig a)) = ipnMask n" "answered params cfg a"
      "wants_any params \<and> ips = [] \<longrightarrow> pool_offers cfg (ipnIP (icAddress (paIPConfig a)))"
      unfolding pool_outcome_def by blast
    note g = grants_extends [OF q(4)]
    obtain res' s2 where r2: "allocate_pools ev h params ips names s1 = Some (res', s2)" "session_ok s2"
      "case res' of Inl e \<Rightarrow> True | Inr allocs \<Rightarrow> map paPool allocs = names \<and> ssn_extends (rkey params) (pkey params ` set names) s1 s2 \<and> (names \<noteq> [] \<longrightarrow> ssIsModified s2) \<and>
         (\<forall>a \<in> set allocs. served h params ips s1 s2 a)"
      using Cons.IH [OF r(2)] Cons.prems(2) by auto
    show ?thesis
    proof (cases res')
      case (Inl e)
      then show ?thesis using r(1) Inr r2(1,2) by simp
    next
      case allocs: (Inr allocs)
      have a: "map paPool allocs = names" "ssn_extends (rkey params) (pkey params ` set names) s1 s2" "names \<noteq> [] \<longrightarrow> ssIsModified s2" "\<forall>a \<in> set allocs. served h params ips s1 s2 a"
        using r2(3) allocs by simp_all
      have "ssIsModified s2"
      proof (cases names)
        case Nil
        then show ?thesis using r2(1) q(4) by (simp add: grants_def)
      qed (use a(3) in simp)
      moreover have "served h params ips s s2 a"
      proof -
        have "map_of (ssn_entries s2 (pkey params name)) (rkey params) = Some q" using ssn_extends_kept [OF a(2)] g by blast
        moreover have "\<not> ssn_blocked s (pkey params name) (rsIPAddress q)" using q(4) by (simp add: grants_def)
        ultimately show ?thesis
          unfolding served_def q(1) using q(2,3,5,7-10)
          by (intro exI [of _ cfg] exI [of _ ip] exI [of _ n] exI [of _ q]) (simp add: q(6))
      qed
      moreover have "served h params ips s s2 b" if "b \<in> set allocs" for b
        using a(4) that ssn_extends_blocked [OF Cons.prems(1)] g unfolding served_def by blast
      moreover have "ssn_extends (rkey params) (pkey params ` set (name # names)) s s2" using ssn_extends_trans [OF conjunct1 [OF g] a(2)] by simp
      ultimately show ?thesis using r(1) Inr r2(1,2) allocs a(1) q(1) by simp
    qed
  qed
qed

text \<open>A store between two requests, with its data.\<close>

definition store_ready :: "store \<Rightarrow> Root \<Rightarrow> bool" where
  "store_ready m d \<longleftrightarrow> \<not> stLocked m \<and> stPersistedData m = Some d \<and> root_ok d"

lemma store_readyD:
  assumes "store_ready m d"
  shows "openStore ev m = Some (Inr (newStore d), m\<lparr>stLocked := True\<rparr>)" "session_ok (newStore d)" "m\<lparr>stLocked := False\<rparr> = m"
    "stPersistedData m = Some d" "root_ok d"
proof -
  show d: "stPersistedData m = Some d" and r: "root_ok d" using assms by (simp_all add: store_ready_def)
  show "openStore ev m = Some (Inr (newStore d), m\<lparr>stLocked := True\<rparr>)" by (simp add: openStore_def Open_persisted [OF d])
  show "session_ok (newStore d)" by (rule newStore_ok [OF r])
  show "m\<lparr>stLocked := False\<rparr> = m" using assms by (cases m) (simp add: store_ready_def)
qed

lemma close_error:
  assumes "store_ready m d" "session_ok s"
  shows "closeSession ev s (Some e) (m\<lparr>stLocked := True\<rparr>) = Some (Some e, m)"
  using store_readyD(3) [OF assms(1)] assms(2) by (simp add: closeSession_def Cancel_def session_ok_def)

lemma close_commit:
  assumes "store_ready m d" "session_ok s" "\<And>r. evMarshal ev r \<noteq> None"
  shows "\<exists>err m'. closeSession ev s None (m\<lparr>stLocked := True\<rparr>) = Some (err, m') \<and>
    (err \<noteq> None \<longrightarrow> m' = m) \<and> (evWriteOk ev \<longrightarrow> err = None) \<and>
    (err = None \<longrightarrow> (if ssIsModified s then (\<exists>d'. store_ready m' d' \<and> (\<forall>pk. ssn_entries (newStore d') pk = ssn_entries s pk)) else m' = m))"
proof (cases "ssIsModified s")
  case False
  then show ?thesis using store_readyD(3) [OF assms(1)] assms(2) by (simp add: closeSession_def Commit_def session_ok_def)
next
  case True
  obtain cs where cs: "NewChecksum (evMarshal ev) (ssTmpData s) = Some cs"
    using assms(3) [of "checksum_input (ssTmpData s)"] by (auto simp: NewChecksum_def getChecksum_def)
  let ?d = "(ssTmpData s)\<lparr>rtChecksum := cs\<rparr>"
  obtain data where data: "evMarshal ev ?d = Some data" using assms(3) by blast
  have w: "writeToDisk (evMarshal ev) (evWriteOk ev) (ssTmpData s) (stFile m) =
      (if evWriteOk ev then Some (None, ?d, FileData data) else Some (Some WriteError, ?d, stFile m))"
    by (simp add: writeToDisk_def cs data Let_def)
  have "ssn_entries (newStore ?d) pk = ssn_entries s pk" for pk
    by (simp add: ssn_entries_def newStore_def getPoolData_def root_pool_def)
  moreover have "root_ok ?d" using assms(2) by (simp add: session_ok_def)
  moreover have "m\<lparr>stLocked := True, stFile := stFile m, stLocked := False, stPersistedData := stPersistedData m\<rparr> = m"
    using store_readyD(3) [OF assms(1)] by (cases m) simp
  ultimately show ?thesis using True assms(2) w
    by (auto simp: closeSession_def Commit_def session_ok_def store_ready_def)
qed

lemma setDefaults_simps [simp]:
  "pmPools (setDefaultsToParams p) = pmPools p" "pmCniContainerid (setDefaultsToParams p) = pmCniContainerid p"
  "pmCniIfname (setDefaultsToParams p) = pmCniIfname p" "wants_any (setDefaultsToParams p) = wants_any p"
  "answered (setDefaultsToParams p) = answered p"
  "pmRequestedIps (setDefaultsToParams p) = pmRequestedIps p"
  "poolTypeAsString (pmPoolType (setDefaultsToParams p)) = poolTypeAsString (pmPoolType p)"
  by (simp_all add: setDefaultsToParams_def poolTypeAsString_def wants_any_def answered_def answer_gateway_def fun_eq_iff)

lemma validateReq_None:
  assumes "validateReq req = None"
  shows "\<exists>params. req = Some params \<and> pmPools params \<noteq> [] \<and> length (pmPools params) \<le> 2"
  using assms by (auto simp: validateReq_def not_less split: option.splits if_splits)

lemma handler_allocate_effect:
  assumes "session_ok s" "\<And>key cfg. GetPoolByKey key (hdPools h) = Some cfg \<Longrightarrow> pool_plain (evFuel ev) cfg"
  shows "\<exists>res s'. handler_allocate ev h params s = Some (res, s') \<and> session_ok s' \<and>
    (case res of
       Inl e \<Rightarrow> True
     | Inr allocs \<Rightarrow> map paPool allocs = pmPools params \<and> ssn_extends (rkey params) (pkey params ` set (pmPools params)) s s' \<and> (pmPools params \<noteq> [] \<longrightarrow> ssIsModified s') \<and>
         (\<forall>a \<in> set allocs. served h params (map ParseIP (pmRequestedIps params)) s s' a))"
proof -
  obtain res s' where r: "allocate_pools ev h params (map ParseIP (pmRequestedIps params)) (pmPools params) s = Some (res, s')" "session_ok s'"
    "case res of Inl e \<Rightarrow> True
     | Inr allocs \<Rightarrow> map paPool allocs = pmPools params \<and> ssn_extends (rkey params) (pkey params ` set (pmPools params)) s s' \<and> (pmPools params \<noteq> [] \<longrightarrow> ssIsModified s') \<and>
         (\<forall>a \<in> set allocs. served h params (map ParseIP (pmRequestedIps params)) s s' a)"
    using allocate_pools_effect [of "pmPools params" params h ev s "map ParseIP (pmRequestedIps params)"] assms by blast
  then show ?thesis by (cases res) (auto simp: handler_allocate_def Let_def split: option.split)
qed

text \<open>The gateway and the routes in an entry of the answer.\<close>

definition info_routes :: "IPAMParameters \<Rightarrow> Pool \<Rightarrow> AllocationInfo \<Rightarrow> bool" where
  "info_routes params cfg info \<longleftrightarrow>
     (let gw = answer_gateway params cfg
      in if gw = [] then aiGateway info = [] \<and> aiRoutes info = []
         else aiGateway info = IP_String gw \<and>
           (\<exists>routes. getRoutes gw (plRoutes cfg) (plDefaultGateway cfg) = Inr routes \<and> aiRoutes info = map IPNet_String routes))"

lemma answered_routes: "answered params cfg a \<Longrightarrow> info_routes params cfg (allocation_info pt a)"
  by (simp add: answered_def info_routes_def allocation_info_def Let_def)

text \<open>What one entry of the answer says, before and after the request: the pool has a configuration, nobody held the printed
  address, the caller holds it now, it lies in the subnet of the pool, and the gateway and the routes are those of the
  configuration; if the request asked for no particular address, it
  is one the configuration offers.\<close>

definition info_ok :: "handlers \<Rightarrow> IPAMParameters \<Rightarrow> Root \<Rightarrow> Root \<Rightarrow> AllocationInfo \<Rightarrow> bool" where
  "info_ok h params d d' info \<longleftrightarrow>
     (\<exists>cfg ip n r. GetPoolByKey (pkey params (aiPool info)) (hdPools h) = Some cfg \<and> ParseCIDR (plSubnet cfg) = Some (ip, n) \<and>
        GetReservationByID (pkey params (aiPool info)) (pmCniContainerid params) (pmCniIfname params) (newStore d') = Some (Some r) \<and>
        aiIp info = IPNet_String \<lparr>ipnIP = rsIPAddress r, ipnMask = ipnMask n\<rparr> \<and> IPNet_Contains n (rsIPAddress r) \<and>
        \<not> ssn_blocked (newStore d) (pkey params (aiPool info)) (rsIPAddress r) \<and> info_routes params cfg info \<and>
        (wants_any params \<and> pmRequestedIps params = [] \<longrightarrow> pool_offers cfg (rsIPAddress r)))"

lemma served_info_ok:
  assumes "served h (setDefaultsToParams params) (map ParseIP (pmRequestedIps params)) (newStore d) s' a" "session_ok (newStore d')"
    "\<And>pk. ssn_entries (newStore d') pk = ssn_entries s' pk"
  shows "info_ok h params d d' (allocation_info pt a)"
proof -
  have "\<exists>cfg ip n r. GetPoolByKey (pkey params (paPool a)) (hdPools h) = Some cfg \<and> ParseCIDR (plSubnet cfg) = Some (ip, n) \<and>
      map_of (ssn_entries s' (pkey params (paPool a))) (rkey params) = Some r \<and> \<not> IsReleased r \<and>
      rsIPAddress r = ipnIP (icAddress (paIPConfig a)) \<and> \<not> ssn_blocked (newStore d) (pkey params (paPool a)) (rsIPAddress r) \<and>
      IPNet_Contains n (rsIPAddress r) \<and> ipnMask (icAddress (paIPConfig a)) = ipnMask n \<and> answered params cfg a \<and>
      (wants_any params \<and> pmRequestedIps params = [] \<longrightarrow> pool_offers cfg (rsIPAddress r))"
    using assms(1) unfolding served_def by (simp only: setDefaults_simps list.map_disc_iff)
  then obtain cfg ip n r where q: "GetPoolByKey (pkey params (paPool a)) (hdPools h) = Some cfg" "ParseCIDR (plSubnet cfg) = Some (ip, n)"
    "map_of (ssn_entries s' (pkey params (paPool a))) (rkey params) = Some r" "\<not> IsReleased r"
    "rsIPAddress r = ipnIP (icAddress (paIPConfig a))" "\<not> ssn_blocked (newStore d) (pkey params (paPool a)) (rsIPAddress r)"
    "IPNet_Contains n (rsIPAddress r)" "ipnMask (icAddress (paIPConfig a)) = ipnMask n" "answered params cfg a"
    "wants_any params \<and> pmRequestedIps params = [] \<longrightarrow> pool_offers cfg (rsIPAddress r)"
    by (elim exE conjE) (rule that; assumption)
  have ip: "\<lparr>ipnIP = rsIPAddress r, ipnMask = ipnMask n\<rparr> = icAddress (paIPConfig a)"
    by (rule IPNet_eq) (simp_all add: q(5,8))
  have "GetReservationByID (pkey params (paPool a)) (pmCniContainerid params) (pmCniIfname params) (newStore d') = Some (Some r)"
    using q(3,4) by (simp add: GetReservationByID_conv [OF assms(2)] assms(3))
  then show ?thesis unfolding info_ok_def using q(1,2,6,7,10) ip answered_routes [OF q(9)]
    by (intro exI [of _ cfg] exI [of _ ip] exI [of _ n] exI [of _ r]) (simp add: allocation_info_def)
qed

lemma Handlers_Allocate_law:
  assumes "store_ready m d" "\<forall>r. evMarshal ev r \<noteq> None" "\<forall>key cfg. GetPoolByKey key (hdPools h) = Some cfg \<longrightarrow> pool_plain (evFuel ev) cfg"
  shows "\<exists>res m'. Handlers_Allocate ev h req m = Some (res, m') \<and>
    (case res of
       Inl e \<Rightarrow> m' = m
     | Inr infos \<Rightarrow> \<exists>params d'. req = Some params \<and> store_ready m' d' \<and> map aiPool infos = pmPools params \<and>
         list_all (info_ok h params d d') infos \<and> ssn_extends (rkey params) (pkey params ` set (pmPools params)) (newStore d) (newStore d'))"
proof (cases "validateReq req")
  case (Some e)
  then show ?thesis by (simp add: Handlers_Allocate_def)
next
  case None
  then obtain params where req: "req = Some params" "pmPools params \<noteq> []" using validateReq_None by blast
  note rd = store_readyD [OF assms(1)]
  let ?p = "setDefaultsToParams params" and ?ips = "map ParseIP (pmRequestedIps params)"
  show ?thesis
  proof (cases "checkReqIsCanceled ev")
    case (Some e)
    then show ?thesis using None rd(1) close_error [OF assms(1) rd(2), of ev e] req(1) by (simp add: Handlers_Allocate_def)
  next
    case nc: None
    obtain res s' where r: "handler_allocate ev h ?p (newStore d) = Some (res, s')" "session_ok s'"
      "case res of Inl e \<Rightarrow> True
       | Inr allocs \<Rightarrow> map paPool allocs = pmPools ?p \<and> ssn_extends (rkey ?p) (pkey ?p ` set (pmPools ?p)) (newStore d) s' \<and> (pmPools ?p \<noteq> [] \<longrightarrow> ssIsModified s') \<and>
           (\<forall>a \<in> set allocs. served h ?p (map ParseIP (pmRequestedIps ?p)) (newStore d) s' a)"
      using handler_allocate_effect [of "newStore d" h ev ?p] rd(2) assms(3) by blast
    note unf = Handlers_Allocate_def None [unfolded req(1)] rd(1) nc req(1) r(1)
    show ?thesis
    proof (cases res)
      case (Inl e)
      then show ?thesis using close_error [OF assms(1) r(2), of ev e] by (simp add: unf)
    next
      case (Inr allocs)
      have a: "map paPool allocs = pmPools params" "ssn_extends (rkey params) (pkey params ` set (pmPools params)) (newStore d) s'" "ssIsModified s'"
        "\<forall>a \<in> set allocs. served h ?p ?ips (newStore d) s' a"
        using r(3) req(2) unfolding Inr by simp_all
      obtain err m' where c: "closeSession ev s' None (m\<lparr>stLocked := True\<rparr>) = Some (err, m')" "err \<noteq> None \<longrightarrow> m' = m"
        "err = None \<longrightarrow> (\<exists>d'. store_ready m' d' \<and> (\<forall>pk. ssn_entries (newStore d') pk = ssn_entries s' pk))"
        using close_commit [OF assms(1) r(2) assms(2) [rule_format], unfolded if_P [OF a(3)]] by (elim exE conjE) (rule that; assumption)
      show ?thesis
      proof (cases err)
        case (Some e)
        then show ?thesis using c Inr by (simp add: unf)
      next
        case cok: None
        then obtain d' where d': "store_ready m' d'" "\<And>pk. ssn_entries (newStore d') pk = ssn_entries s' pk" using c(3) by blast
        have "list_all (info_ok h params d d') (map (allocation_info (pmPoolType ?p)) allocs)"
          using a(4) served_info_ok [OF _ store_readyD(2) [OF d'(1)] d'(2)] by (simp add: list_all_iff)
        moreover have "map aiPool (map (allocation_info (pmPoolType ?p)) allocs) = pmPools params"
          using a(1) by (simp add: allocation_info_def comp_def)
        moreover have "ssn_extends (rkey params) (pkey params ` set (pmPools params)) (newStore d) (newStore d')" using a(2) d'(2) by (simp add: ssn_extends_def)
        ultimately show ?thesis using c(1) Inr cok d'(1) req(1) by (simp add: unf) blast
      qed
    qed
  qed
qed

subsection \<open>Releasing\<close>

text \<open>What releasing makes of the reservation found under a key.\<close>

definition release_entry :: "time \<Rightarrow> int \<Rightarrow> Reservation option \<Rightarrow> Reservation option" where
  "release_entry now cooldown found =
     (case found of
        None \<Rightarrow> None
      | Some r \<Rightarrow> (case release_outcome_of now cooldown r of
           Keep \<Rightarrow> Some r | Mark \<Rightarrow> Some (r\<lparr>rsReleasedAt := now\<rparr>) | Drop \<Rightarrow> None))"

lemma release_entry_None [simp]: "release_entry now cooldown None = None"
  by (simp add: release_entry_def)

lemma release_entry_idem [simp]: "release_entry now cooldown (release_entry now cooldown x) = release_entry now cooldown x"
  by (auto simp: release_entry_def release_outcome_of_def IsReleased_def time_Since_def split: option.split)

lemma updatePoolData_modified: "updatePoolData pk p s = Some s' \<Longrightarrow> ssIsModified s'"
  by (auto simp: updatePoolData_def split: if_splits option.splits)

lemma Release_effect:
  assumes "session_ok s"
  shows "\<exists>b s'. ReleaseReservationByID now pk cid ifn cooldown s = Some (b, s') \<and> session_ok s' \<and> (s' = s \<or> ssIsModified s') \<and>
    (\<forall>pk' k. map_of (ssn_entries s' pk') k =
       (if pk' = pk \<and> k = getKey cid ifn then release_entry now cooldown (map_of (ssn_entries s pk) k) else map_of (ssn_entries s pk') k))"
proof (cases "map_of (ssn_entries s pk) (getKey cid ifn)")
  case None
  then show ?thesis using Release_absent [OF assms None] assms by (intro exI [of _ False] exI [of _ s]) simp
next
  case (Some r)
  show ?thesis
  proof (cases "release_outcome_of now cooldown r = Keep")
    case True
    then show ?thesis using Release_keep [OF assms Some True] assms Some by (intro exI [of _ False] exI [of _ s]) (simp add: release_entry_def)
  next
    case False
    obtain s' where s': "ReleaseReservationByID now pk cid ifn cooldown s = Some (release_outcome_of now cooldown r = Drop, s')" "session_ok s'"
      "ssn_entries s' pk = (if release_outcome_of now cooldown r = Drop then AList.delete (getKey cid ifn) (ssn_entries s pk)
         else AList.update (getKey cid ifn) (r\<lparr>rsReleasedAt := now\<rparr>) (ssn_entries s pk))"
      "\<And>pk'. pk' \<noteq> pk \<Longrightarrow> getPoolData pk' (ssTmpData s') = getPoolData pk' (ssTmpData s)"
      by (rule Release_change [OF assms Some False]) (rule that)
    have "ssIsModified s'"
      using s'(1) False Some assms updatePoolData_modified
      by (auto simp: ReleaseReservationByID_def Let_def release_outcome_of_def ssn_entries_def split: if_splits option.splits)
    moreover have "map_of (ssn_entries s' pk) k = (if k = getKey cid ifn then release_entry now cooldown (map_of (ssn_entries s pk) k)
        else map_of (ssn_entries s pk) k)" for k
      using s'(3) Some False
      by (cases "release_outcome_of now cooldown r") (simp_all add: release_entry_def AList.update_conv' AList.delete_conv')
    moreover have "ssn_entries s' pk' = ssn_entries s pk'" if "pk' \<noteq> pk" for pk' using s'(4) [OF that] by (simp add: ssn_entries_def)
    ultimately show ?thesis using s'(1,2) by (intro exI [of _ "release_outcome_of now cooldown r = Drop"] exI [of _ s']) (simp, metis)
  qed
qed

lemma release_pools_effect:
  "session_ok s \<Longrightarrow> \<exists>s'. release_pools ev h params names s = Some s' \<and> session_ok s' \<and> (s' = s \<or> ssIsModified s') \<and>
    (\<forall>pk k. map_of (ssn_entries s' pk) k =
       (if pk \<in> pkey params ` set names \<and> k = rkey params
        then release_entry (evNow ev) (hdReleaseCooldown h) (map_of (ssn_entries s pk) k) else map_of (ssn_entries s pk) k))"
proof (induction names arbitrary: s)
  case Nil
  then show ?case by simp
next
  case (Cons name names)
  obtain b s1 where s1: "ReleaseReservationByID (evNow ev) (pkey params name) (pmCniContainerid params) (pmCniIfname params) (hdReleaseCooldown h) s = Some (b, s1)"
    "session_ok s1" "s1 = s \<or> ssIsModified s1"
    "\<And>pk' k. map_of (ssn_entries s1 pk') k = (if pk' = pkey params name \<and> k = rkey params
       then release_entry (evNow ev) (hdReleaseCooldown h) (map_of (ssn_entries s (pkey params name)) k) else map_of (ssn_entries s pk') k)"
    using Release_effect [OF Cons.prems, of "evNow ev" "pkey params name" "pmCniContainerid params" "pmCniIfname params" "hdReleaseCooldown h"] by blast
  obtain s2 where s2: "release_pools ev h params names s1 = Some s2" "session_ok s2" "s2 = s1 \<or> ssIsModified s2"
    "\<And>pk k. map_of (ssn_entries s2 pk) k = (if pk \<in> pkey params ` set names \<and> k = rkey params
       then release_entry (evNow ev) (hdReleaseCooldown h) (map_of (ssn_entries s1 pk) k) else map_of (ssn_entries s1 pk) k)"
    using Cons.IH [OF s1(2)] by blast
  show ?case using s1(1,3) s2 by (intro exI [of _ s2]) (auto simp: s1(4))
qed

text \<open>Closing a session without an error makes the store hold its reservations, modified or not.\<close>

lemma close_success:
  assumes "store_ready m d" "session_ok s" "\<And>r. evMarshal ev r \<noteq> None" "s = newStore d \<or> ssIsModified s"
  shows "\<exists>err m'. closeSession ev s None (m\<lparr>stLocked := True\<rparr>) = Some (err, m') \<and> (err \<noteq> None \<longrightarrow> m' = m) \<and> (evWriteOk ev \<longrightarrow> err = None) \<and>
    (err = None \<longrightarrow> (\<exists>d'. store_ready m' d' \<and> (\<forall>pk. ssn_entries (newStore d') pk = ssn_entries s pk)))"
proof (cases "ssIsModified s")
  case True
  then show ?thesis using close_commit [OF assms(1-3)] by simp
next
  case False
  then show ?thesis using close_commit [OF assms(1-3)] assms(1,4) by auto
qed

subsection \<open>Deallocate and IsAllocated\<close>

lemma Handlers_Deallocate_law:
  assumes "store_ready m d" "\<And>r. evMarshal ev r \<noteq> None" "validateReq (Some params) = None"
  shows "\<exists>err m'. Handlers_Deallocate ev h (Some params) m = Some (err, m') \<and> (err \<noteq> None \<longrightarrow> m' = m) \<and>
    (\<not> evCanceled ev \<and> evWriteOk ev \<longrightarrow> err = None) \<and>
    (err = None \<longrightarrow> (\<exists>d'. store_ready m' d' \<and> (\<forall>pk k. map_of (ssn_entries (newStore d') pk) k =
       (if pk \<in> pkey params ` set (pmPools params) \<and> k = rkey params
        then release_entry (evNow ev) (hdReleaseCooldown h) (map_of (ssn_entries (newStore d) pk) k)
        else map_of (ssn_entries (newStore d) pk) k))))"
proof -
  note rd = store_readyD [OF assms(1)]
  let ?p = "setDefaultsToParams params"
  note unf = Handlers_Deallocate_def assms(3) rd(1)
  show ?thesis
  proof (cases "checkReqIsCanceled ev")
    case (Some e)
    then show ?thesis using close_error [OF assms(1) rd(2), of ev e] by (auto simp: unf checkReqIsCanceled_def split: if_splits)
  next
    case None
    obtain s' where s': "release_pools ev h ?p (pmPools params) (newStore d) = Some s'" "session_ok s'" "s' = newStore d \<or> ssIsModified s'"
      "\<forall>pk k. map_of (ssn_entries s' pk) k = (if pk \<in> pkey ?p ` set (pmPools params) \<and> k = rkey ?p
         then release_entry (evNow ev) (hdReleaseCooldown h) (map_of (ssn_entries (newStore d) pk) k)
         else map_of (ssn_entries (newStore d) pk) k)"
      using release_pools_effect [OF rd(2)] by blast
    have run: "Handlers_Deallocate ev h (Some params) m = closeSession ev s' None (m\<lparr>stLocked := True\<rparr>)"
      using None s'(1) by (simp add: unf)
    have "\<exists>err m'. closeSession ev s' None (m\<lparr>stLocked := True\<rparr>) = Some (err, m') \<and> (err \<noteq> None \<longrightarrow> m' = m) \<and> (evWriteOk ev \<longrightarrow> err = None) \<and>
      (err = None \<longrightarrow> (\<exists>d'. store_ready m' d' \<and> (\<forall>pk. ssn_entries (newStore d') pk = ssn_entries s' pk)))"
      by (rule close_success [OF assms(1) s'(2) assms(2) s'(3)])
    then obtain err m' where c: "closeSession ev s' None (m\<lparr>stLocked := True\<rparr>) = Some (err, m')" "err \<noteq> None \<longrightarrow> m' = m" "evWriteOk ev \<longrightarrow> err = None"
      "err = None \<longrightarrow> (\<exists>d'. store_ready m' d' \<and> (\<forall>pk. ssn_entries (newStore d') pk = ssn_entries s' pk))"
      by (elim exE conjE) (rule that; assumption)
    show ?thesis unfolding run using c s'(4) by (intro exI [of _ err] exI [of _ m']) (simp, metis)
  qed
qed

definition active :: "Root \<Rightarrow> string \<Rightarrow> string \<Rightarrow> bool" where
  "active d pk k \<longleftrightarrow> (\<exists>r. map_of (ssn_entries (newStore d) pk) k = Some r \<and> \<not> IsReleased r)"

lemma find_pools_conv:
  assumes "session_ok (newStore d)"
  shows "find_pools params names (newStore d) =
    Some (case find (\<lambda>name. \<not> active d (pkey params name) (rkey params)) names of
       None \<Rightarrow> None
     | Some name \<Rightarrow> Some (NotFound, ''reservation for pool '' @ pool_text name (poolTypeAsString (pmPoolType params)) @ '' not found''))"
  by (induction names) (auto simp: GetReservationByID_conv [OF assms] Let_def active_def split: option.split)

lemma Handlers_IsAllocated_law:
  assumes "store_ready m d" "validateReq (Some params) = None" "\<not> evCanceled ev"
  shows "Handlers_IsAllocated ev (Some params) m = Some (case find (\<lambda>name. \<not> active d (pkey params name) (rkey params)) (pmPools params) of
       None \<Rightarrow> None
     | Some name \<Rightarrow> Some (NotFound, ''reservation for pool '' @ pool_text name (poolTypeAsString (pmPoolType params)) @ '' not found''), m)"
proof -
  note rd = store_readyD [OF assms(1)]
  have "checkReqIsCanceled ev = None" using assms(3) by (simp add: checkReqIsCanceled_def)
  moreover have "closeSession ev (newStore d) err (m\<lparr>stLocked := True\<rparr>) = Some (err, m)" for err
    using rd(3) close_error [OF assms(1) rd(2)]
    by (cases err) (simp_all add: closeSession_def Commit_def newStore_def)
  ultimately show ?thesis
    by (simp add: Handlers_IsAllocated_def assms(2) rd(1) find_pools_conv [OF rd(2)] del: append.simps split: option.split)
qed

subsection \<open>Theorems on requests\<close>

lemma info_active: "info_ok h params d d' info \<Longrightarrow> session_ok (newStore d') \<Longrightarrow> active d' (pkey params (aiPool info)) (rkey params)"
  unfolding info_ok_def active_def by (auto simp: GetReservationByID_conv split: option.splits if_splits)

lemma release_inactive:
  "now \<noteq> 0 \<Longrightarrow> release_entry now cooldown x = Some r \<Longrightarrow> IsReleased r"
  by (auto simp: release_entry_def release_outcome_of_def IsReleased_def split: option.splits if_splits release_outcome.splits)

lemma release_immediate: "cooldown \<le> 0 \<Longrightarrow> release_entry now cooldown x = None"
  by (simp add: release_entry_def release_outcome_of_def split: option.split)

lemma release_active:
  "0 < cooldown \<Longrightarrow> \<not> IsReleased r \<Longrightarrow> release_entry now cooldown (Some r) = Some (r\<lparr>rsReleasedAt := now\<rparr>)"
  by (simp add: release_entry_def release_outcome_of_def)

text \<open>Marking reservations as released frees no address.\<close>

lemma blocked_kept:
  assumes "session_ok s" "ssn_blocked s pk x"
    "\<And>pk k r. map_of (ssn_entries s pk) k = Some r \<Longrightarrow> \<exists>r'. map_of (ssn_entries s' pk) k = Some r' \<and> rsIPAddress r' = rsIPAddress r"
  shows "ssn_blocked s' pk x"
proof -
  obtain k r where kr: "(k, r) \<in> set (ssn_entries s pk)" "IP_Equal x (rsIPAddress r)" using assms(2) by (auto simp: ssn_blocked_def)
  have "distinct (map fst (ssn_entries s pk))" using session_ok_entries [OF assms(1)] by (simp add: entries_ok_def)
  then have "map_of (ssn_entries s pk) k = Some r" using kr(1) by simp
  then obtain r' where "map_of (ssn_entries s' pk) k = Some r'" "rsIPAddress r' = rsIPAddress r" using assms(3) by blast
  then show ?thesis using blockedI kr(2) by simp
qed

lemma find_first_at: "xs \<noteq> [] \<Longrightarrow> P (hd xs) \<Longrightarrow> find P xs = Some (hd xs)"
  by (cases xs) simp_all

lemma allocated_params:
  assumes "Handlers_Allocate ev h req m = Some (Inr infos, m1)"
  obtains params where "req = Some params" "validateReq (Some params) = None" "pmPools params \<noteq> []"
proof -
  have v: "validateReq req = None" using assms by (cases "validateReq req") (simp_all add: Handlers_Allocate_def)
  then obtain params where "req = Some params" "pmPools params \<noteq> []" using validateReq_None by blast
  with v that show ?thesis by simp
qed

lemma allocated_effect:
  assumes "store_ready m d" "\<forall>r. evMarshal ev r \<noteq> None" "\<forall>key cfg. GetPoolByKey key (hdPools h) = Some cfg \<longrightarrow> pool_plain (evFuel ev) cfg"
    "Handlers_Allocate ev h (Some params) m = Some (Inr infos, m1)"
  obtains d1 where "store_ready m1 d1" "map aiPool infos = pmPools params" "list_all (info_ok h params d d1) infos"
    "ssn_extends (rkey params) (pkey params ` set (pmPools params)) (newStore d) (newStore d1)"
    "\<And>name. name \<in> set (pmPools params) \<Longrightarrow> active d1 (pkey params name) (rkey params)"
proof -
  obtain d1 where d1: "store_ready m1 d1" "map aiPool infos = pmPools params" "list_all (info_ok h params d d1) infos"
    "ssn_extends (rkey params) (pkey params ` set (pmPools params)) (newStore d) (newStore d1)"
    using Handlers_Allocate_law [OF assms(1-3), of "Some params"] assms(4) by auto
  have "active d1 (pkey params name) (rkey params)" if name: "name \<in> set (pmPools params)" for name
  proof -
    obtain info where "info \<in> set infos" "aiPool info = name" using name d1(2) by (metis (no_types) imageE list.set_map)
    then show ?thesis using info_active [OF _ store_readyD(2) [OF d1(1)]] d1(3) by (auto simp: list_all_iff)
  qed
  with d1 that show ?thesis by blast
qed

text \<open>What is left after the reservations of a request are released: with a cooldown, the same blocked addresses; without one,
  the reservations of before.\<close>

lemma released_state:
  assumes s1: "session_ok (newStore d1)" and ext: "ssn_extends (rkey params) (pkey params ` set names) s (newStore d1)"
    and act: "\<And>name. name \<in> set names \<Longrightarrow> active d1 (pkey params name) (rkey params)"
    and rel: "\<And>pk k. map_of (ssn_entries s2 pk) k = (if pk \<in> pkey params ` set names \<and> k = rkey params
       then release_entry now cd (map_of (ssn_entries (newStore d1) pk) k) else map_of (ssn_entries (newStore d1) pk) k)"
  shows "if 0 < cd then (\<forall>pk x. ssn_blocked (newStore d1) pk x \<longrightarrow> ssn_blocked s2 pk x)
     else (\<forall>pk k. map_of (ssn_entries s2 pk) k = map_of (ssn_entries s pk) k)"
proof (cases "0 < cd")
  case cd: True
  have "\<exists>r'. map_of (ssn_entries s2 pk) k = Some r' \<and> rsIPAddress r' = rsIPAddress r"
    if r: "map_of (ssn_entries (newStore d1) pk) k = Some r" for pk k r
  proof (cases "pk \<in> pkey params ` set names \<and> k = rkey params")
    case True
    then have "active d1 pk k" using act by blast
    then have "\<not> IsReleased r" using r by (simp add: active_def)
    with True r cd show ?thesis by (simp add: rel release_active)
  next
    case False
    then show ?thesis using r by (simp only: rel if_False) blast
  qed
  then show ?thesis using cd blocked_kept [OF s1, of _ _ s2] by simp
next
  case False
  then have "map_of (ssn_entries s2 pk) k = map_of (ssn_entries s pk) k" for pk k
    using ext by (cases "pk \<in> pkey params ` set names \<and> k = rkey params") (auto simp: rel release_immediate ssn_extends_def)
  with False show ?thesis by simp
qed


subsection \<open>An example\<close>

definition ex_env :: env where
  "ex_env = \<lparr>evMarshal = ex_marshal, evUnmarshal = (\<lambda>_. None), evWriteOk = True, evNow = 1000, evNowText = ''t'', evCanceled = False,
     evPoolString = (\<lambda>_. ''{}''), evFuel = 20\<rparr>"

definition ex_node_pool :: Pool where
  "ex_node_pool = \<lparr>plName = ''p'', plSubnet = ''10.0.0.0/29'', plStartIP = ''10.0.0.1'', plEndIP = ''10.0.0.6'', plGateway = ''10.0.0.1'',
     plExclusions = [\<lparr>exStartIP = ''10.0.0.2'', exEndIP = ''10.0.0.3''\<rparr>], plRoutes = [], plDefaultGateway = True\<rparr>"

definition ex_handlers :: handlers where
  "ex_handlers = \<lparr>hdPools = Manager_UpdatePool (GetPoolKey ''p'' PoolTypeIPPool) ex_node_pool NewManager, hdReleaseCooldown = 60\<rparr>"

definition ex_params :: IPAMParameters where
  "ex_params = \<lparr>pmPools = [''p''], pmCniContainerid = ''c1'', pmCniIfname = ''net0'',
     pmMetadata = Some \<lparr>mdPodName = ''pod'', mdPodNamespace = ''ns'', mdPodUid = ''u'', mdDeviceId = []\<rparr>, pmRequestedIps = [],
     pmPoolType = POOL_TYPE_UNSPECIFIED, pmFeatures = Some \<lparr>ftAllocateDefaultGateway = False, ftAllocateIpWithIndex = None\<rparr>\<rparr>"

definition ex_store :: store where
  "ex_store = \<lparr>stFile = FileNotExist, stPersistedData = Some NewRoot, stLocked = False\<rparr>"

lemma ex_ready: "store_ready ex_store NewRoot"
  by (simp add: store_ready_def ex_store_def NewRoot_ok)

lemma ex_marshal_total: "\<forall>r. evMarshal ex_env r \<noteq> None"
  by (simp add: ex_env_def ex_marshal_def)

lemma ex_pool_plain: "pool_plain 20 ex_node_pool"
  by code_simp

lemma ex_plain: "\<forall>key cfg. GetPoolByKey key (hdPools ex_handlers) = Some cfg \<longrightarrow> pool_plain (evFuel ex_env) cfg"
  using ex_pool_plain by (simp add: ex_handlers_def ex_env_def Manager_UpdatePool_def NewManager_def GetPoolByKey_def)

lemma ex_allocated: "map_option (map_sum id (map aiIp) \<circ> fst) (Handlers_Allocate ex_env ex_handlers (Some ex_params) ex_store) = Some (Inr [''10.0.0.4/29''])"
  by code_simp

lemma ex_allocation:
  obtains infos m' where "Handlers_Allocate ex_env ex_handlers (Some ex_params) ex_store = Some (Inr infos, m')" "map aiIp infos = [''10.0.0.4/29'']"
proof -
  obtain res m' where r: "Handlers_Allocate ex_env ex_handlers (Some ex_params) ex_store = Some (res, m')" "map_sum id (map aiIp) res = Inr [''10.0.0.4/29'']"
    using ex_allocated by auto
  then show ?thesis using that by (cases res) simp_all
qed

text \<open>C5: \<open>Allocate\<close> is all or nothing.  It always answers; an error leaves the store exactly as it was, whether the request is
  malformed or cancelled, one of the pools fails or the data cannot be written; a success gives one entry per requested pool
  in order, the caller holds each printed address and nobody held it before, and no other reservation changes.\<close>

theorem Handlers_Allocate_atomic:
  assumes "store_ready m d" "\<forall>r. evMarshal ev r \<noteq> None" "\<forall>key cfg. GetPoolByKey key (hdPools h) = Some cfg \<longrightarrow> pool_plain (evFuel ev) cfg"
  shows "\<exists>res m'. Handlers_Allocate ev h req m = Some (res, m') \<and>
    (case res of
       Inl e \<Rightarrow> m' = m
     | Inr infos \<Rightarrow> \<exists>params d'. req = Some params \<and> store_ready m' d' \<and> map aiPool infos = pmPools params \<and>
         list_all (info_ok h params d d') infos \<and> ssn_extends (rkey params) (pkey params ` set (pmPools params)) (newStore d) (newStore d'))"
  by (rule Handlers_Allocate_law [OF assms])

theorem Handlers_Allocate_atomic_witness:
  "\<exists>infos m' d'. Handlers_Allocate ex_env ex_handlers (Some ex_params) ex_store = Some (Inr infos, m') \<and> map aiIp infos = [''10.0.0.4/29''] \<and>
     store_ready m' d' \<and> list_all (info_ok ex_handlers ex_params NewRoot d') infos"
proof -
  obtain infos m' where "Handlers_Allocate ex_env ex_handlers (Some ex_params) ex_store = Some (Inr infos, m')" "map aiIp infos = [''10.0.0.4/29'']"
    by (rule ex_allocation)
  with Handlers_Allocate_atomic [OF ex_ready ex_marshal_total ex_plain, of "Some ex_params"] show ?thesis by auto
qed


subsection \<open>Overlapping exclusions\<close>

lemma exclusion_ranges_overlap:
  assumes n: "wf_net n" "net_clear n" and ij: "i < j" "j < length (plExclusions cfg)"
    and ex: "\<forall>e \<in> set (plExclusions cfg). ParseIP (exStartIP e) \<noteq> [] \<and> ParseIP (exEndIP e) \<noteq> []"
    and ov: "ip_val (ParseIP (exStartIP (plExclusions cfg ! i))) \<le> ip_val (ParseIP (exEndIP (plExclusions cfg ! j)))"
      "ip_val (ParseIP (exStartIP (plExclusions cfg ! j))) \<le> ip_val (ParseIP (exEndIP (plExclusions cfg ! i)))"
  shows "\<exists>e. RangeSet_Canonicalize (exclusion_ranges cfg n) = Inl e"
proof (cases "RangeSet_Canonicalize (exclusion_ranges cfg n)")
  case (Inr rs)
  have g: "\<forall>r \<in> set (exclusion_ranges cfg n). given_range r \<and> rgSubnet r = n"
    using ex n(1) ParseIP_len by (auto simp: exclusion_ranges_def given_range_def)
  have l: "length (exclusion_ranges cfg n) = length (plExclusions cfg)" by (simp add: exclusion_ranges_def)
  have "sorted_wrt (\<lambda>r r1. rg_hi r < rg_lo r1 \<or> rg_hi r1 < rg_lo r) (exclusion_ranges cfg n)"
    using RangeSet_Canonicalize_same [OF g n(2), of rs] Inr ij l by fastforce
  from sorted_wrt_nth_less [OF this ij(1)] ij l ov show ?thesis by (auto simp: exclusion_ranges_def)
qed simp


text \<open>A valid pool with an exclusion and a per-node exclusion that meet in one address of the block of the node.\<close>

definition ex_overlap :: IPPool where
  "ex_overlap = \<lparr>ipName = ''p'', ipNamespace = ''ns'',
     ipSpec = \<lparr>ipSubnet = ''10.0.0.0/28'', ipPerNodeBlockSize = 6, ipExclusions = [\<lparr>erStartIP = ''10.0.0.2'', erEndIP = ''10.0.0.3''\<rparr>],
       ipPerNodeExclusions = [\<lparr>eiStartIndex = 2, eiEndIndex = 3\<rparr>], ipGateway = ''10.0.0.14'', ipNodeSelector = None,
       ipDefaultGateway = False, ipRoutes = []\<rparr>,
     ipStatus = \<lparr>ipAllocations = [\<lparr>alNodeName = ''node1'', alStartIP = ''10.0.0.1'', alEndIP = ''10.0.0.6''\<rparr>]\<rparr>\<rparr>"

definition ex_overlap_handlers :: handlers where
  "ex_overlap_handlers =
     \<lparr>hdPools = snd (NodeIPPool_Reconcile (\<lambda>_. Got ex_overlap) ''node1'' (''ns'', ''p'') NewManager), hdReleaseCooldown = 0\<rparr>"

definition ex_overlap_cfg :: Pool where
  "ex_overlap_cfg = ippool_node_pool ex_overlap \<lparr>alNodeName = ''node1'', alStartIP = ''10.0.0.1'', alEndIP = ''10.0.0.6''\<rparr>"


subsection \<open>An exclusion around a prefix\<close>

definition ex_covered :: CIDRPool where
  "ex_covered = \<lparr>cpName = ''p'', cpNamespace = ''ns'',
     cpSpec = \<lparr>cpCIDR = ''10.0.0.0/24'', cpGatewayIndex = None, cpPerNodeNetworkPrefix = 30,
       cpExclusions = [\<lparr>erStartIP = ''10.0.0.0'', erEndIP = ''10.0.0.15''\<rparr>], cpPerNodeExclusions = [],
       cpStaticAllocations = [\<lparr>csNodeName = ''node1'', csGateway = [], csPrefix = ''10.0.0.4/30''\<rparr>],
       cpNodeSelector = None, cpDefaultGateway = False, cpRoutes = []\<rparr>,
     cpStatus = \<lparr>cpAllocations = [\<lparr>caNodeName = ''node1'', caGateway = [], caPrefix = ''10.0.0.4/30''\<rparr>]\<rparr>\<rparr>"


end
