(* ===== verification/Cleaner.thy ===== *)
theory Cleaner
  imports HandlerCalls
begin

text \<open>
  The cleaner of the node daemon (\<open>pkg/ipam-node/cleaner\<close>).  A pass opens a session, looks at every reservation, counts how
  often in a row its Pod was missing, releases the reservations whose count is too high, removes released reservations
  after their cooldown and drops the data of pools that are empty and not configured.  The Kubernetes clients are
  parameters: a reading of a Pod gives its UID, that there is none, or an error.  The map of counts is an association list
  with unique keys.  All readings of the clock in a pass give the same time.  \<^const>\<open>None\<close> is a panic.
\<close>

subsection \<open>The model\<close>

datatype pod_result = PodFound string | PodNotFound | PodError string

type_synonym pod_client = "string \<times> string \<Rightarrow> pod_result"

record cleaner =
  cnCheckCountBeforeRelease :: int
  cnReleaseCooldown :: int
  cnStaleAllocations :: "(string \<times> int) list"

text \<open>What a pass gets from outside: the clients, the configuration, the clock, and the file system of the store.\<close>

record pass_env =
  peCachedClient :: pod_client
  peDirectClient :: pod_client
  pePools :: manager
  peEnv :: env

datatype cleaner_error = OpenStoreFailed | CacheReadFailed string | APIReadFailed string | CommitFailed

definition NewCleaner :: "int \<Rightarrow> int \<Rightarrow> cleaner" where
  "NewCleaner checkCountBeforeRelease releaseCooldown =
     \<lparr>cnCheckCountBeforeRelease = checkCountBeforeRelease, cnReleaseCooldown = releaseCooldown, cnStaleAllocations = []\<rparr>"

definition checkPod :: "pod_client \<Rightarrow> Reservation \<Rightarrow> string + bool" where
  "checkPod k8sClient reservation =
     (let meta = rsMetadata reservation
      in case k8sClient (rmPodNamespace meta, rmPodName meta) of
           PodError e \<Rightarrow> Inl e
         | PodNotFound \<Rightarrow> Inr False
         | PodFound uid \<Rightarrow> Inr (\<not> (rmPodUUID meta \<noteq> [] \<and> rmPodUUID meta \<noteq> uid)))"

definition getStaleAllocKey :: "string \<Rightarrow> Reservation \<Rightarrow> string" where
  "getStaleAllocKey poolName r = poolName @ ''|'' @ rsContainerID r @ ''|'' @ rsInterfaceName r"

text \<open>\<open>strings.SplitN(k, "|", 3)\<close> indexed at 0, 1 and 2: \<^const>\<open>None\<close> if there are fewer fields.\<close>

definition cut_bar :: "string \<Rightarrow> (string \<times> string) option" where
  "cut_bar s = (case dropWhile (\<lambda>c. c \<noteq> CHR ''|'') s of [] \<Rightarrow> None | _ # rest \<Rightarrow> Some (takeWhile (\<lambda>c. c \<noteq> CHR ''|'') s, rest))"

definition split3 :: "string \<Rightarrow> (string \<times> string \<times> string) option" where
  "split3 k = (case cut_bar k of
     None \<Rightarrow> None
   | Some (a, rest) \<Rightarrow> (case cut_bar rest of None \<Rightarrow> None | Some (b, c) \<Rightarrow> Some (a, b, c)))"

definition increment :: "string \<Rightarrow> (string \<times> int) list \<Rightarrow> (string \<times> int) list" where
  "increment k m = AList.update k ((case map_of m k of None \<Rightarrow> 0 | Some n \<Rightarrow> n) + 1) m"

text \<open>The Pod of a reservation is looked for in the cache and, if it is not there, in the API.\<close>

definition find_pod :: "pass_env \<Rightarrow> Reservation \<Rightarrow> cleaner_error + bool" where
  "find_pod pe reservation =
     (case checkPod (peCachedClient pe) reservation of
        Inl e \<Rightarrow> Inl (CacheReadFailed e)
      | Inr True \<Rightarrow> Inr True
      | Inr False \<Rightarrow>
          (case checkPod (peDirectClient pe) reservation of
             Inl e \<Rightarrow> Inl (APIReadFailed e)
           | Inr found \<Rightarrow> Inr found))"

text \<open>The body of the loop over the reservations of a pool, without the bookkeeping of known reservations.\<close>

definition check_reservation ::
    "cleaner \<Rightarrow> pass_env \<Rightarrow> string \<Rightarrow> Reservation \<Rightarrow> (string \<times> int) list \<times> session \<Rightarrow> (cleaner_error option \<times> (string \<times> int) list \<times> session) option" where
  "check_reservation c pe poolKey reservation st =
     (let (stale, session) = st;
          staleAllocKey = getStaleAllocKey poolKey reservation;
          now = evNow (peEnv pe)
      in if IsReleased reservation then
           (if cnReleaseCooldown c \<le> time_Since now (rsReleasedAt reservation) then
              map_option (\<lambda>(_, session'). (None, AList.delete staleAllocKey stale, session'))
                (ReleaseReservationByID now poolKey (rsContainerID reservation) (rsInterfaceName reservation) (cnReleaseCooldown c) session)
            else Some (None, AList.delete staleAllocKey stale, session))
         else if rmPodName (rsMetadata reservation) = [] \<or> rmPodNamespace (rsMetadata reservation) = [] then Some (None, stale, session)
         else
           (case find_pod pe reservation of
              Inl e \<Rightarrow> Some (Some e, stale, session)
            | Inr True \<Rightarrow> Some (None, AList.delete staleAllocKey stale, session)
            | Inr False \<Rightarrow> Some (None, increment staleAllocKey stale, session)))"

fun check_reservations ::
    "cleaner \<Rightarrow> pass_env \<Rightarrow> string \<Rightarrow> Reservation list \<Rightarrow> (string \<times> int) list \<times> session \<Rightarrow> (cleaner_error option \<times> (string \<times> int) list \<times> session) option" where
  "check_reservations c pe poolKey [] st = Some (None, st)"
| "check_reservations c pe poolKey (r # rs) st =
     (case check_reservation c pe poolKey r st of
        None \<Rightarrow> None
      | Some (Some e, st') \<Rightarrow> Some (Some e, st')
      | Some (None, st') \<Rightarrow> check_reservations c pe poolKey rs st')"

text \<open>The loop over the pools also collects the keys of all reservations and the empty pools.\<close>

fun check_pools ::
    "cleaner \<Rightarrow> pass_env \<Rightarrow> string list \<Rightarrow> (string \<times> int) list \<times> session \<Rightarrow>
     (cleaner_error option \<times> string list \<times> string list \<times> (string \<times> int) list \<times> session) option" where
  "check_pools c pe [] st = Some (None, [], [], st)"
| "check_pools c pe (poolKey # poolKeys) st =
     (case ListReservations poolKey (snd st) of
        None \<Rightarrow> None
      | Some poolReservations \<Rightarrow>
          if length poolReservations = 0 then
            map_option (\<lambda>(e, allReservations, emptyPools, st'). (e, allReservations, poolKey # emptyPools, st')) (check_pools c pe poolKeys st)
          else
            (case check_reservations c pe poolKey poolReservations st of
               None \<Rightarrow> None
             | Some (Some e, st') \<Rightarrow> Some (Some e, [], [], st')
             | Some (None, st') \<Rightarrow>
                 map_option (\<lambda>(e, allReservations, emptyPools, st''). (e, map (getStaleAllocKey poolKey) poolReservations @ allReservations, emptyPools, st''))
                   (check_pools c pe poolKeys st')))"

text \<open>The loop over the counts, on the list as it was when the loop starts.\<close>

fun release_stale ::
    "cleaner \<Rightarrow> pass_env \<Rightarrow> string list \<Rightarrow> (string \<times> int) list \<Rightarrow> (string \<times> int) list \<times> session \<Rightarrow> ((string \<times> int) list \<times> session) option" where
  "release_stale c pe allReservations [] st = Some st"
| "release_stale c pe allReservations ((k, count) # ks) (stale, session) =
     (if k \<notin> set allReservations then release_stale c pe allReservations ks (AList.delete k stale, session)
      else if cnCheckCountBeforeRelease c < count then
        (case split3 k of
           None \<Rightarrow> None
         | Some (poolKey, containerID, ifName) \<Rightarrow>
             (case ReleaseReservationByID (evNow (peEnv pe)) poolKey containerID ifName (cnReleaseCooldown c) session of
                None \<Rightarrow> None
              | Some (_, session') \<Rightarrow> release_stale c pe allReservations ks (stale, session')))
      else release_stale c pe allReservations ks (stale, session))"

fun remove_empty :: "pass_env \<Rightarrow> string list \<Rightarrow> session \<Rightarrow> session option" where
  "remove_empty pe [] session = Some session"
| "remove_empty pe (emptyPool # emptyPools) session =
     (case GetPoolByKey emptyPool (pePools pe) of
        Some _ \<Rightarrow> remove_empty pe emptyPools session
      | None \<Rightarrow> (case RemovePool emptyPool session of None \<Rightarrow> None | Some session' \<Rightarrow> remove_empty pe emptyPools session'))"

definition cleaner_loop :: "pass_env \<Rightarrow> cleaner \<Rightarrow> store \<Rightarrow> (cleaner_error option \<times> cleaner \<times> store) option" where
  "cleaner_loop pe c m =
     (let ev = peEnv pe
      in case Open (evMarshal ev) (evUnmarshal ev) m of
           None \<Rightarrow> None
         | Some (Inl _, m1) \<Rightarrow> Some (Some OpenStoreFailed, c, m1)
         | Some (Inr session, m1) \<Rightarrow>
             (case ListPools session of
                None \<Rightarrow> None
              | Some poolKeys \<Rightarrow>
                  (case check_pools c pe poolKeys (cnStaleAllocations c, session) of
                     None \<Rightarrow> None
                   | Some (Some e, _, _, stale, session1) \<Rightarrow>
                       map_option (\<lambda>(_, m2). (Some e, c\<lparr>cnStaleAllocations := stale\<rparr>, m2)) (Cancel session1 m1)
                   | Some (None, allReservations, emptyPools, stale, session1) \<Rightarrow>
                       (case release_stale c pe allReservations stale (stale, session1) of
                          None \<Rightarrow> None
                        | Some (stale', session2) \<Rightarrow>
                            (case remove_empty pe emptyPools session2 of
                               None \<Rightarrow> None
                             | Some session3 \<Rightarrow>
                                 map_option (\<lambda>(err, _, m2). (if err = None then None else Some CommitFailed, c\<lparr>cnStaleAllocations := stale'\<rparr>, m2))
                                   (Commit (evMarshal ev) (evWriteOk ev) session3 m1))))))"

text \<open>\<open>Start\<close> runs one pass per entry of the list, one for each check interval until the context is done; a failed pass is
  logged and the next one runs.\<close>

fun cleaner_Start :: "pass_env list \<Rightarrow> cleaner \<Rightarrow> store \<Rightarrow> (cleaner \<times> store) option" where
  "cleaner_Start [] c m = Some (c, m)"
| "cleaner_Start (pe # pes) c m =
     (case cleaner_loop pe c m of
        None \<Rightarrow> None
      | Some (_, c', m') \<Rightarrow> cleaner_Start pes c' m')"

subsection \<open>Keys\<close>

abbreviation ent :: "session \<Rightarrow> string \<Rightarrow> string \<Rightarrow> Reservation option" where
  "ent s pk k \<equiv> map_of (ssn_entries s pk) k"

abbreviation res_key :: "Reservation \<Rightarrow> string" where
  "res_key r \<equiv> getKey (rsContainerID r) (rsInterfaceName r)"

definition bar_free :: "string \<Rightarrow> bool" where
  "bar_free s \<longleftrightarrow> CHR ''|'' \<notin> set s"

text \<open>Pool keys and container IDs have no vertical bar.\<close>

definition bars_free :: "session \<Rightarrow> bool" where
  "bars_free s \<longleftrightarrow> (\<forall>pk k r. ent s pk k = Some r \<longrightarrow> bar_free pk \<and> bar_free (rsContainerID r))"

lemma cut_bar_append: "bar_free a \<Longrightarrow> cut_bar (a @ CHR ''|'' # rest) = Some (a, rest)"
proof -
  assume "bar_free a"
  then have "takeWhile (\<lambda>c. c \<noteq> CHR ''|'') (a @ CHR ''|'' # rest) = a" "dropWhile (\<lambda>c. c \<noteq> CHR ''|'') (a @ CHR ''|'' # rest) = CHR ''|'' # rest"
    by (induction a) (auto simp: bar_free_def)
  then show ?thesis by (simp add: cut_bar_def)
qed

lemma split3_key: "bar_free pk \<Longrightarrow> bar_free (rsContainerID r) \<Longrightarrow> split3 (getStaleAllocKey pk r) = Some (pk, rsContainerID r, rsInterfaceName r)"
  by (simp add: split3_def getStaleAllocKey_def cut_bar_append)

lemma stale_key_inj:
  assumes "bars_free s" "ent s pk k = Some r" "ent s pk' k' = Some r'" "getStaleAllocKey pk r = getStaleAllocKey pk' r'"
  shows "pk = pk' \<and> res_key r = res_key r'"
proof -
  have b: "bar_free pk" "bar_free (rsContainerID r)" "bar_free pk'" "bar_free (rsContainerID r')" using assms(1-3) by (auto simp: bars_free_def)
  show ?thesis using split3_key [OF b(1,2)] split3_key [OF b(3,4)] assms(4) by simp
qed

lemma ent_key: "session_ok s \<Longrightarrow> ent s pk k = Some r \<Longrightarrow> k = res_key r"
  using session_ok_entries [of s pk] map_of_SomeD by (fastforce simp: entries_ok_def)

lemma ent_list:
  assumes "session_ok s"
  shows "set (map snd (ssn_entries s pk)) = {r. \<exists>k. ent s pk k = Some r}" "distinct (map (\<lambda>r. res_key r) (map snd (ssn_entries s pk)))"
    "ssn_entries s pk = [] \<longleftrightarrow> (\<forall>k. ent s pk k = None)"
proof -
  have ok: "distinct (map fst (ssn_entries s pk))" "\<forall>(k, r) \<in> set (ssn_entries s pk). k = res_key r"
    using session_ok_entries [OF assms, of pk] by (simp_all add: entries_ok_def)
  show "set (map snd (ssn_entries s pk)) = {r. \<exists>k. ent s pk k = Some r}" using ok(1) by (force simp: map_of_eq_Some_iff)
  have "map (\<lambda>r. res_key r) (map snd (ssn_entries s pk)) = map fst (ssn_entries s pk)" using ok(2) by (auto simp: case_prod_beta)
  from ok(1) [folded this] show "distinct (map (\<lambda>r. res_key r) (map snd (ssn_entries s pk)))" .
  show "ssn_entries s pk = [] \<longleftrightarrow> (\<forall>k. ent s pk k = None)" by (cases "ssn_entries s pk") (auto simp: map_of_eq_None_iff split: if_splits)
qed

lemma ent_by_key: "session_ok s \<Longrightarrow> ent s pk k = Some r \<Longrightarrow> ent s pk (res_key r) = Some r"
  using ent_key by fastforce

subsection \<open>What a pass makes of a reservation\<close>

definition expired :: "cleaner \<Rightarrow> pass_env \<Rightarrow> Reservation \<Rightarrow> bool" where
  "expired c pe r \<longleftrightarrow> IsReleased r \<and> cnReleaseCooldown c \<le> time_Since (evNow (peEnv pe)) (rsReleasedAt r)"

text \<open>Only reservations of Pods are watched.\<close>

definition watched :: "Reservation \<Rightarrow> bool" where
  "watched r \<longleftrightarrow> \<not> IsReleased r \<and> rmPodName (rsMetadata r) \<noteq> [] \<and> rmPodNamespace (rsMetadata r) \<noteq> []"

text \<open>The count of missed checks after the pass.\<close>

definition count_after :: "pass_env \<Rightarrow> Reservation \<Rightarrow> int option \<Rightarrow> int option" where
  "count_after pe r old =
     (if IsReleased r then None
      else if \<not> watched r then old
      else (case find_pod pe r of Inr False \<Rightarrow> Some ((case old of None \<Rightarrow> 0 | Some n \<Rightarrow> n) + 1) | _ \<Rightarrow> None))"

text \<open>The reservation after the pass.\<close>

definition pass_entry :: "cleaner \<Rightarrow> pass_env \<Rightarrow> int option \<Rightarrow> Reservation \<Rightarrow> Reservation option" where
  "pass_entry c pe old r =
     (if expired c pe r then None
      else (case count_after pe r old of
              Some n \<Rightarrow> (if cnCheckCountBeforeRelease c < n then release_entry (evNow (peEnv pe)) (cnReleaseCooldown c) (Some r) else Some r)
            | None \<Rightarrow> Some r))"

subsection \<open>The loop over the reservations\<close>

definition drop_expired :: "cleaner \<Rightarrow> pass_env \<Rightarrow> Reservation set \<Rightarrow> Reservation option \<Rightarrow> Reservation option" where
  "drop_expired c pe R x = (case x of None \<Rightarrow> None | Some r \<Rightarrow> if r \<in> R \<and> expired c pe r then None else Some r)"

lemma drop_expired_simps [simp]:
  "drop_expired c pe R None = None" "drop_expired c pe {} x = x"
  "drop_expired c pe R (drop_expired c pe Q x) = drop_expired c pe (Q \<union> R) x"
  by (auto simp: drop_expired_def split: option.split)

lemma release_expired: "expired c pe r \<Longrightarrow> release_entry (evNow (peEnv pe)) (cnReleaseCooldown c) (Some r) = None"
  by (auto simp: expired_def release_entry_def release_outcome_of_def)

lemma check_reservation_effect:
  assumes s: "session_ok s" "ent s pk (res_key r) = Some r" "distinct (map fst stale)"
  shows "\<exists>e stale' s'. check_reservation c pe pk r (stale, s) = Some (e, stale', s') \<and> session_ok s' \<and> (s' = s \<or> ssIsModified s') \<and>
    distinct (map fst stale') \<and> (e \<noteq> None \<longrightarrow> watched r \<and> (\<exists>x. find_pod pe r = Inl x)) \<and>
    (e = None \<longrightarrow> map_of stale' = (map_of stale)(getStaleAllocKey pk r := count_after pe r (map_of stale (getStaleAllocKey pk r)))) \<and>
    (\<forall>pk' k. ent s' pk' k = (if pk' = pk \<and> k = res_key r then drop_expired c pe {r} (ent s pk' k) else ent s pk' k))"
proof (cases "expired c pe r")
  case True
  let ?now = "evNow (peEnv pe)" and ?cd = "cnReleaseCooldown c"
  obtain b s' where s': "ReleaseReservationByID ?now pk (rsContainerID r) (rsInterfaceName r) ?cd s = Some (b, s')" "session_ok s'" "s' = s \<or> ssIsModified s'"
    "\<And>pk' k. ent s' pk' k = (if pk' = pk \<and> k = res_key r then release_entry ?now ?cd (ent s pk k) else ent s pk' k)"
    using Release_effect [OF s(1)] by blast
  have rel: "IsReleased r" "?cd \<le> time_Since ?now (rsReleasedAt r)" using True by (simp_all add: expired_def)
  have "check_reservation c pe pk r (stale, s) = Some (None, AList.delete (getStaleAllocKey pk r) stale, s')"
    using rel s'(1) by (simp add: check_reservation_def)
  moreover have "ent s' pk' k = (if pk' = pk \<and> k = res_key r then drop_expired c pe {r} (ent s pk' k) else ent s pk' k)" for pk' k
    using s'(4) s(2) release_expired [OF True] True by (auto simp: drop_expired_def)
  ultimately show ?thesis using s'(2,3) s(3) rel(1)
    by (intro exI [of _ None] exI [of _ "AList.delete (getStaleAllocKey pk r) stale"] exI [of _ s'])
      (simp add: distinct_delete delete_conv' count_after_def)
next
  case False
  have same: "ent s pk' k = (if pk' = pk \<and> k = res_key r then drop_expired c pe {r} (ent s pk' k) else ent s pk' k)" for pk' k
    using s(2) False by (auto simp: drop_expired_def)
  have "\<exists>e stale'. check_reservation c pe pk r (stale, s) = Some (e, stale', s) \<and> distinct (map fst stale') \<and>
      (e \<noteq> None \<longrightarrow> watched r \<and> (\<exists>x. find_pod pe r = Inl x)) \<and>
      (e = None \<longrightarrow> map_of stale' = (map_of stale)(getStaleAllocKey pk r := count_after pe r (map_of stale (getStaleAllocKey pk r))))"
  proof (cases "watched r")
    case True
    then have w: "\<not> IsReleased r" "\<not> (rmPodName (rsMetadata r) = [] \<or> rmPodNamespace (rsMetadata r) = [])" by (auto simp: watched_def)
    consider (error) x where "find_pod pe r = Inl x" | (found) "find_pod pe r = Inr True" | (missing) "find_pod pe r = Inr False"
      by (cases "find_pod pe r") auto
    then show ?thesis
      by cases (use w s(3) True in \<open>simp_all add: check_reservation_def Let_def count_after_def increment_def distinct_delete distinct_update delete_conv' update_conv'\<close>)
  next
    case nw: False
    then show ?thesis using False s(3)
      by (cases "IsReleased r") (auto simp: check_reservation_def count_after_def watched_def expired_def distinct_delete delete_conv' fun_upd_idem)
  qed
  then show ?thesis using s(1) same by blast
qed

text \<open>The counts and the entries after the reservations in \<open>R\<close> of one pool were looked at.\<close>

definition counted :: "pass_env \<Rightarrow> (string \<times> Reservation) set \<Rightarrow> (string \<times> int) list \<Rightarrow> (string \<times> int) list \<Rightarrow> bool" where
  "counted pe V stale stale' \<longleftrightarrow>
     (\<forall>(pk, r) \<in> V. map_of stale' (getStaleAllocKey pk r) = count_after pe r (map_of stale (getStaleAllocKey pk r))) \<and>
     (\<forall>k. k \<notin> (\<lambda>(pk, r). getStaleAllocKey pk r) ` V \<longrightarrow> map_of stale' k = map_of stale k)"

lemma counted_refl [simp]: "counted pe {} stale stale"
  by (simp add: counted_def)

lemma counted_trans:
  assumes "counted pe V stale stale1" "counted pe W stale1 stale2"
    "\<And>pk r pk' r'. (pk, r) \<in> V \<Longrightarrow> (pk', r') \<in> W \<Longrightarrow> getStaleAllocKey pk r \<noteq> getStaleAllocKey pk' r'"
  shows "counted pe (V \<union> W) stale stale2"
proof -
  have "map_of stale2 (getStaleAllocKey pk r) = count_after pe r (map_of stale (getStaleAllocKey pk r))" if v: "(pk, r) \<in> V" for pk r
  proof -
    have "getStaleAllocKey pk r \<notin> (\<lambda>(pk, r). getStaleAllocKey pk r) ` W" using assms(3) [OF v] by auto
    then show ?thesis using assms(1,2) v by (auto simp: counted_def)
  qed
  moreover have "map_of stale2 (getStaleAllocKey pk r) = count_after pe r (map_of stale (getStaleAllocKey pk r))" if w: "(pk, r) \<in> W" for pk r
  proof -
    have "getStaleAllocKey pk r \<notin> (\<lambda>(pk, r). getStaleAllocKey pk r) ` V" using assms(3) [OF _ w] by fastforce
    then have "map_of stale1 (getStaleAllocKey pk r) = map_of stale (getStaleAllocKey pk r)" using assms(1) unfolding counted_def by blast
    moreover have "map_of stale2 (getStaleAllocKey pk r) = count_after pe r (map_of stale1 (getStaleAllocKey pk r))" using assms(2) w by (auto simp: counted_def)
    ultimately show ?thesis by simp
  qed
  moreover have "map_of stale2 k = map_of stale k" if "k \<notin> (\<lambda>(pk, r). getStaleAllocKey pk r) ` (V \<union> W)" for k
    using assms(1,2) that by (simp add: counted_def image_Un)
  ultimately show ?thesis unfolding counted_def by (intro conjI allI impI ballI) (simp only: split_paired_all prod.case Un_iff, blast, blast)
qed

lemma checked_entries:
  assumes "session_ok s" "\<forall>q \<in> set (r # rs). ent s pk (res_key q) = Some q" "distinct (map (\<lambda>r. res_key r) (r # rs))"
    "\<forall>pk' k. ent s1 pk' k = (if pk' = pk \<and> k = res_key r then drop_expired c pe {r} (ent s pk' k) else ent s pk' k)"
  shows "ent s1 pk k = drop_expired c pe {r} (ent s pk k)" "\<forall>q \<in> set rs. ent s1 pk (res_key q) = Some q"
proof -
  show "ent s1 pk k = drop_expired c pe {r} (ent s pk k)"
  proof (cases "k = res_key r")
    case True
    then show ?thesis using assms(4) by simp
  next
    case False
    have "ent s pk k \<noteq> Some r" using ent_key [OF assms(1)] False by blast
    then have "drop_expired c pe {r} (ent s pk k) = ent s pk k" by (simp add: drop_expired_def split: option.split)
    then show ?thesis using assms(4) False by simp
  qed
  show "\<forall>q \<in> set rs. ent s1 pk (res_key q) = Some q"
  proof
    fix q assume q: "q \<in> set rs"
    then have "res_key r \<noteq> res_key q" using assms(3) by (simp only: list.map distinct.simps set_map) blast
    then have "ent s1 pk (res_key q) = ent s pk (res_key q)" using assms(4) by presburger
    also have "\<dots> = Some q" using assms(2) q by (simp only: list.set insert_iff) blast
    finally show "ent s1 pk (res_key q) = Some q" .
  qed
qed

lemma check_reservations_effect:
  assumes "session_ok s" "\<forall>r \<in> set rs. ent s pk (res_key r) = Some r" "distinct (map (\<lambda>r. res_key r) rs)" "distinct (map fst stale)"
    "\<forall>r \<in> set rs. \<forall>r' \<in> set rs. getStaleAllocKey pk r = getStaleAllocKey pk r' \<longrightarrow> res_key r = res_key r'"
  shows "\<exists>e stale' s'. check_reservations c pe pk rs (stale, s) = Some (e, stale', s') \<and> session_ok s' \<and> (s' = s \<or> ssIsModified s') \<and>
    distinct (map fst stale') \<and> (e \<noteq> None \<longrightarrow> (\<exists>r \<in> set rs. watched r \<and> (\<exists>x. find_pod pe r = Inl x))) \<and>
    (e = None \<longrightarrow> counted pe (Pair pk ` set rs) stale stale' \<and>
       (\<forall>pk' k. ent s' pk' k = (if pk' = pk then drop_expired c pe (set rs) (ent s pk' k) else ent s pk' k)))"
  using assms
proof (induction rs arbitrary: stale s)
  case Nil
  show ?case using Nil.prems(1,4) by (intro exI [of _ None] exI [of _ stale] exI [of _ s]) simp
next
  case (Cons r rs)
  let ?sk = "getStaleAllocKey pk r"
  obtain e stale1 s1 where st: "check_reservation c pe pk r (stale, s) = Some (e, stale1, s1)" "session_ok s1" "s1 = s \<or> ssIsModified s1"
    "distinct (map fst stale1)" "e \<noteq> None \<longrightarrow> watched r \<and> (\<exists>x. find_pod pe r = Inl x)"
    "e = None \<longrightarrow> map_of stale1 = (map_of stale)(?sk := count_after pe r (map_of stale ?sk))"
    "\<forall>pk' k. ent s1 pk' k = (if pk' = pk \<and> k = res_key r then drop_expired c pe {r} (ent s pk' k) else ent s pk' k)"
    using check_reservation_effect [OF Cons.prems(1) _ Cons.prems(4), of pk r c pe] Cons.prems(2) by auto
  show ?case
  proof (cases e)
    case (Some x)
    then show ?thesis using st by (intro exI [of _ "Some x"] exI [of _ stale1] exI [of _ s1]) simp
  next
    case None
    have d: "\<And>k. ent s1 pk k = drop_expired c pe {r} (ent s pk k)" and other: "\<forall>q \<in> set rs. ent s1 pk (res_key q) = Some q"
      using checked_entries [OF Cons.prems(1-3) st(7)] by blast+
    have rest: "distinct (map (\<lambda>r. res_key r) rs)"
      "\<forall>r \<in> set rs. \<forall>r' \<in> set rs. getStaleAllocKey pk r = getStaleAllocKey pk r' \<longrightarrow> res_key r = res_key r'"
      using Cons.prems(3,5) by (simp_all only: list.map distinct.simps list.set insert_iff) blast
    have "\<exists>e' stale' s'. check_reservations c pe pk rs (stale1, s1) = Some (e', stale', s') \<and> session_ok s' \<and> (s' = s1 \<or> ssIsModified s') \<and>
      distinct (map fst stale') \<and> (e' \<noteq> None \<longrightarrow> (\<exists>r \<in> set rs. watched r \<and> (\<exists>x. find_pod pe r = Inl x))) \<and>
      (e' = None \<longrightarrow> counted pe (Pair pk ` set rs) stale1 stale' \<and>
         (\<forall>pk' k. ent s' pk' k = (if pk' = pk then drop_expired c pe (set rs) (ent s1 pk' k) else ent s1 pk' k)))"
      by (rule Cons.IH [OF st(2) other rest(1) st(4) rest(2)])
    then obtain e' stale' s' where ih: "check_reservations c pe pk rs (stale1, s1) = Some (e', stale', s')" "session_ok s'" "s' = s1 \<or> ssIsModified s'"
      "distinct (map fst stale')" "e' \<noteq> None \<longrightarrow> (\<exists>r \<in> set rs. watched r \<and> (\<exists>x. find_pod pe r = Inl x))"
      "e' = None \<longrightarrow> counted pe (Pair pk ` set rs) stale1 stale'"
      "e' = None \<longrightarrow> (\<forall>pk' k. ent s' pk' k = (if pk' = pk then drop_expired c pe (set rs) (ent s1 pk' k) else ent s1 pk' k))" by blast
    have c1: "counted pe {(pk, r)} stale stale1" using st(6) None by (simp add: counted_def)
    have "counted pe (Pair pk ` set (r # rs)) stale stale'" if "e' = None"
    proof -
      have "counted pe ({(pk, r)} \<union> Pair pk ` set rs) stale stale'"
      proof (rule counted_trans [OF c1])
        show "counted pe (Pair pk ` set rs) stale1 stale'" using ih(6) that by blast
        fix a q b q' assume "(a, q) \<in> {(pk, r)}" "(b, q') \<in> Pair pk ` set rs"
        then have q: "a = pk" "q = r" "b = pk" "q' \<in> set rs" by blast+
        have "res_key r \<noteq> res_key q'" using Cons.prems(3) q(4) by (simp only: list.map distinct.simps set_map) blast
        then show "getStaleAllocKey a q \<noteq> getStaleAllocKey b q'"
          using Cons.prems(5) q by (simp only: list.set) blast
      qed
      then show ?thesis by simp
    qed
    moreover have "ent s' pk' k = (if pk' = pk then drop_expired c pe (set (r # rs)) (ent s pk' k) else ent s pk' k)" if "e' = None" for pk' k
      using ih(7) that d st(7) by simp
    moreover have "s' = s \<or> ssIsModified s'" using st(3) ih(3) by blast
    moreover have "check_reservations c pe pk (r # rs) (stale, s) = Some (e', stale', s')" using st(1) None ih(1) by simp
    ultimately show ?thesis using ih(2,4,5) by (intro exI [of _ e'] exI [of _ stale'] exI [of _ s']) auto
  qed
qed

subsection \<open>The loop over the pools\<close>

definition visits :: "session \<Rightarrow> string set \<Rightarrow> (string \<times> Reservation) set" where
  "visits s P = {(pk, r). pk \<in> P \<and> (\<exists>k. ent s pk k = Some r)}"

lemma ListReservations_ent: "session_ok s \<Longrightarrow> ListReservations pk s = Some (map snd (ssn_entries s pk))"
  by (simp add: ListReservations_def session_ok_def ssn_entries_def)

definition read_error :: "pass_env \<Rightarrow> session \<Rightarrow> bool" where
  "read_error pe s \<longleftrightarrow> (\<exists>pk k r x. ent s pk k = Some r \<and> watched r \<and> find_pod pe r = Inl x)"

text \<open>What a successful loop over the pools \<open>P\<close> has done.\<close>

definition pools_checked ::
    "cleaner \<Rightarrow> pass_env \<Rightarrow> string set \<Rightarrow> (string \<times> int) list \<times> session \<Rightarrow> string list \<Rightarrow> string list \<Rightarrow> (string \<times> int) list \<times> session \<Rightarrow> bool" where
  "pools_checked c pe P st known empties st' \<longleftrightarrow>
     set known = (\<lambda>(pk, r). getStaleAllocKey pk r) ` visits (snd st) P \<and>
     set empties \<subseteq> {pk \<in> P. \<forall>k. ent (snd st) pk k = None} \<and>
     counted pe (visits (snd st) P) (fst st) (fst st') \<and>
     (\<forall>pk k. ent (snd st') pk k = (if pk \<in> P then drop_expired c pe UNIV (ent (snd st) pk k) else ent (snd st) pk k))"

lemma pool_reservations:
  assumes "session_ok s" "bars_free s"
  shows "\<forall>r \<in> set (map snd (ssn_entries s pk)). ent s pk (res_key r) = Some r"
    "\<forall>r \<in> set (map snd (ssn_entries s pk)). \<forall>r' \<in> set (map snd (ssn_entries s pk)).
       getStaleAllocKey pk r = getStaleAllocKey pk r' \<longrightarrow> res_key r = res_key r'"
    "Pair pk ` set (map snd (ssn_entries s pk)) = visits s {pk}"
proof -
  note l = ent_list(1) [OF assms(1), of pk]
  show "\<forall>r \<in> set (map snd (ssn_entries s pk)). ent s pk (res_key r) = Some r"
    unfolding l using ent_by_key [OF assms(1)] by blast
  show "\<forall>r \<in> set (map snd (ssn_entries s pk)). \<forall>r' \<in> set (map snd (ssn_entries s pk)).
       getStaleAllocKey pk r = getStaleAllocKey pk r' \<longrightarrow> res_key r = res_key r'"
    unfolding l using stale_key_inj [OF assms(2)] by blast
  show "Pair pk ` set (map snd (ssn_entries s pk)) = visits s {pk}" unfolding l visits_def by blast
qed

lemma drop_all: "\<forall>k r. ent s pk k = Some r \<longrightarrow> r \<in> R \<Longrightarrow> drop_expired c pe R (ent s pk k) = drop_expired c pe UNIV (ent s pk k)"
  by (cases "ent s pk k") (simp_all add: drop_expired_def)

lemma visits_distinct:
  assumes "bars_free s" "(pk, r) \<in> visits s P" "(pk', r') \<in> visits s Q" "P \<inter> Q = {}"
  shows "getStaleAllocKey pk r \<noteq> getStaleAllocKey pk' r'"
  using assms stale_key_inj [OF assms(1)] unfolding visits_def by blast

text \<open>Looking at one more pool.\<close>

lemma pools_checked_step:
  assumes bars: "bars_free s" and p: "pk \<notin> P"
    and c1: "counted pe (visits s {pk}) stale stale1" and e1: "\<forall>pk' k. ent s1 pk' k = (if pk' = pk then drop_expired c pe UNIV (ent s pk' k) else ent s pk' k)"
    and rest: "pools_checked c pe P (stale1, s1) known empties st'"
    and l: "Pair pk ` set (map snd (ssn_entries s pk)) = visits s {pk}"
  shows "pools_checked c pe (insert pk P) (stale, s) (map (getStaleAllocKey pk) (map snd (ssn_entries s pk)) @ known) empties st'"
proof -
  have same: "ent s1 pk' k = ent s pk' k" if "pk' \<in> P" for pk' k using e1 that p by metis
  then have v: "visits s1 P = visits s P" unfolding visits_def by (intro Collect_cong) (auto split: prod.split)
  have ins: "visits s (insert pk P) = visits s {pk} \<union> visits s P" unfolding visits_def by blast
  have r: "set known = (\<lambda>(pk, r). getStaleAllocKey pk r) ` visits s P" "set empties \<subseteq> {pk \<in> P. \<forall>k. ent s1 pk k = None}"
    "counted pe (visits s P) stale1 (fst st')"
    "\<forall>pk k. ent (snd st') pk k = (if pk \<in> P then drop_expired c pe UNIV (ent s1 pk k) else ent s1 pk k)"
    using rest unfolding pools_checked_def fst_conv snd_conv v by blast+
  have "set (map (getStaleAllocKey pk) (map snd (ssn_entries s pk))) = (\<lambda>(pk, r). getStaleAllocKey pk r) ` visits s {pk}"
    unfolding l [symmetric] by (simp add: image_image)
  then have "set (map (getStaleAllocKey pk) (map snd (ssn_entries s pk)) @ known) = (\<lambda>(pk, r). getStaleAllocKey pk r) ` visits s (insert pk P)"
    unfolding ins image_Un set_append r(1) by blast
  moreover have "set empties \<subseteq> {q \<in> insert pk P. \<forall>k. ent s q k = None}" using r(2) same by fastforce
  moreover have "counted pe (visits s {pk} \<union> visits s P) stale (fst st')"
    by (rule counted_trans [OF c1 r(3)], rule visits_distinct [OF bars], assumption, assumption) (use p in blast)
  moreover have "ent (snd st') pk' k = (if pk' \<in> insert pk P then drop_expired c pe UNIV (ent s pk' k) else ent s pk' k)" for pk' k
  proof (cases "pk' = pk")
    case True
    then have "ent (snd st') pk' k = ent s1 pk k" using r(4) p by simp
    then show ?thesis using e1 True by simp
  next
    case False
    then have "ent s1 pk' k = ent s pk' k" using e1 by simp
    then show ?thesis using r(4) False by simp
  qed
  ultimately show ?thesis unfolding pools_checked_def fst_conv snd_conv ins by blast
qed

text \<open>An empty pool leaves everything as it is.\<close>

lemma pools_checked_empty:
  assumes "\<forall>k. ent (snd st) pk k = None" "pools_checked c pe P st known empties st'"
  shows "pools_checked c pe (insert pk P) st known (pk # empties) st'"
proof -
  have v: "visits (snd st) (insert pk P) = visits (snd st) P" unfolding visits_def using assms(1) by auto
  have e: "drop_expired c pe UNIV (ent (snd st) pk k) = ent (snd st) pk k" for k using assms(1) by simp
  show ?thesis using assms unfolding pools_checked_def v by (auto simp: e)
qed

lemma check_pools_effect:
  assumes "session_ok s" "bars_free s" "distinct pks" "distinct (map fst stale)"
  shows "\<exists>e known empties stale' s'. check_pools c pe pks (stale, s) = Some (e, known, empties, stale', s') \<and> session_ok s' \<and> (s' = s \<or> ssIsModified s') \<and>
    distinct (map fst stale') \<and> (e \<noteq> None \<longrightarrow> read_error pe s) \<and>
    (e = None \<longrightarrow> pools_checked c pe (set pks) (stale, s) known empties (stale', s'))"
  using assms
proof (induction pks arbitrary: stale s)
  case Nil
  show ?case using Nil.prems(1,4)
    by (intro exI [of _ None] exI [of _ "[]"] exI [of _ stale] exI [of _ s]) (simp add: pools_checked_def visits_def)
next
  case (Cons pk pks)
  have d: "distinct pks" "pk \<notin> set pks" using Cons.prems(3) by simp_all
  note l = ListReservations_ent [OF Cons.prems(1), of pk] and ne = ent_list(3) [OF Cons.prems(1), of pk]
  show ?case
  proof (cases "ssn_entries s pk = []")
    case True
    obtain e known empties stale' s' where ih: "check_pools c pe pks (stale, s) = Some (e, known, empties, stale', s')" "session_ok s'" "s' = s \<or> ssIsModified s'"
      "distinct (map fst stale')" "e \<noteq> None \<longrightarrow> read_error pe s" "e = None \<longrightarrow> pools_checked c pe (set pks) (stale, s) known empties (stale', s')"
      using Cons.IH [OF Cons.prems(1,2) d(1) Cons.prems(4)] by blast
    have "check_pools c pe (pk # pks) (stale, s) = Some (e, known, pk # empties, stale', s')" using l True ih(1) by simp
    then show ?thesis using ih(2-6) pools_checked_empty [of "(stale, s)" pk c pe "set pks" known empties "(stale', s')"] True ne
      by (intro exI [of _ e] exI [of _ known] exI [of _ "pk # empties"] exI [of _ stale'] exI [of _ s']) simp
  next
    case False
    let ?rs = "map snd (ssn_entries s pk)"
    note p = pool_reservations [OF Cons.prems(1,2), of pk]
    obtain e stale1 s1 where st: "check_reservations c pe pk ?rs (stale, s) = Some (e, stale1, s1)" "session_ok s1" "s1 = s \<or> ssIsModified s1"
      "distinct (map fst stale1)" "e \<noteq> None \<longrightarrow> (\<exists>r \<in> set ?rs. watched r \<and> (\<exists>x. find_pod pe r = Inl x))"
      "e = None \<longrightarrow> counted pe (Pair pk ` set ?rs) stale stale1"
      "e = None \<longrightarrow> (\<forall>pk' k. ent s1 pk' k = (if pk' = pk then drop_expired c pe (set ?rs) (ent s pk' k) else ent s pk' k))"
      using check_reservations_effect [OF Cons.prems(1) p(1) ent_list(2) [OF Cons.prems(1)] Cons.prems(4) p(2), of c pe] by blast
    have run: "check_pools c pe (pk # pks) (stale, s) = (case e of Some x \<Rightarrow> Some (Some x, [], [], stale1, s1)
        | None \<Rightarrow> map_option (\<lambda>(e, known, empties, st''). (e, map (getStaleAllocKey pk) ?rs @ known, empties, st'')) (check_pools c pe pks (stale1, s1)))"
      using l False st(1) by (simp split: option.split)
    show ?thesis
    proof (cases e)
      case (Some x)
      have "read_error pe s" using st(5) Some unfolding ent_list(1) [OF Cons.prems(1)] read_error_def by blast
      then show ?thesis using run Some st(2-4) by simp
    next
      case None
      have e1: "\<forall>pk' k. ent s1 pk' k = (if pk' = pk then drop_expired c pe UNIV (ent s pk' k) else ent s pk' k)"
        using st(7) None drop_all [of s pk "set ?rs" c pe] unfolding ent_list(1) [OF Cons.prems(1)] by auto
      have mono: "ent s1 pk' k = Some r \<Longrightarrow> ent s pk' k = Some r" for pk' k r
        using e1 by (auto simp: drop_expired_def split: if_splits option.splits)
      have b1: "bars_free s1" using Cons.prems(2) mono unfolding bars_free_def by blast
      obtain e' known empties stale' s' where ih: "check_pools c pe pks (stale1, s1) = Some (e', known, empties, stale', s')" "session_ok s'" "s' = s1 \<or> ssIsModified s'"
        "distinct (map fst stale')" "e' \<noteq> None \<longrightarrow> read_error pe s1" "e' = None \<longrightarrow> pools_checked c pe (set pks) (stale1, s1) known empties (stale', s')"
        using Cons.IH [OF st(2) b1 d(1) st(4)] by blast
      have "e' = None \<longrightarrow> pools_checked c pe (set (pk # pks)) (stale, s) (map (getStaleAllocKey pk) ?rs @ known) empties (stale', s')"
        using pools_checked_step [OF Cons.prems(2) d(2) _ e1 _ p(3)] st(6) None ih(6) unfolding p(3) by simp
      moreover have "e' \<noteq> None \<longrightarrow> read_error pe s" using ih(5) mono unfolding read_error_def by blast
      moreover have "s' = s \<or> ssIsModified s'" using st(3) ih(3) by blast
      moreover have "check_pools c pe (pk # pks) (stale, s) = Some (e', map (getStaleAllocKey pk) ?rs @ known, empties, stale', s')"
        using run None ih(1) by simp
      ultimately show ?thesis using ih(2,4) by blast
    qed
  qed
qed

subsection \<open>The loop over the counts\<close>

definition due :: "cleaner \<Rightarrow> string list \<Rightarrow> (string \<times> int) list \<Rightarrow> string \<Rightarrow> string \<Rightarrow> bool" where
  "due c known ks pk k \<longleftrightarrow> (\<exists>key n cid ifn. (key, n) \<in> set ks \<and> key \<in> set known \<and> cnCheckCountBeforeRelease c < n \<and>
     split3 key = Some (pk, cid, ifn) \<and> k = getKey cid ifn)"

lemma due_Cons:
  "due c known ((key, n) # ks) pk k \<longleftrightarrow>
     key \<in> set known \<and> cnCheckCountBeforeRelease c < n \<and> (\<exists>cid ifn. split3 key = Some (pk, cid, ifn) \<and> k = getKey cid ifn) \<or> due c known ks pk k"
  unfolding due_def by (simp only: list.set insert_iff prod.inject) blast

lemma release_stale_effect:
  assumes "session_ok s" "distinct (map fst stale)" "\<forall>(key, n) \<in> set ks. key \<in> set known \<longrightarrow> split3 key \<noteq> None"
  shows "\<exists>stale' s'. release_stale c pe known ks (stale, s) = Some (stale', s') \<and> session_ok s' \<and> (s' = s \<or> ssIsModified s') \<and> distinct (map fst stale') \<and>
    (\<forall>k. map_of stale' k = (if k \<in> fst ` set ks \<and> k \<notin> set known then None else map_of stale k)) \<and>
    (\<forall>pk k. ent s' pk k = (if due c known ks pk k then release_entry (evNow (peEnv pe)) (cnReleaseCooldown c) (ent s pk k) else ent s pk k))"
  using assms
proof (induction ks arbitrary: stale s)
  case Nil
  show ?case using Nil.prems by (intro exI [of _ stale] exI [of _ s]) (simp add: due_def)
next
  case (Cons kn ks)
  obtain key n where kn: "kn = (key, n)" by (cases kn)
  let ?now = "evNow (peEnv pe)" and ?cd = "cnReleaseCooldown c" and ?late = "key \<in> set known \<and> cnCheckCountBeforeRelease c < n"
  have sp: "\<forall>(key, n) \<in> set ks. key \<in> set known \<longrightarrow> split3 key \<noteq> None" "key \<in> set known \<Longrightarrow> split3 key \<noteq> None" using Cons.prems(3) kn by auto
  define stale1 where "stale1 = (if key \<in> set known then stale else AList.delete key stale)"
  have d1: "distinct (map fst stale1)" using Cons.prems(2) by (simp add: stale1_def distinct_delete)
  obtain s1 where s1: "release_stale c pe known (kn # ks) (stale, s) = release_stale c pe known ks (stale1, s1)" "session_ok s1" "s1 = s \<or> ssIsModified s1"
    "\<forall>pk k. ent s1 pk k = (if ?late \<and> (\<exists>cid ifn. split3 key = Some (pk, cid, ifn) \<and> k = getKey cid ifn) then release_entry ?now ?cd (ent s pk k) else ent s pk k)"
  proof (cases ?late)
    case True
    then obtain pk cid ifn where k3: "split3 key = Some (pk, cid, ifn)" using sp(2) by auto
    obtain b s1 where "ReleaseReservationByID ?now pk cid ifn ?cd s = Some (b, s1)" "session_ok s1" "s1 = s \<or> ssIsModified s1"
      "\<forall>pk' k. ent s1 pk' k = (if pk' = pk \<and> k = getKey cid ifn then release_entry ?now ?cd (ent s pk k) else ent s pk' k)"
      using Release_effect [OF Cons.prems(1)] by blast
    then show ?thesis using that [of s1] True k3 by (simp add: kn stale1_def)
  next
    case False
    then show ?thesis using that [of s] Cons.prems(1) by (auto simp: kn stale1_def)
  qed
  obtain stale' s' where ih: "release_stale c pe known ks (stale1, s1) = Some (stale', s')" "session_ok s'" "s' = s1 \<or> ssIsModified s'" "distinct (map fst stale')"
    "\<forall>k. map_of stale' k = (if k \<in> fst ` set ks \<and> k \<notin> set known then None else map_of stale1 k)"
    "\<forall>pk k. ent s' pk k = (if due c known ks pk k then release_entry ?now ?cd (ent s1 pk k) else ent s1 pk k)"
    using Cons.IH [OF s1(2) d1 sp(1)] by blast
  have "map_of stale' k = (if k \<in> fst ` set (kn # ks) \<and> k \<notin> set known then None else map_of stale k)" for k
    using ih(5) by (auto simp: kn stale1_def delete_conv')
  moreover have "ent s' pk k = (if due c known (kn # ks) pk k then release_entry ?now ?cd (ent s pk k) else ent s pk k)" for pk k
    unfolding kn due_Cons using ih(6) s1(4) by simp blast
  ultimately show ?case using s1(1,3) ih(1-4) by (intro exI [of _ stale'] exI [of _ s']) auto
qed

lemma remove_empty_effect:
  "session_ok s \<Longrightarrow> \<forall>pk \<in> set empties. \<forall>k. ent s pk k = None \<Longrightarrow>
   \<exists>s'. remove_empty pe empties s = Some s' \<and> session_ok s' \<and> (s' = s \<or> ssIsModified s') \<and> (\<forall>pk k. ent s' pk k = ent s pk k)"
proof (induction empties arbitrary: s)
  case Nil
  then show ?case by simp
next
  case (Cons pk pks)
  have rest: "\<forall>pk \<in> set pks. \<forall>k. ent s pk k = None" using Cons.prems(2) by simp
  show ?case
  proof (cases "GetPoolByKey pk (pePools pe)")
    case (Some cfg)
    then show ?thesis using Cons.IH [OF Cons.prems(1) rest] by simp
  next
    case None
    obtain s1 where s1: "RemovePool pk s = Some s1" "session_ok s1" "ssn_entries s1 pk = []"
      "\<And>k. k \<noteq> pk \<Longrightarrow> getPoolData k (ssTmpData s1) = getPoolData k (ssTmpData s)"
      by (rule RemovePool_ok [OF Cons.prems(1), of pk]) (rule that)
    have same: "ent s1 q k = ent s q k" for q k using s1(3,4) Cons.prems(2) by (cases "q = pk") (simp_all add: ssn_entries_def)
    have m: "ssIsModified s1" using s1(1) by (auto simp: RemovePool_def split: if_splits)
    obtain s' where "remove_empty pe pks s1 = Some s'" "session_ok s'" "s' = s1 \<or> ssIsModified s'" "\<forall>q k. ent s' q k = ent s1 q k"
      using Cons.IH [OF s1(2)] rest unfolding same by blast
    then show ?thesis using None s1(1) same m by (intro exI [of _ s']) auto
  qed
qed

end
