(* ===== verification/CleanerPasses.thy ===== *)
theory CleanerPasses
  imports Cleaner
begin

text \<open>
  Passes of the cleaner: what one pass makes of every reservation, and what many passes do to the reservations of running and of
  missing Pods.
\<close>

subsection \<open>One pass\<close>

lemma ListPools_newStore:
  assumes "root_ok d"
  shows "\<exists>pks. ListPools (newStore d) = Some pks \<and> distinct pks \<and> (\<forall>pk k r. ent (newStore d) pk k = Some r \<longrightarrow> pk \<in> set pks)"
proof -
  have ok: "session_ok (newStore d)" by (rule newStore_ok [OF assms])
  then obtain ps where ps: "rtPools (ssTmpData (newStore d)) = Some ps" "distinct (map fst ps)" "\<not> ssIsClosed (newStore d)"
    by (auto simp: session_ok_def root_ok_def split: option.splits)
  have "pk \<in> fst ` set ps" if "ent (newStore d) pk k = Some r" for pk k r
    using that by (rule contrapos_pp) (simp add: ssn_entries_def getPoolData_def root_pool_def ps(1) map_of_eq_None_iff [THEN iffD2] NewPoolReservations_def)
  then show ?thesis using ps by (simp add: ListPools_def) blast
qed

text \<open>The entries after the three loops are those of \<open>pass_entry\<close>.\<close>

lemma pass_entries:
  assumes ok: "session_ok s" "bars_free s" and all: "\<And>pk k r. ent s pk k = Some r \<Longrightarrow> pk \<in> P"
    and ck: "pools_checked c pe P (stale, s) known empties (stale1, s1)" and d1: "distinct (map fst stale1)"
    and rel: "\<forall>pk k. ent s2 pk k = (if due c known stale1 pk k then release_entry (evNow (peEnv pe)) (cnReleaseCooldown c) (ent s1 pk k) else ent s1 pk k)"
  shows "ent s2 pk k = (case ent s pk k of None \<Rightarrow> None | Some r \<Rightarrow> pass_entry c pe (map_of stale (getStaleAllocKey pk r)) r)"
proof -
  have k: "set known = (\<lambda>(pk, r). getStaleAllocKey pk r) ` visits s P" "counted pe (visits s P) stale stale1"
    "\<forall>pk k. ent s1 pk k = (if pk \<in> P then drop_expired c pe UNIV (ent s pk k) else ent s pk k)"
    using ck by (simp_all add: pools_checked_def)
  show ?thesis
  proof (cases "ent s pk k")
    case None
    then show ?thesis using k(3) rel by simp
  next
    case (Some r)
    have p: "pk \<in> P" by (rule all [OF Some])
    have v: "(pk, r) \<in> visits s P" using p Some by (auto simp: visits_def)
    have b: "bar_free pk" "bar_free (rsContainerID r)" using ok(2) Some by (auto simp: bars_free_def)
    have e1: "ent s1 pk k = (if expired c pe r then None else Some r)" using k(3) p Some by (simp add: drop_expired_def)
    have n: "map_of stale1 (getStaleAllocKey pk r) = count_after pe r (map_of stale (getStaleAllocKey pk r))" using k(2) v by (auto simp: counted_def)
    have "due c known stale1 pk k \<longleftrightarrow> (\<exists>v. count_after pe r (map_of stale (getStaleAllocKey pk r)) = Some v \<and> cnCheckCountBeforeRelease c < v)"
    proof
      assume "due c known stale1 pk k"
      then obtain key v cid ifn where key: "(key, v) \<in> set stale1" "key \<in> set known" "cnCheckCountBeforeRelease c < v"
        "split3 key = Some (pk, cid, ifn)" "k = getKey cid ifn" unfolding due_def by blast
      then obtain pk' r' where r': "key = getStaleAllocKey pk' r'" "(pk', r') \<in> visits s P" using k(1) by auto
      then obtain k' where k': "ent s pk' k' = Some r'" by (auto simp: visits_def)
      have b': "bar_free pk'" "bar_free (rsContainerID r')" using ok(2) k' by (auto simp: bars_free_def)
      have "pk' = pk" "res_key r' = k" using split3_key [OF b'] key(4,5) r'(1) by simp_all
      then have "r' = r" using ent_key [OF ok(1) k'] k' Some by simp
      moreover have "map_of stale1 key = Some v" using key(1) d1 by simp
      ultimately show "\<exists>v. count_after pe r (map_of stale (getStaleAllocKey pk r)) = Some v \<and> cnCheckCountBeforeRelease c < v"
        using n r'(1) \<open>pk' = pk\<close> key(3) by auto
    next
      assume "\<exists>v. count_after pe r (map_of stale (getStaleAllocKey pk r)) = Some v \<and> cnCheckCountBeforeRelease c < v"
      then obtain v' where v': "map_of stale1 (getStaleAllocKey pk r) = Some v'" "cnCheckCountBeforeRelease c < v'" unfolding n [symmetric] by blast
      have "getStaleAllocKey pk r \<in> set known" unfolding k(1) using v by force
      then show "due c known stale1 pk k"
        unfolding due_def using map_of_SomeD [OF v'(1)] v'(2) split3_key [OF b] ent_key [OF ok(1) Some] by blast
    qed
    then show ?thesis using rel e1 Some by (auto simp: pass_entry_def split: option.split)
  qed
qed

lemma pass_counts:
  assumes ck: "pools_checked c pe P (stale, s) known empties (stale1, s1)" and v: "(pk, r) \<in> visits s P"
    and st: "\<forall>k. map_of stale2 k = (if k \<in> fst ` set stale1 \<and> k \<notin> set known then None else map_of stale1 k)"
  shows "map_of stale2 (getStaleAllocKey pk r) = count_after pe r (map_of stale (getStaleAllocKey pk r))"
proof -
  have "set known = (\<lambda>(pk, r). getStaleAllocKey pk r) ` visits s P" "counted pe (visits s P) stale stale1"
    using ck by (simp_all add: pools_checked_def)
  then have "getStaleAllocKey pk r \<in> set known" "map_of stale1 (getStaleAllocKey pk r) = count_after pe r (map_of stale (getStaleAllocKey pk r))"
    using v by (force, auto simp: counted_def)
  then show ?thesis using st by simp
qed

text \<open>The work of a pass on an open session.\<close>

definition pass_done :: "cleaner \<Rightarrow> pass_env \<Rightarrow> (string \<times> int) list \<Rightarrow> session \<Rightarrow> (string \<times> int) list \<Rightarrow> session \<Rightarrow> bool" where
  "pass_done c pe stale s stale' s' \<longleftrightarrow>
     (\<forall>pk k. ent s' pk k = (case ent s pk k of None \<Rightarrow> None | Some r \<Rightarrow> pass_entry c pe (map_of stale (getStaleAllocKey pk r)) r)) \<and>
     (\<forall>pk k r. ent s pk k = Some r \<longrightarrow> map_of stale' (getStaleAllocKey pk r) = count_after pe r (map_of stale (getStaleAllocKey pk r)))"

lemma pass_session:
  assumes ok: "session_ok s" "bars_free s" "distinct (map fst stale)" and pks: "distinct pks" "\<forall>pk k r. ent s pk k = Some r \<longrightarrow> pk \<in> set pks"
    and ck: "check_pools c pe pks (stale, s) = Some (None, known, empties, stale1, s1)"
  shows "\<exists>stale2 s2 s3. release_stale c pe known stale1 (stale1, s1) = Some (stale2, s2) \<and> remove_empty pe empties s2 = Some s3 \<and>
    session_ok s3 \<and> (s3 = s \<or> ssIsModified s3) \<and> distinct (map fst stale2) \<and> pass_done c pe stale s stale2 s3"
proof -
  have c: "session_ok s1" "s1 = s \<or> ssIsModified s1" "distinct (map fst stale1)" "pools_checked c pe (set pks) (stale, s) known empties (stale1, s1)"
    using check_pools_effect [OF ok(1,2) pks(1) ok(3), of c pe] ck by simp_all
  have k: "set known = (\<lambda>(pk, r). getStaleAllocKey pk r) ` visits s (set pks)" "set empties \<subseteq> {pk \<in> set pks. \<forall>k. ent s pk k = None}"
    "\<forall>pk k. ent s1 pk k = (if pk \<in> set pks then drop_expired c pe UNIV (ent s pk k) else ent s pk k)"
    using c(4) by (simp_all add: pools_checked_def)
  have sp: "\<forall>(key, n) \<in> set stale1. key \<in> set known \<longrightarrow> split3 key \<noteq> None"
    unfolding k(1) visits_def using ok(2) split3_key by (fastforce simp: bars_free_def)
  obtain stale2 s2 where r: "release_stale c pe known stale1 (stale1, s1) = Some (stale2, s2)" "session_ok s2" "s2 = s1 \<or> ssIsModified s2" "distinct (map fst stale2)"
    "\<forall>k. map_of stale2 k = (if k \<in> fst ` set stale1 \<and> k \<notin> set known then None else map_of stale1 k)"
    "\<forall>pk k. ent s2 pk k = (if due c known stale1 pk k then release_entry (evNow (peEnv pe)) (cnReleaseCooldown c) (ent s1 pk k) else ent s1 pk k)"
    using release_stale_effect [OF c(1,3) sp, of c pe] by blast
  have pe: "ent s2 pk k = (case ent s pk k of None \<Rightarrow> None | Some r \<Rightarrow> pass_entry c pe (map_of stale (getStaleAllocKey pk r)) r)" for pk k
    by (rule pass_entries [OF ok(1,2) _ c(4,3) r(6)]) (rule pks(2) [rule_format])
  then have em: "\<forall>pk \<in> set empties. \<forall>k. ent s2 pk k = None" using k(2) by auto
  obtain s3 where s3: "remove_empty pe empties s2 = Some s3" "session_ok s3" "s3 = s2 \<or> ssIsModified s3" "\<forall>pk k. ent s3 pk k = ent s2 pk k"
    using remove_empty_effect [OF r(2) em] by blast
  have "map_of stale2 (getStaleAllocKey pk r) = count_after pe r (map_of stale (getStaleAllocKey pk r))" if "ent s pk k = Some r" for pk k r
    by (rule pass_counts [OF c(4) _ r(5)]) (use that pks(2) [rule_format, OF that] in \<open>auto simp: visits_def\<close>)
  then have "pass_done c pe stale s stale2 s3" unfolding pass_done_def using pe s3(4) by simp
  then show ?thesis using r(1,3,4) s3(1-3) c(2) by blast
qed

lemma Commit_closeSession:
  assumes "closeSession ev s None m = Some (err, m')"
  shows "\<exists>cerr s'. Commit (evMarshal ev) (evWriteOk ev) s m = Some (cerr, s', m') \<and> (cerr = None \<longleftrightarrow> err = None)"
  using assms by (auto simp: closeSession_def split: option.splits)

lemma Cancel_closeSession: "closeSession ev s (Some e) m = Some (Some e, m') \<Longrightarrow> \<exists>s'. Cancel s m = Some (s', m')"
  by (auto simp: closeSession_def split: option.splits)

text \<open>The state of the cleaner between passes.\<close>

definition cleaner_ready :: "cleaner \<Rightarrow> store \<Rightarrow> Root \<Rightarrow> bool" where
  "cleaner_ready c m d \<longleftrightarrow> store_ready m d \<and> bars_free (newStore d) \<and> distinct (map fst (cnStaleAllocations c))"

lemma pass_done_bars: "bars_free s \<Longrightarrow> pass_done c pe stale s stale' s' \<Longrightarrow> bars_free s'"
  by (auto simp: bars_free_def pass_done_def pass_entry_def release_entry_def
      split: option.splits if_splits release_outcome.splits)

text \<open>A pass that meets no error sees every reservation once; any other pass leaves the store as it is.\<close>

lemma cleaner_pass:
  assumes rd: "cleaner_ready c m d" and ms: "\<And>r. evMarshal (peEnv pe) r \<noteq> None"
  shows "\<exists>err c' m' d'. cleaner_loop pe c m = Some (err, c', m') \<and> cleaner_ready c' m' d' \<and>
    cnCheckCountBeforeRelease c' = cnCheckCountBeforeRelease c \<and> cnReleaseCooldown c' = cnReleaseCooldown c \<and>
    (err \<noteq> None \<longrightarrow> m' = m \<and> d' = d) \<and> (\<not> read_error pe (newStore d) \<and> evWriteOk (peEnv pe) \<longrightarrow> err = None) \<and>
    (err = None \<longrightarrow> pass_done c pe (cnStaleAllocations c) (newStore d) (cnStaleAllocations c') (newStore d'))"
proof -
  have r: "store_ready m d" "bars_free (newStore d)" "distinct (map fst (cnStaleAllocations c))" using rd by (simp_all add: cleaner_ready_def)
  note sr = store_readyD [OF r(1)] and op = Open_persisted [OF store_readyD(4) [OF r(1)], of "evMarshal (peEnv pe)" "evUnmarshal (peEnv pe)"]
  obtain pks where pks: "ListPools (newStore d) = Some pks" "distinct pks" "\<forall>pk k r. ent (newStore d) pk k = Some r \<longrightarrow> pk \<in> set pks"
    using ListPools_newStore [OF sr(5)] by blast
  obtain e known empties stale1 s1 where ck: "check_pools c pe pks (cnStaleAllocations c, newStore d) = Some (e, known, empties, stale1, s1)" "session_ok s1"
    "distinct (map fst stale1)" "e \<noteq> None \<longrightarrow> read_error pe (newStore d)"
    using check_pools_effect [OF sr(2) r(2) pks(2) r(3), of c pe] by blast
  note unf = cleaner_loop_def Let_def op option.case prod.case sum.case pks(1) ck(1)
  show ?thesis
  proof (cases e)
    case (Some x)
    obtain s' where "Cancel s1 (m\<lparr>stLocked := True\<rparr>) = Some (s', m)" using Cancel_closeSession [OF close_error [OF r(1) ck(2)]] by blast
    then have "cleaner_loop pe c m = Some (Some x, c\<lparr>cnStaleAllocations := stale1\<rparr>, m)" unfolding unf Some by simp
    then show ?thesis using r ck(3,4) Some
      by (intro exI [of _ "Some x"] exI [of _ "c\<lparr>cnStaleAllocations := stale1\<rparr>"] exI [of _ m] exI [of _ d]) (simp add: cleaner_ready_def)
  next
    case None
    obtain stale2 s2 s3 where p: "release_stale c pe known stale1 (stale1, s1) = Some (stale2, s2)" "remove_empty pe empties s2 = Some s3"
      "session_ok s3" "s3 = newStore d \<or> ssIsModified s3" "distinct (map fst stale2)" "pass_done c pe (cnStaleAllocations c) (newStore d) stale2 s3"
      using pass_session [OF sr(2) r(2,3) pks(2,3) ck(1) [unfolded None]] by blast
    have "\<exists>err m'. closeSession (peEnv pe) s3 None (m\<lparr>stLocked := True\<rparr>) = Some (err, m') \<and> (err \<noteq> None \<longrightarrow> m' = m) \<and> (evWriteOk (peEnv pe) \<longrightarrow> err = None) \<and>
        (err = None \<longrightarrow> (\<exists>d'. store_ready m' d' \<and> (\<forall>pk. ssn_entries (newStore d') pk = ssn_entries s3 pk)))"
      by (rule close_success [OF r(1) p(3) ms p(4)])
    then obtain err m' where cl: "closeSession (peEnv pe) s3 None (m\<lparr>stLocked := True\<rparr>) = Some (err, m')" "err \<noteq> None \<longrightarrow> m' = m"
      "evWriteOk (peEnv pe) \<longrightarrow> err = None" "err = None \<longrightarrow> (\<exists>d'. store_ready m' d' \<and> (\<forall>pk. ssn_entries (newStore d') pk = ssn_entries s3 pk))"
      by (elim exE conjE) (rule that; assumption)
    obtain cerr s' where co: "Commit (evMarshal (peEnv pe)) (evWriteOk (peEnv pe)) s3 (m\<lparr>stLocked := True\<rparr>) = Some (cerr, s', m')" "cerr = None \<longleftrightarrow> err = None"
      using Commit_closeSession [OF cl(1)] by blast
    let ?c' = "c\<lparr>cnStaleAllocations := stale2\<rparr>" and ?err = "if cerr = None then None else Some CommitFailed"
    have run: "cleaner_loop pe c m = Some (?err, ?c', m')" unfolding unf None p(1,2) using co(1) by simp
    show ?thesis
    proof (cases "err = None")
      case True
      then obtain d' where d': "store_ready m' d'" "\<forall>pk. ssn_entries (newStore d') pk = ssn_entries s3 pk" using cl(4) by blast
      then have "pass_done c pe (cnStaleAllocations c) (newStore d) stale2 (newStore d')" using p(6) by (simp add: pass_done_def)
      then show ?thesis using run True co(2) d'(1) p(5) pass_done_bars [OF r(2)]
        by (intro exI [of _ ?err] exI [of _ ?c'] exI [of _ m'] exI [of _ d']) (simp add: cleaner_ready_def)
    next
      case False
      then obtain x where x: "err = Some x" by blast
      obtain y where "cerr = Some y" using co(2) False by blast
      then show ?thesis using run cl(2,3) r p(5) x
        by (intro exI [of _ ?err] exI [of _ ?c'] exI [of _ m] exI [of _ d]) (simp add: cleaner_ready_def)
    qed
  qed
qed

subsection \<open>Many passes\<close>

lemma cleaner_ready_Start:
  assumes "cleaner_ready c m d" "\<forall>pe \<in> set pes. \<forall>r. evMarshal (peEnv pe) r \<noteq> None"
  shows "\<exists>c' m' d'. cleaner_Start pes c m = Some (c', m') \<and> cleaner_ready c' m' d'"
  using assms
proof (induction pes arbitrary: c m d)
  case (Cons pe pes)
  obtain err c1 m1 d1 where p: "cleaner_loop pe c m = Some (err, c1, m1)" "cleaner_ready c1 m1 d1"
    using cleaner_pass [OF Cons.prems(1), of pe] Cons.prems(2) by auto
  then show ?case using Cons.IH [OF p(2)] Cons.prems(2) by simp
qed (auto)

lemma pass_entry_live: "\<not> IsReleased r \<Longrightarrow> watched r \<Longrightarrow> find_pod pe r = Inr True \<Longrightarrow> pass_entry c pe old r = Some r"
  by (simp add: pass_entry_def expired_def count_after_def)

text \<open>C16: The cleaner never takes the address of a running Pod: it never panics, and a reservation whose Pod every pass finds, in the cache
  or in the API, is unchanged after any number of passes, whatever the counts were before and whatever errors the passes meet.\<close>

theorem cleaner_keeps_live:
  assumes "cleaner_ready c m d" "\<forall>pe \<in> set pes. \<forall>r. evMarshal (peEnv pe) r \<noteq> None"
    "ent (newStore d) pk k = Some r" "watched r" "\<forall>pe \<in> set pes. find_pod pe r = Inr True"
  shows "\<exists>c' m' d'. cleaner_Start pes c m = Some (c', m') \<and> store_ready m' d' \<and> ent (newStore d') pk k = Some r"
  using assms
proof (induction pes arbitrary: c m d)
  case Nil
  then show ?case by (auto simp: cleaner_ready_def)
next
  case (Cons pe pes)
  have ms: "\<And>r. evMarshal (peEnv pe) r \<noteq> None" using Cons.prems(2) by simp
  obtain err c1 m1 d1 where p: "cleaner_loop pe c m = Some (err, c1, m1)" "cleaner_ready c1 m1 d1" "err \<noteq> None \<longrightarrow> m1 = m \<and> d1 = d"
    "err = None \<longrightarrow> pass_done c pe (cnStaleAllocations c) (newStore d) (cnStaleAllocations c1) (newStore d1)"
    using cleaner_pass [OF Cons.prems(1) ms] by blast
  have "pass_entry c pe old r = Some r" for old using Cons.prems(4,5) by (intro pass_entry_live) (auto simp: watched_def)
  then have "ent (newStore d1) pk k = Some r"
    using p(3,4) Cons.prems(3) by (cases "err = None") (auto simp: pass_done_def)
  then show ?case using Cons.IH [OF p(2) _ _ Cons.prems(4)] Cons.prems(2,5) p(1) by simp
qed

lemma pass_missing:
  assumes "watched r" "find_pod pe r = Inr False"
  shows "count_after pe r old = Some ((case old of None \<Rightarrow> 0 | Some n \<Rightarrow> n) + 1)"
    "pass_entry c pe old r = (if cnCheckCountBeforeRelease c < (case old of None \<Rightarrow> 0 | Some n \<Rightarrow> n) + 1
       then release_entry (evNow (peEnv pe)) (cnReleaseCooldown c) (Some r) else Some r)"
  using assms by (auto simp: pass_entry_def count_after_def expired_def watched_def)

abbreviation misses :: "cleaner \<Rightarrow> string \<Rightarrow> Reservation \<Rightarrow> int" where
  "misses c pk r \<equiv> (case map_of (cnStaleAllocations c) (getStaleAllocKey pk r) of None \<Rightarrow> 0 | Some n \<Rightarrow> n)"

text \<open>Passes without errors count the misses of a reservation, and keep it while the count is within the limit.\<close>

lemma cleaner_counts:
  assumes "cleaner_ready c m d" "\<forall>pe \<in> set pes. \<forall>r. evMarshal (peEnv pe) r \<noteq> None"
    "\<forall>pe \<in> set pes. evWriteOk (peEnv pe) \<and> (\<forall>q x. find_pod pe q \<noteq> Inl x)"
    "ent (newStore d) pk k = Some r" "watched r" "\<forall>pe \<in> set pes. find_pod pe r = Inr False"
    "misses c pk r + int (length pes) \<le> cnCheckCountBeforeRelease c"
  shows "\<exists>c' m' d'. cleaner_Start pes c m = Some (c', m') \<and> cleaner_ready c' m' d' \<and> ent (newStore d') pk k = Some r \<and>
    misses c' pk r = misses c pk r + int (length pes) \<and> cnCheckCountBeforeRelease c' = cnCheckCountBeforeRelease c \<and> cnReleaseCooldown c' = cnReleaseCooldown c"
  using assms
proof (induction pes arbitrary: c m d)
  case Nil
  then show ?case by auto
next
  case (Cons pe pes)
  have h: "\<And>r. evMarshal (peEnv pe) r \<noteq> None" "evWriteOk (peEnv pe)" "find_pod pe r = Inr False" using Cons.prems(2,3,6) by simp_all
  have nr: "\<not> read_error pe (newStore d)" using Cons.prems(3) by (auto simp: read_error_def)
  obtain c1 m1 d1 where p: "cleaner_loop pe c m = Some (None, c1, m1)" "cleaner_ready c1 m1 d1"
    "cnCheckCountBeforeRelease c1 = cnCheckCountBeforeRelease c" "cnReleaseCooldown c1 = cnReleaseCooldown c"
    "pass_done c pe (cnStaleAllocations c) (newStore d) (cnStaleAllocations c1) (newStore d1)"
    using cleaner_pass [OF Cons.prems(1) h(1)] nr h(2) by blast
  note ps = pass_missing [OF Cons.prems(5) h(3)]
  have m1: "misses c1 pk r = misses c pk r + 1" using p(5) Cons.prems(4) by (auto simp: pass_done_def ps(1))
  have e1: "ent (newStore d1) pk k = Some r" using p(5) Cons.prems(4,7) by (simp add: pass_done_def ps(2))
  obtain c' m' d' where ih: "cleaner_Start pes c1 m1 = Some (c', m')" "cleaner_ready c' m' d'" "ent (newStore d') pk k = Some r"
    "misses c' pk r = misses c1 pk r + int (length pes)" "cnCheckCountBeforeRelease c' = cnCheckCountBeforeRelease c1" "cnReleaseCooldown c' = cnReleaseCooldown c1"
    using Cons.IH [OF p(2) _ _ e1 Cons.prems(5)] Cons.prems(2,3,6,7) m1 p(3) by auto
  then show ?case using p(1,3,4) m1 by (intro exI [of _ c'] exI [of _ m'] exI [of _ d']) simp
qed

lemma cleaner_Start_append:
  "cleaner_Start (pes @ qes) c m = (case cleaner_Start pes c m of None \<Rightarrow> None | Some (c', m') \<Rightarrow> cleaner_Start qes c' m')"
  by (induction pes arbitrary: c m) (auto split: option.split)

text \<open>C15: The cleaner releases the reservation of a missing Pod exactly on time.  If passes meet no errors and find the Pod of a watched
  reservation neither in the cache nor in the API, the reservation is untouched for as many passes as the limit says; the next pass releases
  it: without a cooldown its entry is gone, with one it is marked as released at the time of that pass.\<close>

theorem cleaner_releases_missing:
  assumes "cleaner_ready c m d" "ent (newStore d) pk k = Some r" "watched r" "misses c pk r = 0"
    "\<forall>pe \<in> set (pes @ [final]). (\<forall>r. evMarshal (peEnv pe) r \<noteq> None) \<and> evWriteOk (peEnv pe) \<and> (\<forall>q x. find_pod pe q \<noteq> Inl x) \<and> find_pod pe r = Inr False"
    "int (length pes) = cnCheckCountBeforeRelease c"
  shows "\<exists>c1 m1 d1 c2 m2 d2. cleaner_Start pes c m = Some (c1, m1) \<and> store_ready m1 d1 \<and> ent (newStore d1) pk k = Some r \<and>
    cleaner_Start (pes @ [final]) c m = Some (c2, m2) \<and> store_ready m2 d2 \<and>
    ent (newStore d2) pk k = (if cnReleaseCooldown c \<le> 0 then None else Some (r\<lparr>rsReleasedAt := evNow (peEnv final)\<rparr>))"
proof -
  have "\<exists>c' m' d'. cleaner_Start pes c m = Some (c', m') \<and> cleaner_ready c' m' d' \<and> ent (newStore d') pk k = Some r \<and>
    misses c' pk r = misses c pk r + int (length pes) \<and> cnCheckCountBeforeRelease c' = cnCheckCountBeforeRelease c \<and> cnReleaseCooldown c' = cnReleaseCooldown c"
    by (rule cleaner_counts [OF assms(1) _ _ assms(2,3)]) (use assms(4-6) in auto)
  then obtain c1 m1 d1 where p: "cleaner_Start pes c m = Some (c1, m1)" "cleaner_ready c1 m1 d1" "ent (newStore d1) pk k = Some r"
    "misses c1 pk r = int (length pes)" "cnCheckCountBeforeRelease c1 = cnCheckCountBeforeRelease c" "cnReleaseCooldown c1 = cnReleaseCooldown c"
    using assms(4) by auto
  have h: "\<And>r. evMarshal (peEnv final) r \<noteq> None" "evWriteOk (peEnv final)" "find_pod final r = Inr False" "\<not> read_error final (newStore d1)"
    using assms(5) by (auto simp: read_error_def)
  obtain c2 m2 d2 where q: "cleaner_loop final c1 m1 = Some (None, c2, m2)" "cleaner_ready c2 m2 d2"
    "pass_done c1 final (cnStaleAllocations c1) (newStore d1) (cnStaleAllocations c2) (newStore d2)"
    using cleaner_pass [OF p(2) h(1)] h(2,4) by blast
  have "\<not> IsReleased r" using assms(3) by (simp add: watched_def)
  then have "ent (newStore d2) pk k = (if cnReleaseCooldown c \<le> 0 then None else Some (r\<lparr>rsReleasedAt := evNow (peEnv final)\<rparr>))"
    using q(3) p(3-6) assms(6) by (simp add: pass_done_def pass_missing(2) [OF assms(3) h(3)] release_immediate release_active)
  moreover have "cleaner_Start (pes @ [final]) c m = Some (c2, m2)" using p(1) q(1) by (simp add: cleaner_Start_append)
  ultimately show ?thesis using p(1,3) p(2) q(2) unfolding cleaner_ready_def by blast
qed

text \<open>A released reservation is removed by the first pass, without errors, at or after the end of its cooldown, and never by an earlier
  one.\<close>

theorem cleaner_expires_released:
  assumes "cleaner_ready c m d" "\<forall>r. evMarshal (peEnv pe) r \<noteq> None" "evWriteOk (peEnv pe)" "\<forall>q x. find_pod pe q \<noteq> Inl x"
    "ent (newStore d) pk k = Some r" "IsReleased r"
  shows "\<exists>c' m' d'. cleaner_loop pe c m = Some (None, c', m') \<and> store_ready m' d' \<and>
    ent (newStore d') pk k = (if cnReleaseCooldown c \<le> time_Since (evNow (peEnv pe)) (rsReleasedAt r) then None else Some r)"
proof -
  have "\<not> read_error pe (newStore d)" using assms(4) by (auto simp: read_error_def)
  then obtain c1 m1 d1 where p: "cleaner_loop pe c m = Some (None, c1, m1)" "cleaner_ready c1 m1 d1"
    "pass_done c pe (cnStaleAllocations c) (newStore d) (cnStaleAllocations c1) (newStore d1)"
    using cleaner_pass [OF assms(1) assms(2) [rule_format]] assms(3) by blast
  then show ?thesis using assms(5,6) by (auto simp: pass_done_def pass_entry_def expired_def count_after_def cleaner_ready_def)
qed

subsection \<open>An example\<close>

fun bars_free_list :: "(string \<times> PoolReservations) list \<Rightarrow> bool" where
  "bars_free_list ps = list_all (\<lambda>(pk, p). bar_free pk \<and> list_all (\<lambda>(k, r). bar_free (rsContainerID r)) (pool_entries p)) ps"

lemma bars_freeI:
  assumes "rtPools (ssTmpData s) = Some ps" "bars_free_list ps"
  shows "bars_free s"
proof -
  have "bar_free pk \<and> bar_free (rsContainerID r)" if e: "ent s pk k = Some r" for pk k r
  proof -
    obtain p where p: "map_of ps pk = Some p" "(k, r) \<in> set (pool_entries p)"
      using map_of_SomeD [OF e] assms(1)
      by (auto simp: ssn_entries_def getPoolData_def root_pool_def NewPoolReservations_def split: option.splits if_splits)
    have "bar_free pk \<and> (\<forall>(k, r) \<in> set (pool_entries p). bar_free (rsContainerID r))"
      using map_of_SomeD [OF p(1)] assms(2) unfolding bars_free_list.simps list_all_iff by blast
    then show ?thesis using p(2) by blast
  qed
  then show ?thesis by (simp add: bars_free_def)
qed

definition ex_pod_root :: Root where
  "ex_pod_root = ssTmpData (snd (the (Reserve ''t'' ''pool'' ''c1'' ''net0'' ex_meta [10, 0, 0, 5] (newStore NewRoot))))"

definition ex_pod_store :: store where
  "ex_pod_store = \<lparr>stFile = FileNotExist, stPersistedData = Some ex_pod_root, stLocked = False\<rparr>"

definition ex_reservation :: Reservation where
  "ex_reservation = new_reservation ''t'' ''c1'' ''net0'' ex_meta [10, 0, 0, 5]"

definition ex_pass :: "pod_result \<Rightarrow> time \<Rightarrow> pass_env" where
  "ex_pass answer now = \<lparr>peCachedClient = (\<lambda>_. PodNotFound), peDirectClient = (\<lambda>_. answer), pePools = NewManager, peEnv = ex_env\<lparr>evNow := now\<rparr>\<rparr>"

lemma ex_pod_entry: "ent (newStore ex_pod_root) ''pool'' ''c1_net0'' = Some ex_reservation"
  by code_simp

lemma ex_pod_ready: "cleaner_ready (NewCleaner 1 60) ex_pod_store ex_pod_root"
proof -
  have "root_ok ex_pod_root" by code_simp
  moreover have "bars_free (newStore ex_pod_root)"
    by (rule bars_freeI [of _ "the (rtPools (ssTmpData (newStore ex_pod_root)))"]) code_simp+
  ultimately show ?thesis by (simp add: cleaner_ready_def store_ready_def ex_pod_store_def NewCleaner_def)
qed

lemma ex_pass_simps: "evMarshal (peEnv (ex_pass a t)) r \<noteq> None" "evWriteOk (peEnv (ex_pass a t))" "evNow (peEnv (ex_pass a t)) = t"
  by (simp_all add: ex_pass_def ex_env_def ex_marshal_def)

lemma ex_pass_no_error: "find_pod (ex_pass PodNotFound t) q = Inr False"
  by (simp add: find_pod_def checkPod_def ex_pass_def Let_def)

lemma ex_watched: "watched ex_reservation"
  by code_simp

theorem cleaner_keeps_live_witness:
  "\<exists>c' m' d'. cleaner_Start [ex_pass (PodFound ''u'') 100, ex_pass (PodFound ''u'') 200] (NewCleaner 1 60) ex_pod_store = Some (c', m') \<and>
     store_ready m' d' \<and> ent (newStore d') ''pool'' ''c1_net0'' = Some ex_reservation"
proof -
  let ?pes = "[ex_pass (PodFound ''u'') 100, ex_pass (PodFound ''u'') 200]"
  have f: "find_pod (ex_pass (PodFound ''u'') t) ex_reservation = Inr True" for t
    by (simp add: find_pod_def checkPod_def ex_pass_def Let_def ex_reservation_def new_reservation_def ex_meta_def)
  have "\<forall>pe \<in> set ?pes. \<forall>r. evMarshal (peEnv pe) r \<noteq> None" "\<forall>pe \<in> set ?pes. find_pod pe ex_reservation = Inr True"
    using ex_pass_simps(1) f by simp_all
  from cleaner_keeps_live [OF ex_pod_ready this(1) ex_pod_entry ex_watched this(2)] show ?thesis .
qed

theorem cleaner_releases_missing_witness:
  "\<exists>c2 m2 d2. cleaner_Start [ex_pass PodNotFound 100, ex_pass PodNotFound 200] (NewCleaner 1 60) ex_pod_store = Some (c2, m2) \<and>
     store_ready m2 d2 \<and> ent (newStore d2) ''pool'' ''c1_net0'' = Some (ex_reservation\<lparr>rsReleasedAt := 200\<rparr>)"
proof -
  let ?pes = "[ex_pass PodNotFound 100]" and ?final = "ex_pass PodNotFound 200"
  have h: "\<forall>pe \<in> set (?pes @ [?final]). (\<forall>r. evMarshal (peEnv pe) r \<noteq> None) \<and> evWriteOk (peEnv pe) \<and> (\<forall>q x. find_pod pe q \<noteq> Inl x) \<and> find_pod pe ex_reservation = Inr False"
    using ex_pass_simps ex_pass_no_error by simp
  have n: "misses (NewCleaner 1 60) ''pool'' ex_reservation = 0" "int (length ?pes) = cnCheckCountBeforeRelease (NewCleaner 1 60)" "cnReleaseCooldown (NewCleaner 1 60) = 60"
    by (simp_all add: NewCleaner_def)
  show ?thesis using cleaner_releases_missing [OF ex_pod_ready ex_pod_entry ex_watched n(1) h n(2)] n(3) by (auto simp: ex_pass_simps(3))
qed

definition ex_released_root :: Root where
  "ex_released_root = ssTmpData (snd (the (ReleaseReservationByID 100 ''pool'' ''c1'' ''net0'' 60 (newStore ex_pod_root))))"

theorem cleaner_expires_released_witness:
  "\<exists>c' m' d'. cleaner_loop (ex_pass PodNotFound 160) (NewCleaner 1 60) (ex_pod_store\<lparr>stPersistedData := Some ex_released_root\<rparr>) = Some (None, c', m') \<and>
     store_ready m' d' \<and> ent (newStore d') ''pool'' ''c1_net0'' = None"
proof -
  let ?r = "ex_reservation\<lparr>rsReleasedAt := 100\<rparr>"
  have "root_ok ex_released_root" by code_simp
  moreover have "bars_free (newStore ex_released_root)"
    by (rule bars_freeI [of _ "the (rtPools (ssTmpData (newStore ex_released_root)))"]) code_simp+
  ultimately have rd: "cleaner_ready (NewCleaner 1 60) (ex_pod_store\<lparr>stPersistedData := Some ex_released_root\<rparr>) ex_released_root"
    by (simp add: cleaner_ready_def store_ready_def ex_pod_store_def NewCleaner_def)
  have e: "ent (newStore ex_released_root) ''pool'' ''c1_net0'' = Some ?r" "IsReleased ?r" by code_simp+
  have h: "\<forall>r. evMarshal (peEnv (ex_pass PodNotFound 160)) r \<noteq> None" "\<forall>q x. find_pod (ex_pass PodNotFound 160) q \<noteq> Inl x"
    using ex_pass_simps(1) ex_pass_no_error by simp_all
  have t: "cnReleaseCooldown (NewCleaner 1 60) \<le> time_Since (evNow (peEnv (ex_pass PodNotFound 160))) (rsReleasedAt ?r)" by code_simp
  show ?thesis using cleaner_expires_released [OF rd h(1) ex_pass_simps(2) h(2) e] t by auto
qed

end
