(* ===== verification/CniConf.thy ===== *)
theory CniConf
  imports HandlerCalls
begin

text \<open>
  Loading the configuration of the CNI plugin (\<open>pkg/cni/types\<close>).  JSON decoding, reading the configuration file and the CNI
  library's decoding of \<open>CNI_ARGS\<close> are parameters (\<open>cni_env\<close>).  A JSON \<open>null\<close> decodes into a nil pointer, here
  \<^const>\<open>None\<close>.  Errors carry their text; \<^const>\<open>None\<close> in place of a result is a nil dereference.  \<open>strings.ToLower\<close> is
  modelled on ASCII letters.
\<close>

subsection \<open>Data\<close>

record K8SMetadata =
  kmPodName :: string
  kmPodNamespace :: string
  kmPodUID :: string

record CniFeatures =
  cfAllocateDefaultGateway :: bool
  cfAllocateIPWithIndex :: "int option"

record IPAMConf =
  icType :: string
  icForcePoolName :: "bool option"
  icPoolName :: string
  icPoolType :: string
  icDaemonSocket :: string
  icDaemonCallTimeoutSeconds :: int
  icConfDir :: string
  icLogFile :: string
  icLogLevel :: string
  icPools :: "string list"
  icK8SMetadata :: K8SMetadata
  icRequestedIPs :: "net_ip list"
  icFeatures :: CniFeatures

record IPAMArgs =
  iaIPs :: "string list"
  iaPoolNames :: "string list"
  iaPoolType :: string
  iaAllocateDefaultGateway :: bool
  iaAllocateIPWithIndex :: "int option"

text \<open>\<open>ncArgs\<close> is the pointer to the struct whose only field is the pointer \<open>ArgsCNI\<close>.\<close>

record NetConf =
  ncName :: string
  ncCNIVersion :: string
  ncIPAM :: "IPAMConf option"
  ncDeviceID :: string
  ncRuntimeIPs :: "string list"
  ncArgs :: "IPAMArgs option option"

record IPAMEnvArgs =
  eaIP :: string
  eaPodName :: string
  eaPodNamespace :: string
  eaPodUID :: string

record CmdArgs =
  saContainerID :: string
  saIfName :: string
  saArgs :: string
  saStdinData :: string

datatype conf_file = ConfData string | ConfNotExist | ConfReadError string

record cni_env =
  ceUnmarshalNet :: "string \<Rightarrow> string + NetConf option"
  ceUnmarshalConf :: "string \<Rightarrow> string + IPAMConf"
  ceReadFile :: "string \<Rightarrow> conf_file"
  ceLoadArgs :: "string \<Rightarrow> string + IPAMEnvArgs"

definition DefaultConfDir :: string where "DefaultConfDir = ''/etc/cni/net.d/nv-ipam.d''"
definition DefaultDaemonSocket :: string where "DefaultDaemonSocket = ''unix:///var/lib/cni/nv-ipam/daemon.sock''"
definition DefaultDaemonCallTimeoutSeconds :: int where "DefaultDaemonCallTimeoutSeconds = 5"
definition DefaultLogFile :: string where "DefaultLogFile = ''/var/log/nv-ipam-cni.log''"
definition DefaultLogLevel :: string where "DefaultLogLevel = ''info''"
definition ConfFileName :: string where "ConfFileName = ''nv-ipam.conf''"

subsection \<open>Strings and paths\<close>

text \<open>\<open>strings.Split\<close> at a one-character separator.\<close>

fun split_on :: "char \<Rightarrow> string \<Rightarrow> string list" where
  "split_on c [] = [[]]"
| "split_on c (x # xs) =
     (if x = c then [] # split_on c xs else (case split_on c xs of [] \<Rightarrow> [[x]] | y # ys \<Rightarrow> (x # y) # ys))"

definition lower_char :: "char \<Rightarrow> char" where
  "lower_char c = (let n = of_char c :: nat in if 65 \<le> n \<and> n \<le> 90 then char_of (n + 32) else c)"

definition ToLower :: "string \<Rightarrow> string" where
  "ToLower s = map lower_char s"

text \<open>\<open>filepath.Clean\<close> on Unix: the elements kept so far are on a stack.\<close>

fun clean_elems :: "bool \<Rightarrow> string list \<Rightarrow> string list \<Rightarrow> string list" where
  "clean_elems rooted st [] = rev st"
| "clean_elems rooted st (e # es) =
     (if e = [] \<or> e = ''.'' then clean_elems rooted st es
      else if e = ''..'' then
        (case st of
           [] \<Rightarrow> clean_elems rooted (if rooted then [] else [''..'']) es
         | t # ts \<Rightarrow> if t = ''..'' then clean_elems rooted (''..'' # st) es else clean_elems rooted ts es)
      else clean_elems rooted (e # st) es)"

fun join_slash :: "string list \<Rightarrow> string" where
  "join_slash [] = []"
| "join_slash [e] = e"
| "join_slash (e # es) = e @ ''/'' @ join_slash es"

definition filepath_Clean :: "string \<Rightarrow> string" where
  "filepath_Clean p =
     (let rooted = (p \<noteq> [] \<and> hd p = CHR ''/''); body = join_slash (clean_elems rooted [] (split_on CHR ''/'' p))
      in if rooted then CHR ''/'' # body else if body = [] then ''.'' else body)"

definition filepath_Join :: "string \<Rightarrow> string \<Rightarrow> string" where
  "filepath_Join dir file = (if dir = [] then filepath_Clean file else filepath_Clean (dir @ ''/'' @ file))"

subsection \<open>Loading\<close>

definition parseIP :: "string \<Rightarrow> net_ip" where
  "parseIP s = ParseIP (takeWhile (\<lambda>c. c \<noteq> CHR ''/'') s)"

definition overlayConf :: "IPAMConf \<Rightarrow> IPAMConf \<Rightarrow> IPAMConf" where
  "overlayConf from to =
     to\<lparr>icConfDir := (if icConfDir to = [] then icConfDir from else icConfDir to),
        icLogFile := (if icLogFile to = [] then icLogFile from else icLogFile to),
        icLogLevel := (if icLogLevel to = [] then icLogLevel from else icLogLevel to),
        icPoolName := (if icPoolName to = [] then icPoolName from else icPoolName to),
        icPoolType := (if icPoolType to = [] then icPoolType from else icPoolType to),
        icDaemonSocket := (if icDaemonSocket to = [] then icDaemonSocket from else icDaemonSocket to),
        icDaemonCallTimeoutSeconds := (if icDaemonCallTimeoutSeconds to = 0 then icDaemonCallTimeoutSeconds from else icDaemonCallTimeoutSeconds to),
        icForcePoolName := (if icForcePoolName to = None then icForcePoolName from else icForcePoolName to)\<rparr>"

definition defaultConf :: IPAMConf where
  "defaultConf = \<lparr>icType = [], icForcePoolName = Some False, icPoolName = [], icPoolType = PoolTypeIPPool, icDaemonSocket = DefaultDaemonSocket,
     icDaemonCallTimeoutSeconds = DefaultDaemonCallTimeoutSeconds, icConfDir = DefaultConfDir, icLogFile = DefaultLogFile,
     icLogLevel = DefaultLogLevel, icPools = [], icK8SMetadata = \<lparr>kmPodName = [], kmPodNamespace = [], kmPodUID = []\<rparr>,
     icRequestedIPs = [], icFeatures = \<lparr>cfAllocateDefaultGateway = False, cfAllocateIPWithIndex = None\<rparr>\<rparr>"

text \<open>\<^const>\<open>None\<close>: there is no file.\<close>

definition loadFromConfFile :: "cni_env \<Rightarrow> string \<Rightarrow> string + IPAMConf option" where
  "loadFromConfFile ce filePath =
     (case ceReadFile ce (filepath_Clean filePath) of
        ConfNotExist \<Rightarrow> Inr None
      | ConfReadError e \<Rightarrow> Inl e
      | ConfData data \<Rightarrow> bind_result (ceUnmarshalConf ce data) (\<lambda>c. Inr (Some c)))"

fun parse_ips :: "string list \<Rightarrow> string + net_ip list" where
  "parse_ips [] = Inr []"
| "parse_ips (v # vs) =
     (let ip = parseIP v
      in if ip = [] then Inl ''static IP request contains invalid IP address'' else bind_result (parse_ips vs) (\<lambda>ips. Inr (ip # ips)))"

definition loadEnvCNIArgs :: "cni_env \<Rightarrow> CmdArgs \<Rightarrow> IPAMConf \<Rightarrow> string + IPAMConf" where
  "loadEnvCNIArgs ce args conf =
     bind_result (ceLoadArgs ce (saArgs args)) (\<lambda>envArgs.
       if eaPodName envArgs = [] then Inl ''CNI_ARGS: K8S_POD_NAME is not provided by container runtime''
       else if eaPodNamespace envArgs = [] then Inl ''CNI_ARGS: K8S_POD_NAMESPACE is not provided by container runtime''
       else
         let conf1 = conf\<lparr>icK8SMetadata := \<lparr>kmPodName = eaPodName envArgs, kmPodNamespace = eaPodNamespace envArgs, kmPodUID = eaPodUID envArgs\<rparr>\<rparr>
         in if 0 < length (icRequestedIPs conf1) \<or> eaIP envArgs = [] then Inr conf1
            else
              let parsedIP = parseIP (eaIP envArgs)
              in if parsedIP = [] then Inl ''CNI_ARGS: IP argument contains invalid IP address''
                 else Inr (conf1\<lparr>icRequestedIPs := icRequestedIPs conf1 @ [parsedIP]\<rparr>))"

definition getPools :: "IPAMArgs option option \<Rightarrow> IPAMConf \<Rightarrow> (string + string list) option" where
  "getPools args conf =
     (let check = (\<lambda>pools. if 2 < length pools then Inl ''pool field can't contain more then two entries''
                  else if \<exists>p \<in> set pools. p = [] then Inl ''pool field has invalid format'' else Inr pools);
          fromName = (if icPoolName conf = [] then Inl ''no pool provided'' else check (split_on CHR '','' (icPoolName conf)))
      in case args of
           None \<Rightarrow> Some fromName
         | Some None \<Rightarrow> None
         | Some (Some a) \<Rightarrow> Some (if 0 < length (iaPoolNames a) then check (iaPoolNames a) else fromName))"

definition getPoolType :: "IPAMArgs option option \<Rightarrow> IPAMConf \<Rightarrow> (string + string) option" where
  "getPoolType args conf =
     (let check = (\<lambda>t. let poolType = ToLower t
                  in if poolType \<noteq> PoolTypeIPPool \<and> poolType \<noteq> PoolTypeCIDRPool
                     then Inl (''unsupported poolType '' @ poolType @ '', supported values: '' @ PoolTypeIPPool @ '', '' @ PoolTypeCIDRPool)
                     else Inr poolType)
      in case args of
           None \<Rightarrow> Some (check (icPoolType conf))
         | Some None \<Rightarrow> None
         | Some (Some a) \<Rightarrow> Some (check (if iaPoolType a \<noteq> [] then iaPoolType a else icPoolType conf)))"

text \<open>The part of \<open>LoadConf\<close> that merges the configuration file and the defaults.\<close>

definition merge_conf :: "cni_env \<Rightarrow> string \<Rightarrow> IPAMConf \<Rightarrow> string + IPAMConf" where
  "merge_conf ce name conf0 =
     (let conf1 = (if icConfDir conf0 = [] then conf0\<lparr>icConfDir := DefaultConfDir\<rparr> else conf0);
          confFilePath = filepath_Join (icConfDir conf1) ConfFileName
      in case loadFromConfFile ce confFilePath of
           Inl e \<Rightarrow> Inl (''failed to read/parse config file('' @ confFilePath @ ''). '' @ e)
         | Inr fileConf \<Rightarrow>
             let conf2 = (case fileConf of Some f \<Rightarrow> overlayConf f conf1 | None \<Rightarrow> conf1);
                 conf3 = overlayConf defaultConf conf2
             in Inr (if \<not> the (icForcePoolName conf3) \<and> icPoolName conf3 = [] then conf3\<lparr>icPoolName := name\<rparr> else conf3))"

text \<open>The part that sets and checks the requested features.\<close>

definition set_features :: "IPAMArgs option option \<Rightarrow> IPAMConf \<Rightarrow> string + IPAMConf" where
  "set_features args conf0 =
     bind_result
       (case args of
          Some (Some a) \<Rightarrow>
            (case iaAllocateIPWithIndex a of
               Some i \<Rightarrow> (if i < 0 then Inl ''allocateIPWithIndex can't be negative''
                   else Inr (conf0\<lparr>icFeatures := \<lparr>cfAllocateDefaultGateway = iaAllocateDefaultGateway a, cfAllocateIPWithIndex = Some i\<rparr>\<rparr>))
             | None \<Rightarrow> Inr (conf0\<lparr>icFeatures := \<lparr>cfAllocateDefaultGateway = iaAllocateDefaultGateway a, cfAllocateIPWithIndex = None\<rparr>\<rparr>))
        | _ \<Rightarrow> Inr conf0)
       (\<lambda>conf.
          if cfAllocateDefaultGateway (icFeatures conf) \<and> 0 < length (icRequestedIPs conf)
          then Inl ''allocateDefaultGateway can't be used together with static IP request''
          else if cfAllocateDefaultGateway (icFeatures conf) \<and> cfAllocateIPWithIndex (icFeatures conf) \<noteq> None
          then Inl ''allocateDefaultGateway can't be used together allocateIPWithIndex''
          else if cfAllocateIPWithIndex (icFeatures conf) \<noteq> None \<and> 0 < length (icRequestedIPs conf)
          then Inl ''allocateIPWithIndex can't be used together with static IP request''
          else Inr conf)"

definition requested_texts :: "NetConf \<Rightarrow> string list" where
  "requested_texts n =
     (if length (ncRuntimeIPs n) = 0 then (case ncArgs n of Some (Some a) \<Rightarrow> iaIPs a | _ \<Rightarrow> ncRuntimeIPs n) else ncRuntimeIPs n)"

definition load_conf :: "cni_env \<Rightarrow> CmdArgs \<Rightarrow> NetConf \<Rightarrow> IPAMConf \<Rightarrow> string + IPAMConf" where
  "load_conf ce args n conf0 =
     bind_result (merge_conf ce (ncName n) conf0) (\<lambda>conf1.
       bind_result (parse_ips (requested_texts n)) (\<lambda>ips.
         bind_result (loadEnvCNIArgs ce args (conf1\<lparr>icRequestedIPs := icRequestedIPs conf1 @ ips\<rparr>)) (\<lambda>conf2.
           set_features (ncArgs n) conf2)))"

definition LoadConf :: "cni_env \<Rightarrow> CmdArgs \<Rightarrow> (string + NetConf) option" where
  "LoadConf ce args =
     (case ceUnmarshalNet ce (saStdinData args) of
        Inl e \<Rightarrow> Some (Inl (''failed to unmarshal configurations. '' @ e))
      | Inr None \<Rightarrow> None
      | Inr (Some n) \<Rightarrow>
          (case ncIPAM n of
             None \<Rightarrow> Some (Inl ''IPAM config missing 'ipam' key'')
           | Some conf0 \<Rightarrow>
               (case load_conf ce args n conf0 of
                  Inl e \<Rightarrow> Some (Inl e)
                | Inr conf1 \<Rightarrow>
                    (case getPools (ncArgs n) conf1 of
                       None \<Rightarrow> None
                     | Some (Inl e) \<Rightarrow> Some (Inl e)
                     | Some (Inr pools) \<Rightarrow>
                         (case getPoolType (ncArgs n) (conf1\<lparr>icPools := pools\<rparr>) of
                            None \<Rightarrow> None
                          | Some (Inl e) \<Rightarrow> Some (Inl e)
                          | Some (Inr poolType) \<Rightarrow> Some (Inr (n\<lparr>ncIPAM := Some (conf1\<lparr>icPools := pools, icPoolType := poolType\<rparr>)\<rparr>)))))))"

end
