(* ===== verification/CniPlugin.thy ===== *)
theory CniPlugin
  imports CniConf
begin

text \<open>
  The commands of the CNI plugin (\<open>pkg/cni/plugin\<close>).  The gRPC client is a parameter: three calls on a state of the daemon;
  in the properties it is the model of the daemon itself.  Creating the client may fail.  Logging is left out, and printing the
  result is the last step of \<open>CmdAdd\<close>: here the command returns what it prints.
\<close>

subsection \<open>Data\<close>

record CniIPConfig =
  ciAddress :: IPNet
  ciGateway :: net_ip

record CniRoute =
  crDst :: IPNet
  crGW :: net_ip

record CniResult =
  rsIPs :: "CniIPConfig list"
  rsRoutes :: "CniRoute list"

record 'd grpc_client =
  gcAllocate :: "IPAMParameters \<Rightarrow> 'd \<Rightarrow> ((status + AllocationInfo list) \<times> 'd) option"
  gcDeallocate :: "IPAMParameters \<Rightarrow> 'd \<Rightarrow> (status option \<times> 'd) option"
  gcIsAllocated :: "IPAMParameters \<Rightarrow> 'd \<Rightarrow> (status option \<times> 'd) option"

datatype plugin_error = PrepareFailed string | GrpcCallFailed status | UnexpectedResponse string

subsection \<open>Requests and responses\<close>

definition cniConfToGRPCReq :: "NetConf \<Rightarrow> IPAMConf \<Rightarrow> CmdArgs \<Rightarrow> IPAMParameters" where
  "cniConfToGRPCReq n conf args =
     \<lparr>pmPools = icPools conf, pmCniContainerid = saContainerID args, pmCniIfname = saIfName args,
      pmMetadata = Some \<lparr>mdPodName = kmPodName (icK8SMetadata conf), mdPodNamespace = kmPodNamespace (icK8SMetadata conf),
        mdPodUid = kmPodUID (icK8SMetadata conf), mdDeviceId = ncDeviceID n\<rparr>,
      pmRequestedIps = map IP_String (icRequestedIPs conf),
      pmPoolType = (if icPoolType conf = PoolTypeCIDRPool then POOL_TYPE_CIDRPOOL else POOL_TYPE_IPPOOL),
      pmFeatures = Some \<lparr>ftAllocateDefaultGateway = cfAllocateDefaultGateway (icFeatures conf),
        ftAllocateIpWithIndex = cfAllocateIPWithIndex (icFeatures conf)\<rparr>\<rparr>"

fun resp_routes :: "net_ip \<Rightarrow> string list \<Rightarrow> string + CniRoute list" where
  "resp_routes gw [] = Inr []"
| "resp_routes gw (r # rs) =
     (case ParseCIDR r of
        None \<Rightarrow> Inl (''unexpected Route destination format, received value: '' @ r @ '', error: invalid CIDR address: '' @ r)
      | Some (_, ipNet) \<Rightarrow> bind_result (resp_routes gw rs) (\<lambda>routes. Inr (\<lparr>crDst = ipNet, crGW = gw\<rparr> # routes)))"

fun grpcRespToResult :: "AllocationInfo list \<Rightarrow> string + CniResult" where
  "grpcRespToResult [] = Inr \<lparr>rsIPs = [], rsRoutes = []\<rparr>"
| "grpcRespToResult (alloc # allocs) =
     (if aiIp alloc = [] then Inl ''IP can't be empty''
      else
        (case ParseCIDR (aiIp alloc) of
           None \<Rightarrow> Inl (''unexpected IP address format, received value: '' @ aiIp alloc)
         | Some (ipAddr, netAddr) \<Rightarrow>
             let address = \<lparr>ipnIP = ipAddr, ipnMask = ipnMask netAddr\<rparr>;
                 gwIP = ParseIP (aiGateway alloc)
             in if aiGateway alloc \<noteq> [] \<and> gwIP = [] then Inl (''unexpected Gateway address format, received value: '' @ aiGateway alloc)
                else
                  bind_result (if aiGateway alloc \<noteq> [] then resp_routes gwIP (aiRoutes alloc) else Inr []) (\<lambda>routes.
                    bind_result (grpcRespToResult allocs) (\<lambda>result.
                      Inr \<lparr>rsIPs = \<lparr>ciAddress = address, ciGateway = (if aiGateway alloc \<noteq> [] then gwIP else [])\<rparr> # rsIPs result,
                           rsRoutes = routes @ rsRoutes result\<rparr>))))"

subsection \<open>Commands\<close>

definition prepareCMD ::
    "cni_env \<Rightarrow> (string \<Rightarrow> string + 'd grpc_client) \<Rightarrow> CmdArgs \<Rightarrow> (string + 'd grpc_client \<times> IPAMParameters) option" where
  "prepareCMD ce newClient args =
     (case LoadConf ce args of
        None \<Rightarrow> None
      | Some (Inl e) \<Rightarrow> Some (Inl (''failed to load config. '' @ e))
      | Some (Inr n) \<Rightarrow>
          (case ncIPAM n of
             None \<Rightarrow> None
           | Some conf \<Rightarrow>
               (case newClient (icDaemonSocket conf) of
                  Inl e \<Rightarrow> Some (Inl (''failed to connect to IPAM daemon: '' @ e))
                | Inr client \<Rightarrow> Some (Inr (client, cniConfToGRPCReq n conf args)))))"

definition CmdAdd ::
    "cni_env \<Rightarrow> (string \<Rightarrow> string + 'd grpc_client) \<Rightarrow> CmdArgs \<Rightarrow> 'd \<Rightarrow> ((plugin_error + CniResult) \<times> 'd) option" where
  "CmdAdd ce newClient args d =
     (case prepareCMD ce newClient args of
        None \<Rightarrow> None
      | Some (Inl e) \<Rightarrow> Some (Inl (PrepareFailed e), d)
      | Some (Inr (client, params)) \<Rightarrow>
          (case gcAllocate client params d of
             None \<Rightarrow> None
           | Some (Inl st, d') \<Rightarrow> Some (Inl (GrpcCallFailed st), d')
           | Some (Inr resp, d') \<Rightarrow>
               (case grpcRespToResult resp of
                  Inl msg \<Rightarrow> Some (Inl (UnexpectedResponse msg), d')
                | Inr result \<Rightarrow> Some (Inr result, d'))))"

definition CmdDel ::
    "cni_env \<Rightarrow> (string \<Rightarrow> string + 'd grpc_client) \<Rightarrow> CmdArgs \<Rightarrow> 'd \<Rightarrow> (plugin_error option \<times> 'd) option" where
  "CmdDel ce newClient args d =
     (case prepareCMD ce newClient args of
        None \<Rightarrow> None
      | Some (Inl e) \<Rightarrow> Some (Some (PrepareFailed e), d)
      | Some (Inr (client, params)) \<Rightarrow>
          map_option (\<lambda>(err, d'). (map_option GrpcCallFailed err, d')) (gcDeallocate client params d))"

definition CmdCheck ::
    "cni_env \<Rightarrow> (string \<Rightarrow> string + 'd grpc_client) \<Rightarrow> CmdArgs \<Rightarrow> 'd \<Rightarrow> (plugin_error option \<times> 'd) option" where
  "CmdCheck ce newClient args d =
     (case prepareCMD ce newClient args of
        None \<Rightarrow> None
      | Some (Inl e) \<Rightarrow> Some (Some (PrepareFailed e), d)
      | Some (Inr (client, params)) \<Rightarrow>
          map_option (\<lambda>(err, d'). (map_option GrpcCallFailed err, d')) (gcIsAllocated client params d))"

text \<open>The daemon of the node as the client sees it.\<close>

definition daemon_client :: "env \<Rightarrow> handlers \<Rightarrow> store grpc_client" where
  "daemon_client ev h =
     \<lparr>gcAllocate = (\<lambda>params. Handlers_Allocate ev h (Some params)),
      gcDeallocate = (\<lambda>params. Handlers_Deallocate ev h (Some params)),
      gcIsAllocated = (\<lambda>params. Handlers_IsAllocated ev (Some params))\<rparr>"

subsection \<open>Addresses as text\<close>

text \<open>An address of a network printed with the mask of the network parses back to the address and the network.\<close>

lemma host_masked:
  assumes "wf_net n" "IPNet_Contains n x"
  shows "map2 (AND) (NormalizeIP x) (ipnMask n) = ipnIP n" "length (NormalizeIP x) = length (ipnIP n)"
    "NormalizeIP x = (if To4 x \<noteq> [] then To4 x else x)"
proof -
  let ?x = "if To4 x \<noteq> [] then To4 x else x"
  have c: "length ?x = length (ipnIP n)" "map2 (AND) ?x (ipnMask n) = ipnIP n"
    using assms(2) wf_netD(4) [OF assms(1)] by (simp_all only: IPNet_Contains_def networkNumberAndMask_wf [OF assms(1)] Let_def prod.case)
  show x: "NormalizeIP x = ?x"
  proof (cases "To4 x = []")
    case True
    then have "length x = 16" using c(1) wf_netD(1) [OF assms(1)] by (cases "length x = 4") auto
    with True show ?thesis by (simp add: NormalizeIP_def To16_def)
  qed (simp add: NormalizeIP_def)
  show "map2 (AND) (NormalizeIP x) (ipnMask n) = ipnIP n" "length (NormalizeIP x) = length (ipnIP n)" unfolding x by (rule c)+
qed

lemma ParseCIDR_host:
  assumes "wf_net n" "IPNet_Contains n x"
  shows "ParseCIDR (IPNet_String \<lparr>ipnIP = x, ipnMask = ipnMask n\<rparr>) = Some (To16 (NormalizeIP x), n)"
proof -
  let ?x = "NormalizeIP x" and ?p = "net_ones n"
  note h = host_masked [OF assms] and len = wf_netD(1) [OF assms(1)] and p = wf_netD(2) [OF assms(1)] and m = wf_netD(3) [OF assms(1)]
  have v4: "length ?x = 16 \<Longrightarrow> To4 ?x = []" using h(3) To4_length [of x] by (auto split: if_splits)
  have nn: "networkNumberAndMask \<lparr>ipnIP = x, ipnMask = ipnMask n\<rparr> = (?x, ipnMask n)"
  proof (cases "To4 x = []")
    case True
    then have x: "?x = x" using h(3) by simp
    then have "length x = 16" using h(2) len True by (cases "length x = 4") auto
    moreover have "length (ipnMask n) = 16" using calculation h(2) m x by simp
    ultimately show ?thesis using True x by (simp add: networkNumberAndMask_def Let_def)
  next
    case False
    then have x: "?x = To4 x" using h(3) by simp
    moreover have "length (To4 x) = 4" using False To4_length by blast
    moreover have "length (ipnMask n) = 4" using calculation h(2) m by simp
    ultimately show ?thesis using False by (simp add: networkNumberAndMask_def Let_def)
  qed
  have "length ?x \<noteq> 0" "length (ipnMask n) \<noteq> 0" using h(2) len unfolding m by auto
  then have "?x \<noteq> []" "ipnMask n \<noteq> []" by auto
  then have str: "IPNet_String \<lparr>ipnIP = x, ipnMask = ipnMask n\<rparr> = IP_String ?x @ ''/'' @ utoa ?p"
    by (simp add: IPNet_String_def nn wf_net_mask_length [OF assms(1)])
  have l: "length ?x = 4 \<or> length ?x = 16" using h(2) len by auto
  have addr: "ParseAddr (IP_String ?x) = Some (if length ?x = 4 then Addr4 ?x else Addr6 ?x)"
    using l v4 by (auto simp: IP_String_def ParseAddr_IPv4_String ParseAddr_IPv6_String)
  have mask: "CIDRMask (int ?p) (int (8 * length (ipnIP n))) = ipnMask n" using len p m by (auto simp: CIDRMask_def)
  have masked: "IP_Mask (To16 ?x) (ipnMask n) = ipnIP n"
    using l v4 h(1,2) m by (auto simp: IP_Mask_def To16_def Let_def)
  have n: "n = \<lparr>ipnIP = ipnIP n, ipnMask = ipnMask n\<rparr>" by simp
  have "?p < 1000" using p len by auto
  then show ?thesis
    using l p mask addr masked h(2) slash_notin_IP_String [of ?x] takeWhile_slash [of "IP_String ?x" "utoa ?p"]
    by (auto simp: ParseCIDR_def str Let_def dtoi_utoa To16_def)
qed

subsection \<open>Responses\<close>

lemma set_compact: "set (compact eq xs) \<subseteq> set xs"
proof -
  have "set (compact_after eq x ys) \<subseteq> set ys" for x ys by (induction eq x ys rule: compact_after.induct) auto
  then show ?thesis by (cases xs) auto
qed

lemma set_sortAndDedup: "set (sortAndDedupIPNets ns) \<subseteq> set ns"
  using set_compact [of ipnet_same "sort_Slice ipnet_less ns"] by (simp add: sortAndDedupIPNets_def)

definition routes_plain :: "Pool \<Rightarrow> bool" where
  "routes_plain cfg \<longleftrightarrow> (\<forall>rt \<in> set (plRoutes cfg). case ParseCIDR (plDst rt) of None \<Rightarrow> True | Some (_, rn) \<Rightarrow> wf_net rn)"

lemma parse_routes_nets: "parse_routes rts = Inr ns \<Longrightarrow> n \<in> set ns \<Longrightarrow> \<exists>rt \<in> set rts. \<exists>a. ParseCIDR (plDst rt) = Some (a, n)"
  by (induction rts arbitrary: ns) (auto simp: bind_result_Inr_iff split: option.splits)

lemma default_route_text: "ParseCIDR (IPNet_String (createDefaultRoute gw)) \<noteq> None"
proof -
  have "ParseCIDR (IPNet_String \<lparr>ipnIP = v4InV6Prefix @ [0, 0, 0, 0], ipnMask = CIDRMask 0 32\<rparr>) \<noteq> None"
    "ParseCIDR (IPNet_String \<lparr>ipnIP = replicate 16 0, ipnMask = CIDRMask 0 128\<rparr>) \<noteq> None" by code_simp+
  then show ?thesis by (simp only: createDefaultRoute_def split: if_split) blast
qed

lemma getRoutes_text:
  assumes "getRoutes gw (plRoutes cfg) dg = Inr ns" "routes_plain cfg" "n \<in> set ns"
  shows "ParseCIDR (IPNet_String n) \<noteq> None"
proof -
  have "gw \<noteq> []" using assms(1,3) by (auto simp: getRoutes_def)
  then obtain rs where rs: "parse_routes (plRoutes cfg) = Inr rs" "ns = sortAndDedupIPNets (if dg then rs @ [createDefaultRoute gw] else rs)"
    using assms(1) by (auto simp: getRoutes_def bind_result_Inr_iff)
  have "set ns \<subseteq> set (if dg then rs @ [createDefaultRoute gw] else rs)"
    unfolding rs(2) by (rule set_sortAndDedup)
  then consider "n \<in> set rs" | "n = createDefaultRoute gw" using assms(3) by (auto split: if_splits)
  then show ?thesis
  proof cases
    case 1
    then obtain rt a where "rt \<in> set (plRoutes cfg)" "ParseCIDR (plDst rt) = Some (a, n)" using parse_routes_nets [OF rs(1)] by blast
    then have "wf_net n" using assms(2) by (auto simp: routes_plain_def)
    then show ?thesis by (simp add: ParseCIDR_IPNet_String)
  qed (use default_route_text in simp)
qed

lemma resp_routes_total: "\<forall>r \<in> set rs. ParseCIDR r \<noteq> None \<Longrightarrow> \<exists>routes. resp_routes gw rs = Inr routes"
  by (induction rs) (auto split: option.splits)

text \<open>The entry of the result for a pool shows the address the store holds for the caller, with the mask of the subnet and the gateway.\<close>

definition shows_reservation :: "handlers \<Rightarrow> IPAMParameters \<Rightarrow> Root \<Rightarrow> string \<Rightarrow> CniIPConfig \<Rightarrow> bool" where
  "shows_reservation h params d name ipc \<longleftrightarrow>
     (\<exists>cfg ip n r. GetPoolByKey (pkey params name) (hdPools h) = Some cfg \<and> ParseCIDR (plSubnet cfg) = Some (ip, n) \<and>
        GetReservationByID (pkey params name) (pmCniContainerid params) (pmCniIfname params) (newStore d) = Some (Some r) \<and>
        IP_Equal (ipnIP (ciAddress ipc)) (rsIPAddress r) \<and> ipnMask (ciAddress ipc) = ipnMask n \<and>
        ciGateway ipc = To16 (answer_gateway params cfg))"

lemma gateway_text:
  assumes "answer_gateway params cfg \<noteq> []"
  shows "ParseIP (IP_String (answer_gateway params cfg)) = To16 (answer_gateway params cfg)" "To16 (answer_gateway params cfg) \<noteq> []"
    "IP_String (answer_gateway params cfg) \<noteq> []"
proof -
  have g: "answer_gateway params cfg = NormalizeIP (ParseIP (plGateway cfg))" using assms by (simp add: answer_gateway_def split: if_splits)
  have "length (answer_gateway params cfg) = 4 \<or> length (answer_gateway params cfg) = 16"
    using assms To4_length [of "ParseIP (plGateway cfg)"] unfolding g NormalizeIP_def by (auto simp: To16_def split: if_splits)
  then show p: "ParseIP (IP_String (answer_gateway params cfg)) = To16 (answer_gateway params cfg)" "To16 (answer_gateway params cfg) \<noteq> []"
    by (simp_all add: ParseIP_IP_String) (auto simp: To16_def)
  have "ParseIP [] = []" by code_simp
  then show "IP_String (answer_gateway params cfg) \<noteq> []" using p by metis
qed

lemma To16_Nil [simp]: "To16 [] = []"
  by (simp add: To16_def)

lemma IP_Equal_To16: "ip_len x \<noteq> 0 \<Longrightarrow> IP_Equal (To16 (NormalizeIP x)) x"
  by (subst IP_Equal_iff) (simp_all add: ip_len_def ip_val_def)

lemma info_result:
  assumes info: "info_ok h params d d' info"
    and plain: "\<And>key cfg. GetPoolByKey key (hdPools h) = Some cfg \<Longrightarrow> pool_plain fuel cfg \<and> routes_plain cfg"
  shows "\<exists>ipc routes. shows_reservation h params d' (aiPool info) ipc \<and>
    (\<forall>infos. grpcRespToResult (info # infos) =
       bind_result (grpcRespToResult infos) (\<lambda>result. Inr \<lparr>rsIPs = ipc # rsIPs result, rsRoutes = routes @ rsRoutes result\<rparr>))"
proof -
  obtain cfg ip n r where i: "GetPoolByKey (pkey params (aiPool info)) (hdPools h) = Some cfg" "ParseCIDR (plSubnet cfg) = Some (ip, n)"
    "GetReservationByID (pkey params (aiPool info)) (pmCniContainerid params) (pmCniIfname params) (newStore d') = Some (Some r)"
    "aiIp info = IPNet_String \<lparr>ipnIP = rsIPAddress r, ipnMask = ipnMask n\<rparr>" "IPNet_Contains n (rsIPAddress r)" "info_routes params cfg info"
    using info unfolding info_ok_def by (elim exE conjE) (rule that; assumption)
  have p: "wf_net n" "routes_plain cfg" using plain [OF i(1)] i(2) by (simp_all add: pool_plain_def)
  have addr: "ParseCIDR (aiIp info) = Some (To16 (NormalizeIP (rsIPAddress r)), n)" unfolding i(4) by (rule ParseCIDR_host [OF p(1) i(5)])
  then have ne: "aiIp info \<noteq> []" by (auto simp: ParseCIDR_def)
  have eq: "IP_Equal (To16 (NormalizeIP (rsIPAddress r))) (rsIPAddress r)"
    using host_masked(2) [OF p(1) i(5)] wf_netD(1) [OF p(1)] by (intro IP_Equal_To16) (auto simp: ip_len_def)
  let ?gw = "answer_gateway params cfg"
  let ?ipc = "\<lparr>ciAddress = \<lparr>ipnIP = To16 (NormalizeIP (rsIPAddress r)), ipnMask = ipnMask n\<rparr>, ciGateway = To16 ?gw\<rparr>"
  have shown: "shows_reservation h params d' (aiPool info) ?ipc" unfolding shows_reservation_def using i(1-3) eq by simp
  show ?thesis
  proof (cases "?gw = []")
    case True
    then show ?thesis using i(6) shown addr ne by (intro exI [of _ ?ipc] exI [of _ "[]"]) (simp add: info_routes_def)
  next
    case False
    note g = gateway_text [OF False]
    obtain rts where rts: "aiGateway info = IP_String ?gw" "getRoutes ?gw (plRoutes cfg) (plDefaultGateway cfg) = Inr rts" "aiRoutes info = map IPNet_String rts"
      using i(6) False by (auto simp: info_routes_def Let_def)
    obtain routes where "resp_routes (To16 ?gw) (aiRoutes info) = Inr routes"
      using resp_routes_total [of "aiRoutes info"] getRoutes_text [OF rts(2) p(2)] unfolding rts(3) by (metis (no_types) imageE list.set_map)
    then show ?thesis using shown addr ne rts(1) g by (intro exI [of _ ?ipc] exI [of _ routes]) (simp add: Let_def)
  qed
qed

lemma infos_result:
  assumes "list_all (info_ok h params d d') infos"
    and "\<And>key cfg. GetPoolByKey key (hdPools h) = Some cfg \<Longrightarrow> pool_plain fuel cfg \<and> routes_plain cfg"
  shows "\<exists>result. grpcRespToResult infos = Inr result \<and> list_all2 (shows_reservation h params d') (map aiPool infos) (rsIPs result)"
  using assms(1)
proof (induction infos)
  case (Cons info infos)
  obtain ipc routes where i: "shows_reservation h params d' (aiPool info) ipc"
    "\<forall>infos. grpcRespToResult (info # infos) =
       bind_result (grpcRespToResult infos) (\<lambda>result. Inr \<lparr>rsIPs = ipc # rsIPs result, rsRoutes = routes @ rsRoutes result\<rparr>)"
    using info_result [of h params d d' info fuel] Cons.prems assms(2) by auto
  obtain result where "grpcRespToResult infos = Inr result" "list_all2 (shows_reservation h params d') (map aiPool infos) (rsIPs result)"
    using Cons by auto
  then show ?case using i by (simp del: grpcRespToResult.simps)
qed simp


subsection \<open>Configurations\<close>

lemma LoadConf_Inr:
  assumes "LoadConf ce args = Some (Inr n)"
  obtains n0 conf0 conf1 pools poolType where "ceUnmarshalNet ce (saStdinData args) = Inr (Some n0)" "ncIPAM n0 = Some conf0"
    "load_conf ce args n0 conf0 = Inr conf1" "getPools (ncArgs n0) conf1 = Some (Inr pools)"
    "getPoolType (ncArgs n0) (conf1\<lparr>icPools := pools\<rparr>) = Some (Inr poolType)"
    "n = n0\<lparr>ncIPAM := Some (conf1\<lparr>icPools := pools, icPoolType := poolType\<rparr>)\<rparr>"
  using assms unfolding LoadConf_def by (auto split: sum.splits option.splits)

lemma overlay_ips [simp]: "icRequestedIPs (overlayConf from to) = icRequestedIPs to"
  by (simp add: overlayConf_def)

lemma merge_conf_ips: "merge_conf ce name conf0 = Inr conf1 \<Longrightarrow> icRequestedIPs conf1 = icRequestedIPs conf0"
  by (auto simp: merge_conf_def Let_def split: sum.splits option.splits if_splits)

lemma parse_ips_set: "parse_ips vs = Inr ips \<Longrightarrow> ip \<in> set ips \<Longrightarrow> ip \<noteq> [] \<and> (\<exists>v. ip = ParseIP v)"
  by (induction vs arbitrary: ips) (auto simp: Let_def bind_result_Inr_iff parseIP_def split: if_splits)

lemma loadEnv_facts:
  assumes "loadEnvCNIArgs ce args conf = Inr conf'" "\<forall>ip \<in> set (icRequestedIPs conf). ip \<noteq> [] \<and> (\<exists>v. ip = ParseIP v)"
  shows "kmPodName (icK8SMetadata conf') \<noteq> []" "kmPodNamespace (icK8SMetadata conf') \<noteq> []"
    "\<forall>ip \<in> set (icRequestedIPs conf'). ip \<noteq> [] \<and> (\<exists>v. ip = ParseIP v)"
  using assms by (auto simp: loadEnvCNIArgs_def bind_result_Inr_iff Let_def parseIP_def split: if_splits)

lemma set_features_shape:
  assumes "set_features args conf = Inr conf'"
  shows "\<exists>f. conf' = conf\<lparr>icFeatures := f\<rparr> \<and> \<not> (cfAllocateDefaultGateway f \<and> 0 < length (icRequestedIPs conf))"
proof -
  obtain c1 where c1: "(case args of
          Some (Some a) \<Rightarrow>
            (case iaAllocateIPWithIndex a of
               Some i \<Rightarrow> (if i < 0 then Inl ''allocateIPWithIndex can't be negative''
                   else Inr (conf\<lparr>icFeatures := \<lparr>cfAllocateDefaultGateway = iaAllocateDefaultGateway a, cfAllocateIPWithIndex = Some i\<rparr>\<rparr>))
             | None \<Rightarrow> Inr (conf\<lparr>icFeatures := \<lparr>cfAllocateDefaultGateway = iaAllocateDefaultGateway a, cfAllocateIPWithIndex = None\<rparr>\<rparr>))
        | _ \<Rightarrow> Inr conf) = Inr c1"
    and c2: "conf' = c1" "\<not> (cfAllocateDefaultGateway (icFeatures c1) \<and> 0 < length (icRequestedIPs c1))"
    using assms unfolding set_features_def bind_result_Inr_iff by (elim exE conjE) (rule that; simp split: if_splits)
  have "c1 = conf\<lparr>icFeatures := icFeatures c1\<rparr>" using c1 by (auto split: option.splits if_splits)
  then obtain f where "c1 = conf\<lparr>icFeatures := f\<rparr>" by blast
  then show ?thesis using c2 by auto
qed

lemma set_features_facts:
  assumes "set_features args conf = Inr conf'"
  shows "icK8SMetadata conf' = icK8SMetadata conf" "icRequestedIPs conf' = icRequestedIPs conf"
    "\<not> (cfAllocateDefaultGateway (icFeatures conf') \<and> 0 < length (icRequestedIPs conf'))"
proof -
  obtain f where "conf' = conf\<lparr>icFeatures := f\<rparr>" "\<not> (cfAllocateDefaultGateway f \<and> 0 < length (icRequestedIPs conf))"
    using set_features_shape [OF assms] by blast
  then show "icK8SMetadata conf' = icK8SMetadata conf" "icRequestedIPs conf' = icRequestedIPs conf"
    "\<not> (cfAllocateDefaultGateway (icFeatures conf') \<and> 0 < length (icRequestedIPs conf'))" by simp_all
qed

lemma split_on_ne: "split_on c s \<noteq> []"
  by (cases s) (auto split: list.split)

lemma getPools_facts:
  assumes "getPools args conf = Some (Inr pools)"
  shows "pools \<noteq> []" "length pools \<le> 2" "[] \<notin> set pools"
  using assms split_on_ne [of "CHR '',''" "icPoolName conf"]
  by (auto simp: getPools_def Let_def split: option.splits if_splits)

lemma first_index_None: "first_index i P xs = None \<longleftrightarrow> (\<forall>x \<in> set xs. \<not> P x)"
  by (induction xs arbitrary: i) auto

lemma requested_text: "ParseIP (IP_String (ParseIP v)) \<noteq> []" if "ParseIP v \<noteq> []"
proof -
  have "length (ParseIP v) = 16" using that ParseIP_length by blast
  then show ?thesis using that by (simp add: ParseIP_IP_String To16_def)
qed

text \<open>C22: The plugin only sends well-formed requests: when loading the configuration succeeds and the runtime passes a container ID and an
  interface name, the daemon's validation accepts the request built from it.  Decoding leaves the internal fields of the
  configuration empty.\<close>

theorem LoadConf_request_valid:
  assumes "LoadConf ce args = Some (Inr n)" "saContainerID args \<noteq> []" "saIfName args \<noteq> []"
    "\<forall>data n conf. ceUnmarshalNet ce data = Inr (Some n) \<and> ncIPAM n = Some conf \<longrightarrow> icRequestedIPs conf = []"
  shows "\<exists>conf. ncIPAM n = Some conf \<and> validateReq (Some (cniConfToGRPCReq n conf args)) = None"
proof -
  obtain n0 conf0 conf1 pools poolType where l: "ceUnmarshalNet ce (saStdinData args) = Inr (Some n0)" "ncIPAM n0 = Some conf0"
    "load_conf ce args n0 conf0 = Inr conf1" "getPools (ncArgs n0) conf1 = Some (Inr pools)"
    "n = n0\<lparr>ncIPAM := Some (conf1\<lparr>icPools := pools, icPoolType := poolType\<rparr>)\<rparr>"
    by (rule LoadConf_Inr [OF assms(1)]) (rule that; assumption)
  have z: "icRequestedIPs conf0 = []" using assms(4) l(1,2) by blast
  obtain c1 ips c2 where s: "merge_conf ce (ncName n0) conf0 = Inr c1" "parse_ips (requested_texts n0) = Inr ips"
    "loadEnvCNIArgs ce args (c1\<lparr>icRequestedIPs := icRequestedIPs c1 @ ips\<rparr>) = Inr c2" "set_features (ncArgs n0) c2 = Inr conf1"
    using l(3) by (auto simp: load_conf_def bind_result_Inr_iff)
  have "\<forall>ip \<in> set (icRequestedIPs (c1\<lparr>icRequestedIPs := icRequestedIPs c1 @ ips\<rparr>)). ip \<noteq> [] \<and> (\<exists>v. ip = ParseIP v)"
    using parse_ips_set [OF s(2)] merge_conf_ips [OF s(1)] z by simp
  note e = loadEnv_facts [OF s(3) this] and f = set_features_facts [OF s(4)] and p = getPools_facts [OF l(4)]
  let ?conf = "conf1\<lparr>icPools := pools, icPoolType := poolType\<rparr>" and ?ips = "map IP_String (icRequestedIPs conf1)"
  have ips: "first_index 0 (\<lambda>v. ParseIP v = []) ?ips = None" using e(3) f(2) requested_text by (fastforce simp: first_index_None)
  have pools: "first_index 0 (\<lambda>p. p = []) pools = None" using p(3) by (auto simp: first_index_None)
  have "validateReq (Some (cniConfToGRPCReq n ?conf args)) = None"
    using assms(2,3) p(1,2) e(1,2) f(1,3) ips pools unfolding validateReq_def cniConfToGRPCReq_def by (simp add: not_less)
  then show ?thesis using l(5) by simp
qed

text \<open>The first of several texts that is not empty.\<close>

fun first_set :: "string list \<Rightarrow> string" where
  "first_set [] = []"
| "first_set (x # xs) = (if x = [] then first_set xs else x)"

definition file_conf :: "cni_env \<Rightarrow> IPAMConf \<Rightarrow> IPAMConf option" where
  "file_conf ce conf0 =
     (case loadFromConfFile ce (filepath_Join (first_set [icConfDir conf0, DefaultConfDir]) ConfFileName) of Inr f \<Rightarrow> f | Inl _ \<Rightarrow> None)"

definition conf_layers :: "(IPAMConf \<Rightarrow> string) \<Rightarrow> cni_env \<Rightarrow> IPAMConf \<Rightarrow> string list" where
  "conf_layers field ce conf0 = field conf0 # (case file_conf ce conf0 of None \<Rightarrow> [] | Some f \<Rightarrow> [field f])"

definition forced :: "cni_env \<Rightarrow> IPAMConf \<Rightarrow> bool" where
  "forced ce conf0 = (case icForcePoolName conf0 of Some b \<Rightarrow> b | None \<Rightarrow>
     (case file_conf ce conf0 of Some f \<Rightarrow> (case icForcePoolName f of Some b \<Rightarrow> b | None \<Rightarrow> False) | None \<Rightarrow> False))"

lemma overlay_fields:
  "icPoolName (overlayConf from to) = first_set [icPoolName to, icPoolName from]"
  "icPoolType (overlayConf from to) = first_set [icPoolType to, icPoolType from]"
  "icDaemonSocket (overlayConf from to) = first_set [icDaemonSocket to, icDaemonSocket from]"
  "icForcePoolName (overlayConf from to) = (case icForcePoolName to of None \<Rightarrow> icForcePoolName from | Some b \<Rightarrow> Some b)"
  by (simp_all add: overlayConf_def split: option.split)

lemma default_fields:
  "icPoolName defaultConf = []" "icPoolType defaultConf = PoolTypeIPPool" "icDaemonSocket defaultConf = DefaultDaemonSocket"
  "icForcePoolName defaultConf = Some False"
  by (simp_all add: defaultConf_def)

lemma default_name:
  "icPoolName (let conf3 = overlayConf defaultConf conf
     in if \<not> the (icForcePoolName conf3) \<and> icPoolName conf3 = [] then conf3\<lparr>icPoolName := name\<rparr> else conf3) =
   first_set [icPoolName conf, if (case icForcePoolName conf of None \<Rightarrow> False | Some b \<Rightarrow> b) then [] else name]"
  by (auto simp: Let_def overlay_fields default_fields split: option.split)

lemma merge_conf_layers:
  assumes "merge_conf ce name conf0 = Inr conf1"
  shows "icPoolName conf1 = first_set (conf_layers icPoolName ce conf0 @ (if forced ce conf0 then [] else [name]))"
    "icPoolType conf1 = first_set (conf_layers icPoolType ce conf0 @ [PoolTypeIPPool])"
    "icDaemonSocket conf1 = first_set (conf_layers icDaemonSocket ce conf0 @ [DefaultDaemonSocket])"
proof -
  let ?c = "if icConfDir conf0 = [] then conf0\<lparr>icConfDir := DefaultConfDir\<rparr> else conf0"
  have dir: "icConfDir ?c = first_set [icConfDir conf0, DefaultConfDir]" by (simp add: DefaultConfDir_def)
  obtain f where f: "loadFromConfFile ce (filepath_Join (icConfDir ?c) ConfFileName) = Inr f" "file_conf ce conf0 = f"
    using assms unfolding merge_conf_def Let_def file_conf_def dir [symmetric] by (auto split: sum.splits)
  have m: "conf1 = (let conf3 = overlayConf defaultConf (case f of Some f \<Rightarrow> overlayConf f ?c | None \<Rightarrow> ?c)
      in if \<not> the (icForcePoolName conf3) \<and> icPoolName conf3 = [] then conf3\<lparr>icPoolName := name\<rparr> else conf3)"
    using assms unfolding merge_conf_def Let_def f(1) by simp
  let ?c2 = "case f of Some f \<Rightarrow> overlayConf f ?c | None \<Rightarrow> ?c"
  have c: "icPoolName ?c = icPoolName conf0" "icPoolType ?c = icPoolType conf0" "icDaemonSocket ?c = icDaemonSocket conf0" "icForcePoolName ?c = icForcePoolName conf0"
    by simp_all
  have c2: "icPoolName ?c2 = first_set (conf_layers icPoolName ce conf0)" "icPoolType ?c2 = first_set (conf_layers icPoolType ce conf0)"
    "icDaemonSocket ?c2 = first_set (conf_layers icDaemonSocket ce conf0)"
    "(case icForcePoolName ?c2 of None \<Rightarrow> False | Some b \<Rightarrow> b) = forced ce conf0"
    by (cases f; simp add: conf_layers_def f(2) overlay_fields c forced_def split: option.split)+
  have fs: "first_set (xs @ [y]) = first_set [first_set xs, y]" for xs y by (induction xs) auto
  show "icPoolName conf1 = first_set (conf_layers icPoolName ce conf0 @ (if forced ce conf0 then [] else [name]))"
    unfolding m default_name c2(1,4) by (simp add: fs)
  show "icPoolType conf1 = first_set (conf_layers icPoolType ce conf0 @ [PoolTypeIPPool])"
    unfolding m fs c2(2) [symmetric] by (simp add: Let_def overlay_fields default_fields)
  show "icDaemonSocket conf1 = first_set (conf_layers icDaemonSocket ce conf0 @ [DefaultDaemonSocket])"
    unfolding m fs c2(3) [symmetric] by (simp add: Let_def overlay_fields default_fields)
qed

lemma loadEnv_fields:
  assumes "loadEnvCNIArgs ce args conf = Inr conf'"
  shows "icPoolName conf' = icPoolName conf" "icPoolType conf' = icPoolType conf" "icDaemonSocket conf' = icDaemonSocket conf"
  using assms by (auto simp: loadEnvCNIArgs_def bind_result_Inr_iff Let_def split: if_splits)

lemma set_features_fields:
  assumes "set_features args conf = Inr conf'"
  shows "icPoolName conf' = icPoolName conf" "icPoolType conf' = icPoolType conf" "icDaemonSocket conf' = icDaemonSocket conf"
proof -
  obtain f where "conf' = conf\<lparr>icFeatures := f\<rparr>" using set_features_shape [OF assms] by blast
  then show "icPoolName conf' = icPoolName conf" "icPoolType conf' = icPoolType conf" "icDaemonSocket conf' = icDaemonSocket conf" by simp_all
qed

lemma load_conf_layers:
  assumes "load_conf ce args n conf0 = Inr conf1"
  shows "icPoolName conf1 = first_set (conf_layers icPoolName ce conf0 @ (if forced ce conf0 then [] else [ncName n]))"
    "icPoolType conf1 = first_set (conf_layers icPoolType ce conf0 @ [PoolTypeIPPool])"
    "icDaemonSocket conf1 = first_set (conf_layers icDaemonSocket ce conf0 @ [DefaultDaemonSocket])"
proof -
  obtain c1 ips c2 where s: "merge_conf ce (ncName n) conf0 = Inr c1"
    "loadEnvCNIArgs ce args (c1\<lparr>icRequestedIPs := icRequestedIPs c1 @ ips\<rparr>) = Inr c2" "set_features (ncArgs n) c2 = Inr conf1"
    using assms unfolding load_conf_def bind_result_Inr_iff by blast
  note f = loadEnv_fields [OF s(2)] set_features_fields [OF s(3)] and m = merge_conf_layers [OF s(1)]
  show "icPoolName conf1 = first_set (conf_layers icPoolName ce conf0 @ (if forced ce conf0 then [] else [ncName n]))"
    "icPoolType conf1 = first_set (conf_layers icPoolType ce conf0 @ [PoolTypeIPPool])"
    "icDaemonSocket conf1 = first_set (conf_layers icDaemonSocket ce conf0 @ [DefaultDaemonSocket])"
    using f m by simp_all
qed

definition arg_pools :: "NetConf \<Rightarrow> string list" where
  "arg_pools n = (case ncArgs n of Some (Some a) \<Rightarrow> iaPoolNames a | _ \<Rightarrow> [])"

definition arg_pool_type :: "NetConf \<Rightarrow> string" where
  "arg_pool_type n = (case ncArgs n of Some (Some a) \<Rightarrow> iaPoolType a | _ \<Rightarrow> [])"

text \<open>Where the settings of the plugin come from: the daemon socket is taken from the network configuration, else from the configuration
  file, else it is the default; the pools are those of the arguments, else the comma-separated pool name of the network configuration or
  the file, else the network name unless a pool name is mandatory; the pool type, in lower case, is that of the arguments, the network
  configuration, the file or \<open>ippool\<close>, in this order.\<close>

theorem LoadConf_precedence:
  assumes "LoadConf ce args = Some (Inr n)" "ceUnmarshalNet ce (saStdinData args) = Inr (Some n0)" "ncIPAM n0 = Some conf0"
  shows "\<exists>conf. ncIPAM n = Some conf \<and>
    icDaemonSocket conf = first_set (conf_layers icDaemonSocket ce conf0 @ [DefaultDaemonSocket]) \<and>
    icPools conf = (if arg_pools n0 \<noteq> [] then arg_pools n0
      else split_on CHR '','' (first_set (conf_layers icPoolName ce conf0 @ (if forced ce conf0 then [] else [ncName n0])))) \<and>
    icPoolType conf = ToLower (first_set (arg_pool_type n0 # conf_layers icPoolType ce conf0 @ [PoolTypeIPPool]))"
proof -
  obtain conf1 pools poolType where l: "load_conf ce args n0 conf0 = Inr conf1" "getPools (ncArgs n0) conf1 = Some (Inr pools)"
    "getPoolType (ncArgs n0) (conf1\<lparr>icPools := pools\<rparr>) = Some (Inr poolType)"
    "n = n0\<lparr>ncIPAM := Some (conf1\<lparr>icPools := pools, icPoolType := poolType\<rparr>)\<rparr>"
    using LoadConf_Inr [OF assms(1)] assms(2,3) by (metis (no_types) Inr_inject option.inject)
  note f = load_conf_layers [OF l(1)]
  have p: "pools = (if arg_pools n0 \<noteq> [] then arg_pools n0 else split_on CHR '','' (icPoolName conf1))"
    using l(2) by (auto simp: getPools_def Let_def arg_pools_def split: option.splits if_splits)
  have t: "poolType = ToLower (first_set [arg_pool_type n0, icPoolType conf1])"
    using l(3) by (auto simp: getPoolType_def Let_def arg_pool_type_def split: option.splits if_splits)
  have fs: "first_set (x # xs @ [y]) = first_set [x, first_set (xs @ [y])]" for x xs y by simp
  show ?thesis
    by (intro exI [of _ "conf1\<lparr>icPools := pools, icPoolType := poolType\<rparr>"] conjI) (use p t in \<open>simp_all add: l(4) f\<close>)
qed

text \<open>C38: The plugin crashes on a configuration with an empty \<open>args\<close> object: if everything up to the choice of the pools succeeds and
  \<open>args\<close> is present without \<open>cni\<close>, a nil pointer is dereferenced.\<close>

theorem LoadConf_args_without_cni:
  assumes "ceUnmarshalNet ce (saStdinData args) = Inr (Some n)" "ncIPAM n = Some conf0" "ncArgs n = Some None"
    "load_conf ce args n conf0 = Inr conf1"
  shows "LoadConf ce args = None"
  using assms by (simp add: LoadConf_def getPools_def Let_def)

subsection \<open>An example\<close>

definition ex_conf :: IPAMConf where
  "ex_conf = defaultConf\<lparr>icType := ''nv-ipam'', icForcePoolName := None, icPoolType := ''IPPool'', icDaemonSocket := [], icDaemonCallTimeoutSeconds := 0,
     icConfDir := [], icLogFile := [], icLogLevel := []\<rparr>"

definition ex_net :: NetConf where
  "ex_net = \<lparr>ncName = ''p'', ncCNIVersion = ''0.4.0'', ncIPAM = Some ex_conf, ncDeviceID = [], ncRuntimeIPs = [], ncArgs = None\<rparr>"

definition ex_file_conf :: IPAMConf where
  "ex_file_conf = ex_conf\<lparr>icPoolType := [], icDaemonSocket := ''unix:///run/ipam.sock''\<rparr>"

text \<open>The file is found under the default directory.\<close>

definition ex_cni :: "NetConf \<Rightarrow> cni_env" where
  "ex_cni n = \<lparr>ceUnmarshalNet = (\<lambda>_. Inr (Some n)), ceUnmarshalConf = (\<lambda>_. Inr ex_file_conf),
     ceReadFile = (\<lambda>path. if path = ''/etc/cni/net.d/nv-ipam.d/nv-ipam.conf'' then ConfData ''{}'' else ConfNotExist),
     ceLoadArgs = (\<lambda>_. Inr \<lparr>eaIP = [], eaPodName = ''pod'', eaPodNamespace = ''ns'', eaPodUID = ''u''\<rparr>)\<rparr>"

definition ex_args :: CmdArgs where
  "ex_args = \<lparr>saContainerID = ''c1'', saIfName = ''net0'', saArgs = [], saStdinData = ''{}''\<rparr>"

definition ex_loaded :: NetConf where
  "ex_loaded = ex_net\<lparr>ncIPAM := Some (ex_conf\<lparr>icForcePoolName := Some False, icPoolName := ''p'', icPoolType := ''ippool'',
     icDaemonSocket := ''unix:///run/ipam.sock'', icDaemonCallTimeoutSeconds := 5, icConfDir := DefaultConfDir, icLogFile := DefaultLogFile,
     icLogLevel := DefaultLogLevel, icPools := [''p''], icK8SMetadata := \<lparr>kmPodName = ''pod'', kmPodNamespace = ''ns'', kmPodUID = ''u''\<rparr>\<rparr>)\<rparr>"

lemma ex_LoadConf: "LoadConf (ex_cni ex_net) ex_args = Some (Inr ex_loaded)"
  by code_simp

theorem LoadConf_request_valid_witness:
  "\<exists>conf. ncIPAM ex_loaded = Some conf \<and> validateReq (Some (cniConfToGRPCReq ex_loaded conf ex_args)) = None"
proof -
  have a: "saContainerID ex_args \<noteq> []" "saIfName ex_args \<noteq> []" by (simp_all add: ex_args_def)
  have "\<forall>data n conf. ceUnmarshalNet (ex_cni ex_net) data = Inr (Some n) \<and> ncIPAM n = Some conf \<longrightarrow> icRequestedIPs conf = []"
    by (auto simp: ex_cni_def ex_net_def ex_conf_def defaultConf_def)
  from LoadConf_request_valid [OF ex_LoadConf a this] show ?thesis .
qed

theorem LoadConf_precedence_witness:
  "\<exists>conf. ncIPAM ex_loaded = Some conf \<and> icDaemonSocket conf = ''unix:///run/ipam.sock'' \<and> icPools conf = [''p''] \<and> icPoolType conf = ''ippool''"
proof -
  have u: "ceUnmarshalNet (ex_cni ex_net) (saStdinData ex_args) = Inr (Some ex_net)" "ncIPAM ex_net = Some ex_conf"
    by (simp_all add: ex_cni_def ex_net_def)
  have "first_set (conf_layers icDaemonSocket (ex_cni ex_net) ex_conf @ [DefaultDaemonSocket]) = ''unix:///run/ipam.sock''"
    "(if arg_pools ex_net \<noteq> [] then arg_pools ex_net
      else split_on CHR '','' (first_set (conf_layers icPoolName (ex_cni ex_net) ex_conf @ (if forced (ex_cni ex_net) ex_conf then [] else [ncName ex_net])))) = [''p'']"
    "ToLower (first_set (arg_pool_type ex_net # conf_layers icPoolType (ex_cni ex_net) ex_conf @ [PoolTypeIPPool])) = ''ippool''"
    by code_simp+
  with LoadConf_precedence [OF ex_LoadConf u] show ?thesis by simp
qed

theorem LoadConf_args_without_cni_witness:
  "LoadConf (ex_cni (ex_net\<lparr>ncArgs := Some None\<rparr>)) ex_args = None"
proof -
  let ?n = "ex_net\<lparr>ncArgs := Some None\<rparr>"
  have u: "ceUnmarshalNet (ex_cni ?n) (saStdinData ex_args) = Inr (Some ?n)" "ncIPAM ?n = Some ex_conf" "ncArgs ?n = Some None"
    by (simp_all add: ex_cni_def ex_net_def)
  have "case load_conf (ex_cni ?n) ex_args ?n ex_conf of Inl _ \<Rightarrow> False | Inr _ \<Rightarrow> True" by code_simp
  then obtain conf1 where "load_conf (ex_cni ?n) ex_args ?n ex_conf = Inr conf1" by (auto split: sum.splits)
  from LoadConf_args_without_cni [OF u this] show ?thesis .
qed

lemma ex_routes: "\<forall>key cfg. GetPoolByKey key (hdPools ex_handlers) = Some cfg \<longrightarrow> pool_plain (evFuel ex_env) cfg \<and> routes_plain cfg"
  using ex_pool_plain
  by (simp add: ex_handlers_def ex_env_def Manager_UpdatePool_def NewManager_def GetPoolByKey_def routes_plain_def ex_node_pool_def)


end
