(* ===== verification/Daemon.thy ===== *)
theory Daemon
  imports CleanerPasses CniPlugin
begin

text \<open>
  The node daemon as a state machine: the pool controllers, the requests of the CNI plugin and the passes of the cleaner share
  the configuration and the store (\<open>RunNodeDaemon\<close> in \<open>cmd/ipam-node/app/app.go\<close> creates them and gives all of them the same
  manager, store and cooldown).  A request or a pass holds the lock of the store from opening to closing its session, so that
  concurrent ones happen one after the other in some order.  Sequences of inputs, with restarts between them, are in \<open>Restart\<close>.
\<close>

subsection \<open>The machine\<close>

record daemon =
  dmPools :: manager
  dmStore :: store
  dmCleaner :: cleaner
  dmCooldown :: int

datatype daemon_input =
    Notify node_event
  | CallAllocate env "IPAMParameters option"
  | CallDeallocate env "IPAMParameters option"
  | CallIsAllocated env "IPAMParameters option"
  | CleanerPass pass_env

datatype daemon_outcome = Notified | Allocated "status + AllocationInfo list" | Answered "status option" | Passed "cleaner_error option"

abbreviation dmHandlers :: "daemon \<Rightarrow> handlers" where
  "dmHandlers s \<equiv> \<lparr>hdPools = dmPools s, hdReleaseCooldown = dmCooldown s\<rparr>"

fun daemon_do :: "ext_validation \<Rightarrow> string \<Rightarrow> daemon_input \<Rightarrow> daemon \<Rightarrow> (daemon_outcome \<times> daemon) option" where
  "daemon_do ev nodeName (Notify e) s = map_option (\<lambda>m. (Notified, s\<lparr>dmPools := m\<rparr>)) (node_handle ev nodeName e (dmPools s))"
| "daemon_do ev nodeName (CallAllocate env req) s =
     map_option (\<lambda>(res, m). (Allocated res, s\<lparr>dmStore := m\<rparr>)) (Handlers_Allocate env (dmHandlers s) req (dmStore s))"
| "daemon_do ev nodeName (CallDeallocate env req) s =
     map_option (\<lambda>(err, m). (Answered err, s\<lparr>dmStore := m\<rparr>)) (Handlers_Deallocate env (dmHandlers s) req (dmStore s))"
| "daemon_do ev nodeName (CallIsAllocated env req) s =
     map_option (\<lambda>(err, m). (Answered err, s\<lparr>dmStore := m\<rparr>)) (Handlers_IsAllocated env req (dmStore s))"
| "daemon_do ev nodeName (CleanerPass pe) s =
     map_option (\<lambda>(err, c, m). (Passed err, s\<lparr>dmCleaner := c, dmStore := m\<rparr>)) (cleaner_loop (pe\<lparr>pePools := dmPools s\<rparr>) (dmCleaner s) (dmStore s))"

text \<open>Starting: an empty configuration, the store, whose data is loaded and checked by opening and cancelling a session, and the
  cleaner, which gets the same store and the same cooldown as the request handlers.\<close>

definition daemon_start :: "env \<Rightarrow> file_content \<Rightarrow> int \<Rightarrow> int \<Rightarrow> (store_error + daemon) option" where
  "daemon_start env f checkCount cooldown =
     (case Open (evMarshal env) (evUnmarshal env) \<lparr>stFile = f, stPersistedData = None, stLocked = False\<rparr> of
        None \<Rightarrow> None
      | Some (Inl e, _) \<Rightarrow> Some (Inl e)
      | Some (Inr s, m) \<Rightarrow>
          map_option (\<lambda>(_, m'). Inr \<lparr>dmPools = NewManager, dmStore = m', dmCleaner = NewCleaner checkCount cooldown, dmCooldown = cooldown\<rparr>)
            (Cancel s m))"

text \<open>What is relied on: JSON encoding does not fail, the fuel of a request covers the networks of the configuration, and pool
  names, container IDs and interface names have no vertical bar.\<close>

definition request_bars :: "IPAMParameters option \<Rightarrow> bool" where
  "request_bars req \<longleftrightarrow>
     (case req of None \<Rightarrow> True
      | Some params \<Rightarrow> bar_free (pmCniContainerid params) \<and> bar_free (pmCniIfname params) \<and> list_all bar_free (pmPools params))"

fun input_ok :: "daemon_input \<Rightarrow> daemon \<Rightarrow> bool" where
  "input_ok (Notify e) s \<longleftrightarrow> True"
| "input_ok (CallAllocate env req) s \<longleftrightarrow> (\<forall>r. evMarshal env r \<noteq> None) \<and> request_bars req \<and>
     (\<forall>key cfg. GetPoolByKey key (dmPools s) = Some cfg \<longrightarrow> pool_plain (evFuel env) cfg)"
| "input_ok (CallDeallocate env req) s \<longleftrightarrow> (\<forall>r. evMarshal env r \<noteq> None)"
| "input_ok (CallIsAllocated env req) s \<longleftrightarrow> True"
| "input_ok (CleanerPass pe) s \<longleftrightarrow> (\<forall>r. evMarshal (peEnv pe) r \<noteq> None)"

definition daemon_ok :: "daemon \<Rightarrow> Root \<Rightarrow> bool" where
  "daemon_ok s d \<longleftrightarrow> cleaner_ready (dmCleaner s) (dmStore s) d \<and> cnReleaseCooldown (dmCleaner s) = dmCooldown s"

lemma daemon_start_ok:
  assumes "daemon_start env f checkCount cooldown = Some (Inr s)" "loadFromDisk (evMarshal env) (evUnmarshal env) f = Some (Inr d)"
    "root_ok d" "bars_free (newStore d)"
  shows "daemon_ok s d"
  using assms by (auto simp: daemon_start_def Open_def Cancel_def newStore_def daemon_ok_def cleaner_ready_def store_ready_def NewCleaner_def)

text \<open>An input that does not end the reservation \<open>r\<close> of the caller \<open>k\<close> in the pool \<open>pk\<close>: no release of a live reservation, no pass that
  misses its Pod, and nothing after the cooldown of a released one.\<close>

fun harmless :: "int \<Rightarrow> string \<Rightarrow> string \<Rightarrow> Reservation \<Rightarrow> daemon_input \<Rightarrow> bool" where
  "harmless cooldown pk k r (CallDeallocate env req) \<longleftrightarrow>
     (case req of None \<Rightarrow> True
      | Some params \<Rightarrow> \<not> (k = rkey params \<and> pk \<in> pkey params ` set (pmPools params)) \<or>
          0 < cooldown \<and> IsReleased r \<and> time_Since (evNow env) (rsReleasedAt r) < cooldown)"
| "harmless cooldown pk k r (CleanerPass pe) \<longleftrightarrow>
     (if IsReleased r then time_Since (evNow (peEnv pe)) (rsReleasedAt r) < cooldown else watched r \<and> find_pod pe r \<noteq> Inr False)"
| "harmless cooldown pk k r _ \<longleftrightarrow> True"

subsection \<open>The invariant\<close>

definition kept :: "daemon_input \<Rightarrow> int \<Rightarrow> Root \<Rightarrow> Root \<Rightarrow> bool" where
  "kept i cooldown d d' \<longleftrightarrow> (\<forall>pk k r. ent (newStore d) pk k = Some r \<longrightarrow> harmless cooldown pk k r i \<longrightarrow> ent (newStore d') pk k = Some r)"

lemma kept_refl [simp]: "kept i cooldown d d"
  by (simp add: kept_def)

lemma bar_free_append [simp]: "bar_free (a @ b) \<longleftrightarrow> bar_free a \<and> bar_free b"
  by (simp add: bar_free_def)

lemma bar_free_pkey: "bar_free name \<Longrightarrow> bar_free (pkey params name)"
  by (simp add: bar_free_def GetPoolKey_def poolTypeAsString_def PoolTypeIPPool_def PoolTypeCIDRPool_def)

lemma extends_bars:
  assumes "bars_free s" "session_ok s'" "ssn_extends (rkey params) (pkey params ` set (pmPools params)) s s'" "request_bars (Some params)"
  shows "bars_free s'"
  unfolding bars_free_def
proof (intro allI impI)
  fix pk k r
  assume r: "ent s' pk k = Some r"
  show "bar_free pk \<and> bar_free (rsContainerID r)"
  proof (cases "k = rkey params \<and> pk \<in> pkey params ` set (pmPools params)")
    case True
    have "bar_free (rkey params)" using assms(4) by (simp add: request_bars_def getKey_def bar_free_def)
    then have "bar_free (res_key r)" using ent_key [OF assms(2) r] True by simp
    moreover have "bar_free pk" using True assms(4) bar_free_pkey by (auto simp: request_bars_def list_all_iff)
    ultimately show ?thesis by (simp add: getKey_def)
  next
    case False
    then have "ent s pk k = Some r" using assms(3) r by (simp add: ssn_extends_def)
    then show ?thesis using assms(1) by (simp add: bars_free_def)
  qed
qed

lemma Handlers_IsAllocated_store:
  assumes "store_ready m d"
  shows "\<exists>err. Handlers_IsAllocated ev req m = Some (err, m)"
proof (cases "validateReq req")
  case None
  then obtain params where req: "req = Some params" using validateReq_None by blast
  note rd = store_readyD [OF assms]
  show ?thesis
  proof (cases "evCanceled ev")
    case True
    then show ?thesis using None rd(1) close_error [OF assms rd(2)] by (simp add: Handlers_IsAllocated_def checkReqIsCanceled_def)
  next
    case False
    then show ?thesis using Handlers_IsAllocated_law [OF assms None [unfolded req] False] req by blast
  qed
qed (simp add: Handlers_IsAllocated_def)

lemma daemon_allocate:
  assumes ok: "daemon_ok s d" and i: "input_ok (CallAllocate env req) s"
  shows "\<exists>res m d'. Handlers_Allocate env (dmHandlers s) req (dmStore s) = Some (res, m) \<and> cleaner_ready (dmCleaner s) m d' \<and>
    kept (CallAllocate env req) (dmCooldown s) d d'"
proof -
  have r: "store_ready (dmStore s) d" "bars_free (newStore d)" "distinct (map fst (cnStaleAllocations (dmCleaner s)))"
    using ok by (simp_all add: daemon_ok_def cleaner_ready_def)
  have h: "\<forall>r. evMarshal env r \<noteq> None" "\<forall>key cfg. GetPoolByKey key (hdPools (dmHandlers s)) = Some cfg \<longrightarrow> pool_plain (evFuel env) cfg"
    using i by simp_all
  obtain res m where a: "Handlers_Allocate env (dmHandlers s) req (dmStore s) = Some (res, m)"
    "case res of Inl e \<Rightarrow> m = dmStore s | Inr infos \<Rightarrow> \<exists>params d'. req = Some params \<and> store_ready m d' \<and> map aiPool infos = pmPools params \<and>
         list_all (info_ok (dmHandlers s) params d d') infos \<and> ssn_extends (rkey params) (pkey params ` set (pmPools params)) (newStore d) (newStore d')"
    using Handlers_Allocate_law [OF r(1) h, of req] by blast
  show ?thesis
  proof (cases res)
    case (Inl e)
    then show ?thesis using a r by (intro exI [of _ res] exI [of _ m] exI [of _ d]) (simp add: cleaner_ready_def)
  next
    case (Inr infos)
    then obtain params d' where d': "req = Some params" "store_ready m d'"
      "ssn_extends (rkey params) (pkey params ` set (pmPools params)) (newStore d) (newStore d')" using a(2) by auto
    have "bars_free (newStore d')" using extends_bars [OF r(2) store_readyD(2) [OF d'(2)] d'(3)] i d'(1) by simp
    moreover have "kept (CallAllocate env req) (dmCooldown s) d d'" using ssn_extends_kept [OF d'(3)] by (simp add: kept_def)
    ultimately show ?thesis using a(1) d'(2) r(3) by (intro exI [of _ res] exI [of _ m] exI [of _ d']) (simp add: cleaner_ready_def)
  qed
qed

lemma release_kept:
  assumes "0 < cooldown" "IsReleased r" "time_Since now (rsReleasedAt r) < cooldown"
  shows "release_entry now cooldown (Some r) = Some r"
  using assms by (simp add: release_entry_def release_outcome_of_def)

lemma release_container: "release_entry now cooldown (Some r) = Some r' \<Longrightarrow> rsContainerID r' = rsContainerID r"
  by (auto simp: release_entry_def split: release_outcome.splits)

lemma daemon_deallocate:
  assumes ok: "daemon_ok s d" and i: "input_ok (CallDeallocate env req) s"
  shows "\<exists>err m d'. Handlers_Deallocate env (dmHandlers s) req (dmStore s) = Some (err, m) \<and> cleaner_ready (dmCleaner s) m d' \<and>
    kept (CallDeallocate env req) (dmCooldown s) d d'"
proof (cases "validateReq req")
  case (Some e)
  then show ?thesis using ok by (intro exI [of _ "Some e"] exI [of _ "dmStore s"] exI [of _ d]) (simp add: Handlers_Deallocate_def daemon_ok_def)
next
  case None
  then obtain params where req: "req = Some params" using validateReq_None by blast
  have r: "store_ready (dmStore s) d" "bars_free (newStore d)" "distinct (map fst (cnStaleAllocations (dmCleaner s)))"
    using ok by (simp_all add: daemon_ok_def cleaner_ready_def)
  have ms: "\<And>r. evMarshal env r \<noteq> None" using i by simp
  obtain err m where a: "Handlers_Deallocate env (dmHandlers s) (Some params) (dmStore s) = Some (err, m)" "err \<noteq> None \<longrightarrow> m = dmStore s"
    "err = None \<longrightarrow> (\<exists>d'. store_ready m d' \<and> (\<forall>pk k. ent (newStore d') pk k =
       (if pk \<in> pkey params ` set (pmPools params) \<and> k = rkey params then release_entry (evNow env) (hdReleaseCooldown (dmHandlers s)) (ent (newStore d) pk k)
        else ent (newStore d) pk k)))"
    using Handlers_Deallocate_law [OF r(1) ms None [unfolded req], of "dmHandlers s"] by (elim exE conjE) (rule that; assumption)
  show ?thesis
  proof (cases "err = None")
    case False
    then show ?thesis using a(1,2) r req by (intro exI [of _ err] exI [of _ m] exI [of _ d]) (simp add: cleaner_ready_def)
  next
    case True
    then obtain d' where d': "store_ready m d'" "\<And>pk k. ent (newStore d') pk k =
       (if pk \<in> pkey params ` set (pmPools params) \<and> k = rkey params then release_entry (evNow env) (dmCooldown s) (ent (newStore d) pk k)
        else ent (newStore d) pk k)" using a(3) by auto
    have "bar_free pk \<and> bar_free (rsContainerID q)" if q: "ent (newStore d') pk k = Some q" for pk k q
    proof -
      obtain q0 where "ent (newStore d) pk k = Some q0" "rsContainerID q = rsContainerID q0"
        using q release_container unfolding d'(2) by (cases "ent (newStore d) pk k") (auto split: if_splits)
      then show ?thesis using r(2) by (simp add: bars_free_def)
    qed
    then have "bars_free (newStore d')" by (simp add: bars_free_def)
    moreover have "kept (CallDeallocate env req) (dmCooldown s) d d'"
      unfolding kept_def d'(2) req by (auto simp: release_kept)
    ultimately show ?thesis using a(1) req d'(1) r(3) by (intro exI [of _ err] exI [of _ m] exI [of _ d']) (simp add: cleaner_ready_def)
  qed
qed

lemma pass_entry_kept:
  assumes "harmless (cnReleaseCooldown c) pk k r (CleanerPass pe)"
  shows "pass_entry c pe old r = Some r"
  using assms by (auto simp: pass_entry_def expired_def count_after_def split: if_splits sum.split bool.split)

lemma daemon_pass:
  assumes ok: "daemon_ok s d" and i: "input_ok (CleanerPass pe) s"
  shows "\<exists>err c m d'. cleaner_loop (pe\<lparr>pePools := dmPools s\<rparr>) (dmCleaner s) (dmStore s) = Some (err, c, m) \<and> cleaner_ready c m d' \<and>
    cnReleaseCooldown c = dmCooldown s \<and> kept (CleanerPass pe) (dmCooldown s) d d'"
proof -
  let ?pe = "pe\<lparr>pePools := dmPools s\<rparr>" and ?c = "dmCleaner s"
  have r: "cleaner_ready ?c (dmStore s) d" "cnReleaseCooldown ?c = dmCooldown s" using ok by (simp_all add: daemon_ok_def)
  have ms: "\<And>r. evMarshal (peEnv ?pe) r \<noteq> None" using i by simp
  obtain err c m d' where a: "cleaner_loop ?pe ?c (dmStore s) = Some (err, c, m)" "cleaner_ready c m d'" "cnReleaseCooldown c = cnReleaseCooldown ?c"
    "err \<noteq> None \<longrightarrow> m = dmStore s \<and> d' = d" "err = None \<longrightarrow> pass_done ?c ?pe (cnStaleAllocations ?c) (newStore d) (cnStaleAllocations c) (newStore d')"
    using cleaner_pass [OF r(1) ms] by (elim exE conjE) (rule that; assumption)
  have "kept (CleanerPass pe) (dmCooldown s) d d'"
  proof (cases "err = None")
    case True
    have "find_pod ?pe q = find_pod pe q" for q by (simp add: find_pod_def cong: sum.case_cong bool.case_cong)
    then have "harmless (dmCooldown s) pk k q (CleanerPass ?pe) = harmless (dmCooldown s) pk k q (CleanerPass pe)" for pk k q by simp
    then have "harmless (dmCooldown s) pk k q (CleanerPass pe) \<Longrightarrow> pass_entry ?c ?pe old q = Some q" for pk k q old
      using pass_entry_kept [of ?c pk k q ?pe old] r(2) by simp
    then show ?thesis using a(5) True by (simp add: kept_def pass_done_def)
  next
    case False
    then show ?thesis using a(4) by simp
  qed
  then show ?thesis using a(1-3) r(2) by (intro exI [of _ err] exI [of _ c] exI [of _ m] exI [of _ d']) simp
qed

text \<open>Every input is handled, keeps the invariant and keeps the reservations that it does not end.\<close>

lemma daemon_do_ok:
  assumes ok: "daemon_ok s d" and i: "input_ok i s"
  shows "\<exists>out s' d'. daemon_do ev nodeName i s = Some (out, s') \<and> daemon_ok s' d' \<and> dmCooldown s' = dmCooldown s \<and> kept i (dmCooldown s) d d'"
proof (cases i)
  case (Notify e)
  obtain m where "node_handle ev nodeName e (dmPools s) = Some m" by (cases e) (simp_all add: NodeCIDRPool_Reconcile_conv)
  then show ?thesis using Notify ok by (intro exI [of _ Notified] exI [of _ "s\<lparr>dmPools := m\<rparr>"] exI [of _ d]) (simp add: daemon_ok_def)
next
  case (CallAllocate env req)
  then show ?thesis using daemon_allocate [OF ok i [unfolded CallAllocate]] ok by (auto simp: daemon_ok_def)
next
  case (CallDeallocate env req)
  then show ?thesis using daemon_deallocate [OF ok i [unfolded CallDeallocate]] ok by (auto simp: daemon_ok_def)
next
  case (CallIsAllocated env req)
  have "store_ready (dmStore s) d" using ok by (simp add: daemon_ok_def cleaner_ready_def)
  then obtain err where "Handlers_IsAllocated env req (dmStore s) = Some (err, dmStore s)" using Handlers_IsAllocated_store by blast
  then show ?thesis using CallIsAllocated ok by (intro exI [of _ "Answered err"] exI [of _ s] exI [of _ d]) (simp add: daemon_ok_def)
next
  case (CleanerPass pe)
  then show ?thesis using daemon_pass [OF ok i [unfolded CleanerPass]] ok by (auto simp: daemon_ok_def)
qed

subsection \<open>Held addresses\<close>

lemma IP_Equal_shown:
  assumes "ip_len x \<noteq> 0"
  shows "IP_Equal (To16 (NormalizeIP x)) y = IP_Equal x y"
  using IP_Equal_Normalize [of "To16 (NormalizeIP x)" y] IP_Equal_Normalize [OF assms, of y] assms by (simp add: ip_len_def)

lemma ent_unique:
  assumes "session_ok s" "ent s pk k = Some r" "ent s pk k' = Some r'" "IP_Equal (rsIPAddress r) (rsIPAddress r')"
  shows "k = k'"
proof -
  have "entries_ok (ssn_entries s pk)" by (rule session_ok_entries [OF assms(1)])
  then have "\<forall>(k, r) \<in> set (ssn_entries s pk). \<forall>(k', r') \<in> set (ssn_entries s pk). IP_Equal (rsIPAddress r) (rsIPAddress r') \<longrightarrow> k = k'"
    by (simp add: entries_ok_def)
  from bspec [OF bspec [OF this map_of_SomeD [OF assms(2)], unfolded prod.case] map_of_SomeD [OF assms(3)]] assms(4) show ?thesis by simp
qed

text \<open>The answer to a request is none of the addresses that the store holds for the pool.\<close>

lemma not_reissued:
  assumes ok: "daemon_ok s' d'" "ent (newStore d') pk k = Some r"
    and al: "input_ok (CallAllocate env (Some params)) s'" "daemon_do ev nodeName (CallAllocate env (Some params)) s' = Some (Allocated (Inr infos), s'')"
      "info \<in> set infos" "pkey params (aiPool info) = pk"
  shows "\<exists>a n. ParseCIDR (aiIp info) = Some (a, n) \<and> \<not> IP_Equal a (rsIPAddress r)"
proof -
  have rd: "store_ready (dmStore s') d'" using ok(1) by (simp add: daemon_ok_def cleaner_ready_def)
  have h: "\<forall>r. evMarshal env r \<noteq> None" "\<forall>key cfg. GetPoolByKey key (hdPools (dmHandlers s')) = Some cfg \<longrightarrow> pool_plain (evFuel env) cfg"
    using al(1) by simp_all
  obtain m where a: "Handlers_Allocate env (dmHandlers s') (Some params) (dmStore s') = Some (Inr infos, m)" using al(2) by auto
  obtain d'' where "list_all (info_ok (dmHandlers s') params d' d'') infos"
    using Handlers_Allocate_law [OF rd h, of "Some params"] unfolding a by auto
  then have "info_ok (dmHandlers s') params d' d'' info" using al(3) by (simp add: list_all_iff)
  then obtain cfg ip n and q :: Reservation where i: "GetPoolByKey pk (hdPools (dmHandlers s')) = Some cfg" "ParseCIDR (plSubnet cfg) = Some (ip, n)"
    "aiIp info = IPNet_String \<lparr>ipnIP = rsIPAddress q, ipnMask = ipnMask n\<rparr>" "IPNet_Contains n (rsIPAddress q)" "\<not> ssn_blocked (newStore d') pk (rsIPAddress q)"
    unfolding info_ok_def al(4) by (elim exE conjE) (rule that; assumption)
  have "pool_plain (evFuel env) cfg" using h(2) i(1) by blast
  then have n: "wf_net n" using i(2) by (simp add: pool_plain_def)
  have l: "ip_len (rsIPAddress q) \<noteq> 0" using host_masked(2) [OF n i(4)] wf_netD(1) [OF n] by (auto simp: ip_len_def)
  have "\<not> IP_Equal (rsIPAddress q) (rsIPAddress r)" using i(5) blockedI [OF ok(2)] by blast
  then have "\<not> IP_Equal (To16 (NormalizeIP (rsIPAddress q))) (rsIPAddress r)" using IP_Equal_shown [OF l] by blast
  then show ?thesis using ParseCIDR_host [OF n i(4)] i(3) by auto
qed

end
