(* ===== verification/Restart.thy ===== *)
theory Restart
  imports Daemon
begin

text \<open>
  The daemon across restarts.  The file of the store is the only state that survives a process; a write replaces it as a whole
  (\<open>renameio\<close>), so that a process that dies in the middle of a request leaves the file from before or from after it, and a crash is a
  restart between two inputs.  The invariant says how the file and the data in memory correspond; the JSON codec is used only
  where the file is read back.
\<close>

subsection \<open>The file holds the data in memory\<close>

type_synonym marshaller = "Root \<Rightarrow> string option"
type_synonym unmarshaller = "string \<Rightarrow> Root option"

text \<open>Either the data was loaded from the file, or the file was written from it, checksum included.\<close>

definition on_file :: "marshaller \<Rightarrow> unmarshaller \<Rightarrow> store \<Rightarrow> bool" where
  "on_file ms us m \<longleftrightarrow>
     (case stPersistedData m of
        None \<Rightarrow> True
      | Some d \<Rightarrow> loadFromDisk ms us (stFile m) = Some (Inr d) \<or>
          NewChecksum ms d = Some (rtChecksum d) \<and> map_option FileData (ms d) = Some (stFile m))"

lemma on_file_lock [simp]: "on_file ms us (m\<lparr>stLocked := l\<rparr>) = on_file ms us m"
  by (simp add: on_file_def split: option.split)

lemma Open_on_file: "on_file ms us m \<Longrightarrow> Open ms us m = Some (res, m') \<Longrightarrow> on_file ms us m'"
  by (auto simp: on_file_def Open_def split: option.splits sum.splits)

lemma Cancel_on_file: "on_file ms us m \<Longrightarrow> Cancel s m = Some (s', m') \<Longrightarrow> on_file ms us m'"
  by (auto simp: Cancel_def split: if_splits)

lemma NewChecksum_Checksum: "NewChecksum ms (d\<lparr>rtChecksum := c\<rparr>) = NewChecksum ms d"
  by (simp add: NewChecksum_def getChecksum_def checksum_input_Checksum)

lemma Commit_on_file:
  assumes "on_file ms us m" "Commit ms w s m = Some (err, s', m')"
  shows "on_file ms us m'"
proof (cases "\<not> ssIsClosed s \<and> ssIsModified s")
  case False
  then show ?thesis using assms by (auto simp: Commit_def split: if_splits)
next
  case True
  then obtain data f where w: "writeToDisk ms w (ssTmpData s) (stFile m) = Some (err, data, f)"
    "m' = m\<lparr>stFile := f, stLocked := False, stPersistedData := (if err = None then Some data else stPersistedData m)\<rparr>"
    using assms(2) by (auto simp: Commit_def split: option.splits)
  show ?thesis
  proof (cases err)
    case None
    obtain cs out where "NewChecksum ms (ssTmpData s) = Some cs" "data = (ssTmpData s)\<lparr>rtChecksum := cs\<rparr>" "ms data = Some out" "f = FileData out"
      using w(1) unfolding None by (rule writeToDisk_ok)
    then show ?thesis using w(2) None by (simp add: on_file_def NewChecksum_Checksum)
  next
    case (Some e)
    then have "f = stFile m" using w(1) by (auto simp: writeToDisk_def Let_def split: option.splits if_splits)
    then show ?thesis using assms(1) w(2) Some by (simp add: on_file_def split: option.splits)
  qed
qed

text \<open>The requests and the cleaner reach the store only through sessions: whatever opening, committing and cancelling keep, every input of the
  daemon keeps.  The inputs of a daemon use the same codec.\<close>

fun input_codec :: "marshaller \<Rightarrow> unmarshaller \<Rightarrow> daemon_input \<Rightarrow> bool" where
  "input_codec ms us (Notify e) \<longleftrightarrow> True"
| "input_codec ms us (CallAllocate env req) \<longleftrightarrow> evMarshal env = ms \<and> evUnmarshal env = us"
| "input_codec ms us (CallDeallocate env req) \<longleftrightarrow> evMarshal env = ms \<and> evUnmarshal env = us"
| "input_codec ms us (CallIsAllocated env req) \<longleftrightarrow> evMarshal env = ms \<and> evUnmarshal env = us"
| "input_codec ms us (CleanerPass pe) \<longleftrightarrow> evMarshal (peEnv pe) = ms \<and> evUnmarshal (peEnv pe) = us"

locale store_invariant =
  fixes ms :: marshaller and us :: unmarshaller and I :: "store \<Rightarrow> bool"
  assumes open_keeps: "I m \<Longrightarrow> Open ms us m = Some (res, m') \<Longrightarrow> I m'"
    and commit_keeps: "I m \<Longrightarrow> Commit ms w s m = Some (err, s', m') \<Longrightarrow> I m'"
    and cancel_keeps: "I m \<Longrightarrow> Cancel s m = Some (s', m') \<Longrightarrow> I m'"
begin

lemma openStore_keeps:
  "I m \<Longrightarrow> openStore env m = Some (res, m') \<Longrightarrow> evMarshal env = ms \<Longrightarrow> evUnmarshal env = us \<Longrightarrow> I m'"
  by (auto simp: openStore_def split: option.splits sum.splits prod.splits dest: open_keeps)

lemma closeSession_keeps: "I m \<Longrightarrow> closeSession env s e m = Some (err, m') \<Longrightarrow> evMarshal env = ms \<Longrightarrow> I m'"
  by (auto simp: closeSession_def split: option.splits prod.splits dest: cancel_keeps commit_keeps)

lemma Allocate_keeps:
  "I m \<Longrightarrow> Handlers_Allocate env h req m = Some (res, m') \<Longrightarrow> evMarshal env = ms \<Longrightarrow> evUnmarshal env = us \<Longrightarrow> I m'"
  by (auto simp: Handlers_Allocate_def Let_def split: option.splits sum.splits prod.splits intro: openStore_keeps closeSession_keeps)

lemma Deallocate_keeps:
  "I m \<Longrightarrow> Handlers_Deallocate env h req m = Some (res, m') \<Longrightarrow> evMarshal env = ms \<Longrightarrow> evUnmarshal env = us \<Longrightarrow> I m'"
  by (auto simp: Handlers_Deallocate_def Let_def split: option.splits sum.splits prod.splits intro: openStore_keeps closeSession_keeps)

lemma IsAllocated_keeps:
  "I m \<Longrightarrow> Handlers_IsAllocated env req m = Some (res, m') \<Longrightarrow> evMarshal env = ms \<Longrightarrow> evUnmarshal env = us \<Longrightarrow> I m'"
  by (auto simp: Handlers_IsAllocated_def Let_def split: option.splits sum.splits prod.splits intro: openStore_keeps closeSession_keeps)

lemma pass_keeps:
  "I m \<Longrightarrow> cleaner_loop pe c m = Some (err, c', m') \<Longrightarrow> evMarshal (peEnv pe) = ms \<Longrightarrow> evUnmarshal (peEnv pe) = us \<Longrightarrow> I m'"
  by (auto simp: cleaner_loop_def Let_def split: option.splits sum.splits prod.splits intro: open_keeps commit_keeps cancel_keeps)

lemma daemon_do_keeps:
  assumes "I (dmStore s)" "input_codec ms us i" "daemon_do ev nodeName i s = Some (out, s')"
  shows "I (dmStore s')"
proof (cases i)
  case (CleanerPass pe)
  then show ?thesis using assms pass_keeps [of "dmStore s" "pe\<lparr>pePools := dmPools s\<rparr>" "dmCleaner s"] by auto
qed (use assms in \<open>auto dest: Allocate_keeps Deallocate_keeps IsAllocated_keeps\<close>)

end

interpretation saved: store_invariant ms us "on_file ms us" for ms us
  by unfold_locales (erule (1) Open_on_file Commit_on_file Cancel_on_file)+

subsection \<open>Stored addresses\<close>

definition addrs_ok :: "Root \<Rightarrow> bool" where
  "addrs_ok d \<longleftrightarrow> (\<forall>pk k r. ent (newStore d) pk k = Some r \<longrightarrow> length (rsIPAddress r) = 4 \<or> length (rsIPAddress r) = 16)"

lemma contained_length:
  assumes "wf_net n" "IPNet_Contains n x"
  shows "length x = 4 \<or> length x = 16"
proof -
  have "length (NormalizeIP x) = 4 \<or> length (NormalizeIP x) = 16" using host_masked(2) [OF assms] wf_netD(1) [OF assms(1)] by auto
  then show ?thesis using host_masked(3) [OF assms] by (auto simp: To4_def split: if_splits)
qed

lemma addrs_okD: "addrs_ok d \<Longrightarrow> ent (newStore d) pk k = Some r \<Longrightarrow> length (rsIPAddress r) = 4 \<or> length (rsIPAddress r) = 16"
  by (simp add: addrs_ok_def)

lemma addrs_okI: "(\<And>pk k r. ent (newStore d) pk k = Some r \<Longrightarrow> length (rsIPAddress r) = 4 \<or> length (rsIPAddress r) = 16) \<Longrightarrow> addrs_ok d"
  by (simp add: addrs_ok_def)

lemma info_ok_length:
  assumes "info_ok h params d d' info" "\<forall>key cfg. GetPoolByKey key (hdPools h) = Some cfg \<longrightarrow> pool_plain fuel cfg"
    "ent (newStore d') (pkey params (aiPool info)) (rkey params) = Some r"
  shows "length (rsIPAddress r) = 4 \<or> length (rsIPAddress r) = 16"
proof -
  obtain cfg ip n and q :: Reservation where i: "GetPoolByKey (pkey params (aiPool info)) (hdPools h) = Some cfg" "ParseCIDR (plSubnet cfg) = Some (ip, n)"
    "GetReservationByID (pkey params (aiPool info)) (pmCniContainerid params) (pmCniIfname params) (newStore d') = Some (Some q)"
    "IPNet_Contains n (rsIPAddress q)"
    using assms(1) unfolding info_ok_def by (elim exE conjE) (rule that; assumption)
  have "pool_plain fuel cfg" using assms(2) i(1) by blast
  then have "wf_net n" using i(2) by (simp add: pool_plain_def)
  moreover have "q = r" using i(3) assms(3) by (auto simp: GetReservationByID_def ssn_entries_def split: option.splits if_splits)
  ultimately show ?thesis using contained_length i(4) by blast
qed

lemma Allocate_addrs:
  assumes rd: "store_ready m d" "addrs_ok d" and i: "\<forall>r. evMarshal env r \<noteq> None"
    "\<forall>key cfg. GetPoolByKey key (hdPools h) = Some cfg \<longrightarrow> pool_plain (evFuel env) cfg"
    and a: "Handlers_Allocate env h req m = Some (res, m')" "stPersistedData m' = Some d'"
  shows "addrs_ok d'"
proof (cases res)
  case (Inl e)
  then have "m' = m" using Handlers_Allocate_law [OF rd(1) i, of req] a(1) by auto
  then show ?thesis using a(2) rd store_readyD(4) [OF rd(1)] by simp
next
  case (Inr infos)
  obtain params d'' where p: "store_ready m' d''" "map aiPool infos = pmPools params" "list_all (info_ok h params d d'') infos"
    "ssn_extends (rkey params) (pkey params ` set (pmPools params)) (newStore d) (newStore d'')"
    using Handlers_Allocate_law [OF rd(1) i, of req] a(1) Inr by auto
  have d': "d'' = d'" using store_readyD(4) [OF p(1)] a(2) by simp
  show ?thesis
  proof (rule addrs_okI)
    fix pk k r
    assume r: "ent (newStore d') pk k = Some r"
    show "length (rsIPAddress r) = 4 \<or> length (rsIPAddress r) = 16"
    proof (cases "k = rkey params \<and> pk \<in> pkey params ` set (pmPools params)")
      case True
      then have "k = rkey params" "pk \<in> pkey params ` aiPool ` set infos" using p(2) by (metis list.set_map)+
      then obtain info where "info \<in> set infos" "pk = pkey params (aiPool info)" "k = rkey params" by blast
      then show ?thesis using info_ok_length [OF _ i(2), of params d d' info r] p(3) r d' by (simp add: list_all_iff)
    next
      case False
      then have "ent (newStore d) pk k = Some r" using p(4) r d' by (simp add: ssn_extends_def)
      then show ?thesis by (rule addrs_okD [OF rd(2)])
    qed
  qed
qed

lemma addrs_ok_shrinks:
  assumes "addrs_ok d" "\<And>pk k r. ent (newStore d') pk k = Some r \<Longrightarrow> \<exists>q. ent (newStore d) pk k = Some q \<and> rsIPAddress r = rsIPAddress q"
  shows "addrs_ok d'"
  using assms(2) addrs_okD [OF assms(1)] by (metis addrs_okI)

lemma release_address: "release_entry now cooldown x = Some r \<Longrightarrow> \<exists>q. x = Some q \<and> rsIPAddress r = rsIPAddress q"
  by (auto simp: release_entry_def split: option.splits release_outcome.splits)

lemma pass_address: "pass_entry c pe old q = Some r \<Longrightarrow> rsIPAddress r = rsIPAddress q"
  by (auto simp: pass_entry_def split: option.splits if_splits dest: release_address)

lemma Deallocate_addrs:
  assumes rd: "store_ready m d" "addrs_ok d" and ms: "\<And>r. evMarshal env r \<noteq> None"
    and a: "Handlers_Deallocate env h req m = Some (err, m')" "stPersistedData m' = Some d'"
  shows "addrs_ok d'"
proof (cases "err = None \<and> validateReq req = None")
  case False
  have "m' = m"
  proof (cases "validateReq req")
    case None
    then obtain params where "req = Some params" using validateReq_None by blast
    then show ?thesis using Handlers_Deallocate_law [OF rd(1) ms, of params h] None False a(1) by auto
  qed (use a(1) in \<open>simp add: Handlers_Deallocate_def\<close>)
  then show ?thesis using a(2) rd store_readyD(4) [OF rd(1)] by simp
next
  case True
  then obtain params where req: "req = Some params" using validateReq_None by blast
  obtain d'' where p: "store_ready m' d''" "\<And>pk k. ent (newStore d'') pk k =
       (if pk \<in> pkey params ` set (pmPools params) \<and> k = rkey params then release_entry (evNow env) (hdReleaseCooldown h) (ent (newStore d) pk k)
        else ent (newStore d) pk k)"
    using Handlers_Deallocate_law [OF rd(1) ms, of params h] True a(1) req by auto
  have d': "d'' = d'" using store_readyD(4) [OF p(1)] a(2) by simp
  show ?thesis by (rule addrs_ok_shrinks [OF rd(2)]) (use p(2) d' in \<open>auto split: if_splits dest: release_address\<close>)
qed

lemma pass_addrs:
  assumes rd: "cleaner_ready c m d" "addrs_ok d" and ms: "\<And>r. evMarshal (peEnv pe) r \<noteq> None"
    and a: "cleaner_loop pe c m = Some (err, c', m')" "stPersistedData m' = Some d'"
  shows "addrs_ok d'"
proof -
  obtain err1 c1 m1 d1 where p: "cleaner_loop pe c m = Some (err1, c1, m1)" "cleaner_ready c1 m1 d1"
    "err1 \<noteq> None \<longrightarrow> m1 = m \<and> d1 = d" "err1 = None \<longrightarrow> pass_done c pe (cnStaleAllocations c) (newStore d) (cnStaleAllocations c1) (newStore d1)"
    using cleaner_pass [OF rd(1) ms] by (elim exE conjE) (rule that; assumption)
  have "d1 = d'" using p(1,2) a store_readyD(4) by (auto simp: cleaner_ready_def)
  then show ?thesis
  proof (cases "err1 = None")
    case True
    show ?thesis by (rule addrs_ok_shrinks [OF rd(2)])
        (use p(4) True \<open>d1 = d'\<close> in \<open>auto simp: pass_done_def split: option.splits dest: pass_address\<close>)
  qed (use p(3) rd(2) in simp)
qed

lemma daemon_do_addrs:
  assumes ok: "daemon_ok s d" "addrs_ok d" and i: "input_ok i s" "daemon_do ev nodeName i s = Some (out, s')" and d': "stPersistedData (dmStore s') = Some d'"
  shows "addrs_ok d'"
proof -
  have rd: "store_ready (dmStore s) d" "cleaner_ready (dmCleaner s) (dmStore s) d" using ok(1) by (simp_all add: daemon_ok_def cleaner_ready_def)
  show ?thesis
  proof (cases i)
    case (Notify e)
    then show ?thesis using i(2) d' ok(2) store_readyD(4) [OF rd(1)] by auto
  next
    case (CallAllocate env req)
    then show ?thesis using i d' Allocate_addrs [OF rd(1) ok(2), of env "dmHandlers s" req] by auto
  next
    case (CallDeallocate env req)
    then show ?thesis using i d' Deallocate_addrs [OF rd(1) ok(2), of env "dmHandlers s" req] by auto
  next
    case (CallIsAllocated env req)
    then show ?thesis using i(2) d' ok(2) store_readyD(4) [OF rd(1)] Handlers_IsAllocated_store [OF rd(1), of env req] by auto
  next
    case (CleanerPass pe)
    then show ?thesis using i d' pass_addrs [OF rd(2) ok(2), of "pe\<lparr>pePools := dmPools s\<rparr>"] by auto
  qed
qed

subsection \<open>Reading the file back\<close>

lemma json_norm_entry_simps [simp]:
  "rsContainerID (json_norm_entry r) = rsContainerID r" "rsInterfaceName (json_norm_entry r) = rsInterfaceName r"
  "rsMetadata (json_norm_entry r) = rsMetadata r" "rsReleasedAt (json_norm_entry r) = rsReleasedAt r"
  "rsIPAddress (json_norm_entry r) = To16 (rsIPAddress r)" "json_norm_entry (json_norm_entry r) = json_norm_entry r"
  by (simp_all add: json_norm_entry_def)

lemma IP_Equal_stored: "length y = 4 \<or> length y = 16 \<Longrightarrow> IP_Equal x (To16 y) = IP_Equal x y"
proof -
  have "take 12 x = v4InV6Prefix \<and> drop 12 x = y \<longleftrightarrow> x = v4InV6Prefix @ y" by (metis length_v4InV6Prefix append_take_drop_id append_eq_conv_conj)
  moreover assume "length y = 4 \<or> length y = 16"
  ultimately show ?thesis by (auto simp: IP_Equal_def To16_def)
qed

lemma pool_entries_norm: "pool_entries (json_norm_pool p) = map (\<lambda>(k, r). (k, json_norm_entry r)) (pool_entries p)"
  by (simp add: json_norm_pool_def split: option.split)

lemma ssn_entries_norm: "ssn_entries (newStore (json_norm d)) pk = map (\<lambda>(k, r). (k, json_norm_entry r)) (ssn_entries (newStore d) pk)"
  by (auto simp: ssn_entries_def newStore_def getPoolData_def root_pool_def json_norm_def map_of_map pool_entries_norm NewPoolReservations_def
      json_norm_pool_def split: option.splits)

lemma ent_norm: "ent (newStore (json_norm d)) pk k = map_option json_norm_entry (ent (newStore d) pk k)"
  by (simp add: ssn_entries_norm map_of_map)

lemma entries_ok_norm:
  assumes "entries_ok es" "\<forall>(k, r) \<in> set es. length (rsIPAddress r) = 4 \<or> length (rsIPAddress r) = 16"
  shows "entries_ok (map (\<lambda>(k, r). (k, json_norm_entry r)) es)"
proof -
  have "IP_Equal (To16 a) (To16 b) = IP_Equal a b" if "length a = 4 \<or> length a = 16" "length b = 4 \<or> length b = 16" for a b
    using IP_Equal_stored [OF that(2), of "To16 a"] IP_Equal_stored [OF that(1), of b] IP_Equal_sym by blast
  then show ?thesis using assms by (simp add: entries_ok_def comp_def case_prod_unfold) metis
qed

lemma root_ok_norm:
  assumes "root_ok d" "addrs_ok d"
  shows "root_ok (json_norm d)"
proof -
  obtain ps where ps: "rtPools d = Some ps" "distinct (map fst ps)" "\<forall>(k, p) \<in> set ps. entries_ok (pool_entries p)"
    using assms(1) by (auto simp: root_ok_def split: option.splits)
  have e: "entries_ok (pool_entries (json_norm_pool p))" if kp: "(k, p) \<in> set ps" for k p
  proof -
    have d: "entries_ok (pool_entries p)" using ps(3) kp by blast
    have di: "distinct (map fst (pool_entries p))" using d by (simp add: entries_ok_def)
    have "ssn_entries (newStore d) k = pool_entries p"
      using kp ps(1,2) by (auto simp: ssn_entries_def newStore_def getPoolData_def root_pool_def split: option.splits)
    then have "length (rsIPAddress r) = 4 \<or> length (rsIPAddress r) = 16" if "(k', r) \<in> set (pool_entries p)" for k' r
      using addrs_okD [OF assms(2), of k k' r] map_of_is_SomeI [OF di that] by simp
    then show ?thesis unfolding pool_entries_norm by (intro entries_ok_norm d) auto
  qed
  have "map fst (map (\<lambda>(k, p). (k, json_norm_pool p)) ps) = map fst ps" by (simp add: comp_def case_prod_unfold)
  then show ?thesis using ps(1,2) e by (auto simp: root_ok_def json_norm_def simp del: map_map)
qed

lemma norm_ok:
  assumes "addrs_ok d" "bars_free (newStore d)"
  shows "addrs_ok (json_norm d)" "bars_free (newStore (json_norm d))"
proof (rule addrs_okI)
  fix pk k r
  assume "ent (newStore (json_norm d)) pk k = Some r"
  then obtain q where "ent (newStore d) pk k = Some q" "rsIPAddress r = To16 (rsIPAddress q)" by (auto simp: ent_norm)
  then show "length (rsIPAddress r) = 4 \<or> length (rsIPAddress r) = 16" using addrs_okD [OF assms(1)] by (auto simp: To16_def)
qed (use assms(2) in \<open>auto simp: bars_free_def ent_norm\<close>)

text \<open>What the codec is relied on for: it reads back the document it wrote for these data, with addresses in 16-byte form, and writes the
  same text for both forms of an address (the checksum is computed on the text).  The checksum must not be zero, which the loader
  takes for a missing one.\<close>

definition readable :: "marshaller \<Rightarrow> unmarshaller \<Rightarrow> Root \<Rightarrow> bool" where
  "readable ms us d \<longleftrightarrow> (case ms d of None \<Rightarrow> True | Some data \<Rightarrow> data \<noteq> [] \<and> us data = Some (json_norm d)) \<and>
     ms (json_norm (checksum_input d)) = ms (checksum_input d)"

definition restart_ok :: "marshaller \<Rightarrow> unmarshaller \<Rightarrow> store \<Rightarrow> bool" where
  "restart_ok ms us m \<longleftrightarrow>
     (case stPersistedData m of
        None \<Rightarrow> True
      | Some d \<Rightarrow> readable ms us d \<and> (rtChecksum d = 0 \<longrightarrow> stFile m = FileNotExist \<or> stFile m = FileData []))"

lemma file_loads:
  assumes "on_file ms us m" "restart_ok ms us m" "stPersistedData m = Some d" "root_ok d"
  shows "\<exists>d' \<in> {d, json_norm d}. loadFromDisk ms us (stFile m) = Some (Inr d')"
proof (cases "loadFromDisk ms us (stFile m) = Some (Inr d)")
  case False
  then obtain data where w: "NewChecksum ms d = Some (rtChecksum d)" "ms d = Some data" "stFile m = FileData data"
    using assms(1,3) by (auto simp: on_file_def)
  have r: "data \<noteq> []" "us data = Some (json_norm d)" "ms (json_norm (checksum_input d)) = ms (checksum_input d)" "rtChecksum d \<noteq> 0"
    using assms(2,3) w(2,3) by (auto simp: restart_ok_def readable_def)
  have "NewChecksum ms (json_norm d) = Some (rtChecksum d)"
    using w(1) r(3) by (simp add: NewChecksum_def getChecksum_def checksum_input_json_norm)
  moreover have "rtPools (json_norm d) \<noteq> None" using assms(4) by (auto simp: root_ok_def json_norm_def split: option.splits)
  ultimately show ?thesis using r w(3) by (simp add: loadFromDisk_def Checksum_Verify_def)
qed blast

subsection \<open>Lives of the daemon\<close>

datatype life_event = Work daemon_input | Restarted int int

inductive daemon_life :: "marshaller \<Rightarrow> unmarshaller \<Rightarrow> ext_validation \<Rightarrow> string \<Rightarrow> daemon \<Rightarrow> life_event list \<Rightarrow> daemon \<Rightarrow> bool"
  for ms :: marshaller and us :: unmarshaller and ev :: ext_validation and nodeName :: string where
  life_nil: "daemon_life ms us ev nodeName s [] s"
| life_work: "input_ok i s \<Longrightarrow> input_codec ms us i \<Longrightarrow> daemon_do ev nodeName i s = Some (out, s1) \<Longrightarrow> daemon_life ms us ev nodeName s1 es s2 \<Longrightarrow>
    daemon_life ms us ev nodeName s (Work i # es) s2"
| life_restart: "restart_ok ms us (dmStore s) \<Longrightarrow> evMarshal env = ms \<Longrightarrow> evUnmarshal env = us \<Longrightarrow>
    daemon_start env (stFile (dmStore s)) checkCount cooldown = Some (Inr s1) \<Longrightarrow> daemon_life ms us ev nodeName s1 es s2 \<Longrightarrow>
    daemon_life ms us ev nodeName s (Restarted checkCount cooldown # es) s2"

definition life_ok :: "marshaller \<Rightarrow> unmarshaller \<Rightarrow> daemon \<Rightarrow> Root \<Rightarrow> bool" where
  "life_ok ms us s d \<longleftrightarrow> daemon_ok s d \<and> on_file ms us (dmStore s) \<and> addrs_ok d"

lemma daemon_ok_persisted: "daemon_ok s d \<Longrightarrow> stPersistedData (dmStore s) = Some d \<and> root_ok d \<and> bars_free (newStore d)"
  by (simp add: daemon_ok_def cleaner_ready_def store_ready_def)

lemma daemon_start_loaded:
  assumes "loadFromDisk (evMarshal env) (evUnmarshal env) f = Some (Inr d)"
  obtains s where "daemon_start env f checkCount cooldown = Some (Inr s)" "stFile (dmStore s) = f" "stPersistedData (dmStore s) = Some d" "dmCooldown s = cooldown"
  using assms by (auto simp: daemon_start_def Open_def Cancel_def newStore_def)

text \<open>A restart succeeds and finds the reservations of the process before it.\<close>

lemma restart_law:
  assumes ok: "life_ok ms us s d" and r: "restart_ok ms us (dmStore s)" "evMarshal env = ms" "evUnmarshal env = us"
  shows "\<exists>s' d'. daemon_start env (stFile (dmStore s)) checkCount cooldown = Some (Inr s') \<and> life_ok ms us s' d' \<and> dmCooldown s' = cooldown \<and> d' \<in> {d, json_norm d}"
proof -
  have d: "stPersistedData (dmStore s) = Some d" "root_ok d" "bars_free (newStore d)" "on_file ms us (dmStore s)" "addrs_ok d"
    using ok daemon_ok_persisted by (auto simp: life_ok_def)
  obtain d' where l: "d' \<in> {d, json_norm d}" "loadFromDisk ms us (stFile (dmStore s)) = Some (Inr d')" using file_loads [OF d(4) r(1) d(1,2)] by blast
  have ld: "loadFromDisk (evMarshal env) (evUnmarshal env) (stFile (dmStore s)) = Some (Inr d')" using l(2) r(2,3) by simp
  obtain s' where s': "daemon_start env (stFile (dmStore s)) checkCount cooldown = Some (Inr s')" "stFile (dmStore s') = stFile (dmStore s)"
    "stPersistedData (dmStore s') = Some d'" "dmCooldown s' = cooldown"
    by (rule daemon_start_loaded [OF ld])
  have "root_ok d'" "bars_free (newStore d')" "addrs_ok d'" using l(1) d root_ok_norm norm_ok by auto
  then have "life_ok ms us s' d'" using daemon_start_ok [OF s'(1) ld] s'(2,3) l(2) by (simp add: life_ok_def on_file_def)
  then show ?thesis using s'(1,4) l(1) by blast
qed

lemma work_law:
  assumes ok: "life_ok ms us s d" and i: "input_ok i s" "input_codec ms us i" "daemon_do ev nodeName i s = Some (out, s1)"
  shows "\<exists>d1. life_ok ms us s1 d1 \<and> dmCooldown s1 = dmCooldown s \<and> kept i (dmCooldown s) d d1"
proof -
  have k: "daemon_ok s d" "on_file ms us (dmStore s)" "addrs_ok d" using ok by (simp_all add: life_ok_def)
  obtain d1 where d1: "daemon_ok s1 d1" "dmCooldown s1 = dmCooldown s" "kept i (dmCooldown s) d d1"
    using daemon_do_ok [OF k(1) i(1), of ev nodeName] i(3) by auto
  have "addrs_ok d1" using daemon_do_addrs [OF k(1,3) i(1,3)] daemon_ok_persisted [OF d1(1)] by blast
  then show ?thesis using d1 saved.daemon_do_keeps [OF k(2) i(2,3)] by (auto simp: life_ok_def)
qed

text \<open>A reservation that none of the events ends; after a restart the new cooldown counts.\<close>

fun spared :: "int \<Rightarrow> string \<Rightarrow> string \<Rightarrow> Reservation \<Rightarrow> life_event list \<Rightarrow> bool" where
  "spared cooldown pk k r [] \<longleftrightarrow> True"
| "spared cooldown pk k r (Work i # es) \<longleftrightarrow> harmless cooldown pk k r i \<and> spared cooldown pk k r es"
| "spared cooldown pk k r (Restarted checkCount cooldown' # es) \<longleftrightarrow> spared cooldown' pk k r es"

lemma harmless_norm [simp]: "harmless cooldown pk k (json_norm_entry r) i = harmless cooldown pk k r i"
proof (cases i)
  case (CleanerPass pe)
  have "checkPod c (json_norm_entry r) = checkPod c r" for c by (simp add: checkPod_def)
  then show ?thesis using CleanerPass by (simp add: IsReleased_def watched_def find_pod_def cong: sum.case_cong bool.case_cong)
qed (simp_all add: IsReleased_def split: option.split)

lemma spared_norm [simp]: "spared cooldown pk k (json_norm_entry r) es = spared cooldown pk k r es"
  by (induction cooldown pk k r es rule: spared.induct) simp_all

lemma life_law:
  assumes "daemon_life ms us ev nodeName s es s'" "life_ok ms us s d"
  shows "\<exists>d'. life_ok ms us s' d' \<and>
    (\<forall>pk k r. ent (newStore d) pk k = Some r \<longrightarrow> spared (dmCooldown s) pk k r es \<longrightarrow> (\<exists>r' \<in> {r, json_norm_entry r}. ent (newStore d') pk k = Some r'))"
  using assms
proof (induction arbitrary: d rule: daemon_life.induct)
  case (life_nil s)
  then show ?case by blast
next
  case (life_work i s out s1 es s2)
  obtain d1 where d1: "life_ok ms us s1 d1" "dmCooldown s1 = dmCooldown s" "kept i (dmCooldown s) d d1"
    using work_law [OF life_work.prems life_work.hyps(1-3)] by blast
  then show ?case using life_work.IH [OF d1(1)] by (simp add: kept_def) metis
next
  case (life_restart s env checkCount cooldown s1 es s2)
  obtain d1 where d1: "life_ok ms us s1 d1" "dmCooldown s1 = cooldown" "d1 \<in> {d, json_norm d}"
    using restart_law [OF life_restart.prems life_restart.hyps(1-3), of checkCount cooldown] life_restart.hyps(4) by auto
  obtain d2 where d2: "life_ok ms us s2 d2"
    "\<And>pk k r. ent (newStore d1) pk k = Some r \<Longrightarrow> spared cooldown pk k r es \<Longrightarrow> \<exists>r' \<in> {r, json_norm_entry r}. ent (newStore d2) pk k = Some r'"
    using life_restart.IH [OF d1(1)] d1(2) by blast
  have "\<exists>r' \<in> {r, json_norm_entry r}. ent (newStore d2) pk k = Some r'" if r: "ent (newStore d) pk k = Some r" "spared cooldown pk k r es" for pk k r
  proof -
    have "ent (newStore d1) pk k = Some r \<or> ent (newStore d1) pk k = Some (json_norm_entry r)" using d1(3) r(1) by (auto simp: ent_norm)
    then show ?thesis using d2(2) [of pk k r] d2(2) [of pk k "json_norm_entry r"] r(2) by auto
  qed
  then show ?case using d2(1) by auto
qed

subsection \<open>Properties\<close>

lemma fresh_life_ok:
  assumes "f = FileNotExist \<or> f = FileData []" "daemon_start env f checkCount cooldown = Some (Inr s)"
  shows "life_ok (evMarshal env) (evUnmarshal env) s NewRoot"
proof -
  have ld: "loadFromDisk (evMarshal env) (evUnmarshal env) f = Some (Inr NewRoot)" using assms(1) by (auto simp: loadFromDisk_def NewRoot_def)
  obtain s' where s': "daemon_start env f checkCount cooldown = Some (Inr s')" "stFile (dmStore s') = f" "stPersistedData (dmStore s') = Some NewRoot"
    by (rule daemon_start_loaded [OF ld])
  have e: "ssn_entries (newStore NewRoot) pk = []" for pk
    by (simp add: ssn_entries_def newStore_def getPoolData_def root_pool_def NewRoot_def NewPoolReservations_def)
  then show ?thesis using daemon_start_ok [OF s'(1) ld NewRoot_ok] s' assms(2) ld
    by (simp add: life_ok_def on_file_def addrs_ok_def bars_free_def)
qed

text \<open>C3: A held address is not handed out again, across restarts.  As long as nothing ends a reservation (its release, its Pod missing
  in a pass of the cleaner, or the end of the cooldown after its release), whatever else the daemon is asked in whatever order
  and however often it is restarted from its file, no request gets its address in the same pool, even if the configuration
  of the pool changes in between.\<close>

theorem held_address_not_reissued_after_restarts:
  assumes "life_ok ms us s d" "ent (newStore d) pk k = Some r"
    and life: "daemon_life ms us ev nodeName s es s'" "spared (dmCooldown s) pk k r es"
    and al: "input_ok (CallAllocate env (Some params)) s'" "daemon_do ev nodeName (CallAllocate env (Some params)) s' = Some (Allocated (Inr infos), s'')"
      "info \<in> set infos" "pkey params (aiPool info) = pk"
  shows "\<exists>a n. ParseCIDR (aiIp info) = Some (a, n) \<and> \<not> IP_Equal a (rsIPAddress r)"
proof -
  obtain d' r' where d': "life_ok ms us s' d'" "r' \<in> {r, json_norm_entry r}" "ent (newStore d') pk k = Some r'"
    using life_law [OF life(1) assms(1)] assms(2) life(2) by blast
  have "daemon_ok s' d'" using d'(1) by (simp add: life_ok_def)
  then obtain a n where "ParseCIDR (aiIp info) = Some (a, n)" "\<not> IP_Equal a (rsIPAddress r')" using not_reissued [OF _ d'(3) al] by blast
  moreover have "length (rsIPAddress r) = 4 \<or> length (rsIPAddress r) = 16" using addrs_okD assms(1,2) by (auto simp: life_ok_def)
  then have "IP_Equal a (rsIPAddress r') = IP_Equal a (rsIPAddress r)" using d'(2) IP_Equal_stored by auto
  ultimately show ?thesis by blast
qed

text \<open>C4: The daemon stays in order whatever arrives and whenever it is restarted.  From a first start without a store file, in every
  state that requests, notifications, passes of the cleaner and restarts lead to, in any order and with any failures of file
  writes, clients and cancellations, the store is unlocked and well formed, no two reservations of a pool hold the same
  address, the next input is handled without a panic, and another process that starts from the file succeeds and finds every
  reservation, with its address possibly in 16-byte form.\<close>

theorem daemon_life_stays_ok:
  assumes "daemon_start env FileNotExist checkCount cooldown = Some (Inr s)" "daemon_life (evMarshal env) (evUnmarshal env) ev nodeName s es s'"
  shows "\<exists>d'. daemon_ok s' d' \<and>
    (\<forall>pk k k' r r'. ent (newStore d') pk k = Some r \<and> ent (newStore d') pk k' = Some r' \<and> IP_Equal (rsIPAddress r) (rsIPAddress r') \<longrightarrow> k = k') \<and>
    (\<forall>i. input_ok i s' \<longrightarrow> daemon_do ev nodeName i s' \<noteq> None) \<and>
    (restart_ok (evMarshal env) (evUnmarshal env) (dmStore s') \<longrightarrow>
       (\<exists>s'' d''. daemon_start env (stFile (dmStore s')) checkCount' cooldown' = Some (Inr s'') \<and> daemon_ok s'' d'' \<and>
          (\<forall>pk k. ent (newStore d'') pk k \<in> {ent (newStore d') pk k, map_option json_norm_entry (ent (newStore d') pk k)})))"
proof -
  have "life_ok (evMarshal env) (evUnmarshal env) s NewRoot" using fresh_life_ok assms(1) by blast
  then obtain d' where l: "life_ok (evMarshal env) (evUnmarshal env) s' d'" using life_law [OF assms(2)] by blast
  then have d': "daemon_ok s' d'" by (simp add: life_ok_def)
  have so: "session_ok (newStore d')" using d' store_readyD(2) by (auto simp: daemon_ok_def cleaner_ready_def)
  have "daemon_do ev nodeName i s' \<noteq> None" if i: "input_ok i s'" for i using daemon_do_ok [OF d' i, of ev nodeName] by auto
  moreover have "\<exists>s'' d''. daemon_start env (stFile (dmStore s')) checkCount' cooldown' = Some (Inr s'') \<and> daemon_ok s'' d'' \<and>
      (\<forall>pk k. ent (newStore d'') pk k \<in> {ent (newStore d') pk k, map_option json_norm_entry (ent (newStore d') pk k)})"
    if ro: "restart_ok (evMarshal env) (evUnmarshal env) (dmStore s')"
  proof -
    obtain s'' d'' where r: "daemon_start env (stFile (dmStore s')) checkCount' cooldown' = Some (Inr s'')" "daemon_ok s'' d''" "d'' \<in> {d', json_norm d'}"
      using restart_law [OF l ro refl refl, of checkCount' cooldown'] by (auto simp: life_ok_def)
    have "ent (newStore d'') pk k \<in> {ent (newStore d') pk k, map_option json_norm_entry (ent (newStore d') pk k)}" for pk k
      using r(3) ent_norm by auto
    then show ?thesis using r(1,2) by blast
  qed
  ultimately show ?thesis using d' ent_unique [OF so] by blast
qed

subsection \<open>An example\<close>

text \<open>A container gets an address, the daemon is restarted, reads its configuration again, and another container asks for one.\<close>

definition ex_cr :: IPPool where
  "ex_cr = \<lparr>ipName = ''p'', ipNamespace = ''ns'',
     ipSpec = \<lparr>ipSubnet = ''10.0.0.0/29'', ipPerNodeBlockSize = 6, ipExclusions = [], ipPerNodeExclusions = [], ipGateway = ''10.0.0.1'', ipNodeSelector = None,
       ipDefaultGateway = False, ipRoutes = []\<rparr>,
     ipStatus = \<lparr>ipAllocations = [\<lparr>alNodeName = ''n'', alStartIP = ''10.0.0.1'', alEndIP = ''10.0.0.6''\<rparr>]\<rparr>\<rparr>"

definition ex_cr_pool :: Pool where
  "ex_cr_pool = \<lparr>plName = ''p'', plSubnet = ''10.0.0.0/29'', plStartIP = ''10.0.0.1'', plEndIP = ''10.0.0.6'', plGateway = ''10.0.0.1'',
     plExclusions = [], plRoutes = [], plDefaultGateway = False\<rparr>"

definition ex_saved :: Root where
  "ex_saved = \<lparr>rtVersion = 1, rtChecksum = fnv32a ''{p}'', rtPools = Some [(''p'', \<lparr>prName = ''p'',
     prEntries = Some [(''c1_net0'', \<lparr>rsContainerID = ''c1'', rsInterfaceName = ''net0'', rsIPAddress = [10, 0, 0, 2],
       rsMetadata = \<lparr>rmCreateTime = ''t'', rmPodUUID = ''u'', rmPodName = ''pod'', rmPodNamespace = ''ns'', rmDeviceID = [], rmPoolConfigSnapshot = ''{}''\<rparr>, rsReleasedAt = 0\<rparr>)],
     prLastPoolConfig = ''{}'', prLastReservedIP = [10, 0, 0, 2]\<rparr>)]\<rparr>"

definition ex_disk :: env where
  "ex_disk = ex_env\<lparr>evUnmarshal := (\<lambda>data. if data = ''{p}'' then Some (json_norm ex_saved) else None)\<rparr>"

abbreviation ex_notify :: daemon_input where
  "ex_notify \<equiv> Notify (IPPoolEvent (Got ex_cr) (''ns'', ''p''))"

definition ex_step_to :: "daemon_input \<Rightarrow> daemon \<Rightarrow> daemon" where
  "ex_step_to i s = snd (the (daemon_do demo_ev ''n'' i s))"

definition ex_life0 :: daemon where "ex_life0 = projr (the (daemon_start ex_disk FileNotExist 3 60))"
definition ex_life1 :: daemon where "ex_life1 = ex_step_to ex_notify ex_life0"
definition ex_life2 :: daemon where "ex_life2 = ex_step_to (CallAllocate ex_disk (Some ex_params)) ex_life1"

definition ex_life3 :: daemon where "ex_life3 = projr (the (daemon_start ex_disk (stFile (dmStore ex_life2)) 3 60))"
definition ex_life4 :: daemon where "ex_life4 = ex_step_to ex_notify ex_life3"

definition ex_answer :: "daemon_outcome \<Rightarrow> string list" where
  "ex_answer out = (case out of Allocated (Inr infos) \<Rightarrow> map aiIp infos | _ \<Rightarrow> [])"

lemma ex_answered: "ex_answer out = [ip] \<Longrightarrow> \<exists>infos. out = Allocated (Inr infos) \<and> map aiIp infos = [ip]"
  by (auto simp: ex_answer_def split: daemon_outcome.splits sum.splits)

abbreviation ex_next :: daemon_input where
  "ex_next \<equiv> CallAllocate ex_disk (Some (ex_params\<lparr>pmCniContainerid := ''c2''\<rparr>))"

lemma ex_life_data: "stPersistedData (dmStore ex_life2) = Some ex_saved" "stFile (dmStore ex_life2) = FileData ''{p}''"
  by code_simp+

lemma ex_saved_entry: "ent (newStore ex_saved) ''p'' ''c1_net0'' \<noteq> None" "rsIPAddress (the (ent (newStore ex_saved) ''p'' ''c1_net0'')) = [10, 0, 0, 2]"
  by code_simp+

lemma ex_saved_readable: "restart_ok (evMarshal ex_disk) (evUnmarshal ex_disk) (dmStore ex_life2)"
proof -
  have "readable (evMarshal ex_disk) (evUnmarshal ex_disk) ex_saved" "rtChecksum ex_saved \<noteq> 0" by code_simp+
  then show ?thesis by (simp add: restart_ok_def ex_life_data)
qed

lemma ex_next_answer: "map_option (ex_answer \<circ> fst) (daemon_do demo_ev ''n'' ex_next ex_life4) = Some [''10.0.0.3/29'']"
  by code_simp

lemma ex_disk_total: "\<forall>r. evMarshal ex_disk r \<noteq> None"
  using ex_marshal_total by (simp add: ex_disk_def)

lemma ex_notify_pools: "dmPools (ex_step_to ex_notify s) = (dmPools s)(''p'' \<mapsto> ex_cr_pool)"
proof -
  have "ippool_wanted ''n'' (Got ex_cr) = Some ex_cr_pool" by code_simp
  then show ?thesis
    by (simp add: ex_step_to_def NodeIPPool_Reconcile_conv read_failed_def node_config.put_def Manager_UpdatePool_def GetPoolKey_def PoolTypeIPPool_def)
qed

lemma ex_start_pools: "daemon_start env f c t = Some (Inr s) \<Longrightarrow> dmPools s = NewManager"
  by (auto simp: daemon_start_def split: option.splits sum.splits prod.splits)

lemma ex_allocate_ok:
  assumes "dmPools s = [''p'' \<mapsto> ex_cr_pool]" "c \<in> {''c1'', ''c2''}"
  shows "input_ok (CallAllocate ex_disk (Some (ex_params\<lparr>pmCniContainerid := c\<rparr>))) s"
proof -
  have "pool_plain 20 ex_cr_pool" by code_simp
  then show ?thesis using assms ex_disk_total by (auto simp: request_bars_def ex_params_def bar_free_def GetPoolByKey_def ex_disk_def ex_env_def split: if_splits)
qed

lemma ex_worked: "daemon_ok s d \<Longrightarrow> input_ok i s \<Longrightarrow> \<exists>out. daemon_do demo_ev ''n'' i s = Some (out, ex_step_to i s)"
  using daemon_do_ok [of s d i demo_ev "''n''"] by (auto simp: ex_step_to_def)

lemma ex_first_life:
  "daemon_start ex_disk FileNotExist 3 60 = Some (Inr ex_life0)"
  "daemon_life (evMarshal ex_disk) (evUnmarshal ex_disk) demo_ev ''n'' ex_life0 [Work ex_notify, Work (CallAllocate ex_disk (Some ex_params))] ex_life2"
proof -
  have "loadFromDisk (evMarshal ex_disk) (evUnmarshal ex_disk) FileNotExist = Some (Inr NewRoot)" by (simp add: loadFromDisk_def NewRoot_def)
  then obtain s where s: "daemon_start ex_disk FileNotExist 3 60 = Some (Inr s)" by (rule daemon_start_loaded)
  then show st: "daemon_start ex_disk FileNotExist 3 60 = Some (Inr ex_life0)" by (simp add: ex_life0_def)
  have l0: "life_ok (evMarshal ex_disk) (evUnmarshal ex_disk) ex_life0 NewRoot" using fresh_life_ok st by blast
  have p: "dmPools ex_life1 = [''p'' \<mapsto> ex_cr_pool]" using ex_start_pools [OF st] by (simp add: ex_life1_def ex_notify_pools NewManager_def)
  obtain o1 where w1: "daemon_do demo_ev ''n'' ex_notify ex_life0 = Some (o1, ex_life1)"
    using ex_worked [of ex_life0 NewRoot ex_notify] l0 by (auto simp: life_ok_def ex_life1_def simp del: daemon_do.simps)
  obtain d1 where d1: "life_ok (evMarshal ex_disk) (evUnmarshal ex_disk) ex_life1 d1" using work_law [OF l0 _ _ w1] by auto
  have i: "input_ok (CallAllocate ex_disk (Some ex_params)) ex_life1" using ex_allocate_ok [OF p, of "''c1''"] by (simp add: ex_params_def)
  obtain o2 where w2: "daemon_do demo_ev ''n'' (CallAllocate ex_disk (Some ex_params)) ex_life1 = Some (o2, ex_life2)"
    using ex_worked [OF _ i] d1 by (auto simp: life_ok_def ex_life2_def simp del: daemon_do.simps input_ok.simps)
  show "daemon_life (evMarshal ex_disk) (evUnmarshal ex_disk) demo_ev ''n'' ex_life0 [Work ex_notify, Work (CallAllocate ex_disk (Some ex_params))] ex_life2"
    by (rule life_work [OF _ _ w1 life_work [OF i _ w2 life_nil]]) simp_all
qed

lemma ex_saved_ok: "life_ok (evMarshal ex_disk) (evUnmarshal ex_disk) ex_life2 ex_saved"
proof -
  obtain d where d: "life_ok (evMarshal ex_disk) (evUnmarshal ex_disk) ex_life2 d"
    using life_law [OF ex_first_life(2)] fresh_life_ok ex_first_life(1) by blast
  then have "d = ex_saved" using daemon_ok_persisted [of ex_life2 d] ex_life_data(1) by (simp add: life_ok_def)
  with d show ?thesis by simp
qed

lemma ex_second_life:
  "daemon_life (evMarshal ex_disk) (evUnmarshal ex_disk) demo_ev ''n'' ex_life2 [Restarted 3 60, Work ex_notify] ex_life4" "dmPools ex_life4 = [''p'' \<mapsto> ex_cr_pool]"
proof -
  obtain s d where s: "daemon_start ex_disk (stFile (dmStore ex_life2)) 3 60 = Some (Inr s)" "life_ok (evMarshal ex_disk) (evUnmarshal ex_disk) s d"
    using restart_law [OF ex_saved_ok ex_saved_readable refl refl, of 3 60] by blast
  then have l3: "daemon_start ex_disk (stFile (dmStore ex_life2)) 3 60 = Some (Inr ex_life3)" "s = ex_life3" by (simp_all add: ex_life3_def)
  obtain o1 where w1: "daemon_do demo_ev ''n'' ex_notify ex_life3 = Some (o1, ex_life4)"
    using ex_worked [of ex_life3 d ex_notify] s(2) l3(2) by (auto simp: life_ok_def ex_life4_def simp del: daemon_do.simps)
  show "daemon_life (evMarshal ex_disk) (evUnmarshal ex_disk) demo_ev ''n'' ex_life2 [Restarted 3 60, Work ex_notify] ex_life4"
    by (rule life_restart [OF ex_saved_readable refl refl l3(1) life_work [OF _ _ w1 life_nil]]) simp_all
  show "dmPools ex_life4 = [''p'' \<mapsto> ex_cr_pool]" using ex_start_pools [OF l3(1)] by (simp add: ex_life4_def ex_notify_pools NewManager_def)
qed

theorem daemon_life_stays_ok_witness:
  "\<exists>d' s'' d''. daemon_life (evMarshal ex_disk) (evUnmarshal ex_disk) demo_ev ''n'' ex_life0 [Work ex_notify, Work (CallAllocate ex_disk (Some ex_params))] ex_life2 \<and>
     daemon_ok ex_life2 d' \<and> daemon_start ex_disk (FileData ''{p}'') 1 5 = Some (Inr s'') \<and> daemon_ok s'' d''"
  using daemon_life_stays_ok [OF ex_first_life] ex_first_life(2) ex_saved_readable unfolding ex_life_data(2) by blast

theorem held_address_not_reissued_after_restarts_witness:
  "\<exists>infos s'' a n. daemon_life (evMarshal ex_disk) (evUnmarshal ex_disk) demo_ev ''n'' ex_life2 [Restarted 3 60, Work ex_notify] ex_life4 \<and>
     daemon_do demo_ev ''n'' ex_next ex_life4 = Some (Allocated (Inr infos), s'') \<and>
     map aiIp infos = [''10.0.0.3/29''] \<and> ParseCIDR (aiIp (hd infos)) = Some (a, n) \<and> \<not> IP_Equal a [10, 0, 0, 2]"
proof -
  obtain r where r: "ent (newStore ex_saved) ''p'' ''c1_net0'' = Some r" "rsIPAddress r = [10, 0, 0, 2]" using ex_saved_entry by auto
  have i: "input_ok ex_next ex_life4" by (rule ex_allocate_ok [OF ex_second_life(2)]) simp
  obtain infos s'' where a: "daemon_do demo_ev ''n'' ex_next ex_life4 = Some (Allocated (Inr infos), s'')" "map aiIp infos = [''10.0.0.3/29'']"
    using ex_next_answer by (auto simp del: daemon_do.simps dest!: ex_answered)
  then obtain info where infos: "infos = [info]" by auto
  obtain d where "daemon_ok ex_life4 d" using life_law [OF ex_second_life(1) ex_saved_ok] by (auto simp: life_ok_def)
  then have rd: "store_ready (dmStore ex_life4) d" by (simp add: daemon_ok_def cleaner_ready_def)
  have "map aiPool infos = pmPools ex_params"
    using Handlers_Allocate_law [OF rd ex_disk_total, of "dmHandlers ex_life4" "Some (ex_params\<lparr>pmCniContainerid := ''c2''\<rparr>)"] a(1) i by auto
  then have p: "info \<in> set infos" "pkey (ex_params\<lparr>pmCniContainerid := ''c2''\<rparr>) (aiPool info) = ''p''"
    by (simp_all add: infos ex_params_def poolTypeAsString_def GetPoolKey_def)
  have "spared (dmCooldown ex_life2) ''p'' ''c1_net0'' r [Restarted 3 60, Work ex_notify]" by simp
  from held_address_not_reissued_after_restarts [OF ex_saved_ok r(1) ex_second_life(1) this i a(1) p]
  show ?thesis using ex_second_life(1) a r(2) by (auto simp: infos)
qed

end
