(* ===== verification/GoUrl.thy ===== *)
theory GoUrl
  imports CniConf
begin

text \<open>
  What is used of Go's package \<open>net/url\<close>, in the version of Go 1.26: parsing a URL into scheme, host and path.  The other components
  (user, query, fragment) are read as far as they can make parsing fail.  Strings are byte lists; \<open>strings.Cut\<close> at one byte is
  \<open>str_Cut\<close>.
\<close>

subsection \<open>Bytes and strings\<close>

abbreviation byte_of :: "char \<Rightarrow> nat" where
  "byte_of c \<equiv> of_char c"

definition str_Cut :: "char \<Rightarrow> string \<Rightarrow> string \<times> string \<times> bool" where
  "str_Cut c s =
     (case dropWhile (\<lambda>x. x \<noteq> c) s of
        [] \<Rightarrow> (s, [], False)
      | _ # rest \<Rightarrow> (takeWhile (\<lambda>x. x \<noteq> c) s, rest, True))"

text \<open>\<open>strings.LastIndex\<close> of one byte, as the text before and after it.\<close>

definition str_CutLast :: "char \<Rightarrow> string \<Rightarrow> (string \<times> string) option" where
  "str_CutLast c s = (case str_Cut c (rev s) of (a, b, found) \<Rightarrow> if found then Some (rev b, rev a) else None)"

fun HasPrefix :: "string \<Rightarrow> string \<Rightarrow> bool" where
  "HasPrefix s [] = True"
| "HasPrefix [] (_ # _) = False"
| "HasPrefix (x # xs) (y # ys) = (x = y \<and> HasPrefix xs ys)"

text \<open>\<open>strings.Index\<close> of a text, as the text before and from it on.\<close>

fun str_Find :: "string \<Rightarrow> string \<Rightarrow> (string \<times> string) option" where
  "str_Find pat [] = (if pat = [] then Some ([], []) else None)"
| "str_Find pat (x # xs) = (if HasPrefix (x # xs) pat then Some ([], x # xs) else map_option (\<lambda>(a, b). (x # a, b)) (str_Find pat xs))"

definition is_letter :: "char \<Rightarrow> bool" where
  "is_letter c \<longleftrightarrow> 97 \<le> byte_of c \<and> byte_of c \<le> 122 \<or> 65 \<le> byte_of c \<and> byte_of c \<le> 90"

definition is_digit :: "char \<Rightarrow> bool" where
  "is_digit c \<longleftrightarrow> 48 \<le> byte_of c \<and> byte_of c \<le> 57"

definition is_ctl :: "char \<Rightarrow> bool" where
  "is_ctl c \<longleftrightarrow> byte_of c < 32 \<or> byte_of c = 127"

subsection \<open>Escapes\<close>

datatype url_error =
    InvalidControlChar | MissingScheme | FirstSegmentColon | EscapeError string | InvalidHostError string | MissingBracket |
    InvalidPort string | InvalidIPLiteral | InvalidUserinfo

datatype encoding = EncodePath | EncodeUserPassword | EncodeHost | EncodeZone | EncodeFragment

text \<open>\<open>shouldEscape\<close> for the host and zone encodings, the only ones \<open>unescape\<close> asks it for.\<close>

definition shouldEscapeHost :: "char \<Rightarrow> bool" where
  "shouldEscapeHost c \<longleftrightarrow> \<not> (is_letter c \<or> is_digit c \<or> c \<in> set ''!$&()*+,;=:[]<>-_.~'' \<or> c = CHR 39 \<or> c = CHR 34)"

definition unhex2 :: "char \<Rightarrow> char \<Rightarrow> nat" where
  "unhex2 a b = the (hex_digit a) * 16 + the (hex_digit b)"

fun unescape :: "encoding \<Rightarrow> string \<Rightarrow> url_error + string" where
  "unescape mode [] = Inr []"
| "unescape mode (c # s) =
     (if c = CHR ''%'' then
        (case s of
           a # b # s' \<Rightarrow>
             if \<not> is_hex a \<or> \<not> is_hex b then Inl (EscapeError [c, a, b])
             else if mode = EncodeHost \<and> the (hex_digit a) < 8 \<and> [c, a, b] \<noteq> ''%25'' then Inl (EscapeError [c, a, b])
             else if mode = EncodeZone \<and> [c, a, b] \<noteq> ''%25'' \<and> unhex2 a b \<noteq> 32 \<and> shouldEscapeHost (char_of (unhex2 a b)) then Inl (EscapeError [c, a, b])
             else bind_result (unescape mode s') (\<lambda>r. Inr (char_of (unhex2 a b) # r))
         | _ \<Rightarrow> Inl (EscapeError (c # s)))
      else if (mode = EncodeHost \<or> mode = EncodeZone) \<and> byte_of c < 128 \<and> shouldEscapeHost c then Inl (InvalidHostError [c])
      else bind_result (unescape mode s) (\<lambda>r. Inr (c # r)))"

subsection \<open>The parts of a URL\<close>

fun getScheme_loop :: "string \<Rightarrow> string \<Rightarrow> string \<Rightarrow> url_error + (string \<times> string)" where
  "getScheme_loop rawURL seen [] = Inr ([], rawURL)"
| "getScheme_loop rawURL seen (c # s) =
     (if is_letter c then getScheme_loop rawURL (seen @ [c]) s
      else if is_digit c \<or> c = CHR ''+'' \<or> c = CHR ''-'' \<or> c = CHR ''.'' then
        (if seen = [] then Inr ([], rawURL) else getScheme_loop rawURL (seen @ [c]) s)
      else if c = CHR '':'' then (if seen = [] then Inl MissingScheme else Inr (seen, s))
      else Inr ([], rawURL))"

definition getScheme :: "string \<Rightarrow> url_error + (string \<times> string)" where
  "getScheme rawURL = getScheme_loop rawURL [] rawURL"

definition validOptionalPort :: "string \<Rightarrow> bool" where
  "validOptionalPort port = (case port of [] \<Rightarrow> True | c # ds \<Rightarrow> c = CHR '':'' \<and> list_all is_digit ds)"

text \<open>\<open>netip.ParseAddr\<close> accepts the text of a bracketed host, with a zone, and gives no IPv4 address.\<close>

definition ip6_literal :: "string \<Rightarrow> bool" where
  "ip6_literal h =
     (case str_Cut CHR ''%'' h of
        (a, zone, found) \<Rightarrow> (found \<longrightarrow> zone \<noteq> []) \<and> (case ParseAddr a of Some (Addr6 _) \<Rightarrow> True | _ \<Rightarrow> False))"

definition parseHost :: "string \<Rightarrow> url_error + string" where
  "parseHost host =
     (if HasPrefix host ''['' then
        (case str_CutLast CHR '']'' host of
           None \<Rightarrow> Inl MissingBracket
         | Some (opened, colonPort) \<Rightarrow>
             if \<not> validOptionalPort colonPort then Inl (InvalidPort colonPort)
             else
               let hostname = tl opened
               in bind_result (unescape EncodeHost colonPort) (\<lambda>port.
                    bind_result
                      (case str_Find ''%25'' hostname of
                         Some (a, zone) \<Rightarrow> bind_result (unescape EncodeHost a) (\<lambda>a'. bind_result (unescape EncodeZone zone) (\<lambda>z'. Inr (a' @ z')))
                       | None \<Rightarrow> unescape EncodeHost hostname)
                      (\<lambda>name. if ip6_literal name then Inr (''['' @ name @ '']'' @ port) else Inl InvalidIPLiteral)))
      else
        (case str_Cut CHR '':'' host of
           (_, port, found) \<Rightarrow>
             if found \<and> \<not> validOptionalPort (CHR '':'' # port) then Inl (InvalidPort (CHR '':'' # port))
             else unescape EncodeHost host))"

definition validUserinfo :: "string \<Rightarrow> bool" where
  "validUserinfo s = list_all (\<lambda>c. is_letter c \<or> is_digit c \<or> c \<in> set ''-._:~!$&()*+,;=%@'' \<or> c = CHR 39) s"

definition parseAuthority :: "string \<Rightarrow> url_error + string" where
  "parseAuthority authority =
     (case str_CutLast CHR ''@'' authority of
        None \<Rightarrow> parseHost authority
      | Some (userinfo, hostPart) \<Rightarrow>
          bind_result (parseHost hostPart) (\<lambda>host.
            if \<not> validUserinfo userinfo then Inl InvalidUserinfo
            else
              (case str_Cut CHR '':'' userinfo of
                 (username, password, _) \<Rightarrow>
                   bind_result (unescape EncodeUserPassword username) (\<lambda>_.
                     bind_result (unescape EncodeUserPassword password) (\<lambda>_. Inr host)))))"

record URL =
  uScheme :: string
  uOpaque :: string
  uHost :: string
  uPath :: string

definition parse_rest :: "string \<Rightarrow> string \<Rightarrow> url_error + URL" where
  "parse_rest scheme rest =
     (if HasPrefix rest ''//'' \<and> (scheme \<noteq> [] \<or> \<not> HasPrefix rest ''///'') then
        (let authority = takeWhile (\<lambda>c. c \<noteq> CHR ''/'') (drop 2 rest); path = dropWhile (\<lambda>c. c \<noteq> CHR ''/'') (drop 2 rest)
         in bind_result (parseAuthority authority) (\<lambda>host.
              bind_result (unescape EncodePath path) (\<lambda>p. Inr \<lparr>uScheme = scheme, uOpaque = [], uHost = host, uPath = p\<rparr>)))
      else bind_result (unescape EncodePath rest) (\<lambda>p. Inr \<lparr>uScheme = scheme, uOpaque = [], uHost = [], uPath = p\<rparr>))"

definition url_parse :: "string \<Rightarrow> url_error + URL" where
  "url_parse rawURL =
     (if list_ex is_ctl rawURL then Inl InvalidControlChar
      else if rawURL = ''*'' then Inr \<lparr>uScheme = [], uOpaque = [], uHost = [], uPath = ''*''\<rparr>
      else bind_result (getScheme rawURL) (\<lambda>(scheme0, rest0).
        let scheme = ToLower scheme0; rest = fst (str_Cut CHR ''?'' rest0)
        in if \<not> HasPrefix rest ''/'' \<and> scheme \<noteq> [] then Inr \<lparr>uScheme = scheme, uOpaque = rest, uHost = [], uPath = []\<rparr>
           else if \<not> HasPrefix rest ''/'' \<and> CHR '':'' \<in> set (takeWhile (\<lambda>c. c \<noteq> CHR ''/'') rest) then Inl FirstSegmentColon
           else parse_rest scheme rest))"

definition Parse :: "string \<Rightarrow> url_error + URL" where
  "Parse rawURL =
     (case str_Cut CHR ''#'' rawURL of
        (u, frag, _) \<Rightarrow> bind_result (url_parse u) (\<lambda>url. bind_result (unescape EncodeFragment frag) (\<lambda>_. Inr url)))"

subsection \<open>Plain paths\<close>

lemma str_Cut_none: "c \<notin> set s \<Longrightarrow> str_Cut c s = (s, [], False)"
proof -
  assume "c \<notin> set s"
  then have "dropWhile (\<lambda>x. x \<noteq> c) s = []" by auto
  then show ?thesis by (simp only: str_Cut_def list.case)
qed

lemma unescape_plain: "mode \<noteq> EncodeHost \<Longrightarrow> mode \<noteq> EncodeZone \<Longrightarrow> CHR ''%'' \<notin> set s \<Longrightarrow> unescape mode s = Inr s"
  by (induction s) (auto simp: bind_result_def)

text \<open>Text that \<open>url.Parse\<close> takes as it is: no control character, no escape and no mark of a query or fragment.\<close>

definition url_plain :: "string \<Rightarrow> bool" where
  "url_plain s \<longleftrightarrow> list_all (\<lambda>c. \<not> is_ctl c \<and> c \<notin> {CHR ''%'', CHR ''?'', CHR ''#''}) s"

lemma url_plainD: "url_plain s \<Longrightarrow> CHR ''%'' \<notin> set s" "url_plain s \<Longrightarrow> CHR ''?'' \<notin> set s" "url_plain s \<Longrightarrow> CHR ''#'' \<notin> set s"
  "url_plain s \<Longrightarrow> \<not> list_ex is_ctl s"
  by (auto simp: url_plain_def list_all_iff list_ex_iff)

lemma HasPrefix_iff: "HasPrefix s p \<longleftrightarrow> take (length p) s = p"
  by (induction s p rule: HasPrefix.induct) auto

lemma HasPrefix_append [simp]: "HasPrefix (p @ s) p"
  by (simp add: HasPrefix_iff)

end
