(* ===== verification/Options.thy ===== *)
theory Options
  imports GoUrl
begin

text \<open>
  The command lines of the two programs (\<open>cmd/ipam-node/app/options\<close>, \<open>cmd/ipam-controller/app/options\<close>): defaults, flags and validation.
  The options of \<open>pkg/cmdoptions\<close> belong to Kubernetes' logging and feature gates; the outcome of their validation is an argument,
  as is the outcome of \<open>os.Stat\<close>.
\<close>

subsection \<open>Paths\<close>

definition filepath_Dir :: "string \<Rightarrow> string" where
  "filepath_Dir p = filepath_Clean (rev (dropWhile (\<lambda>c. c \<noteq> CHR ''/'') (rev p)))"

subsection \<open>Options of the node daemon\<close>

record node_options =
  noMetricsAddr :: string
  noProbeAddr :: string
  noNodeName :: string
  noPoolsNamespace :: string
  noBindAddress :: string
  noStoreFile :: string
  noCNIBinDir :: string
  noCNIBinFile :: string
  noCNISkipBinFileCopy :: bool
  noCNISkipConfigCreation :: bool
  noCNIConfDir :: string
  noCNIDaemonSocket :: string
  noCNIDaemonCallTimeoutSeconds :: int
  noCNILogFile :: string
  noCNILogLevel :: string
  noCNIForcePoolName :: bool
  noStaleIPCheckInterval :: int
  noStaleIPCheckCountBeforeRelease :: int
  noReleasedIPCooldown :: int

definition time_Second :: int where "time_Second = 1000000000"

definition DefaultStoreFile :: string where "DefaultStoreFile = ''/var/lib/cni/nv-ipam/store''"
definition DefaultBindAddress :: string where "DefaultBindAddress = DefaultDaemonSocket"
definition DefaultStaleIPCheckInterval :: int where "DefaultStaleIPCheckInterval = 60 * time_Second"
definition DefaultStaleIPCheckCountBeforeRelease :: int where "DefaultStaleIPCheckCountBeforeRelease = 3"
definition DefaultReleasedIPCooldown :: int where "DefaultReleasedIPCooldown = 0 * time_Second"

definition node_New :: node_options where
  "node_New = \<lparr>noMetricsAddr = '':8080'', noProbeAddr = '':8081'', noNodeName = [], noPoolsNamespace = ''kube-system'',
     noBindAddress = DefaultBindAddress, noStoreFile = DefaultStoreFile,
     noCNIBinDir = ''/opt/cni/bin'', noCNIBinFile = ''/nv-ipam'', noCNISkipBinFileCopy = False, noCNISkipConfigCreation = False,
     noCNIConfDir = DefaultConfDir, noCNIDaemonSocket = DefaultDaemonSocket, noCNIDaemonCallTimeoutSeconds = 5,
     noCNILogFile = DefaultLogFile, noCNILogLevel = DefaultLogLevel, noCNIForcePoolName = False,
     noStaleIPCheckInterval = DefaultStaleIPCheckInterval,
     noStaleIPCheckCountBeforeRelease = DefaultStaleIPCheckCountBeforeRelease, noReleasedIPCooldown = DefaultReleasedIPCooldown\<rparr>"

text \<open>The flags: the set a flag is registered in, its name and the option it writes.  A value of another kind is refused.\<close>

datatype flag_value = FString string | FBool bool | FInt int | FDuration int

definition StringVar :: "((string \<Rightarrow> string) \<Rightarrow> 'o \<Rightarrow> 'o) \<Rightarrow> flag_value \<Rightarrow> 'o \<Rightarrow> 'o option" where
  "StringVar upd v opts = (case v of FString x \<Rightarrow> Some (upd (\<lambda>_. x) opts) | _ \<Rightarrow> None)"

definition BoolVar :: "((bool \<Rightarrow> bool) \<Rightarrow> 'o \<Rightarrow> 'o) \<Rightarrow> flag_value \<Rightarrow> 'o \<Rightarrow> 'o option" where
  "BoolVar upd v opts = (case v of FBool x \<Rightarrow> Some (upd (\<lambda>_. x) opts) | _ \<Rightarrow> None)"

definition IntVar :: "((int \<Rightarrow> int) \<Rightarrow> 'o \<Rightarrow> 'o) \<Rightarrow> flag_value \<Rightarrow> 'o \<Rightarrow> 'o option" where
  "IntVar upd v opts = (case v of FInt x \<Rightarrow> Some (upd (\<lambda>_. x) opts) | _ \<Rightarrow> None)"

definition DurationVar :: "((int \<Rightarrow> int) \<Rightarrow> 'o \<Rightarrow> 'o) \<Rightarrow> flag_value \<Rightarrow> 'o \<Rightarrow> 'o option" where
  "DurationVar upd v opts = (case v of FDuration x \<Rightarrow> Some (upd (\<lambda>_. x) opts) | _ \<Rightarrow> None)"

type_synonym 'o flag = "string \<times> string \<times> (flag_value \<Rightarrow> 'o \<Rightarrow> 'o option)"

definition node_AddNamedFlagSets :: "node_options flag list" where
  "node_AddNamedFlagSets =
     (let daemonFS = ''Node daemon''; cniFS = ''Shim CNI Configuration''
      in [(daemonFS, ''metrics-bind-address'', StringVar noMetricsAddr_update),
          (daemonFS, ''health-probe-bind-address'', StringVar noProbeAddr_update),
          (daemonFS, ''node-name'', StringVar noNodeName_update),
          (daemonFS, ''ippools-namespace'', StringVar noPoolsNamespace_update),
          (daemonFS, ''bind-address'', StringVar noBindAddress_update),
          (daemonFS, ''store-file'', StringVar noStoreFile_update),
          (daemonFS, ''stale-ip-check-interval'', DurationVar noStaleIPCheckInterval_update),
          (daemonFS, ''stale-ip-check-count-before-release'', IntVar noStaleIPCheckCountBeforeRelease_update),
          (daemonFS, ''released-ip-cooldown'', DurationVar noReleasedIPCooldown_update),
          (cniFS, ''cni-bin-dir'', StringVar noCNIBinDir_update),
          (cniFS, ''cni-nv-ipam-bin-file'', StringVar noCNIBinFile_update),
          (cniFS, ''cni-skip-nv-ipam-binary-copy'', BoolVar noCNISkipBinFileCopy_update),
          (cniFS, ''cni-skip-nv-ipam-config-creation'', BoolVar noCNISkipConfigCreation_update),
          (cniFS, ''cni-conf-dir'', StringVar noCNIConfDir_update),
          (cniFS, ''cni-daemon-socket'', StringVar noCNIDaemonSocket_update),
          (cniFS, ''cni-daemon-call-timeout'', IntVar noCNIDaemonCallTimeoutSeconds_update),
          (cniFS, ''cni-log-file'', StringVar noCNILogFile_update),
          (cniFS, ''cni-log-level'', StringVar noCNILogLevel_update),
          (cniFS, ''cni-force-pool-name'', BoolVar noCNIForcePoolName_update)])"

text \<open>A command line sets the named options one after the other; an unknown name or a value of the wrong kind ends the program.\<close>

fun set_flags :: "'o flag list \<Rightarrow> (string \<times> flag_value) list \<Rightarrow> 'o \<Rightarrow> 'o option" where
  "set_flags flags [] opts = Some opts"
| "set_flags flags ((name, v) # args) opts =
     (case map_of (map snd flags) name of
        None \<Rightarrow> None
      | Some setter \<Rightarrow> (case setter v opts of None \<Rightarrow> None | Some opts' \<Rightarrow> set_flags flags args opts'))"

datatype bind_error = URLError url_error | UnsupportedScheme

definition ParseBindAddress :: "string \<Rightarrow> bind_error + (string \<times> string)" where
  "ParseBindAddress addr =
     (case Parse addr of
        Inl err \<Rightarrow> Inl (URLError err)
      | Inr u \<Rightarrow>
          if uScheme u = ''tcp'' then Inr (uScheme u, uHost u)
          else if uScheme u = ''unix'' then Inr (uScheme u, uHost u @ uPath u)
          else Inl UnsupportedScheme)"

datatype options_error =
    NodeNameRequired | PoolsNamespaceRequired | BindAddressInvalid bind_error | CheckIntervalNotPositive | CheckCountBelowOne | CooldownNegative |
    StoreDirNotFound | BinFileNotFound | BinDirNotFound | ConfDirNotFound | LogDirNotFound | CommonInvalid string

definition verifyPaths :: "(string \<Rightarrow> bool) \<Rightarrow> node_options \<Rightarrow> options_error option" where
  "verifyPaths stat opts =
     (if \<not> stat (filepath_Dir (noStoreFile opts)) then Some StoreDirNotFound
      else if \<not> noCNISkipBinFileCopy opts \<and> \<not> stat (noCNIBinFile opts) then Some BinFileNotFound
      else if \<not> noCNISkipBinFileCopy opts \<and> \<not> stat (noCNIBinDir opts) then Some BinDirNotFound
      else if \<not> noCNISkipConfigCreation opts \<and> \<not> stat (noCNIConfDir opts) then Some ConfDirNotFound
      else if \<not> stat (filepath_Dir (noCNILogFile opts)) then Some LogDirNotFound
      else None)"

definition node_Validate :: "(string \<Rightarrow> bool) \<Rightarrow> string option \<Rightarrow> node_options \<Rightarrow> options_error option" where
  "node_Validate stat common opts =
     (if length (noNodeName opts) = 0 then Some NodeNameRequired
      else if length (noPoolsNamespace opts) = 0 then Some PoolsNamespaceRequired
      else
        (case ParseBindAddress (noBindAddress opts) of
           Inl err \<Rightarrow> Some (BindAddressInvalid err)
         | Inr _ \<Rightarrow>
             if noStaleIPCheckInterval opts \<le> 0 then Some CheckIntervalNotPositive
             else if noStaleIPCheckCountBeforeRelease opts < 1 then Some CheckCountBelowOne
             else if noReleasedIPCooldown opts < 0 then Some CooldownNegative
             else (case verifyPaths stat opts of Some err \<Rightarrow> Some err | None \<Rightarrow> map_option CommonInvalid common)))"

subsection \<open>Options of the controller\<close>

record controller_options =
  coMetricsAddr :: string
  coProbeAddr :: string
  coEnableLeaderElection :: bool
  coEnableWebHook :: bool
  coLeaderElectionNamespace :: string
  coIPPoolsNamespace :: string

definition defaultNamespace :: string where "defaultNamespace = ''kube-system''"

definition controller_New :: controller_options where
  "controller_New = \<lparr>coMetricsAddr = '':8080'', coProbeAddr = '':8081'', coEnableLeaderElection = False, coEnableWebHook = False,
     coLeaderElectionNamespace = defaultNamespace, coIPPoolsNamespace = defaultNamespace\<rparr>"

definition controller_AddNamedFlagSets :: "controller_options flag list" where
  "controller_AddNamedFlagSets =
     (let controllerFS = ''Controller''
      in [(controllerFS, ''metrics-bind-address'', StringVar coMetricsAddr_update),
          (controllerFS, ''health-probe-bind-address'', StringVar coProbeAddr_update),
          (controllerFS, ''webhook'', BoolVar coEnableWebHook_update),
          (controllerFS, ''leader-elect'', BoolVar coEnableLeaderElection_update),
          (controllerFS, ''leader-elect-namespace'', StringVar coLeaderElectionNamespace_update),
          (controllerFS, ''ippools-namespace'', StringVar coIPPoolsNamespace_update)])"

definition controller_Validate :: "string option \<Rightarrow> controller_options \<Rightarrow> options_error option" where
  "controller_Validate common opts = map_option CommonInvalid common"

subsection \<open>Commands\<close>

text \<open>What both programs do before they run: no arguments but flags are accepted, and the options are validated.\<close>

datatype command_error = FlagError | UnexpectedArguments | InvalidConfig options_error | NoClientConfig

definition command_args :: "string list \<Rightarrow> bool" where
  "command_args args = list_all (\<lambda>a. length a = 0) args"

subsection \<open>Bind addresses\<close>

lemma Parse_unix_path:
  assumes "url_plain p" "HasPrefix p ''/''"
  shows "Parse (''unix://'' @ p) = Inr \<lparr>uScheme = ''unix'', uOpaque = [], uHost = [], uPath = p\<rparr>"
proof -
  note pl = url_plainD [OF assms(1)]
  have ne: "p \<noteq> []" "takeWhile (\<lambda>c. c \<noteq> CHR ''/'') p = []" "dropWhile (\<lambda>c. c \<noteq> CHR ''/'') p = p"
    using assms(2) by (cases p; simp)+
  have c: "str_Cut CHR ''#'' (''unix://'' @ p) = (''unix://'' @ p, [], False)" "str_Cut CHR ''?'' (''//'' @ p) = (''//'' @ p, [], False)"
    using pl by (simp_all add: str_Cut_none)
  have g: "getScheme (''unix://'' @ p) = Inr (''unix'', ''//'' @ p)" by (simp add: getScheme_def is_letter_def is_digit_def)
  have l: "ToLower ''unix'' = ''unix''" by code_simp
  have h: "parseAuthority [] = Inr []" by code_simp
  have "parse_rest ''unix'' (''//'' @ p) = Inr \<lparr>uScheme = ''unix'', uOpaque = [], uHost = [], uPath = p\<rparr>"
    using ne pl(1) h unescape_plain [of EncodePath p] by (simp add: parse_rest_def bind_result_def Let_def)
  moreover have "\<not> list_ex is_ctl (''unix://'' @ p)" using pl(4) by (simp add: is_ctl_def)
  ultimately have "url_parse (''unix://'' @ p) = Inr \<lparr>uScheme = ''unix'', uOpaque = [], uHost = [], uPath = p\<rparr>"
    using g c(2) l by (simp add: url_parse_def bind_result_def Let_def)
  then show ?thesis using c(1) by (simp add: Parse_def bind_result_def)
qed

lemma ParseBindAddress_unix:
  "url_plain p \<Longrightarrow> HasPrefix p ''/'' \<Longrightarrow> ParseBindAddress (''unix://'' @ p) = Inr (''unix'', p)"
  using Parse_unix_path [of p] by (simp add: ParseBindAddress_def)

lemma ParseBindAddress_network: "ParseBindAddress a = Inr (network, address) \<Longrightarrow> network = ''tcp'' \<or> network = ''unix''"
  by (auto simp: ParseBindAddress_def split: sum.splits if_splits)

text \<open>A scheme in lower case is the text before the colon.\<close>

lemma Parse_opaque:
  assumes "url_plain rest" "\<not> HasPrefix rest ''/''" "scheme \<in> {''tcp'', ''unix''}"
  shows "Parse (scheme @ '':'' @ rest) = Inr \<lparr>uScheme = scheme, uOpaque = rest, uHost = [], uPath = []\<rparr>"
proof -
  note pl = url_plainD [OF assms(1)]
  have c: "str_Cut CHR ''#'' (scheme @ '':'' @ rest) = (scheme @ '':'' @ rest, [], False)" "str_Cut CHR ''?'' rest = (rest, [], False)"
    using pl assms(3) by (auto simp: str_Cut_none)
  have g: "getScheme (scheme @ '':'' @ rest) = Inr (scheme, rest)" using assms(3) by (auto simp: getScheme_def is_letter_def is_digit_def)
  have "ToLower scheme = scheme" using assms(3) by (elim insertE emptyE) (simp; code_simp)+
  moreover have "\<not> list_ex is_ctl (scheme @ '':'' @ rest)" "scheme @ '':'' @ rest \<noteq> ''*''" "scheme \<noteq> []" using pl(4) assms(3) by (auto simp: is_ctl_def)
  ultimately have "url_parse (scheme @ '':'' @ rest) = Inr \<lparr>uScheme = scheme, uOpaque = rest, uHost = [], uPath = []\<rparr>"
    using g c(2) assms(2) by (simp add: url_parse_def bind_result_def Let_def)
  then show ?thesis using c(1) by (simp add: Parse_def bind_result_def)
qed

text \<open>A bind address without slashes after its scheme, such as \<open>tcp:127.0.0.1:9092\<close> or \<open>unix:daemon.sock\<close>, passes validation and loses its
  address: the daemon is told to listen on the empty address instead.\<close>

theorem opaque_bind_address_lost:
  assumes "url_plain rest" "\<not> HasPrefix rest ''/''" "scheme \<in> {''tcp'', ''unix''}"
  shows "ParseBindAddress (scheme @ '':'' @ rest) = Inr (scheme, [])"
  using Parse_opaque [OF assms] assms(3) by (auto simp: ParseBindAddress_def)

theorem opaque_bind_address_lost_witness:
  "ParseBindAddress ''tcp:127.0.0.1:9092'' = Inr (''tcp'', [])"
proof -
  have "url_plain ''127.0.0.1:9092''" "\<not> HasPrefix ''127.0.0.1:9092'' ''/''" by code_simp+
  from opaque_bind_address_lost [OF this, of "''tcp''"] show ?thesis by simp
qed

subsection \<open>Validation\<close>

lemma verifyPaths_None:
  "verifyPaths stat opts = None \<longleftrightarrow> stat (filepath_Dir (noStoreFile opts)) \<and>
     (noCNISkipBinFileCopy opts \<or> stat (noCNIBinFile opts) \<and> stat (noCNIBinDir opts)) \<and>
     (noCNISkipConfigCreation opts \<or> stat (noCNIConfDir opts)) \<and> stat (filepath_Dir (noCNILogFile opts))"
  by (auto simp: verifyPaths_def)

lemma node_Validate_None:
  "node_Validate stat common opts = None \<longleftrightarrow> noNodeName opts \<noteq> [] \<and> noPoolsNamespace opts \<noteq> [] \<and>
     (\<exists>network address. ParseBindAddress (noBindAddress opts) = Inr (network, address)) \<and> 0 < noStaleIPCheckInterval opts \<and>
     1 \<le> noStaleIPCheckCountBeforeRelease opts \<and> 0 \<le> noReleasedIPCooldown opts \<and> verifyPaths stat opts = None \<and> common = None"
  by (auto simp: node_Validate_def split: sum.splits option.splits)

lemma node_flags_distinct: "distinct (map (fst \<circ> snd) node_AddNamedFlagSets)"
  by code_simp

text \<open>The defaults work.  A daemon that is given nothing but the name of its node, on a host with the default directories and the
  binary in place, has valid options; it listens on the socket that the CNI plugin calls by default, and the configuration it
  writes for the plugin names the same socket.\<close>

theorem default_options_valid:
  assumes "name \<noteq> []"
    and stat: "stat ''/var/lib/cni/nv-ipam''" "stat ''/nv-ipam''" "stat ''/opt/cni/bin''" "stat ''/etc/cni/net.d/nv-ipam.d''" "stat ''/var/log''"
  shows "\<exists>opts. set_flags node_AddNamedFlagSets [(''node-name'', FString name)] node_New = Some opts \<and> node_Validate stat None opts = None \<and>
    ''unix://'' @ snd (projr (ParseBindAddress (noBindAddress opts))) = icDaemonSocket defaultConf \<and> noCNIDaemonSocket opts = icDaemonSocket defaultConf"
proof -
  let ?o = "node_New\<lparr>noNodeName := name\<rparr>"
  have f: "set_flags node_AddNamedFlagSets [(''node-name'', FString name)] node_New = Some ?o"
    by (simp add: node_AddNamedFlagSets_def Let_def StringVar_def)
  have "url_plain ''/var/lib/cni/nv-ipam/daemon.sock''" by code_simp
  then have b: "ParseBindAddress (noBindAddress ?o) = Inr (''unix'', ''/var/lib/cni/nv-ipam/daemon.sock'')"
    using ParseBindAddress_unix [of "''/var/lib/cni/nv-ipam/daemon.sock''"] by (simp add: node_New_def DefaultBindAddress_def DefaultDaemonSocket_def)
  have "filepath_Dir (noStoreFile ?o) = ''/var/lib/cni/nv-ipam''" "filepath_Dir (noCNILogFile ?o) = ''/var/log''"
    by (simp add: node_New_def; code_simp)+
  then have "verifyPaths stat ?o = None" unfolding verifyPaths_None using stat by (simp add: node_New_def DefaultConfDir_def)
  then have "node_Validate stat None ?o = None" unfolding node_Validate_None using b assms(1)
    by (simp add: node_New_def DefaultStaleIPCheckInterval_def DefaultStaleIPCheckCountBeforeRelease_def DefaultReleasedIPCooldown_def time_Second_def)
  then show ?thesis using f b by (intro exI [of _ ?o]) (simp add: defaultConf_def DefaultDaemonSocket_def node_New_def)
qed

theorem default_options_valid_witness:
  "\<exists>opts. set_flags node_AddNamedFlagSets [(''node-name'', FString ''n'')] node_New = Some opts \<and> node_Validate (\<lambda>_. True) None opts = None"
  using default_options_valid [of "''n''" "\<lambda>_. True"] by auto

end
