(* ===== verification/HostFiles.thy ===== *)
theory HostFiles
  imports Options CniPlugin
begin

text \<open>
  The files of the host, and \<open>pkg/cmdutils\<close>, which replaces a file by a copy of another one.  A file system is an association list from
  cleaned paths to nodes; every call may fail for reasons of its own (permissions, devices), which is the argument \<open>fails\<close>.
  An operation that changes files step by step returns the states it goes through, so that a crash leaves one of them.
\<close>

subsection \<open>File systems\<close>

datatype fnode = RegularFile string nat | Directory | SocketFile

type_synonym fsys = "(string \<times> fnode) list"

datatype io_op = IOStat | IORemove | IOCreate | IOOpen | IOSync | IOClose | IOChmod | IORename | IOListen | IOWrite

type_synonym io_faults = "io_op \<Rightarrow> string \<Rightarrow> bool"

datatype io_error = ErrNotExist | ErrExist | ErrOther

definition fs_get :: "fsys \<Rightarrow> string \<Rightarrow> fnode option" where
  "fs_get fs p = (if p = [] then None else map_of fs (filepath_Clean p))"

definition fs_put :: "string \<Rightarrow> fnode \<Rightarrow> fsys \<Rightarrow> fsys" where
  "fs_put p n fs = AList.update (filepath_Clean p) n fs"

definition fs_del :: "string \<Rightarrow> fsys \<Rightarrow> fsys" where
  "fs_del p fs = AList.delete (filepath_Clean p) fs"

definition os_Stat :: "io_faults \<Rightarrow> string \<Rightarrow> fsys \<Rightarrow> io_error + fnode" where
  "os_Stat fails p fs =
     (if fails IOStat p then Inl ErrOther
      else (case fs_get fs p of None \<Rightarrow> Inl ErrNotExist | Some n \<Rightarrow> Inr n))"

definition fs_nonempty :: "string \<Rightarrow> fsys \<Rightarrow> bool" where
  "fs_nonempty p fs \<longleftrightarrow> list_ex (\<lambda>(q, _). HasPrefix q (filepath_Clean p @ ''/'')) fs"

definition os_Remove :: "io_faults \<Rightarrow> string \<Rightarrow> fsys \<Rightarrow> io_error + fsys" where
  "os_Remove fails p fs =
     (case fs_get fs p of
        None \<Rightarrow> Inl ErrNotExist
      | Some n \<Rightarrow> if fails IORemove p \<or> n = Directory \<and> fs_nonempty p fs then Inl ErrOther else Inr (fs_del p fs))"

text \<open>\<open>os.CreateTemp\<close> in a directory: the random numbers it tries are an argument.\<close>

definition joinPath :: "string \<Rightarrow> string \<Rightarrow> string" where
  "joinPath dir name = (if dir \<noteq> [] \<and> last dir = CHR ''/'' then dir @ name else dir @ ''/'' @ name)"

fun create_fresh :: "io_faults \<Rightarrow> string \<Rightarrow> string \<Rightarrow> string list \<Rightarrow> fsys \<Rightarrow> io_error + (string \<times> fsys)" where
  "create_fresh fails pre post [] fs = Inl ErrExist"
| "create_fresh fails pre post (r # rs) fs =
     (let name = pre @ r @ post
      in if fs_get fs name \<noteq> None then create_fresh fails pre post rs fs
         else if fails IOCreate name then Inl ErrOther
         else Inr (name, fs_put name (RegularFile [] 384) fs))"

definition os_CreateTemp :: "io_faults \<Rightarrow> string list \<Rightarrow> string \<Rightarrow> string \<Rightarrow> string \<Rightarrow> fsys \<Rightarrow> io_error + (string \<times> fsys)" where
  "os_CreateTemp fails randoms tempDir dir0 pattern fs =
     (let dir = (if dir0 = [] then tempDir else dir0);
          (pre, post) = (case str_CutLast CHR ''*'' pattern of None \<Rightarrow> (pattern, []) | Some ab \<Rightarrow> ab)
      in if CHR ''/'' \<in> set pattern then Inl ErrOther
         else if fs_get fs dir \<noteq> Some Directory then Inl ErrNotExist
         else create_fresh fails (joinPath dir pre) post randoms fs)"

definition os_Chmod :: "io_faults \<Rightarrow> string \<Rightarrow> nat \<Rightarrow> fsys \<Rightarrow> io_error + fsys" where
  "os_Chmod fails p mode fs =
     (if fails IOChmod p then Inl ErrOther
      else (case fs_get fs p of None \<Rightarrow> Inl ErrNotExist | Some (RegularFile data _) \<Rightarrow> Inr (fs_put p (RegularFile data mode) fs) | Some _ \<Rightarrow> Inr fs))"

definition os_Rename :: "io_faults \<Rightarrow> string \<Rightarrow> string \<Rightarrow> fsys \<Rightarrow> io_error + fsys" where
  "os_Rename fails p q fs =
     (if fails IORename q then Inl ErrOther
      else (case fs_get fs p of
              None \<Rightarrow> Inl ErrNotExist
            | Some n \<Rightarrow> if fs_get fs q = Some Directory then Inl ErrExist else Inr (fs_put q n (fs_del p fs))))"

subsection \<open>Replacing a file by a copy\<close>

datatype copy_error =
    RemoveOldTempFailed | CreateTempFailed | OpenSourceFailed | CopyFailed | FlushFailed | CloseFailed | StatDestFailed | StatSourceFailed |
    ChmodFailed | ReplaceFailed

record copy_env =
  cpFails :: io_faults
  cpRandoms :: "string list"
  cpTempDir :: string
  cpCopied :: "nat option"

text \<open>The mode of a node as \<open>os.Chmod\<close> gets it: for anything but a regular file it is not used below.\<close>

definition file_mode :: "fnode \<Rightarrow> nat" where
  "file_mode n = (case n of RegularFile _ m \<Rightarrow> m | _ \<Rightarrow> 493)"

text \<open>After closing the temporary file \<open>name\<close>: the mode, then the new name.\<close>

definition replace_dest :: "copy_env \<Rightarrow> string \<Rightarrow> string \<Rightarrow> string \<Rightarrow> fsys \<Rightarrow> copy_error option \<times> fsys list" where
  "replace_dest ce srcFilePath destFilePath name fs =
     (let fails = cpFails ce
      in if os_Stat fails destFilePath fs = Inl ErrOther then (Some StatDestFailed, [])
         else
           (case os_Stat fails srcFilePath fs of
              Inl _ \<Rightarrow> (Some StatSourceFailed, [])
            | Inr srcFileStat \<Rightarrow>
                (case os_Chmod fails name (file_mode srcFileStat) fs of
                   Inl _ \<Rightarrow> (Some ChmodFailed, [])
                 | Inr fs1 \<Rightarrow>
                     (case os_Rename fails name destFilePath fs1 of
                        Inl _ \<Rightarrow> (Some ReplaceFailed, [fs1])
                      | Inr fs2 \<Rightarrow> (None, [fs1, fs2])))))"

text \<open>\<open>io.Copy\<close> writes the bytes one after the other; \<open>cpCopied\<close> is the number of bytes after which it fails, if it fails.  Opening a
  directory succeeds, and reading it fails at once.\<close>

definition source_data :: "fnode \<Rightarrow> string" where
  "source_data n = (case n of RegularFile data _ \<Rightarrow> data | _ \<Rightarrow> [])"

definition copy_states :: "string \<Rightarrow> string \<Rightarrow> nat \<Rightarrow> fsys \<Rightarrow> fsys list" where
  "copy_states name data n fs = map (\<lambda>k. fs_put name (RegularFile (take k data) 384) fs) [0..<Suc (min n (length data))]"

definition copy_to_temp :: "copy_env \<Rightarrow> string \<Rightarrow> string \<Rightarrow> string \<Rightarrow> string \<Rightarrow> fsys \<Rightarrow> copy_error option \<times> fsys list" where
  "copy_to_temp ce srcFilePath tempFilePath destFilePath name fs =
     (let fails = cpFails ce
      in case (if fails IOOpen srcFilePath then None else map_of fs (filepath_Clean srcFilePath)) of
           None \<Rightarrow> (Some OpenSourceFailed, [])
         | Some SocketFile \<Rightarrow> (Some OpenSourceFailed, [])
         | Some n \<Rightarrow>
             (case (if n = Directory then Some 0 else cpCopied ce) of
                Some written \<Rightarrow>
                  let steps = copy_states name (source_data n) written fs
                  in (Some CopyFailed, steps @ (case os_Remove fails tempFilePath (last steps) of Inl _ \<Rightarrow> [] | Inr fs2 \<Rightarrow> [fs2]))
              | None \<Rightarrow>
                  let steps = copy_states name (source_data n) (length (source_data n)) fs
                  in if fails IOSync name then (Some FlushFailed, steps)
                     else if fails IOClose name then (Some CloseFailed, steps)
                     else (case replace_dest ce srcFilePath destFilePath name (last steps) of (err, sts) \<Rightarrow> (err, steps @ sts))))"

text \<open>The result and the states after the first one, in order.\<close>

definition CopyFileAtomic :: "copy_env \<Rightarrow> string \<Rightarrow> string \<Rightarrow> string \<Rightarrow> string \<Rightarrow> fsys \<Rightarrow> copy_error option \<times> fsys list" where
  "CopyFileAtomic ce srcFilePath destDir tempFileName destFileName fs =
     (let fails = cpFails ce;
          tempFilePath = filepath_Join destDir tempFileName
      in case (case os_Stat fails tempFilePath fs of Inl _ \<Rightarrow> Inr fs | Inr _ \<Rightarrow> os_Remove fails tempFilePath fs) of
           Inl _ \<Rightarrow> (Some RemoveOldTempFailed, [])
         | Inr fs1 \<Rightarrow>
             (case os_CreateTemp fails (cpRandoms ce) (cpTempDir ce) destDir tempFileName fs1 of
                Inl _ \<Rightarrow> (Some CreateTempFailed, [fs1])
              | Inr (name, fs2) \<Rightarrow>
                  (case copy_to_temp ce srcFilePath tempFilePath (filepath_Join destDir destFileName) name fs2 of
                     (err, sts) \<Rightarrow> (err, fs1 # fs2 # sts))))"

subsection \<open>Paths below a directory\<close>

definition plain_name :: "string \<Rightarrow> bool" where
  "plain_name x \<longleftrightarrow> CHR ''/'' \<notin> set x \<and> x \<noteq> [] \<and> x \<noteq> ''.'' \<and> x \<noteq> ''..''"

lemma split_on_append: "split_on c (a @ c # b) = split_on c a @ split_on c b"
  by (induction a) (auto split: list.splits simp: split_on_ne)

lemma split_on_plain: "c \<notin> set x \<Longrightarrow> split_on c x = [x]"
  by (induction x) auto

lemma clean_elems_snoc: "plain_name x \<Longrightarrow> clean_elems rooted st (es @ [x]) = clean_elems rooted st es @ [x]"
  by (induction rooted st es rule: clean_elems.induct) (auto simp: plain_name_def split: list.splits)

lemma clean_elems_gap: "clean_elems rooted st (es @ [] # fs) = clean_elems rooted st (es @ fs)"
  by (induction rooted st es rule: clean_elems.induct) (auto split: list.splits)

lemma join_slash_snoc: "join_slash (es @ [x]) = (if es = [] then x else join_slash es @ ''/'' @ x)"
  by (induction es rule: join_slash.induct) auto

text \<open>The cleaned path of a plain name in a directory: a part that depends on the directory, then the name.\<close>

definition dir_prefix :: "string \<Rightarrow> string" where
  "dir_prefix dir =
     (let rooted = (dir = [] \<or> hd dir = CHR ''/''); es = clean_elems rooted [] (split_on CHR ''/'' dir)
      in (if rooted then ''/'' else []) @ (if es = [] then [] else join_slash es @ ''/''))"

lemma Clean_below:
  assumes "plain_name x"
  shows "filepath_Clean (dir @ ''/'' @ x) = dir_prefix dir @ x"
proof -
  have "split_on CHR ''/'' (dir @ ''/'' @ x) = split_on CHR ''/'' dir @ [x]"
    using split_on_append [of "CHR ''/''" dir x] split_on_plain [of "CHR ''/''" x] assms by (simp add: plain_name_def)
  then show ?thesis using assms
    by (cases dir) (auto simp: filepath_Clean_def dir_prefix_def Let_def clean_elems_snoc [OF assms] join_slash_snoc plain_name_def)
qed

lemma dir_prefix_slash: "dir_prefix (dir @ ''/'') = dir_prefix dir"
  using split_on_append [of "CHR ''/''" dir "[]"] clean_elems_gap [of _ "[]" "split_on CHR ''/'' dir" "[]"]
  by (cases dir) (simp_all add: dir_prefix_def)

lemma Join_below: "dir \<noteq> [] \<Longrightarrow> plain_name x \<Longrightarrow> filepath_Join dir x = dir_prefix dir @ x"
  using Clean_below [of x dir] by (simp add: filepath_Join_def)

text \<open>\<open>filepath.Clean\<close> is idempotent: its stack holds names without slashes, and parent references only at the bottom of an unrooted one.\<close>

fun clean_stack :: "bool \<Rightarrow> string list \<Rightarrow> bool" where
  "clean_stack rooted [] = True"
| "clean_stack rooted (e # st) = (e \<noteq> [] \<and> e \<noteq> ''.'' \<and> CHR ''/'' \<notin> set e \<and> (e = ''..'' \<longrightarrow> \<not> rooted \<and> set st \<subseteq> {''..''}) \<and> clean_stack rooted st)"

lemma split_on_noslash: "e \<in> set (split_on c s) \<Longrightarrow> c \<notin> set e"
  by (induction s arbitrary: e) (auto split: if_splits list.splits)

lemma clean_elems_stack: "clean_stack rooted st \<Longrightarrow> \<forall>e \<in> set es. CHR ''/'' \<notin> set e \<Longrightarrow> clean_stack rooted (rev (clean_elems rooted st es))"
  by (induction rooted st es rule: clean_elems.induct) (auto split: list.splits)

lemma clean_elems_fixed: "clean_stack rooted (rev es @ st) \<Longrightarrow> clean_elems rooted st es = rev st @ es"
proof (induction es arbitrary: st)
  case (Cons e es)
  have "clean_stack rooted (e # st)"
  proof -
    have "clean_stack rooted (xs @ ys) \<Longrightarrow> clean_stack rooted ys" for xs ys by (induction xs) auto
    from this [of "rev es" "e # st"] show ?thesis using Cons.prems by (simp del: clean_stack.simps)
  qed
  moreover have "clean_elems rooted (e # st) es = rev (e # st) @ es" using Cons.IH [of "e # st"] Cons.prems by simp
  ultimately show ?case by (auto split: list.splits)
qed simp

lemma split_join: "es \<noteq> [] \<Longrightarrow> \<forall>e \<in> set es. CHR ''/'' \<notin> set e \<Longrightarrow> split_on CHR ''/'' (join_slash es) = es"
  by (induction es rule: join_slash.induct) (simp_all add: split_on_plain split_on_append [of "CHR ''/''", simplified])

lemma clean_stack_noslash: "clean_stack rooted st \<Longrightarrow> e \<in> set st \<Longrightarrow> CHR ''/'' \<notin> set e \<and> e \<noteq> []"
  by (induction st) auto

lemma filepath_Clean_idem [simp]: "filepath_Clean (filepath_Clean p) = filepath_Clean p"
proof -
  define rooted where "rooted = (p \<noteq> [] \<and> hd p = CHR ''/'')"
  define es where "es = clean_elems rooted [] (split_on CHR ''/'' p)"
  have st: "clean_stack rooted (rev es)" unfolding es_def by (rule clean_elems_stack) (auto dest: split_on_noslash)
  then have fx: "clean_elems rooted [] es = es" using clean_elems_fixed [of rooted es "[]"] by simp
  have ns: "CHR ''/'' \<notin> set e" "e \<noteq> []" if "e \<in> set es" for e using clean_stack_noslash [OF st, of e] that by auto
  have cl: "filepath_Clean p = (if rooted then CHR ''/'' # join_slash es else if join_slash es = [] then ''.'' else join_slash es)"
    by (simp add: filepath_Clean_def rooted_def es_def Let_def)
  show ?thesis
  proof (cases "es = []")
    case True
    then show ?thesis unfolding cl by (cases rooted) (simp_all add: filepath_Clean_def)
  next
    case False
    then obtain e es' where e: "es = e # es'" by (cases es) auto
    have sp: "split_on CHR ''/'' (join_slash es) = es" using split_join [OF False] ns by blast
    have "join_slash es \<noteq> [] \<and> hd (join_slash es) \<noteq> CHR ''/''" using ns [of e] unfolding e by (cases es'; cases e) auto
    then show ?thesis unfolding cl using sp fx by (cases rooted) (simp_all add: filepath_Clean_def Let_def)
  qed
qed

subsection \<open>The copy replaces the file at once or not at all\<close>

lemma fs_get_put [simp]: "fs_get (fs_put p n fs) q = (if q \<noteq> [] \<and> filepath_Clean q = filepath_Clean p then Some n else fs_get fs q)"
  by (simp add: fs_get_def fs_put_def AList.update_conv')

lemma fs_get_del [simp]: "fs_get (fs_del p fs) q = (if filepath_Clean q = filepath_Clean p then None else fs_get fs q)"
  by (simp add: fs_get_def fs_del_def AList.delete_conv')

lemma os_Remove_get: "os_Remove fails p fs = Inr fs' \<Longrightarrow> fs' = fs_del p fs"
  by (auto simp: os_Remove_def split: option.splits if_splits)

lemma create_fresh_law:
  assumes "create_fresh fails pre post rs fs = Inr (name, fs')"
  shows "\<exists>r \<in> set rs. name = pre @ r @ post \<and> fs_get fs name = None \<and> fs' = fs_put name (RegularFile [] 384) fs"
  using assms by (induction rs) (auto simp: Let_def split: if_splits)

lemma joinPath_below:
  assumes "dir \<noteq> []" "plain_name x"
  shows "filepath_Clean (joinPath dir x) = dir_prefix dir @ x"
proof (cases "last dir = CHR ''/''")
  case True
  then have d: "dir = butlast dir @ ''/''" using assms(1) by (metis append_butlast_last_id)
  then have "joinPath dir x = butlast dir @ ''/'' @ x" using True assms(1) unfolding joinPath_def by (metis append_assoc)
  then show ?thesis using Clean_below [OF assms(2), of "butlast dir"] dir_prefix_slash [of "butlast dir"] d by simp
qed (use assms Clean_below in \<open>simp add: joinPath_def\<close>)

text \<open>What is assumed of the names: plain ones, a pattern without a star, and random numbers that are not empty.\<close>

definition copy_names :: "copy_env \<Rightarrow> string \<Rightarrow> string \<Rightarrow> string \<Rightarrow> bool" where
  "copy_names ce destDir tempFileName destFileName \<longleftrightarrow> destDir \<noteq> [] \<and> plain_name tempFileName \<and> plain_name destFileName \<and> CHR ''*'' \<notin> set tempFileName \<and>
     destFileName \<noteq> tempFileName \<and> list_all (\<lambda>r. r \<noteq> [] \<and> list_all is_digit r \<and> destFileName \<noteq> tempFileName @ r) (cpRandoms ce)"

lemma digit_noslash: "list_all is_digit r \<Longrightarrow> CHR ''/'' \<notin> set r"
  by (auto simp: list_all_iff is_digit_def)

lemma plain_name_digits: "plain_name x \<Longrightarrow> list_all is_digit r \<Longrightarrow> plain_name (x @ r)"
proof -
  assume a: "plain_name x" "list_all is_digit r"
  have "r = []" if "x @ r = ''.'' \<or> x @ r = ''..''"
    using that a by (auto simp: plain_name_def append_eq_Cons_conv is_digit_def)
  then show ?thesis using a digit_noslash [OF a(2)] by (cases "r = []") (auto simp: plain_name_def)
qed

lemma joinPath_append: "joinPath dir x @ r = joinPath dir (x @ r)"
  by (simp add: joinPath_def)

lemma CreateTemp_name:
  assumes n: "copy_names ce destDir tempFileName destFileName"
    and c: "os_CreateTemp fails (cpRandoms ce) tmp destDir tempFileName fs = Inr (name, fs')"
  shows "\<exists>r \<in> set (cpRandoms ce). name = joinPath destDir (tempFileName @ r) \<and> filepath_Clean name = filepath_Join destDir (tempFileName @ r) \<and>
    filepath_Clean name = dir_prefix destDir @ tempFileName @ r \<and> fs_get fs name = None \<and> fs' = fs_put name (RegularFile [] 384) fs"
proof -
  note nm = n [unfolded copy_names_def]
  have "str_CutLast CHR ''*'' tempFileName = None" using nm by (simp add: str_CutLast_def str_Cut_none)
  then have "create_fresh fails (joinPath destDir tempFileName) [] (cpRandoms ce) fs = Inr (name, fs')"
    using c nm by (auto simp: os_CreateTemp_def split: if_splits)
  from create_fresh_law [OF this] obtain r where r: "r \<in> set (cpRandoms ce)" "name = joinPath destDir (tempFileName @ r)" "fs_get fs name = None"
    "fs' = fs_put name (RegularFile [] 384) fs" by (auto simp: joinPath_append)
  have "plain_name (tempFileName @ r)" using plain_name_digits nm r(1) by (auto simp: list_all_iff)
  then show ?thesis using r joinPath_below [of destDir "tempFileName @ r"] Join_below [of destDir "tempFileName @ r"] nm by auto
qed

lemma CreateTemp_law:
  assumes n: "copy_names ce destDir tempFileName destFileName"
    and c: "os_CreateTemp fails (cpRandoms ce) tmp destDir tempFileName fs = Inr (name, fs')"
  shows "fs_get fs name = None" "fs' = fs_put name (RegularFile [] 384) fs" "name \<noteq> []"
    "filepath_Clean name \<noteq> filepath_Clean (filepath_Join destDir tempFileName)" "filepath_Clean name \<noteq> filepath_Clean (filepath_Join destDir destFileName)"
proof -
  note nm = n [unfolded copy_names_def]
  obtain r where r: "r \<in> set (cpRandoms ce)" "name = joinPath destDir (tempFileName @ r)" "filepath_Clean name = dir_prefix destDir @ tempFileName @ r"
    "fs_get fs name = None" "fs' = fs_put name (RegularFile [] 384) fs" using CreateTemp_name [OF n c] by blast
  have rd: "r \<noteq> []" "destFileName \<noteq> tempFileName @ r" using nm r(1) by (auto simp: list_all_iff)
  have pt: "filepath_Clean (filepath_Join destDir x) = dir_prefix destDir @ x" if "plain_name x" for x
    using Join_below [of destDir x] that nm by (metis filepath_Clean_idem filepath_Join_def)
  show "fs_get fs name = None" "fs' = fs_put name (RegularFile [] 384) fs" using r by auto
  show "name \<noteq> []" unfolding r(2) by (simp add: joinPath_def)
  show "filepath_Clean name \<noteq> filepath_Clean (filepath_Join destDir tempFileName)" using r(3) pt nm rd(1) by simp
  show "filepath_Clean name \<noteq> filepath_Clean (filepath_Join destDir destFileName)" using r(3) pt nm rd(2) by simp
qed

lemma copy_states_get:
  assumes "st \<in> set (copy_states name data n fs)" "filepath_Clean q \<noteq> filepath_Clean name"
  shows "fs_get st q = fs_get fs q"
  using assms by (auto simp: copy_states_def)

lemma last_copy_states: "last (copy_states name data n fs) = fs_put name (RegularFile (take n data) 384) fs"
proof -
  have "last (copy_states name data n fs) = fs_put name (RegularFile (take (min n (length data)) data) 384) fs" by (simp add: copy_states_def)
  then show ?thesis by (cases "n \<le> length data") simp_all
qed

lemma replace_dest_law:
  assumes f: "fs_get fs name = Some (RegularFile data m0)" "fs_get fs src = Some (RegularFile data m)" "filepath_Clean name \<noteq> filepath_Clean dest"
    "replace_dest ce src dest name fs = (err, sts)"
  shows "st \<in> set sts \<Longrightarrow> fs_get st dest = fs_get fs dest \<or> fs_get st dest = Some (RegularFile data m)"
    and "err = None \<Longrightarrow> sts \<noteq> [] \<and> last sts = fs_put dest (RegularFile data m) (fs_del name (fs_put name (RegularFile data m) fs))"
proof -
  have nn: "name \<noteq> []" using f(1) by (auto simp: fs_get_def)
  note d = f(4) [unfolded replace_dest_def os_Stat_def os_Chmod_def os_Rename_def Let_def f(1,2)]
  show "st \<in> set sts \<Longrightarrow> fs_get st dest = fs_get fs dest \<or> fs_get st dest = Some (RegularFile data m)"
    using d nn f(3) by (auto simp: file_mode_def split: if_splits option.splits)
  show "err = None \<Longrightarrow> sts \<noteq> [] \<and> last sts = fs_put dest (RegularFile data m) (fs_del name (fs_put name (RegularFile data m) fs))"
    using d nn f(3) by (auto simp: file_mode_def split: if_splits option.splits)
qed

text \<open>The destination is as it was, or the complete copy of the node \<open>x\<close>.\<close>

definition old_or_copy :: "string \<Rightarrow> fsys \<Rightarrow> fnode \<Rightarrow> fsys \<Rightarrow> bool" where
  "old_or_copy dest fs x st \<longleftrightarrow> fs_get st dest = fs_get fs dest \<or> (\<exists>data m. x = RegularFile data m \<and> fs_get st dest = Some x)"

lemma old_or_copyI: "fs_get st dest = fs_get fs dest \<Longrightarrow> old_or_copy dest fs x st"
  by (simp add: old_or_copy_def)

lemma copy_to_temp_law:
  assumes fr: "fs_get fs name = None" "name \<noteq> []" "filepath_Clean name \<noteq> filepath_Clean tmp" "filepath_Clean name \<noteq> filepath_Clean dest" "filepath_Clean tmp \<noteq> filepath_Clean dest"
    "dest \<noteq> []" and src: "fs_get fs src = Some x"
    and c: "copy_to_temp ce src tmp dest name (fs_put name (RegularFile [] 384) fs) = (err, sts)"
  shows "list_all (old_or_copy dest fs x) sts \<and> (err = None \<longrightarrow> sts \<noteq> [] \<and> fs_get (last sts) dest = Some x \<and>
      (\<forall>q. filepath_Clean q \<noteq> filepath_Clean dest \<longrightarrow> fs_get (last sts) q = fs_get fs q))"
proof -
  let ?fs = "fs_put name (RegularFile [] 384) fs"
  have "src \<noteq> []" using src by (auto simp: fs_get_def)
  then have sn: "filepath_Clean src \<noteq> filepath_Clean name" using fr(1,2) src by (auto simp: fs_get_def)
  have op: "map_of ?fs (filepath_Clean src) = Some x" using src sn \<open>src \<noteq> []\<close> by (simp add: fs_get_def fs_put_def AList.update_conv')
  have steps: "list_all (old_or_copy dest fs x) (copy_states name d n ?fs)" for d n
    using copy_states_get [where q = dest and name = name and fs = ?fs] fr(4) by (auto simp: list_all_iff intro!: old_or_copyI)
  have rem: "old_or_copy dest fs x fs2" if "os_Remove f tmp (last (copy_states name d n ?fs)) = Inr fs2" for f d n fs2
    using os_Remove_get [OF that] fr(4,5) by (intro old_or_copyI) (simp add: last_copy_states)
  note cc = c [unfolded copy_to_temp_def Let_def op]
  show ?thesis
  proof (cases "cpFails ce IOOpen src")
    case False
    show ?thesis
    proof (cases x)
      case (RegularFile data m)
      show ?thesis
      proof (cases "cpCopied ce")
        case None
        let ?ss = "copy_states name data (length data) ?fs"
        obtain err1 sts1 where r: "replace_dest ce src dest name (last ?ss) = (err1, sts1)" by fastforce
        have l: "fs_get (last ?ss) name = Some (RegularFile data 384)" "fs_get (last ?ss) src = Some (RegularFile data m)"
          using fr(2) src sn RegularFile by (simp_all add: last_copy_states)
        note rl = replace_dest_law [OF l fr(4) r]
        have st: "list_all (old_or_copy dest fs x) sts1"
          using rl(1) RegularFile fr(4) by (auto simp: list_all_iff old_or_copy_def last_copy_states)
        show ?thesis
        proof (cases "cpFails ce IOSync name \<or> cpFails ce IOClose name")
          case True
          then show ?thesis using cc None False RegularFile steps by (auto simp: source_data_def split: if_splits)
        next
          case ok: False
          then have e: "err = err1" "sts = ?ss @ sts1" using cc None False RegularFile r by (auto simp: source_data_def)
          have "sts \<noteq> [] \<and> fs_get (last sts) dest = Some x \<and> (\<forall>q. filepath_Clean q \<noteq> filepath_Clean dest \<longrightarrow> fs_get (last sts) q = fs_get fs q)" if "err = None"
          proof -
            have k: "sts1 \<noteq> []" "last sts1 = fs_put dest (RegularFile data m) (fs_del name (fs_put name (RegularFile data m) (last ?ss)))" using rl(2) e(1) that by auto
            have "fs_get fs q = None" if "filepath_Clean q = filepath_Clean name" for q using that fr(1,2) by (simp add: fs_get_def)
            then show ?thesis using k fr(6) RegularFile e(2) by (auto simp: last_copy_states)
          qed
          then show ?thesis using e steps st by simp
        qed
      qed (use cc False RegularFile steps rem in \<open>auto split: sum.splits\<close>)
    qed (use cc False steps rem in \<open>auto split: option.splits sum.splits\<close>)
  qed (use cc in auto)
qed

lemma Join_path:
  assumes "copy_names ce destDir t d"
  shows "filepath_Clean (filepath_Join destDir t) = dir_prefix destDir @ t" "filepath_Clean (filepath_Join destDir d) = dir_prefix destDir @ d"
    "filepath_Clean (filepath_Join destDir t) \<noteq> filepath_Clean (filepath_Join destDir d)" "filepath_Join destDir d \<noteq> []" "filepath_Join destDir t \<noteq> []"
    "filepath_Clean destDir \<noteq> filepath_Clean (filepath_Join destDir t)"
proof -
  note n = assms [unfolded copy_names_def]
  have j: "filepath_Join destDir t = dir_prefix destDir @ t" "filepath_Join destDir d = dir_prefix destDir @ d" using Join_below n by auto
  then show e: "filepath_Clean (filepath_Join destDir t) = dir_prefix destDir @ t" "filepath_Clean (filepath_Join destDir d) = dir_prefix destDir @ d"
    by (metis filepath_Clean_idem filepath_Join_def n)+
  show "filepath_Clean (filepath_Join destDir t) \<noteq> filepath_Clean (filepath_Join destDir d)" using e n by auto
  show "filepath_Join destDir d \<noteq> []" "filepath_Join destDir t \<noteq> []" using j n by (auto simp: plain_name_def)
  define rooted where "rooted = (hd destDir = CHR ''/'')"
  define es where "es = clean_elems rooted [] (split_on CHR ''/'' destDir)"
  have c: "filepath_Clean destDir = (if rooted then CHR ''/'' # join_slash es else if join_slash es = [] then ''.'' else join_slash es)"
    "dir_prefix destDir = (if rooted then ''/'' else []) @ (if es = [] then [] else join_slash es @ ''/'')"
    using n by (simp_all add: filepath_Clean_def dir_prefix_def rooted_def es_def Let_def)
  have "filepath_Clean destDir \<noteq> dir_prefix destDir @ t"
  proof (cases "es = []")
    case True
    then show ?thesis using n unfolding c by (auto simp: plain_name_def)
  next
    case False
    have "length (filepath_Clean destDir) \<le> Suc (length (join_slash es))" "length (dir_prefix destDir @ t) > Suc (length (join_slash es))"
      using False n unfolding c by (auto simp: plain_name_def split: if_splits)
    then show ?thesis by (metis not_less)
  qed
  then show "filepath_Clean destDir \<noteq> filepath_Clean (filepath_Join destDir t)" unfolding e .
qed

text \<open>The first step, removing a left-over temporary file.\<close>

lemma remove_old_law:
  assumes "(case os_Stat fails tmp fs of Inl _ \<Rightarrow> Inr fs | Inr _ \<Rightarrow> os_Remove fails tmp fs) = Inr fs1"
  shows "fs1 = fs \<or> fs1 = fs_del tmp fs"
  using assms by (auto split: sum.splits dest: os_Remove_get)

lemma CopyFileAtomic_law:
  assumes n: "copy_names ce destDir tempFileName destFileName" and src: "fs_get fs srcFilePath = Some x"
    and c: "CopyFileAtomic ce srcFilePath destDir tempFileName destFileName fs = (err, sts)"
  shows "list_all (old_or_copy (filepath_Join destDir destFileName) fs x) sts \<and>
    (err = None \<longrightarrow> sts \<noteq> [] \<and> fs_get (last sts) (filepath_Join destDir destFileName) = Some x \<and>
       (\<forall>q. filepath_Clean q \<noteq> filepath_Join destDir destFileName \<and> filepath_Clean q \<noteq> filepath_Join destDir tempFileName \<longrightarrow>
          fs_get (last sts) q = fs_get fs q))"
proof -
  let ?tmp = "filepath_Join destDir tempFileName" and ?dest = "filepath_Join destDir destFileName"
  note jp = Join_path [OF n]
  have id: "filepath_Clean ?tmp = ?tmp" "filepath_Clean ?dest = ?dest" by (simp_all add: filepath_Join_def)
  show ?thesis
  proof (cases "case os_Stat (cpFails ce) ?tmp fs of Inl _ \<Rightarrow> Inr fs | Inr _ \<Rightarrow> os_Remove (cpFails ce) ?tmp fs")
    case (Inl e)
    then show ?thesis using c by (auto simp: CopyFileAtomic_def Let_def)
  next
    case (Inr fs1)
    have f1: "fs1 = fs \<or> fs1 = fs_del ?tmp fs" using remove_old_law [OF Inr] .
    have same: "fs_get fs1 q = fs_get fs q" if "filepath_Clean q \<noteq> filepath_Clean ?tmp" for q using that f1 by auto
    have old: "old_or_copy ?dest fs x fs1" using same jp(3) by (intro old_or_copyI) metis
    show ?thesis
    proof (cases "os_CreateTemp (cpFails ce) (cpRandoms ce) (cpTempDir ce) destDir tempFileName fs1")
      case (Inl e)
      then show ?thesis using c Inr old by (auto simp: CopyFileAtomic_def Let_def)
    next
      case cr: (Inr nf)
      obtain name fs2 where nf: "nf = (name, fs2)" by fastforce
      note ct = CreateTemp_law [OF n cr [unfolded nf]]
      obtain err1 sts1 where r: "copy_to_temp ce srcFilePath ?tmp ?dest name fs2 = (err1, sts1)" by fastforce
      have e: "err = err1" "sts = fs1 # fs2 # sts1" using c Inr cr nf r by (auto simp: CopyFileAtomic_def Let_def)
      have g2: "fs_get fs2 ?dest = fs_get fs1 ?dest" using ct(2,5) by auto
      have old2: "old_or_copy ?dest fs x fs2" using g2 same jp(3) by (intro old_or_copyI) metis
      show ?thesis
      proof (cases "fs_get fs1 srcFilePath")
        case None
        have "srcFilePath \<noteq> []" "filepath_Clean srcFilePath = filepath_Clean ?tmp" using src None same [of srcFilePath] by (auto simp: fs_get_def)
        then have "map_of fs2 (filepath_Clean srcFilePath) = None" using ct(2,4) None by (auto simp: fs_get_def fs_put_def AList.update_conv')
        then have "err1 = Some OpenSourceFailed" "sts1 = []" using r by (auto simp: copy_to_temp_def Let_def split: if_splits)
        then show ?thesis using e old old2 by simp
      next
        case (Some y)
        then have s1: "fs_get fs1 srcFilePath = Some x" using src f1 by (auto split: if_splits)
        have cl: "list_all (old_or_copy ?dest fs1 x) sts1 \<and> (err1 = None \<longrightarrow> sts1 \<noteq> [] \<and> fs_get (last sts1) ?dest = Some x \<and>
            (\<forall>q. filepath_Clean q \<noteq> filepath_Clean ?dest \<longrightarrow> fs_get (last sts1) q = fs_get fs1 q))"
          by (rule copy_to_temp_law [OF ct(1,3,4,5) jp(3,4) s1 r [unfolded ct(2)]])
        moreover have "old_or_copy ?dest fs1 x = old_or_copy ?dest fs x" using same [of ?dest] jp(3) by (auto simp: old_or_copy_def)
        ultimately show ?thesis using e old old2 same id by auto
      qed
    qed
  qed
qed

text \<open>C20: Replacing a file is atomic.  Whatever step fails and wherever the process is interrupted, the destination holds what it held
  before or the complete copy of the source with its mode; when the call succeeds it holds the copy, and no other file has
  changed except that a left-over temporary file is gone.\<close>

theorem CopyFileAtomic_atomic:
  assumes n: "copy_names ce destDir tempFileName destFileName" and src: "fs_get fs srcFilePath = Some x"
    and c: "CopyFileAtomic ce srcFilePath destDir tempFileName destFileName fs = (err, sts)"
  shows "list_all (old_or_copy (filepath_Join destDir destFileName) fs x) sts \<and>
    (err = None \<longrightarrow> sts \<noteq> [] \<and> fs_get (last sts) (filepath_Join destDir destFileName) = Some x \<and>
       (\<forall>q. filepath_Clean q \<noteq> filepath_Join destDir destFileName \<and> filepath_Clean q \<noteq> filepath_Join destDir tempFileName \<longrightarrow>
          fs_get (last sts) q = fs_get fs q))"
  by (rule CopyFileAtomic_law [OF assms])

text \<open>Without faults of the host the call gets as far as copying: the directory exists, the path of the temporary file is not a directory, and
  one of the random numbers is not taken.\<close>

definition copy_ready :: "copy_env \<Rightarrow> string \<Rightarrow> string \<Rightarrow> fsys \<Rightarrow> bool" where
  "copy_ready ce destDir tempFileName fs \<longleftrightarrow> (\<forall>op p. \<not> cpFails ce op p) \<and> fs_get fs destDir = Some Directory \<and>
     fs_get fs (filepath_Join destDir tempFileName) \<noteq> Some Directory \<and> list_ex (\<lambda>r. fs_get fs (joinPath destDir tempFileName @ r) = None) (cpRandoms ce)"

lemma create_fresh_found:
  "\<forall>op p. \<not> fails op p \<Longrightarrow> list_ex (\<lambda>r. fs_get fs (pre @ r @ post) = None) rs \<Longrightarrow> \<exists>name fs'. create_fresh fails pre post rs fs = Inr (name, fs')"
  by (induction rs) (auto simp: Let_def)

lemma copy_started:
  assumes n: "copy_names ce destDir t d" and r: "copy_ready ce destDir t fs"
    and src: "fs_get fs src = Some (RegularFile data mode)" "filepath_Clean src \<noteq> filepath_Join destDir t"
  obtains name fs1 where "fs1 = fs \<or> fs1 = fs_del (filepath_Join destDir t) fs" "fs_get fs name = None" "name \<noteq> []"
    "filepath_Clean name \<noteq> filepath_Clean (filepath_Join destDir t)" "filepath_Clean name \<noteq> filepath_Clean (filepath_Join destDir d)"
    "filepath_Clean src \<noteq> filepath_Clean name" "fs_get fs1 src = Some (RegularFile data mode)"
    "map_of (fs_put name (RegularFile [] 384) fs1) (filepath_Clean src) = Some (RegularFile data mode)"
    "CopyFileAtomic ce src destDir t d fs =
       (case copy_to_temp ce src (filepath_Join destDir t) (filepath_Join destDir d) name (fs_put name (RegularFile [] 384) fs1) of
          (err, sts) \<Rightarrow> (err, fs1 # fs_put name (RegularFile [] 384) fs1 # sts))"
proof -
  note rd = r [unfolded copy_ready_def] and nm = n [unfolded copy_names_def]
  let ?tmp = "filepath_Join destDir t"
  obtain fs1 where f1: "(case os_Stat (cpFails ce) ?tmp fs of Inl _ \<Rightarrow> Inr fs | Inr _ \<Rightarrow> os_Remove (cpFails ce) ?tmp fs) = Inr fs1"
    using rd by (cases "fs_get fs ?tmp") (auto simp: os_Stat_def os_Remove_def)
  note fc = remove_old_law [OF f1]
  have gone: "fs_get fs q = None \<Longrightarrow> fs_get fs1 q = None" for q using fc by auto
  have dir: "fs_get fs1 destDir = Some Directory" using fc rd Join_path(6) [OF n] by auto
  have star: "str_CutLast CHR ''*'' t = None" "CHR ''/'' \<notin> set t" using nm by (simp_all add: str_CutLast_def str_Cut_none plain_name_def)
  have "list_ex (\<lambda>r. fs_get fs1 (joinPath destDir t @ r @ []) = None) (cpRandoms ce)" using rd gone by (auto simp: list_ex_iff)
  then obtain name fs2 where "create_fresh (cpFails ce) (joinPath destDir t) [] (cpRandoms ce) fs1 = Inr (name, fs2)"
    using create_fresh_found [of "cpFails ce"] rd by blast
  then have c: "os_CreateTemp (cpFails ce) (cpRandoms ce) (cpTempDir ce) destDir t fs1 = Inr (name, fs2)"
    using nm star dir by (simp add: os_CreateTemp_def)
  note ct = CreateTemp_law [OF n c]
  have ne: "src \<noteq> []" using src(1) by (auto simp: fs_get_def)
  have g: "fs_get fs1 src = Some (RegularFile data mode)" using fc src by (auto simp: filepath_Join_def)
  then have sn: "filepath_Clean src \<noteq> filepath_Clean name" using ct(1,3) ne by (auto simp: fs_get_def)
  then have op: "map_of (fs_put name (RegularFile [] 384) fs1) (filepath_Clean src) = Some (RegularFile data mode)"
    using g ne by (simp add: fs_get_def fs_put_def AList.update_conv')
  have "fs_get fs name = None" using ct(1,4) fc by auto
  then show ?thesis using that [OF fc _ ct(3-5) sn g op] f1 c ct(2) by (simp add: CopyFileAtomic_def Let_def)
qed

text \<open>Nothing but a fault of the host keeps the copy from being made: if the source is a regular file, the directory exists, neither the
  destination nor the temporary file is a directory and no call fails, the call succeeds, also when an earlier attempt was
  interrupted and left files behind.\<close>

lemma CopyFileAtomic_succeeds:
  assumes n: "copy_names ce destDir tempFileName destFileName" and r: "copy_ready ce destDir tempFileName fs" "cpCopied ce = None"
    and src: "fs_get fs srcFilePath = Some (RegularFile data mode)" "filepath_Clean srcFilePath \<noteq> filepath_Join destDir tempFileName"
    and dest: "fs_get fs (filepath_Join destDir destFileName) \<noteq> Some Directory"
  shows "fst (CopyFileAtomic ce srcFilePath destDir tempFileName destFileName fs) = None"
proof (rule copy_started [OF n r(1) src])
  let ?tmp = "filepath_Join destDir tempFileName" and ?dest = "filepath_Join destDir destFileName"
  fix name fs1
  assume s: "fs1 = fs \<or> fs1 = fs_del ?tmp fs" "name \<noteq> []" "filepath_Clean name \<noteq> filepath_Clean ?dest" "filepath_Clean srcFilePath \<noteq> filepath_Clean name"
    "fs_get fs1 srcFilePath = Some (RegularFile data mode)"
    "map_of (fs_put name (RegularFile [] 384) fs1) (filepath_Clean srcFilePath) = Some (RegularFile data mode)"
    "CopyFileAtomic ce srcFilePath destDir tempFileName destFileName fs =
       (case copy_to_temp ce srcFilePath ?tmp ?dest name (fs_put name (RegularFile [] 384) fs1) of (err, sts) \<Rightarrow> (err, fs1 # fs_put name (RegularFile [] 384) fs1 # sts))"
  have nf: "\<not> cpFails ce op p" for op p using r(1) by (simp add: copy_ready_def)
  have g: "fs_get fs1 ?dest \<noteq> Some Directory" using s(1) dest by (auto split: if_splits)
  have "fst (replace_dest ce srcFilePath ?dest name (last (copy_states name data (length data) (fs_put name (RegularFile [] 384) fs1)))) = None"
    using nf g s(2-5) by (auto simp: replace_dest_def os_Stat_def os_Chmod_def os_Rename_def last_copy_states split: option.splits)
  then show "fst (CopyFileAtomic ce srcFilePath destDir tempFileName destFileName fs) = None"
    using s(6,7) nf r(2) by (simp add: copy_to_temp_def source_data_def case_prod_unfold Let_def)
qed

text \<open>C35: A copy that breaks off leaves its partial file behind.  The clean-up after a failed write removes the path of the pattern, not the file that
  was created under a random name, which keeps the bytes written so far.\<close>

theorem failed_copy_leaves_file:
  assumes n: "copy_names ce destDir tempFileName destFileName" and r: "copy_ready ce destDir tempFileName fs" "cpCopied ce = Some written"
    and src: "fs_get fs srcFilePath = Some (RegularFile data mode)" "filepath_Clean srcFilePath \<noteq> filepath_Join destDir tempFileName"
  shows "\<exists>name sts. CopyFileAtomic ce srcFilePath destDir tempFileName destFileName fs = (Some CopyFailed, sts) \<and> fs_get fs name = None \<and>
    fs_get (last sts) name = Some (RegularFile (take written data) 384)"
proof (rule copy_started [OF n r(1) src])
  let ?tmp = "filepath_Join destDir tempFileName" and ?dest = "filepath_Join destDir destFileName"
  fix name fs1
  assume s: "fs_get fs name = None" "name \<noteq> []" "filepath_Clean name \<noteq> filepath_Clean ?tmp"
    "map_of (fs_put name (RegularFile [] 384) fs1) (filepath_Clean srcFilePath) = Some (RegularFile data mode)"
    "CopyFileAtomic ce srcFilePath destDir tempFileName destFileName fs =
       (case copy_to_temp ce srcFilePath ?tmp ?dest name (fs_put name (RegularFile [] 384) fs1) of (err, sts) \<Rightarrow> (err, fs1 # fs_put name (RegularFile [] 384) fs1 # sts))"
  have nf: "\<not> cpFails ce op p" for op p using r(1) by (simp add: copy_ready_def)
  let ?ss = "copy_states name data written (fs_put name (RegularFile [] 384) fs1)"
  have ss: "?ss \<noteq> []" by (simp add: copy_states_def)
  define tail where "tail = (case os_Remove (cpFails ce) ?tmp (last ?ss) of Inl _ \<Rightarrow> [] | Inr fs2 \<Rightarrow> [fs2])"
  have c: "CopyFileAtomic ce srcFilePath destDir tempFileName destFileName fs = (Some CopyFailed, fs1 # fs_put name (RegularFile [] 384) fs1 # ?ss @ tail)"
    using s(4,5) nf r(2) by (simp add: copy_to_temp_def source_data_def tail_def Let_def)
  have "fs_get (last (?ss @ tail)) name = Some (RegularFile (take written data) 384)"
    using s(2,3) ss by (auto simp: tail_def last_copy_states split: sum.splits dest!: os_Remove_get)
  then show ?thesis using c s(1) ss by (intro exI [of _ name]) auto
qed

subsection \<open>An example\<close>

definition ex_host :: fsys where
  "ex_host = [(''/nv-ipam'', RegularFile ''binary'' 493), (''/opt/cni/bin'', Directory), (''/opt/cni/bin/nv-ipam'', RegularFile ''old'' 493),
     (''/opt/cni/bin/_nv-ipam'', RegularFile ''left'' 384), (''/opt/cni/bin/_nv-ipam7'', RegularFile ''bi'' 384)]"

definition ex_copy :: "nat option \<Rightarrow> copy_env" where
  "ex_copy broken = \<lparr>cpFails = (\<lambda>_ _. False), cpRandoms = [''7'', ''12''], cpTempDir = ''/tmp'', cpCopied = broken\<rparr>"

abbreviation ex_deploy :: "nat option \<Rightarrow> copy_error option \<times> fsys list" where
  "ex_deploy broken \<equiv> CopyFileAtomic (ex_copy broken) ''/nv-ipam'' ''/opt/cni/bin'' ''_nv-ipam'' ''nv-ipam'' ex_host"

lemma ex_copy_ok:
  "copy_names (ex_copy broken) ''/opt/cni/bin'' ''_nv-ipam'' ''nv-ipam''" "copy_ready (ex_copy broken) ''/opt/cni/bin'' ''_nv-ipam'' ex_host"
  "filepath_Join ''/opt/cni/bin'' ''nv-ipam'' = ''/opt/cni/bin/nv-ipam''"
proof -
  have "plain_name ''_nv-ipam''" "plain_name ''nv-ipam''" "list_all is_digit ''7''" "list_all is_digit ''12''" by code_simp+
  then show "copy_names (ex_copy broken) ''/opt/cni/bin'' ''_nv-ipam'' ''nv-ipam''" by (simp add: copy_names_def ex_copy_def)
  have "fs_get ex_host ''/opt/cni/bin'' = Some Directory" "fs_get ex_host (filepath_Join ''/opt/cni/bin'' ''_nv-ipam'') \<noteq> Some Directory"
    "fs_get ex_host (joinPath ''/opt/cni/bin'' ''_nv-ipam'' @ ''12'') = None" by code_simp+
  then show "copy_ready (ex_copy broken) ''/opt/cni/bin'' ''_nv-ipam'' ex_host" by (simp add: copy_ready_def ex_copy_def)
qed code_simp

lemma ex_source: "fs_get ex_host ''/nv-ipam'' = Some (RegularFile ''binary'' 493)" "filepath_Clean ''/nv-ipam'' \<noteq> filepath_Join ''/opt/cni/bin'' ''_nv-ipam''"
  by code_simp+

theorem CopyFileAtomic_atomic_witness:
  "\<exists>sts. ex_deploy None = (None, sts) \<and> list_all (old_or_copy ''/opt/cni/bin/nv-ipam'' ex_host (RegularFile ''binary'' 493)) sts \<and>
     fs_get (last sts) ''/opt/cni/bin/nv-ipam'' = Some (RegularFile ''binary'' 493)"
proof -
  have "fst (ex_deploy None) = None" by code_simp
  then obtain sts where "ex_deploy None = (None, sts)" by (cases "ex_deploy None") auto
  with CopyFileAtomic_atomic [OF ex_copy_ok(1) ex_source(1) this] show ?thesis by (simp add: ex_copy_ok(3))
qed

theorem failed_copy_leaves_file_witness:
  "\<exists>name sts. ex_deploy (Some 3) = (Some CopyFailed, sts) \<and> fs_get ex_host name = None \<and> fs_get (last sts) name = Some (RegularFile ''bin'' 384)"
  using failed_copy_leaves_file [OF ex_copy_ok(1,2) _ ex_source, of "Some 3" 3] by (simp add: ex_copy_def)

end
