(* ===== verification/Startup.thy ===== *)
theory Startup
  imports HostFiles Daemon
begin

text \<open>
  The start of the node daemon (\<open>cmd/ipam-node/app/app.go\<close>): deploying the CNI plugin, locking and checking the store, and taking over the
  socket.  The host is its files and, for the paths whose present file is locked, that it is.  A lock belongs to a file and not to
  its path: a file that replaces a locked one (\<open>renameio\<close>) is not locked.
\<close>

subsection \<open>The host\<close>

record host =
  hsFiles :: fsys
  hsLocked :: "string list"

datatype setup_step =
    ClientScheme | IpamScheme | Manager | DirectClient | IPPoolController | CIDRPoolController | HealthzCheck | ReadyzCheck

record host_env =
  heCopy :: copy_env
  heSetup :: "setup_step \<Rightarrow> bool"
  heEnv :: env
  heCommon :: "string option"
  heClientConfig :: bool

abbreviation heFails :: "host_env \<Rightarrow> io_faults" where
  "heFails he \<equiv> cpFails (heCopy he)"

datatype startup_error =
    CopyBinaryFailed copy_error | WriteConfigFailed | SetupFailed setup_step | LockFailed | StoreLocked | InvalidStore store_error |
    BindAddressError bind_error | StatSocketFailed | NotASocket | RemoveSocketFailed | ListenFailed

subsection \<open>The plugin\<close>

text \<open>\<open>%v\<close> of a bool.\<close>

definition bool_text :: "bool \<Rightarrow> string" where
  "bool_text b = (if b then ''true'' else ''false'')"

definition newline :: string where "newline = [CHR 10]"

definition quoted :: "string \<Rightarrow> string" where
  "quoted x = [CHR 34] @ x @ [CHR 34]"

definition shim_config :: "node_options \<Rightarrow> string" where
  "shim_config opts =
     ''{'' @ newline @
     ''  '' @ quoted ''daemonSocket'' @ '':    '' @ quoted (noCNIDaemonSocket opts) @ '','' @ newline @
     ''  '' @ quoted ''daemonCallTimeoutSeconds'' @ '':    '' @ itoa (noCNIDaemonCallTimeoutSeconds opts) @ '','' @ newline @
     ''  '' @ quoted ''logFile'' @ '':   '' @ quoted (noCNILogFile opts) @ '','' @ newline @
     ''  '' @ quoted ''logLevel'' @ '': '' @ quoted (noCNILogLevel opts) @ '','' @ newline @
     ''  '' @ quoted ''forcePoolName'' @ '': '' @ bool_text (noCNIForcePoolName opts) @ newline @ ''}''"

definition createNVIPAMConfig :: "io_faults \<Rightarrow> node_options \<Rightarrow> fsys \<Rightarrow> startup_error option \<times> fsys" where
  "createNVIPAMConfig fails opts fs =
     (let p = filepath_Join (noCNIConfDir opts) ConfFileName
      in if fails IOWrite p \<or> fs_get fs p = Some Directory then (Some WriteConfigFailed, fs)
         else (None, fs_put p (RegularFile (shim_config opts) 436) fs))"

definition deployShimCNI :: "host_env \<Rightarrow> node_options \<Rightarrow> fsys \<Rightarrow> startup_error option \<times> fsys" where
  "deployShimCNI he opts fs =
     (let (err, fs1) =
          (if \<not> noCNISkipBinFileCopy opts then
             (case CopyFileAtomic (heCopy he) (noCNIBinFile opts) (noCNIBinDir opts) ''_nv-ipam'' ''nv-ipam'' fs of
                (err, sts) \<Rightarrow> (map_option CopyBinaryFailed err, last (fs # sts)))
           else (None, fs))
      in if err \<noteq> None then (err, fs1)
         else if \<not> noCNISkipConfigCreation opts then createNVIPAMConfig (heFails he) opts fs1
         else (None, fs1))"

subsection \<open>The socket\<close>

definition cleanUNIXSocketIfRequired :: "io_faults \<Rightarrow> node_options \<Rightarrow> fsys \<Rightarrow> startup_error + fsys" where
  "cleanUNIXSocketIfRequired fails opts fs =
     (let socketPrefix = ''unix://''
      in if \<not> HasPrefix (noBindAddress opts) socketPrefix then Inr fs
         else
           let socketPath = drop (length socketPrefix) (noBindAddress opts)
           in (case os_Stat fails socketPath fs of
                 Inl err \<Rightarrow> (if err = ErrNotExist then Inr fs else Inl StatSocketFailed)
               | Inr info \<Rightarrow>
                   if info \<noteq> SocketFile then Inl NotASocket
                   else (case os_Remove fails socketPath fs of
                           Inl err \<Rightarrow> (if err = ErrNotExist then Inr fs else Inl RemoveSocketFailed)
                         | Inr fs1 \<Rightarrow> Inr fs1)))"

text \<open>Listening on a Unix socket makes a file of its own, which must not exist, unless the address is in the abstract name space (an empty one
  or one that starts with an at sign).\<close>

definition net_Listen :: "io_faults \<Rightarrow> string \<Rightarrow> string \<Rightarrow> fsys \<Rightarrow> io_error + fsys" where
  "net_Listen fails network address fs =
     (if fails IOListen address then Inl ErrOther
      else if network \<noteq> ''unix'' \<or> address = [] \<or> hd address = CHR ''@'' then Inr fs
      else if fs_get fs address \<noteq> None then Inl ErrExist
      else Inr (fs_put address SocketFile fs))"

definition initGRPCServer :: "io_faults \<Rightarrow> node_options \<Rightarrow> fsys \<Rightarrow> (startup_error + (string \<times> string)) \<times> fsys" where
  "initGRPCServer fails opts fs =
     (case ParseBindAddress (noBindAddress opts) of
        Inl err \<Rightarrow> (Inl (BindAddressError err), fs)
      | Inr (network, address) \<Rightarrow>
          (case cleanUNIXSocketIfRequired fails opts fs of
             Inl err \<Rightarrow> (Inl err, fs)
           | Inr fs1 \<Rightarrow>
               (case net_Listen fails network address fs1 of
                  Inl _ \<Rightarrow> (Inl ListenFailed, fs1)
                | Inr fs2 \<Rightarrow> (Inr (network, address), fs2))))"

subsection \<open>The store\<close>

text \<open>\<open>flock\<close>: the file is created when it does not exist, and the lock fails when the present file is locked.\<close>

definition TryLock :: "io_faults \<Rightarrow> string \<Rightarrow> host \<Rightarrow> (io_error + bool) \<times> host" where
  "TryLock fails p h =
     (if fails IOOpen p then (Inl ErrOther, h)
      else
        let h1 = (if fs_get (hsFiles h) p = None then h\<lparr>hsFiles := fs_put p (RegularFile [] 384) (hsFiles h)\<rparr> else h)
        in if filepath_Clean p \<in> set (hsLocked h) then (Inr False, h1)
           else (Inr True, h1\<lparr>hsLocked := filepath_Clean p # hsLocked h\<rparr>))"

definition Unlock :: "string \<Rightarrow> host \<Rightarrow> host" where
  "Unlock p h = h\<lparr>hsLocked := removeAll (filepath_Clean p) (hsLocked h)\<rparr>"

text \<open>The write of a commit, as the host sees it: another file takes the place of the old one.\<close>

definition replace_file :: "string \<Rightarrow> string \<Rightarrow> host \<Rightarrow> host" where
  "replace_file p data h = h\<lparr>hsFiles := fs_put p (RegularFile data 384) (hsFiles h), hsLocked := removeAll (filepath_Clean p) (hsLocked h)\<rparr>"

definition store_content :: "fsys \<Rightarrow> string \<Rightarrow> file_content" where
  "store_content fs p =
     (case fs_get fs p of None \<Rightarrow> FileNotExist | Some (RegularFile data _) \<Rightarrow> FileData data | Some _ \<Rightarrow> FileReadError)"

subsection \<open>The daemon\<close>

definition setup_steps :: "setup_step list" where
  "setup_steps = [ClientScheme, IpamScheme, Manager, DirectClient, IPPoolController, CIDRPoolController, HealthzCheck, ReadyzCheck]"

text \<open>Up to the point where the servers run: the daemon, its address, and the host.  An error after the lock releases it.\<close>

definition RunNodeDaemon :: "host_env \<Rightarrow> node_options \<Rightarrow> host \<Rightarrow> ((startup_error + (daemon \<times> string \<times> string)) \<times> host) option" where
  "RunNodeDaemon he opts h =
     (case deployShimCNI he opts (hsFiles h) of
        (Some err, fs1) \<Rightarrow> Some (Inl err, h\<lparr>hsFiles := fs1\<rparr>)
      | (None, fs1) \<Rightarrow>
          let h1 = h\<lparr>hsFiles := fs1\<rparr>
          in (case find (\<lambda>st. \<not> heSetup he st) setup_steps of
                Some st \<Rightarrow> Some (Inl (SetupFailed st), h1)
              | None \<Rightarrow>
                  (case TryLock (heFails he) (noStoreFile opts) h1 of
                     (Inl _, h2) \<Rightarrow> Some (Inl LockFailed, h2)
                   | (Inr False, h2) \<Rightarrow> Some (Inl StoreLocked, h2)
                   | (Inr True, h2) \<Rightarrow>
                       (case daemon_start (heEnv he) (store_content (hsFiles h2) (noStoreFile opts))
                               (noStaleIPCheckCountBeforeRelease opts) (noReleasedIPCooldown opts) of
                          None \<Rightarrow> None
                        | Some (Inl err) \<Rightarrow> Some (Inl (InvalidStore err), Unlock (noStoreFile opts) h2)
                        | Some (Inr dm) \<Rightarrow>
                            (case initGRPCServer (heFails he) opts (hsFiles h2) of
                               (Inl err, fs3) \<Rightarrow> Some (Inl err, Unlock (noStoreFile opts) (h2\<lparr>hsFiles := fs3\<rparr>))
                             | (Inr (network, address), fs3) \<Rightarrow> Some (Inr (dm, network, address), h2\<lparr>hsFiles := fs3\<rparr>))))))"

text \<open>The program: flags, arguments, validation, then the start.\<close>

definition node_command ::
    "host_env \<Rightarrow> (string \<times> flag_value) list \<Rightarrow> string list \<Rightarrow> host \<Rightarrow> command_error + ((startup_error + (daemon \<times> string \<times> string)) \<times> host) option" where
  "node_command he flags args h =
     (case set_flags node_AddNamedFlagSets flags node_New of
        None \<Rightarrow> Inl FlagError
      | Some opts \<Rightarrow>
          if \<not> command_args args then Inl UnexpectedArguments
          else
            (case node_Validate (\<lambda>p. \<not> isl (os_Stat (heFails he) p (hsFiles h))) (heCommon he) opts of
               Some err \<Rightarrow> Inl (InvalidConfig err)
             | None \<Rightarrow> if \<not> heClientConfig he then Inl NoClientConfig else Inr (RunNodeDaemon he opts h)))"

subsection \<open>Deployment\<close>

lemma replace_dest_frame:
  assumes "replace_dest ce src dest name fs = (err, sts)" "st \<in> set sts" "filepath_Clean q \<noteq> filepath_Clean dest" "filepath_Clean q \<noteq> filepath_Clean name"
  shows "fs_get st q = fs_get fs q"
  using assms by (auto simp: replace_dest_def os_Chmod_def os_Rename_def Let_def split: if_splits sum.splits option.splits fnode.splits)

lemma last_cases: "last (x # xs) = x \<or> last (x # xs) \<in> set xs"
  by (induction xs arbitrary: x) auto

lemma copy_to_temp_frame:
  assumes "copy_to_temp ce src tmp dest name fs = (err, sts)" "st \<in> set sts"
    "filepath_Clean q \<noteq> filepath_Clean dest" "filepath_Clean q \<noteq> filepath_Clean name" "filepath_Clean q \<noteq> filepath_Clean tmp"
  shows "fs_get st q = fs_get fs q"
proof -
  have s: "fs_get st q = fs_get fs q" if "st \<in> set (copy_states name d n fs)" for st d n using copy_states_get [OF that assms(4)] .
  have l: "fs_get (last (copy_states name d n fs)) q = fs_get fs q" for d n using assms(4) by (simp add: last_copy_states)
  have rm: "fs_get fs2 q = fs_get fs q" if "os_Remove f tmp (last (copy_states name d n fs)) = Inr fs2" for f d n fs2
    using os_Remove_get [OF that] assms(5) l by simp
  have rp: "fs_get st q = fs_get fs q" if "replace_dest ce src dest name (last (copy_states name d n fs)) = (e, ss)" "st \<in> set ss" for d n e ss
    using replace_dest_frame [OF that assms(3,4)] l by simp
  show ?thesis using assms(1,2)
    by (auto simp: copy_to_temp_def Let_def split: if_splits option.splits fnode.splits sum.splits prod.splits dest: s rm rp)
qed

text \<open>The paths that a copy may change.\<close>

definition copy_paths :: "copy_env \<Rightarrow> string \<Rightarrow> string \<Rightarrow> string \<Rightarrow> string list" where
  "copy_paths ce destDir tempFileName destFileName =
     filepath_Join destDir destFileName # map (\<lambda>r. filepath_Join destDir (tempFileName @ r)) ([] # cpRandoms ce)"

lemma CopyFileAtomic_frame:
  assumes n: "copy_names ce destDir t d" and c: "CopyFileAtomic ce src destDir t d fs = (err, sts)" and st: "st \<in> set sts"
    and q: "filepath_Clean q \<notin> set (copy_paths ce destDir t d)"
  shows "fs_get st q = fs_get fs q"
proof -
  note nm = n [unfolded copy_names_def]
  let ?tmp = "filepath_Join destDir t" and ?dest = "filepath_Join destDir d"
  have id: "filepath_Clean (filepath_Join destDir x) = filepath_Join destDir x" for x by (simp add: filepath_Join_def)
  have qn: "filepath_Clean q \<noteq> filepath_Clean ?tmp" "filepath_Clean q \<noteq> filepath_Clean ?dest" using q by (auto simp: copy_paths_def id)
  show ?thesis
  proof (cases "case os_Stat (cpFails ce) ?tmp fs of Inl _ \<Rightarrow> Inr fs | Inr _ \<Rightarrow> os_Remove (cpFails ce) ?tmp fs")
    case (Inl e)
    then show ?thesis using c st by (auto simp: CopyFileAtomic_def Let_def)
  next
    case (Inr fs1)
    have f1: "fs_get fs1 q = fs_get fs q" using remove_old_law [OF Inr] qn(1) by auto
    show ?thesis
    proof (cases "os_CreateTemp (cpFails ce) (cpRandoms ce) (cpTempDir ce) destDir t fs1")
      case (Inl e)
      then show ?thesis using c st Inr f1 by (auto simp: CopyFileAtomic_def Let_def)
    next
      case cr: (Inr nf)
      obtain name fs2 where nf: "nf = (name, fs2)" by fastforce
      note ct = CreateTemp_law [OF n cr [unfolded nf]]
      have "filepath_Clean q \<noteq> filepath_Clean name" using CreateTemp_name [OF n cr [unfolded nf]] q by (auto simp: copy_paths_def)
      then have "fs_get fs2 q = fs_get fs1 q" "\<And>e ss s. copy_to_temp ce src ?tmp ?dest name fs2 = (e, ss) \<Longrightarrow> s \<in> set ss \<Longrightarrow> fs_get s q = fs_get fs2 q"
        using ct(2) copy_to_temp_frame qn by auto
      then show ?thesis using c st Inr cr nf f1 by (auto simp: CopyFileAtomic_def Let_def split: prod.splits)
    qed
  qed
qed

text \<open>The paths that the deployment may change, in cleaned form, and what is assumed of the names in it.\<close>

definition deploy_paths :: "host_env \<Rightarrow> node_options \<Rightarrow> string list" where
  "deploy_paths he opts =
     (if noCNISkipBinFileCopy opts then [] else copy_paths (heCopy he) (noCNIBinDir opts) ''_nv-ipam'' ''nv-ipam'') @
     (if noCNISkipConfigCreation opts then [] else [filepath_Join (noCNIConfDir opts) ConfFileName])"

definition deploy_names :: "host_env \<Rightarrow> node_options \<Rightarrow> bool" where
  "deploy_names he opts \<longleftrightarrow> noCNISkipBinFileCopy opts \<or> copy_names (heCopy he) (noCNIBinDir opts) ''_nv-ipam'' ''nv-ipam''"

lemma deploy_frame:
  assumes n: "deploy_names he opts" and d: "deployShimCNI he opts fs = (err, fs1)" and q: "filepath_Clean q \<notin> set (deploy_paths he opts)"
  shows "fs_get fs1 q = fs_get fs q"
proof -
  obtain e sts where c: "CopyFileAtomic (heCopy he) (noCNIBinFile opts) (noCNIBinDir opts) ''_nv-ipam'' ''nv-ipam'' fs = (e, sts)" by fastforce
  have l: "fs_get (last (fs # sts)) q = fs_get fs q" if "\<not> noCNISkipBinFileCopy opts"
    using last_cases [of fs sts] CopyFileAtomic_frame [OF _ c, of _ q] that n q by (auto simp: deploy_names_def deploy_paths_def)
  have w: "fs_get fs' q = fs_get fs0 q" if "createNVIPAMConfig (heFails he) opts fs0 = (e', fs')" "\<not> noCNISkipConfigCreation opts" for e' fs' fs0
    using that q by (auto simp: createNVIPAMConfig_def deploy_paths_def Let_def filepath_Join_def split: if_splits)
  show ?thesis using d l w c unfolding deployShimCNI_def by (auto simp: Let_def split: if_splits)
qed

text \<open>A host on which nothing fails.\<close>

definition host_sound :: "host_env \<Rightarrow> node_options \<Rightarrow> fsys \<Rightarrow> bool" where
  "host_sound he opts fs \<longleftrightarrow> (\<forall>op p. \<not> heFails he op p) \<and> (\<forall>st. heSetup he st) \<and> deploy_names he opts \<and>
     (noCNISkipBinFileCopy opts \<or> copy_ready (heCopy he) (noCNIBinDir opts) ''_nv-ipam'' fs \<and> cpCopied (heCopy he) = None \<and>
        (\<exists>data mode. fs_get fs (noCNIBinFile opts) = Some (RegularFile data mode)) \<and>
        filepath_Clean (noCNIBinFile opts) \<noteq> filepath_Join (noCNIBinDir opts) ''_nv-ipam'' \<and>
        fs_get fs (filepath_Join (noCNIBinDir opts) ''nv-ipam'') \<noteq> Some Directory) \<and>
     (noCNISkipConfigCreation opts \<or> fs_get fs (filepath_Join (noCNIConfDir opts) ConfFileName) \<noteq> Some Directory \<and> noCNIConfDir opts \<noteq> [])"

lemma conf_path: "dir \<noteq> [] \<Longrightarrow> filepath_Clean (filepath_Join dir ConfFileName) = dir_prefix dir @ ConfFileName"
proof -
  assume d: "dir \<noteq> []"
  have "plain_name ConfFileName" by code_simp
  then show ?thesis using Join_below [OF d] by (metis filepath_Clean_idem filepath_Join_def)
qed

text \<open>The configuration file and the files next to the binary end in different letters.\<close>

lemma conf_apart:
  assumes "copy_names ce destDir ''_nv-ipam'' ''nv-ipam''" "dir \<noteq> []"
  shows "filepath_Clean (filepath_Join dir ConfFileName) \<notin> set (copy_paths ce destDir ''_nv-ipam'' ''nv-ipam'')"
proof -
  have r: "r = [] \<or> is_digit (last r)" "list_all is_digit r" if "r \<in> set ([] # cpRandoms ce)" for r
    using that assms(1) by (cases r rule: rev_cases; auto simp: copy_names_def list_all_iff)+
  have pn: "plain_name ''_nv-ipam''" "plain_name ''nv-ipam''" "destDir \<noteq> []" using assms(1) by (simp_all add: copy_names_def)
  have "dir_prefix dir @ ConfFileName \<noteq> dir_prefix destDir @ ''_nv-ipam'' @ r" if "r = [] \<or> is_digit (last r)" for r
  proof
    assume "dir_prefix dir @ ConfFileName = dir_prefix destDir @ ''_nv-ipam'' @ r"
    then have "last (dir_prefix dir @ ConfFileName) = last (dir_prefix destDir @ ''_nv-ipam'' @ r)" by simp
    moreover have "\<not> is_digit CHR ''f''" by code_simp
    ultimately show False using that by (cases "r = []") (auto simp: ConfFileName_def)
  qed
  moreover have "dir_prefix dir @ ConfFileName \<noteq> dir_prefix destDir @ ''nv-ipam''"
  proof
    assume "dir_prefix dir @ ConfFileName = dir_prefix destDir @ ''nv-ipam''"
    then have "last (dir_prefix dir @ ConfFileName) = last (dir_prefix destDir @ ''nv-ipam'')" by simp
    then show False by (simp add: ConfFileName_def)
  qed
  moreover have "filepath_Join destDir (''_nv-ipam'' @ r) = dir_prefix destDir @ ''_nv-ipam'' @ r" if "list_all is_digit r" for r
    using Join_below [OF pn(3) plain_name_digits [OF pn(1) that]] by simp
  ultimately show ?thesis unfolding conf_path [OF assms(2)] copy_paths_def using r Join_below [OF pn(3,2)] by auto
qed

lemma deploy_done:
  assumes h: "host_sound he opts fs"
  obtains fs1 where "deployShimCNI he opts fs = (None, fs1)"
    "\<not> noCNISkipBinFileCopy opts \<longrightarrow> fs_get fs1 (filepath_Join (noCNIBinDir opts) ''nv-ipam'') = fs_get fs (noCNIBinFile opts)"
    "\<not> noCNISkipConfigCreation opts \<longrightarrow> fs_get fs1 (filepath_Join (noCNIConfDir opts) ConfFileName) = Some (RegularFile (shim_config opts) 436)"
proof -
  note hs = h [unfolded host_sound_def deploy_names_def]
  let ?dest = "filepath_Join (noCNIBinDir opts) ''nv-ipam''" and ?conf = "filepath_Join (noCNIConfDir opts) ConfFileName"
  define fs1 where "fs1 = (if noCNISkipBinFileCopy opts then fs
    else last (fs # snd (CopyFileAtomic (heCopy he) (noCNIBinFile opts) (noCNIBinDir opts) ''_nv-ipam'' ''nv-ipam'' fs)))"
  have cp: "fst (CopyFileAtomic (heCopy he) (noCNIBinFile opts) (noCNIBinDir opts) ''_nv-ipam'' ''nv-ipam'' fs) = None \<and>
      fs_get fs1 ?dest = fs_get fs (noCNIBinFile opts) \<and> (\<forall>q. filepath_Clean q \<notin> set (copy_paths (heCopy he) (noCNIBinDir opts) ''_nv-ipam'' ''nv-ipam'') \<longrightarrow> fs_get fs1 q = fs_get fs q)"
    if sk: "\<not> noCNISkipBinFileCopy opts"
  proof -
    obtain data mode where src: "fs_get fs (noCNIBinFile opts) = Some (RegularFile data mode)" using hs sk by auto
    obtain e sts where c: "CopyFileAtomic (heCopy he) (noCNIBinFile opts) (noCNIBinDir opts) ''_nv-ipam'' ''nv-ipam'' fs = (e, sts)" by fastforce
    have n: "copy_names (heCopy he) (noCNIBinDir opts) ''_nv-ipam'' ''nv-ipam''" using hs sk by simp
    have e: "e = None" using CopyFileAtomic_succeeds [OF n _ _ src] hs sk c by simp
    then have "sts \<noteq> []" "fs_get (last sts) ?dest = fs_get fs (noCNIBinFile opts)" using CopyFileAtomic_law [OF n src c] src by auto
    then show ?thesis using c e sk CopyFileAtomic_frame [OF n c] by (auto simp: fs1_def)
  qed
  have cf: "createNVIPAMConfig (heFails he) opts fs1 = (None, fs_put ?conf (RegularFile (shim_config opts) 436) fs1)" if "\<not> noCNISkipConfigCreation opts"
  proof -
    have "fs_get fs1 ?conf = fs_get fs ?conf" using cp conf_apart hs that by (cases "noCNISkipBinFileCopy opts") (auto simp: fs1_def)
    then show ?thesis using hs that by (simp add: createNVIPAMConfig_def Let_def)
  qed
  have ne: "filepath_Clean ?dest \<noteq> filepath_Clean ?conf" if "\<not> noCNISkipBinFileCopy opts" "\<not> noCNISkipConfigCreation opts"
  proof -
    have "?dest \<in> set (copy_paths (heCopy he) (noCNIBinDir opts) ''_nv-ipam'' ''nv-ipam'')" by (simp add: copy_paths_def)
    moreover have "filepath_Clean ?conf \<notin> set (copy_paths (heCopy he) (noCNIBinDir opts) ''_nv-ipam'' ''nv-ipam'')" using conf_apart hs that by blast
    moreover have "filepath_Clean ?dest = ?dest" by (simp add: filepath_Join_def)
    ultimately show ?thesis by metis
  qed
  have cn: "?conf \<noteq> []" if "\<not> noCNISkipConfigCreation opts" using conf_path [of "noCNIConfDir opts"] hs that by (auto simp: filepath_Join_def ConfFileName_def)
  have d: "deployShimCNI he opts fs = (if noCNISkipConfigCreation opts then (None, fs1) else createNVIPAMConfig (heFails he) opts fs1)"
    using cp by (cases "noCNISkipBinFileCopy opts") (simp_all add: deployShimCNI_def case_prod_unfold Let_def fs1_def)
  show ?thesis
    by (rule that [of "if noCNISkipConfigCreation opts then fs1 else fs_put ?conf (RegularFile (shim_config opts) 436) fs1"])
      (use cp cf ne cn d in auto)
qed

subsection \<open>Taking over the socket\<close>

lemma init_unix:
  assumes a: "noBindAddress opts = ''unix://'' @ p" "url_plain p" "HasPrefix p ''/''" and nf: "\<forall>op q. \<not> fails op q"
  shows "initGRPCServer fails opts fs =
    (case fs_get fs p of
       None \<Rightarrow> (Inr (''unix'', p), fs_put p SocketFile fs)
     | Some SocketFile \<Rightarrow> (Inr (''unix'', p), fs_put p SocketFile (fs_del p fs))
     | Some _ \<Rightarrow> (Inl NotASocket, fs))"
proof -
  have b: "ParseBindAddress (noBindAddress opts) = Inr (''unix'', p)" using ParseBindAddress_unix a by simp
  have p: "p \<noteq> []" "hd p \<noteq> CHR ''@''" using a(3) by (cases p; auto)+
  have c: "cleanUNIXSocketIfRequired fails opts fs =
      (case fs_get fs p of None \<Rightarrow> Inr fs | Some SocketFile \<Rightarrow> Inr (fs_del p fs) | Some _ \<Rightarrow> Inl NotASocket)"
    using nf by (auto simp: cleanUNIXSocketIfRequired_def a(1) os_Stat_def os_Remove_def Let_def split: option.split fnode.split)
  show ?thesis using nf p by (auto simp: initGRPCServer_def b c net_Listen_def split: option.split fnode.split)
qed

text \<open>A stale socket does not keep the daemon from starting.  With a bind address of the form \<open>unix://\<close> and an absolute path, on a host where no call
  fails, a socket that an earlier process left there is removed and the daemon listens on exactly that path; a file of any
  other kind is not touched and the start is refused; no other file is affected.\<close>

theorem stale_socket_taken_over:
  assumes "noBindAddress opts = ''unix://'' @ p" "url_plain p" "HasPrefix p ''/''" "\<forall>op q. \<not> fails op q"
  shows "\<exists>res fs'. initGRPCServer fails opts fs = (res, fs') \<and> (\<forall>q. filepath_Clean q \<noteq> filepath_Clean p \<longrightarrow> fs_get fs' q = fs_get fs q) \<and>
    (if fs_get fs p = None \<or> fs_get fs p = Some SocketFile then res = Inr (''unix'', p) \<and> fs_get fs' p = Some SocketFile else res = Inl NotASocket \<and> fs' = fs)"
proof -
  have "p \<noteq> []" using assms(3) by (cases p) auto
  then show ?thesis unfolding init_unix [OF assms] by (auto split: option.split fnode.split)
qed

text \<open>C34: The clean-up recognises the scheme by its text, the parser by its meaning.  With the same socket written \<open>unix:\<close> and the path, which the
  parser takes to the same address, the socket of an earlier process is not removed and the daemon does not start again.\<close>

theorem stale_socket_blocks_start:
  assumes "noBindAddress opts = ''unix:'' @ p" "url_plain p" "HasPrefix p ''/''" "\<not> HasPrefix p ''//''" "fs_get fs p = Some SocketFile"
  shows "ParseBindAddress (noBindAddress opts) = ParseBindAddress (''unix://'' @ p) \<and> initGRPCServer fails opts fs = (Inl ListenFailed, fs)"
proof -
  note pl = url_plainD [OF assms(2)]
  have c: "str_Cut CHR ''#'' (''unix:'' @ p) = (''unix:'' @ p, [], False)" "str_Cut CHR ''?'' p = (p, [], False)" using pl by (simp_all add: str_Cut_none)
  have g: "getScheme (''unix:'' @ p) = Inr (''unix'', p)" by (simp add: getScheme_def is_letter_def is_digit_def)
  have l: "ToLower ''unix'' = ''unix''" by code_simp
  have "parse_rest ''unix'' p = Inr \<lparr>uScheme = ''unix'', uOpaque = [], uHost = [], uPath = p\<rparr>"
    using assms(4) pl(1) unescape_plain [of EncodePath p] by (simp add: parse_rest_def bind_result_def)
  moreover have "\<not> list_ex is_ctl (''unix:'' @ p)" using pl(4) by (simp add: is_ctl_def)
  ultimately have "url_parse (''unix:'' @ p) = Inr \<lparr>uScheme = ''unix'', uOpaque = [], uHost = [], uPath = p\<rparr>"
    using g c(2) l assms(3) by (simp add: url_parse_def bind_result_def Let_def)
  then have b: "ParseBindAddress (noBindAddress opts) = Inr (''unix'', p)" using c(1) assms(1) by (simp add: ParseBindAddress_def Parse_def bind_result_def)
  have "\<not> HasPrefix (noBindAddress opts) ''unix://''" using assms(1,4) by simp
  then have cl: "cleanUNIXSocketIfRequired fails opts fs = Inr fs" by (simp add: cleanUNIXSocketIfRequired_def Let_def)
  have "p \<noteq> []" "hd p \<noteq> CHR ''@''" using assms(3) by (cases p; auto)+
  then show ?thesis using b ParseBindAddress_unix [OF assms(2,3)] assms(5) by (simp add: initGRPCServer_def cl net_Listen_def)
qed

subsection \<open>The lock of the store\<close>

lemma TryLock_frame:
  "TryLock fails p h = (res, h') \<Longrightarrow> filepath_Clean q \<noteq> filepath_Clean p \<Longrightarrow> fs_get (hsFiles h') q = fs_get (hsFiles h) q"
  by (auto simp: TryLock_def Let_def split: if_splits)

lemma locked_law:
  assumes n: "deploy_names he opts" and l: "filepath_Clean (noStoreFile opts) \<in> set (hsLocked h)"
  shows "\<exists>err h'. RunNodeDaemon he opts h = Some (Inl err, h') \<and> hsLocked h' = hsLocked h \<and>
    (\<forall>q. filepath_Clean q \<notin> set (deploy_paths he opts) \<and> filepath_Clean q \<noteq> filepath_Clean (noStoreFile opts) \<longrightarrow> fs_get (hsFiles h') q = fs_get (hsFiles h) q)"
proof -
  obtain err fs1 where d: "deployShimCNI he opts (hsFiles h) = (err, fs1)" by fastforce
  have fr: "fs_get fs1 q = fs_get (hsFiles h) q" if "filepath_Clean q \<notin> set (deploy_paths he opts)" for q by (rule deploy_frame [OF n d that])
  obtain tr h2 where tl: "TryLock (heFails he) (noStoreFile opts) (h\<lparr>hsFiles := fs1\<rparr>) = (tr, h2)" by fastforce
  have t: "tr = Inr False \<or> isl tr" "hsLocked h2 = hsLocked h" using l tl by (auto simp: TryLock_def Let_def split: if_splits)
  show ?thesis using d t tl TryLock_frame [OF tl] fr
    by (auto simp: RunNodeDaemon_def Let_def isl_def split: option.split)
qed


text \<open>What a start needs: a host on which nothing fails, an address with an absolute path that is free or holds a socket, files of the daemon that
  are apart from the deployed ones, and a store file that loads.\<close>

definition start_ready :: "host_env \<Rightarrow> node_options \<Rightarrow> string \<Rightarrow> Root \<Rightarrow> host \<Rightarrow> bool" where
  "start_ready he opts p d h \<longleftrightarrow> host_sound he opts (hsFiles h) \<and>
     noBindAddress opts = ''unix://'' @ p \<and> url_plain p \<and> HasPrefix p ''/'' \<and> fs_get (hsFiles h) p \<in> {None, Some SocketFile} \<and>
     filepath_Clean p \<notin> set (deploy_paths he opts) \<and> filepath_Clean (noStoreFile opts) \<notin> set (deploy_paths he opts) \<and>
     filepath_Clean p \<noteq> filepath_Clean (noStoreFile opts) \<and> noStoreFile opts \<noteq> [] \<and>
     loadFromDisk (evMarshal (heEnv he)) (evUnmarshal (heEnv he)) (store_content (hsFiles h) (noStoreFile opts)) = Some (Inr d) \<and>
     root_ok d \<and> bars_free (newStore d)"

lemma load_created: "loadFromDisk ms us FileNotExist = loadFromDisk ms us (FileData [])"
  by (simp add: loadFromDisk_def)

lemma start_law:
  assumes s: "start_ready he opts p d h" and l: "filepath_Clean (noStoreFile opts) \<notin> set (hsLocked h)"
  obtains dm h' where "RunNodeDaemon he opts h = Some (Inr (dm, ''unix'', p), h')" "daemon_ok dm d" "dmCooldown dm = noReleasedIPCooldown opts"
    "dmCleaner dm = NewCleaner (noStaleIPCheckCountBeforeRelease opts) (noReleasedIPCooldown opts)" "fs_get (hsFiles h') p = Some SocketFile"
    "hsLocked h' = filepath_Clean (noStoreFile opts) # hsLocked h"
    "\<not> noCNISkipBinFileCopy opts \<longrightarrow> fs_get (hsFiles h') (filepath_Join (noCNIBinDir opts) ''nv-ipam'') = fs_get (hsFiles h) (noCNIBinFile opts)"
    "\<not> noCNISkipConfigCreation opts \<longrightarrow> fs_get (hsFiles h') (filepath_Join (noCNIConfDir opts) ConfFileName) = Some (RegularFile (shim_config opts) 436)"
proof -
  note r = s [unfolded start_ready_def] let ?st = "noStoreFile opts"
  have nf: "\<forall>op q. \<not> heFails he op q" "\<And>x. heSetup he x" "deploy_names he opts" using r by (auto simp: host_sound_def)
  obtain fs1 where d: "deployShimCNI he opts (hsFiles h) = (None, fs1)"
    "\<not> noCNISkipBinFileCopy opts \<longrightarrow> fs_get fs1 (filepath_Join (noCNIBinDir opts) ''nv-ipam'') = fs_get (hsFiles h) (noCNIBinFile opts)"
    "\<not> noCNISkipConfigCreation opts \<longrightarrow> fs_get fs1 (filepath_Join (noCNIConfDir opts) ConfFileName) = Some (RegularFile (shim_config opts) 436)"
    using deploy_done r by blast
  have fr: "fs_get fs1 p = fs_get (hsFiles h) p" "fs_get fs1 ?st = fs_get (hsFiles h) ?st" using deploy_frame [OF nf(3) d(1)] r by auto
  define fs2 where "fs2 = (if fs_get fs1 ?st = None then fs_put ?st (RegularFile [] 384) fs1 else fs1)"
  have t: "TryLock (heFails he) ?st (h\<lparr>hsFiles := fs1\<rparr>) = (Inr True, h\<lparr>hsFiles := fs2, hsLocked := filepath_Clean ?st # hsLocked h\<rparr>)"
    using nf(1) l by (simp add: TryLock_def Let_def fs2_def)
  have "store_content fs2 ?st = store_content (hsFiles h) ?st \<or> store_content (hsFiles h) ?st = FileNotExist \<and> store_content fs2 ?st = FileData []"
    using fr(2) r by (auto simp: store_content_def fs2_def)
  then have ld: "loadFromDisk (evMarshal (heEnv he)) (evUnmarshal (heEnv he)) (store_content fs2 ?st) = Some (Inr d)" using r load_created by auto
  obtain dm where dm: "daemon_start (heEnv he) (store_content fs2 ?st) (noStaleIPCheckCountBeforeRelease opts) (noReleasedIPCooldown opts) = Some (Inr dm)"
    "dmCooldown dm = noReleasedIPCooldown opts" "dmCleaner dm = NewCleaner (noStaleIPCheckCountBeforeRelease opts) (noReleasedIPCooldown opts)"
    using ld by (auto simp: daemon_start_def Open_def Cancel_def newStore_def)
  have f2: "fs_get fs2 p = fs_get (hsFiles h) p" using fr(1) r by (auto simp: fs2_def)
  define fs3 where "fs3 = fs_put p SocketFile (if fs_get fs2 p = None then fs2 else fs_del p fs2)"
  have i: "initGRPCServer (heFails he) opts fs2 = (Inr (''unix'', p), fs3)"
    using init_unix [of opts p "heFails he" fs2] r nf(1) f2 by (auto simp: fs3_def)
  have keep: "fs_get fs3 q = fs_get fs1 q" if "filepath_Clean q \<in> set (deploy_paths he opts)" for q using that r by (auto simp: fs3_def fs2_def)
  have run: "RunNodeDaemon he opts h = Some (Inr (dm, ''unix'', p), h\<lparr>hsFiles := fs3, hsLocked := filepath_Clean ?st # hsLocked h\<rparr>)"
    using d(1) nf(2) t dm(1) i by (simp add: RunNodeDaemon_def Let_def setup_steps_def)
  have pp: "p \<noteq> []" using r by (cases p) auto
  have jc: "filepath_Clean (filepath_Join a b) = filepath_Join a b" for a b by (simp add: filepath_Join_def)
  show ?thesis
  proof (rule that [OF run daemon_start_ok [OF dm(1) ld] dm(2,3)])
    show "fs_get (hsFiles (h\<lparr>hsFiles := fs3, hsLocked := filepath_Clean ?st # hsLocked h\<rparr>)) p = Some SocketFile" using pp by (simp add: fs3_def)
  qed (use r d(2,3) keep in \<open>auto simp: deploy_paths_def copy_paths_def jc\<close>)
qed



subsection \<open>An example\<close>

definition ex_options :: node_options where
  "ex_options = node_New\<lparr>noNodeName := ''n''\<rparr>"

abbreviation ex_socket :: string where
  "ex_socket \<equiv> ''/var/lib/cni/nv-ipam/daemon.sock''"

definition ex_files :: fsys where
  "ex_files = ex_host @ [(''/var/lib/cni/nv-ipam'', Directory), (''/etc/cni/net.d/nv-ipam.d'', Directory), (''/var/log'', Directory), (ex_socket, SocketFile)]"

definition ex_host_env :: host_env where
  "ex_host_env = \<lparr>heCopy = ex_copy None, heSetup = (\<lambda>_. True), heEnv = ex_env\<lparr>evUnmarshal := (\<lambda>_. Some (NewRoot\<lparr>rtChecksum := fnv32a ''{}''\<rparr>))\<rparr>,
     heCommon = None, heClientConfig = True\<rparr>"

abbreviation ex_machine :: host where
  "ex_machine \<equiv> \<lparr>hsFiles = ex_files, hsLocked = []\<rparr>"

definition ex_second_root :: Root where
  "ex_second_root = NewRoot\<lparr>rtChecksum := fnv32a ''{}''\<rparr>"

definition ex_replaced :: host where
  "ex_replaced = replace_file (noStoreFile ex_options) ''{}'' (snd (the (RunNodeDaemon ex_host_env ex_options ex_machine)))"

lemma ex_ready_host:
  assumes "fs_get (hsFiles h) ''/opt/cni/bin'' = Some Directory" "fs_get (hsFiles h) (filepath_Join ''/opt/cni/bin'' ''_nv-ipam'') \<noteq> Some Directory"
    "fs_get (hsFiles h) (joinPath ''/opt/cni/bin'' ''_nv-ipam'' @ ''12'') = None" "fs_get (hsFiles h) ''/nv-ipam'' = Some (RegularFile ''binary'' 493)"
    "fs_get (hsFiles h) (filepath_Join ''/opt/cni/bin'' ''nv-ipam'') \<noteq> Some Directory"
    "fs_get (hsFiles h) (filepath_Join (noCNIConfDir ex_options) ConfFileName) \<noteq> Some Directory" "fs_get (hsFiles h) ex_socket = Some SocketFile"
    "loadFromDisk (evMarshal (heEnv ex_host_env)) (evUnmarshal (heEnv ex_host_env)) (store_content (hsFiles h) (noStoreFile ex_options)) = Some (Inr d)"
    "root_ok d" "rtPools d = Some []"
  shows "start_ready ex_host_env ex_options ex_socket d h"
proof -
  have c: "copy_ready (ex_copy None) ''/opt/cni/bin'' ''_nv-ipam'' (hsFiles h)" using assms(1-3) by (simp add: copy_ready_def ex_copy_def)
  have o: "noCNIBinDir ex_options = ''/opt/cni/bin''" "noCNIBinFile ex_options = ''/nv-ipam''" "noCNIConfDir ex_options \<noteq> []" "noStoreFile ex_options \<noteq> []"
    "noBindAddress ex_options = ''unix://'' @ ex_socket"
    by (simp_all add: ex_options_def node_New_def DefaultConfDir_def DefaultStoreFile_def DefaultBindAddress_def DefaultDaemonSocket_def)
  have "host_sound ex_host_env ex_options (hsFiles h)"
    using c assms(4-6) ex_copy_ok(1) [of None] ex_source(2) o(1-3) by (simp add: host_sound_def deploy_names_def ex_host_env_def) (simp add: ex_copy_def)
  moreover have "url_plain ex_socket" "filepath_Clean ex_socket \<notin> set (deploy_paths ex_host_env ex_options)"
    "filepath_Clean (noStoreFile ex_options) \<notin> set (deploy_paths ex_host_env ex_options)" "filepath_Clean ex_socket \<noteq> filepath_Clean (noStoreFile ex_options)" by code_simp+
  moreover have "bars_free (newStore d)" using assms(10)
    by (simp add: bars_free_def ssn_entries_def newStore_def getPoolData_def root_pool_def NewPoolReservations_def)
  ultimately show ?thesis using assms(7-9) o by (simp add: start_ready_def)
qed

lemma ex_machine_ready: "start_ready ex_host_env ex_options ex_socket NewRoot ex_machine"
  by (rule ex_ready_host) code_simp+

lemma ex_replaced_ready: "start_ready ex_host_env ex_options ex_socket ex_second_root ex_replaced"
  by (rule ex_ready_host) code_simp+

theorem stale_socket_taken_over_witness:
  "\<exists>fs'. initGRPCServer (\<lambda>_ _. False) ex_options ex_files = (Inr (''unix'', ex_socket), fs') \<and> fs_get fs' ex_socket = Some SocketFile"
proof -
  have "noBindAddress ex_options = ''unix://'' @ ex_socket" "url_plain ex_socket" "HasPrefix ex_socket ''/''" "fs_get ex_files ex_socket = Some SocketFile" by code_simp+
  with stale_socket_taken_over [OF this(1-3), of "\<lambda>_ _. False" ex_files] show ?thesis by auto
qed

theorem stale_socket_blocks_start_witness:
  "initGRPCServer (\<lambda>_ _. False) (ex_options\<lparr>noBindAddress := ''unix:/run/d.sock''\<rparr>) [(''/run/d.sock'', SocketFile)] = (Inl ListenFailed, [(''/run/d.sock'', SocketFile)])"
proof -
  have h: "noBindAddress (ex_options\<lparr>noBindAddress := ''unix:/run/d.sock''\<rparr>) = ''unix:'' @ ''/run/d.sock''" "url_plain ''/run/d.sock''" "HasPrefix ''/run/d.sock'' ''/''"
    "\<not> HasPrefix ''/run/d.sock'' ''//''" "fs_get [(''/run/d.sock'', SocketFile)] ''/run/d.sock'' = Some SocketFile" by code_simp+
  from stale_socket_blocks_start [OF h] show ?thesis by blast
qed




end
