(* ===== verification/Shutdown.thy ===== *)
theory Shutdown
  imports Prelude
begin

text \<open>
  The life of the daemon's goroutines (\<open>RunNodeDaemon\<close> in \<open>cmd/ipam-node/app/app.go\<close>, after the start): the gRPC server, the controller manager, the cleaner
  and a goroutine that stops the server, a channel of capacity one for their errors, and the main goroutine, which waits for a
  signal or an error and then for all of them.  A step is what one goroutine does at once; the scheduler picks any of the
  enabled ones.  What the libraries promise is in the guards: \<open>Serve\<close> returns without an error once \<open>GracefulStop\<close> has
  returned, and the manager, the wait for its cache and the cleaner return once their context is done.
\<close>

datatype goroutine = Running | Stopping | Finished

datatype cleaner_phase = WaitingForCache | Cleaning | CleanerFinished

datatype main_phase = Selecting | WaitingForAll | Returned

record processes =
  psSignal :: bool
  psInnerDone :: bool
  psErrCh :: bool
  psStopper :: goroutine
  psServer :: goroutine
  psManager :: goroutine
  psCleaner :: cleaner_phase
  psMain :: main_phase

definition processes_start :: processes where
  "processes_start = \<lparr>psSignal = False, psInnerDone = False, psErrCh = False, psStopper = Running, psServer = Running, psManager = Running,
     psCleaner = WaitingForCache, psMain = Selecting\<rparr>"

inductive processes_step :: "processes \<Rightarrow> processes \<Rightarrow> bool" where
  signal: "\<not> psSignal s \<Longrightarrow> processes_step s (s\<lparr>psSignal := True, psInnerDone := True\<rparr>)"
| stop_server: "psStopper s = Running \<Longrightarrow> psInnerDone s \<Longrightarrow> processes_step s (s\<lparr>psStopper := Stopping\<rparr>)"
| server_drained: "psStopper s = Stopping \<Longrightarrow> processes_step s (s\<lparr>psStopper := Finished\<rparr>)"
| server_returns: "psServer s = Running \<Longrightarrow> psStopper s = Finished \<Longrightarrow> processes_step s (s\<lparr>psServer := Finished\<rparr>)"
| server_fails: "psServer s = Running \<Longrightarrow> processes_step s (s\<lparr>psServer := Finished, psErrCh := True\<rparr>)"
| manager_returns: "psManager s = Running \<Longrightarrow> psInnerDone s \<Longrightarrow> processes_step s (s\<lparr>psManager := Finished\<rparr>)"
| manager_fails: "psManager s = Running \<Longrightarrow> processes_step s (s\<lparr>psManager := Finished, psErrCh := True\<rparr>)"
| cache_synced: "psCleaner s = WaitingForCache \<Longrightarrow> processes_step s (s\<lparr>psCleaner := Cleaning\<rparr>)"
| cache_not_synced: "psCleaner s = WaitingForCache \<Longrightarrow> psInnerDone s \<Longrightarrow> processes_step s (s\<lparr>psCleaner := CleanerFinished, psErrCh := True\<rparr>)"
| cleaner_stops: "psCleaner s = Cleaning \<Longrightarrow> psInnerDone s \<Longrightarrow> processes_step s (s\<lparr>psCleaner := CleanerFinished\<rparr>)"
| main_signal: "psMain s = Selecting \<Longrightarrow> psSignal s \<Longrightarrow> processes_step s (s\<lparr>psMain := WaitingForAll\<rparr>)"
| main_error: "psMain s = Selecting \<Longrightarrow> psErrCh s \<Longrightarrow> processes_step s (s\<lparr>psErrCh := False, psInnerDone := True, psMain := WaitingForAll\<rparr>)"
| main_returns: "psMain s = WaitingForAll \<Longrightarrow> psStopper s = Finished \<Longrightarrow> psServer s = Finished \<Longrightarrow> psManager s = Finished \<Longrightarrow> psCleaner s = CleanerFinished \<Longrightarrow>
    processes_step s (s\<lparr>psMain := Returned\<rparr>)"

inductive_cases processes_stepE: "processes_step s s'"

abbreviation processes_run :: "processes \<Rightarrow> processes \<Rightarrow> bool" where
  "processes_run \<equiv> processes_step\<^sup>*\<^sup>*"

text \<open>The invariant: whoever waits for the end has told the others, a signal reaches the inner context, and a goroutine that ended early has left its error
  in the channel until the main goroutine takes it.\<close>

definition processes_ok :: "processes \<Rightarrow> bool" where
  "processes_ok s \<longleftrightarrow>
     (psSignal s \<longrightarrow> psInnerDone s) \<and>
     (psMain s \<noteq> Selecting \<longrightarrow> psInnerDone s) \<and>
     (psMain s = Selecting \<and> psInnerDone s \<longrightarrow> psSignal s) \<and>
     (psStopper s \<noteq> Running \<longrightarrow> psInnerDone s) \<and>
     (psMain s = Selecting \<and> (psServer s = Finished \<or> psManager s = Finished \<or> psCleaner s = CleanerFinished) \<longrightarrow> psErrCh s \<or> psSignal s) \<and>
     psServer s \<noteq> Stopping \<and> psManager s \<noteq> Stopping \<and>
     (psMain s = Returned \<longrightarrow> psStopper s = Finished \<and> psServer s = Finished \<and> psManager s = Finished \<and> psCleaner s = CleanerFinished)"

lemma processes_start_ok: "processes_ok processes_start"
  by (simp add: processes_ok_def processes_start_def)

lemma processes_step_ok: "processes_step s s' \<Longrightarrow> processes_ok s \<Longrightarrow> processes_ok s'"
  by (erule processes_stepE) (auto simp: processes_ok_def)

text \<open>Every step uses something up.\<close>

definition goroutine_left :: "goroutine \<Rightarrow> nat" where
  "goroutine_left g = (case g of Running \<Rightarrow> 4 | Stopping \<Rightarrow> 2 | Finished \<Rightarrow> 0)"

definition work_left :: "processes \<Rightarrow> nat" where
  "work_left s = (if psSignal s then 0 else 1) + (if psErrCh s then 1 else 0) + goroutine_left (psStopper s) + goroutine_left (psServer s) + goroutine_left (psManager s) +
     (case psCleaner s of WaitingForCache \<Rightarrow> 4 | Cleaning \<Rightarrow> 2 | CleanerFinished \<Rightarrow> 0) + (case psMain s of Selecting \<Rightarrow> 2 | WaitingForAll \<Rightarrow> 1 | Returned \<Rightarrow> 0)"

lemma work_left_step: "processes_step s s' \<Longrightarrow> work_left s' < work_left s"
  by (erule processes_stepE) (auto simp: work_left_def goroutine_left_def)

subsection \<open>Systems that come to an end\<close>

text \<open>Every step uses something up, and from an invariant state in which the end has begun there is a step until it is reached.\<close>

locale ending_system =
  fixes step :: "'s \<Rightarrow> 's \<Rightarrow> bool" and inv :: "'s \<Rightarrow> bool" and begun :: "'s \<Rightarrow> bool" and final :: "'s \<Rightarrow> bool" and work :: "'s \<Rightarrow> nat"
  assumes inv_step: "step s s' \<Longrightarrow> inv s \<Longrightarrow> inv s'"
    and begun_step: "step s s' \<Longrightarrow> begun s \<Longrightarrow> begun s'"
    and work_step: "step s s' \<Longrightarrow> work s' < work s"
    and progress: "inv s \<Longrightarrow> begun s \<Longrightarrow> \<not> final s \<Longrightarrow> \<exists>s'. step s s'"
begin

lemma inv_run: "step\<^sup>*\<^sup>* s s' \<Longrightarrow> inv s \<Longrightarrow> inv s'"
  by (induction rule: rtranclp_induct) (auto intro: inv_step)

lemma begun_run: "step\<^sup>*\<^sup>* s s' \<Longrightarrow> begun s \<Longrightarrow> begun s'"
  by (induction rule: rtranclp_induct) (auto intro: begun_step)

lemma stuck_final: "inv s \<Longrightarrow> begun s \<Longrightarrow> step\<^sup>*\<^sup>* s t \<Longrightarrow> \<nexists>t'. step t t' \<Longrightarrow> final t"
  using progress inv_run begun_run by blast

lemma no_infinite_run: "\<exists>i. \<not> step (f i) (f (Suc i))"
proof (rule ccontr)
  assume "\<nexists>i. \<not> step (f i) (f (Suc i))"
  then have "(f (Suc i), f i) \<in> measure work" for i using work_step by simp
  then show False using wf_measure [of work] unfolding wf_iff_no_infinite_down_chain by blast
qed

lemma finishes: "inv s \<Longrightarrow> begun s \<Longrightarrow> \<exists>t. step\<^sup>*\<^sup>* s t \<and> final t"
proof (induction s rule: measure_induct_rule [of work])
  case (less s)
  show ?case
  proof (cases "final s")
    case False
    then obtain s1 where s1: "step s s1" using progress less.prems by blast
    then show ?thesis using less.IH [OF work_step [OF s1]] inv_step [OF s1] begun_step [OF s1] less.prems
      by (meson converse_rtranclp_into_rtranclp)
  qed blast
qed

end

subsection \<open>The daemon ends\<close>

text \<open>The end has begun: a signal, an error that nobody took yet, or the main goroutine waiting for the others.\<close>

definition ending :: "processes \<Rightarrow> bool" where
  "ending s \<longleftrightarrow> psSignal s \<or> psErrCh s \<or> psMain s \<noteq> Selecting"

lemma ending_step: "processes_step s s' \<Longrightarrow> ending s \<Longrightarrow> ending s'"
  by (erule processes_stepE) (auto simp: ending_def)

lemma ending_progress:
  assumes "processes_ok s" "ending s" "psMain s \<noteq> Returned"
  shows "\<exists>s'. processes_step s s'"
proof (cases "psMain s = Selecting")
  case True
  then show ?thesis using assms(2) processes_step.main_signal processes_step.main_error by (auto simp: ending_def)
next
  case False
  then have w: "psMain s = WaitingForAll" "psInnerDone s" using assms by (cases "psMain s"; simp add: processes_ok_def)+
  have g: "psServer s \<noteq> Stopping" "psManager s \<noteq> Stopping" using assms(1) by (simp_all add: processes_ok_def)
  show ?thesis
  proof (cases "psStopper s = Finished \<and> psServer s = Finished \<and> psManager s = Finished \<and> psCleaner s = CleanerFinished")
    case False
    then show ?thesis using w g
      by (cases "psStopper s"; cases "psServer s"; cases "psManager s"; cases "psCleaner s") (auto intro: processes_step.intros)
  qed (use w(1) processes_step.main_returns in blast)
qed

interpretation goroutines: ending_system processes_step processes_ok ending "\<lambda>s. psMain s = Returned" work_left
  by unfold_locales (fact processes_step_ok ending_step work_left_step ending_progress)+

text \<open>C19: The daemon ends, and ends in order.  Once a signal has arrived or one of its parts has failed, whatever the parts do and in whichever order, every
  run comes to an end, no state on the way is stuck before \<open>RunNodeDaemon\<close> has returned, and when it returns (and the lock of
  the store is released) the server, the manager and the cleaner have all finished.\<close>

theorem shutdown_in_order:
  assumes "processes_run processes_start s"
  shows "(psMain s = Returned \<longrightarrow> psServer s = Finished \<and> psManager s = Finished \<and> psCleaner s = CleanerFinished) \<and>
    (psSignal s \<or> psErrCh s \<longrightarrow> (\<forall>t. processes_run s t \<and> (\<nexists>t'. processes_step t t') \<longrightarrow> psMain t = Returned) \<and> (\<exists>t. processes_run s t \<and> psMain t = Returned)) \<and>
    (\<forall>f. f 0 = s \<longrightarrow> (\<exists>i. \<not> processes_step (f i) (f (Suc i))))"
proof -
  have ok: "processes_ok s" using goroutines.inv_run [OF assms processes_start_ok] .
  then have "psMain s = Returned \<longrightarrow> psServer s = Finished \<and> psManager s = Finished \<and> psCleaner s = CleanerFinished" by (simp add: processes_ok_def)
  moreover have "psSignal s \<or> psErrCh s \<Longrightarrow> ending s" by (auto simp: ending_def)
  ultimately show ?thesis using goroutines.stuck_final [OF ok] goroutines.finishes [OF ok] goroutines.no_infinite_run by blast
qed

text \<open>A signal arrives while the cleaner waits for the cache.\<close>

abbreviation ex_processes :: "goroutine \<Rightarrow> goroutine \<Rightarrow> goroutine \<Rightarrow> cleaner_phase \<Rightarrow> bool \<Rightarrow> main_phase \<Rightarrow> processes" where
  "ex_processes stopper server manager cln err m \<equiv> \<lparr>psSignal = True, psInnerDone = True, psErrCh = err, psStopper = stopper, psServer = server,
     psManager = manager, psCleaner = cln, psMain = m\<rparr>"

lemma ex_signalled: "processes_run processes_start (ex_processes Running Running Running WaitingForCache False Selecting)"
  using processes_step.signal [of processes_start] by (simp add: processes_start_def)

lemma run_first: "processes_step a b \<Longrightarrow> processes_run b c \<Longrightarrow> processes_run a c"
  by (rule converse_rtranclp_into_rtranclp)

lemma ex_stopped: "processes_run (ex_processes Running Running Running WaitingForCache False Selecting) (ex_processes Finished Finished Finished CleanerFinished True Returned)"
proof -
  have st1: "processes_step (ex_processes Running Running Running WaitingForCache False Selecting) (ex_processes Stopping Running Running WaitingForCache False Selecting)"
    using processes_step.stop_server [of "ex_processes Running Running Running WaitingForCache False Selecting"] by simp
  have st2: "processes_step (ex_processes Stopping Running Running WaitingForCache False Selecting) (ex_processes Finished Running Running WaitingForCache False Selecting)"
    using processes_step.server_drained [of "ex_processes Stopping Running Running WaitingForCache False Selecting"] by simp
  have st3: "processes_step (ex_processes Finished Running Running WaitingForCache False Selecting) (ex_processes Finished Finished Running WaitingForCache False Selecting)"
    using processes_step.server_returns [of "ex_processes Finished Running Running WaitingForCache False Selecting"] by simp
  have st4: "processes_step (ex_processes Finished Finished Running WaitingForCache False Selecting) (ex_processes Finished Finished Finished WaitingForCache False Selecting)"
    using processes_step.manager_returns [of "ex_processes Finished Finished Running WaitingForCache False Selecting"] by simp
  have st5: "processes_step (ex_processes Finished Finished Finished WaitingForCache False Selecting) (ex_processes Finished Finished Finished CleanerFinished True Selecting)"
    using processes_step.cache_not_synced [of "ex_processes Finished Finished Finished WaitingForCache False Selecting"] by simp
  have st6: "processes_step (ex_processes Finished Finished Finished CleanerFinished True Selecting) (ex_processes Finished Finished Finished CleanerFinished True WaitingForAll)"
    using processes_step.main_signal [of "ex_processes Finished Finished Finished CleanerFinished True Selecting"] by simp
  have st7: "processes_step (ex_processes Finished Finished Finished CleanerFinished True WaitingForAll) (ex_processes Finished Finished Finished CleanerFinished True Returned)"
    using processes_step.main_returns [of "ex_processes Finished Finished Finished CleanerFinished True WaitingForAll"] by simp
  show ?thesis by (rule run_first [OF st1 run_first [OF st2 run_first [OF st3 run_first [OF st4 run_first [OF st5 run_first [OF st6 run_first [OF st7
          rtranclp.rtrancl_refl [of processes_step]]]]]]]])
qed

theorem shutdown_in_order_witness:
  "\<exists>s t. processes_run processes_start s \<and> psSignal s \<and> processes_run s t \<and> \<not> (\<exists>t'. processes_step t t') \<and> psMain t = Returned"
proof -
  have "\<nexists>t'. processes_step (ex_processes Finished Finished Finished CleanerFinished True Returned) t'" by (auto elim: processes_stepE)
  moreover have "psMain t = Returned" if "processes_run (ex_processes Running Running Running WaitingForCache False Selecting) t" "\<nexists>t'. processes_step t t'" for t
    using conjunct1 [OF conjunct2 [OF shutdown_in_order [OF ex_signalled]]] that by (simp only: processes.simps simp_thms)
  ultimately show ?thesis using ex_signalled ex_stopped
    by (intro exI [of _ "ex_processes Running Running Running WaitingForCache False Selecting"]
        exI [of _ "ex_processes Finished Finished Finished CleanerFinished True Returned"]) simp
qed

end
