(* ===== verification/Middleware.thy ===== *)
theory Middleware
  imports Handlers
begin

text \<open>
  The interceptors of the gRPC server (\<open>pkg/ipam-node/grpc/middleware\<close>), which wrap every handler: one puts a logger for the request into the context,
  the other logs the call with it.  A handler answers with a response, an error and what it logs; the identifier of the
  request, a random UUID, and the time the call takes are arguments.
\<close>

type_synonym logger = "(string \<times> string) list"

record rpc_context =
  rcLogger :: "logger option"
  rcCanceled :: bool

datatype log_line = REQUEST logger | RESPONSE logger | ERROR_RESPONSE logger | HandlerLine logger string

record 'a rpc_answer =
  raResponse :: "'a option"
  raError :: "status option"
  raLog :: "log_line list"

type_synonym ('q, 'a) rpc_handler = "rpc_context \<Rightarrow> 'q \<Rightarrow> 'a rpc_answer"

definition SetLoggerMiddleware :: "string \<Rightarrow> string \<Rightarrow> rpc_context \<Rightarrow> 'q \<Rightarrow> ('q, 'a) rpc_handler \<Rightarrow> 'a rpc_answer" where
  "SetLoggerMiddleware reqID fullMethod ctx req handler =
     handler (ctx\<lparr>rcLogger := Some [(''method'', fullMethod), (''reqID'', reqID)]\<rparr>) req"

text \<open>Without a logger in the context everything is discarded.\<close>

definition LogCallMiddleware :: "string \<Rightarrow> rpc_context \<Rightarrow> 'q \<Rightarrow> ('q, 'a) rpc_handler \<Rightarrow> 'a rpc_answer" where
  "LogCallMiddleware duration ctx req handler =
     (let answer = handler ctx req
      in case rcLogger ctx of
           None \<Rightarrow> answer
         | Some reqLogger \<Rightarrow>
             let timed = reqLogger @ [(''call_duration_sec'', duration)]
             in answer\<lparr>raLog := REQUEST reqLogger # raLog answer @ [if raError answer \<noteq> None then ERROR_RESPONSE timed else RESPONSE timed]\<rparr>)"

text \<open>The chain of \<open>initGRPCServer\<close>: the first interceptor is the outermost.\<close>

definition server_chain :: "string \<Rightarrow> string \<Rightarrow> string \<Rightarrow> ('q, 'a) rpc_handler \<Rightarrow> ('q, 'a) rpc_handler" where
  "server_chain reqID fullMethod duration handler ctx req =
     SetLoggerMiddleware reqID fullMethod ctx req (\<lambda>ctx1 req1. LogCallMiddleware duration ctx1 req1 handler)"

text \<open>The interceptors change no answer: a call through the chain gets the response and the error of the handler, called once with the request
  as it came and a context that differs only in its logger.  The log shows the request first and its outcome last.\<close>

lemma server_chain_transparent:
  "raResponse (server_chain reqID fullMethod duration handler ctx req) = raResponse (handler (ctx\<lparr>rcLogger := Some [(''method'', fullMethod), (''reqID'', reqID)]\<rparr>) req)"
  "raError (server_chain reqID fullMethod duration handler ctx req) = raError (handler (ctx\<lparr>rcLogger := Some [(''method'', fullMethod), (''reqID'', reqID)]\<rparr>) req)"
  by (simp_all add: server_chain_def SetLoggerMiddleware_def LogCallMiddleware_def Let_def)

lemma server_chain_log:
  "\<exists>inner line. raLog (server_chain reqID fullMethod duration handler ctx req) = REQUEST [(''method'', fullMethod), (''reqID'', reqID)] # inner @ [line] \<and>
     (raError (server_chain reqID fullMethod duration handler ctx req) = None \<longleftrightarrow>
        line = RESPONSE [(''method'', fullMethod), (''reqID'', reqID), (''call_duration_sec'', duration)])"
  by (cases "raError (handler (ctx\<lparr>rcLogger := Some [(''method'', fullMethod), (''reqID'', reqID)]\<rparr>) req)")
    (simp_all add: server_chain_def SetLoggerMiddleware_def LogCallMiddleware_def Let_def)

end
