(* ===== verification/ControllerMain.thy ===== *)
theory ControllerMain
  imports Options
begin

text \<open>
  The controller program (\<open>cmd/ipam-controller/app/app.go\<close>): its command line and the order in which it sets up its parts.  Every step of the set-up
  is a call into controller-runtime, whose outcome is an argument; what the program decides itself is which steps run, with which
  options, and how it ends.
\<close>

datatype controller_step =
    CtlClientScheme | CtlIpamScheme | CtlManager | CtlNode | CtlIPPoolWebhook | CtlCIDRPoolWebhook | CtlIPPool | CtlCIDRPool | CtlHealthz | CtlReadyz | CtlRun

text \<open>The way the program ends: an error of a step, the end of the process by \<open>os.Exit\<close>, or a normal end.\<close>

datatype controller_end = CtlFailed controller_step | CtlExited controller_step | CtlStopped

definition controller_steps :: "controller_options \<Rightarrow> controller_step list" where
  "controller_steps opts =
     [CtlClientScheme, CtlIpamScheme, CtlManager, CtlNode] @
     (if coEnableWebHook opts then [CtlIPPoolWebhook, CtlCIDRPoolWebhook] else []) @
     [CtlIPPool, CtlCIDRPool, CtlHealthz, CtlReadyz, CtlRun]"

definition RunController :: "(controller_step \<Rightarrow> bool) \<Rightarrow> controller_options \<Rightarrow> controller_end" where
  "RunController outcome opts =
     (case find (\<lambda>st. \<not> outcome st) (controller_steps opts) of
        None \<Rightarrow> CtlStopped
      | Some st \<Rightarrow> if st = CtlIPPoolWebhook \<or> st = CtlCIDRPoolWebhook then CtlExited st else CtlFailed st)"

definition controller_command ::
    "(controller_step \<Rightarrow> bool) \<Rightarrow> string option \<Rightarrow> bool \<Rightarrow> (string \<times> flag_value) list \<Rightarrow> string list \<Rightarrow> command_error + controller_end" where
  "controller_command outcome common getConfig flags args =
     (case set_flags controller_AddNamedFlagSets flags controller_New of
        None \<Rightarrow> Inl FlagError
      | Some opts \<Rightarrow>
          if \<not> command_args args then Inl UnexpectedArguments
          else
            (case controller_Validate common opts of
               Some err \<Rightarrow> Inl (InvalidConfig err)
             | None \<Rightarrow> if \<not> getConfig then Inl NoClientConfig else Inr (RunController outcome opts)))"

text \<open>The webhooks are set up exactly when they are asked for, after the controller of the nodes and before those of the pools.\<close>

lemma controller_steps_order:
  "(CtlIPPoolWebhook \<in> set (controller_steps opts)) = coEnableWebHook opts" "distinct (controller_steps opts)"
  by (simp_all add: controller_steps_def)

lemma RunController_ended:
  "RunController outcome opts = CtlStopped \<longleftrightarrow> (\<forall>st \<in> set (controller_steps opts). outcome st)"
  using find_None_iff [of "\<lambda>st. \<not> outcome st" "controller_steps opts"] by (auto simp: RunController_def split: option.splits if_splits)

lemma RunController_exited: "RunController outcome opts = CtlExited st \<Longrightarrow> coEnableWebHook opts \<and> \<not> outcome st"
proof -
  assume "RunController outcome opts = CtlExited st"
  then have f: "find (\<lambda>st. \<not> outcome st) (controller_steps opts) = Some st" "st = CtlIPPoolWebhook \<or> st = CtlCIDRPoolWebhook"
    by (auto simp: RunController_def split: option.splits if_splits)
  then have "st \<in> set (controller_steps opts)" "\<not> outcome st" using find_found [OF f(1)] by auto
  then show ?thesis using f(2) by (auto simp: controller_steps_def split: if_splits)
qed

end
