(* ===== verification/NodeCtrl.thy ===== *)
theory NodeCtrl
  imports CIDRPoolCtrl
begin

text \<open>
  The \<open>Node\<close> controller (\<open>pkg/ipam-controller/controllers/node/node.go\<close>): a notification on a node makes it send an event for
  every pool of the namespace to the two pool controllers.  An event becomes a reconciliation request for the object it
  names.  The channels are the list of the events sent, in the order of sending; listing the objects is a parameter.
\<close>

datatype pool_event = IPPoolNodeEvent "string \<times> string" | CIDRPoolNodeEvent "string \<times> string"

record 'n node_reconciler =
  nrPoolsNamespace :: string
  nrGet :: "string \<times> string \<Rightarrow> 'n get_result"
  nrListIPPools :: "string \<Rightarrow> string + IPPool list"
  nrListCIDRPools :: "string \<Rightarrow> string + CIDRPool list"

definition NodeReconciler_Reconcile :: "'n node_reconciler \<Rightarrow> string \<times> string \<Rightarrow> string option \<times> pool_event list" where
  "NodeReconciler_Reconcile r req =
     (case nrGet r req of
        GetFailed e \<Rightarrow> (Some e, [])
      | _ \<Rightarrow>
          (case nrListIPPools r (nrPoolsNamespace r) of
             Inl e \<Rightarrow> (Some e, [])
           | Inr ipPools \<Rightarrow>
               (let sent = map (\<lambda>p. IPPoolNodeEvent (nrPoolsNamespace r, ipName p)) ipPools
                in case nrListCIDRPools r (nrPoolsNamespace r) of
                     Inl e \<Rightarrow> (Some e, sent)
                   | Inr cidrPools \<Rightarrow> (None, sent @ map (\<lambda>p. CIDRPoolNodeEvent (nrPoolsNamespace r, cpName p)) cidrPools))))"

lemma NodeReconciler_sent:
  assumes "NodeReconciler_Reconcile r req = (None, evs)" "nrListIPPools r (nrPoolsNamespace r) = Inr ipPools"
    "nrListCIDRPools r (nrPoolsNamespace r) = Inr cidrPools"
  shows "evs = map (\<lambda>p. IPPoolNodeEvent (nrPoolsNamespace r, ipName p)) ipPools @ map (\<lambda>p. CIDRPoolNodeEvent (nrPoolsNamespace r, cpName p)) cidrPools"
  using assms by (simp add: NodeReconciler_Reconcile_def Let_def split: get_result.splits)


definition demo_reconciler :: "unit node_reconciler" where
  "demo_reconciler = \<lparr>nrPoolsNamespace = ''kube-system'', nrGet = (\<lambda>_. GetNotFound), nrListIPPools = (\<lambda>_. Inr [demo_pool]),
     nrListCIDRPools = (\<lambda>_. Inr [demo_cidr])\<rparr>"


end
