(* ===== verification/Spec2Isabelle.thy ===== *)
theory Spec2Isabelle
  imports Restart Startup Shutdown Middleware ControllerMain NodeCtrl
begin

text \<open>
  Verification of the NVIDIA Kubernetes IPAM plugin.

  \<^bold>\<open>The program.\<close>  A controller divides the addresses of a pool among the nodes of a Kubernetes cluster, a daemon on every node
  hands single addresses out to containers, and a CNI plugin asks the daemon on behalf of the container runtime.  Pools
  come as API objects of two kinds: an \<open>IPPool\<close> has one subnet and gives every node a block of addresses, a \<open>CIDRPool\<close> splits a
  network and gives every node a prefix.  The parts and how they interact:

  \<^item> The webhooks and the controllers validate the objects (\<open>api/v1alpha1\<close>).
  \<^item> The node controller (\<open>pkg/ipam-controller/controllers/node\<close>) turns every change of a node into a request for every pool; the
    pool controllers (\<open>.../controllers/ippool\<close>, \<open>.../controllers/cidrpool\<close>, with the block allocator
    \<open>pkg/ipam-controller/allocator\<close>) write the allocations of the nodes into the status of the pool.
  \<^item> On a node, two more controllers (\<open>pkg/ipam-node/controllers\<close>) read the objects and keep the configuration of the node's
    share of each pool in the manager (\<open>pkg/pool\<close>).
  \<^item> The gRPC handlers (\<open>pkg/ipam-node/handlers\<close>) allocate from that configuration with the address allocator
    (\<open>pkg/ipam-node/allocator\<close>) and record reservations in a store with sessions (\<open>pkg/ipam-node/store\<close>); the cleaner
    (\<open>pkg/ipam-node/cleaner\<close>) releases the reservations of Pods that are gone.
  \<^item> The CNI plugin (\<open>pkg/cni\<close>) builds requests from its configuration and turns the answers into CNI results.
  \<^item> The programs (\<open>cmd/ipam-node\<close>, \<open>cmd/ipam-controller\<close>) read their options, set the parts up and end them.  The daemon copies the
    plugin to the host (\<open>pkg/cmdutils\<close>), writes its configuration, locks and checks its store, takes its socket over and runs the
    gRPC server behind two interceptors (\<open>pkg/ipam-node/grpc/middleware\<close>), the controllers and the cleaner as goroutines.

  \<^bold>\<open>Theories.\<close>  Each holds the definitions of a part, in the order of the code, and the lemmas on it.

  \<^item> \<open>Prelude\<close>: results as sums, byte lists read as numbers, bit masks on bytes, lemmas on lists.
  \<^item> \<open>GoNet\<close>, \<open>GoNetText\<close>, \<open>GoNetRoundtrip\<close>: what is used of Go's package \<open>net\<close>: addresses as byte lists, masks, networks, printing and
    parsing, and that parsing inverts printing.
  \<^item> \<open>IpCidr\<close> (\<open>pkg/ip/cidr.go\<close>): address arithmetic and the prefix iterator, on the numeric value of an address.
  \<^item> \<open>StoreTypes\<close>, \<open>Store\<close> (\<open>pkg/ipam-node/types\<close>, \<open>pkg/ipam-node/store\<close>): the layout of the store, its checksum, sessions and their
    operations; the reachable states of the store, atomicity and durability of commits, the release cooldown.
  \<^item> \<open>NodeAllocator\<close> (\<open>pkg/ipam-node/allocator\<close>): ranges, range sets, the round-robin iterator, dynamic and static allocation; the
    dynamic one refines an abstract round-robin choice.
  \<^item> \<open>Helpers\<close>, \<open>ApiTypes\<close>, \<open>Validation\<close> (\<open>api/v1alpha1\<close>): exclusion arithmetic, pool objects, validation and webhooks; what a validated
    object guarantees to the controllers.
  \<^item> \<open>PoolAllocator\<close> (\<open>pkg/ipam-controller/allocator\<close>): the block allocator; disjointness of the blocks in all reachable states and
    refinement of first fit.
  \<^item> \<open>Reconcile\<close>, \<open>IPPoolCtrl\<close>, \<open>CIDRPoolCtrl\<close>, \<open>NodeCtrl\<close> (\<open>pkg/ipam-controller/controllers\<close>): the cluster as the controllers see it, the loop
    over the nodes as a locale with one interpretation per pool kind, the reconciliations and what they leave in the status.
  \<^item> \<open>NodePools\<close> (\<open>pkg/pool\<close>, \<open>pkg/common\<close>, \<open>pkg/ipam-node/controllers\<close>): the manager, an interface \<open>config_manager\<close> of which it is an
    interpretation, and that the configuration follows the objects.
  \<^item> \<open>Handlers\<close>, \<open>HandlerPools\<close>, \<open>HandlerCalls\<close> (\<open>pkg/ipam-node/handlers\<close>): the handlers, the effect of an allocation in one pool, and the
    laws of the three calls on the store.
  \<^item> \<open>Cleaner\<close>, \<open>CleanerPasses\<close> (\<open>pkg/ipam-node/cleaner\<close>): a pass, what it makes of each reservation, and sequences of passes.
  \<^item> \<open>CniConf\<close>, \<open>CniPlugin\<close> (\<open>pkg/cni\<close>): loading the configuration and the commands, with the handlers as the daemon they talk to.
  \<^item> \<open>Daemon\<close> (\<open>RunNodeDaemon\<close> in \<open>cmd/ipam-node/app/app.go\<close>): controllers, handlers and cleaner over one store as a state machine.
  \<^item> \<open>Restart\<close>: that machine with restarts from the file of the store between its inputs; the relation of the file and the data in
    memory, and what a restart keeps.
  \<^item> \<open>GoUrl\<close>, \<open>Options\<close> (\<open>cmd/*/app/options\<close>): parsing of URLs as in Go 1.26, defaults, flags and validation of the options, bind addresses.
  \<^item> \<open>HostFiles\<close> (\<open>pkg/cmdutils/utils.go\<close>): a file system, cleaned paths, and the atomic replacement of a file with all its states.
  \<^item> \<open>Startup\<close> (\<open>cmd/ipam-node/app/app.go\<close>): the command, the deployment of the plugin, lock, store and socket in the order of the code.
  \<^item> \<open>Shutdown\<close> (\<open>cmd/ipam-node/app/app.go\<close>): the goroutines of the daemon as a transition system, its invariant, progress and end.
  \<^item> \<open>Middleware\<close> (\<open>pkg/ipam-node/grpc/middleware\<close>), \<open>ControllerMain\<close> (\<open>cmd/ipam-controller/app/app.go\<close>): the interceptors, and the command and
    set-up of the controller.
  \<^item> This theory: the controller and two nodes together.

  \<^bold>\<open>How code is modelled.\<close>  Structs are records with a prefix per type, Go maps are maps or association lists with unique keys,
  errors are the left side of a sum, and \<^const>\<open>None\<close> of an outer \<open>option\<close> is a panic or spent fuel.  State is passed explicitly: a
  session of the store, the store, the manager, the cleaner.  Integers of type \<open>int\<close> and \<open>int64\<close>, times and durations are
  \<^typ>\<open>int\<close>; bytes are 8-bit words.  The fuel of the address search, of the block search and of the prefix search exceeds
  the number of addresses of the network (\<open>pool_plain\<close>, \<open>ippool_request\<close>, \<open>cidr_request\<close>), and the theorems state that the code
  returns then; the loops visit each address, block or prefix at most once.

  \<^bold>\<open>Parameters.\<close>  The API server, its cache and the label selectors, JSON encoding and decoding (of the store, of
  configurations, of a pool), the decoding of \<open>CNI_ARGS\<close>, the outcome of reading and writing files, the clock, cancellation of a
  context, and the validation functions of Kubernetes' own packages are arguments of the definitions.  At start and end they are
  the failures of single file operations, the random numbers of temporary files, the outcome of the calls that set up
  controller-runtime, and the documented effects of \<open>flock\<close> (a lock belongs to a file), \<open>renameio\<close> (another file takes the place of
  the old one), \<open>GracefulStop\<close> and contexts.  A restart relies on the JSON codec reading back the last document it wrote (\<open>readable\<close>).

  \<^bold>\<open>Concurrency.\<close>  A session holds the lock of the store from \<open>Open\<close> to \<open>Commit\<close> or \<open>Cancel\<close>, and the manager locks every
  operation; \<open>Daemon\<close> therefore runs the inputs of the daemon one after the other in an arbitrary order.  An allocation reads the
  configuration while it holds the store, which the model treats as one step.

  \<^bold>\<open>Crashes.\<close>  A write replaces the file of the store as a whole, so that a crash is a restart between two inputs (\<open>Restart\<close>); a copy
  that is interrupted leaves one of the states that \<open>HostFiles\<close> lists.

  \<^bold>\<open>What is not modelled.\<close>  The flags of Kubernetes' logging (\<open>pkg/cmdoptions\<close>), log lines other than those of the interceptors, the
  version text, and the registration of the controllers with controller-runtime beyond its order and outcome.  Generated
  code: deep copies and protocol buffers (the messages are records).  Symbolic links, and the parent directories of a file other
  than the directory of the plugin.  Go's \<open>int\<close> is unbounded here: the values that the code computes with it are bounded by the size
  of a network or by a count of passes.  \<open>strings.ToLower\<close> is modelled on ASCII text.
\<close>

section \<open>Two nodes\<close>

text \<open>The controller, the node controllers and the node service together.  The controller writes the allocations of a pool into
  its status; every node builds its configuration from the objects it reads; the service of a node hands out addresses from
  that configuration.  No two nodes share a store, so that what keeps their addresses apart is the allocations alone.\<close>

text \<open>The service of a node that has handled the notifications \<open>es\<close> answers the request \<open>params\<close> with \<open>info\<close> among others.  What the
  service relies on is that of \<open>Handlers_Allocate\<close>: an open store with a well-formed content, JSON encoding that does not fail
  and networks that the fuel covers.\<close>

definition node_service :: "ext_validation \<Rightarrow> string \<Rightarrow> node_event list \<Rightarrow> env \<Rightarrow> handlers \<Rightarrow> store \<Rightarrow> bool" where
  "node_service ev nodeName es env h m \<longleftrightarrow>
     list_all (\<lambda>e. CHR ''/'' \<notin> set (event_name e)) es \<and> node_run ev nodeName es NewManager = Some (hdPools h) \<and>
     (\<exists>d. store_ready m d) \<and> (\<forall>r. evMarshal env r \<noteq> None) \<and>
     (\<forall>key cfg. GetPoolByKey key (hdPools h) = Some cfg \<longrightarrow> pool_plain (evFuel env) cfg)"

definition hands_out :: "ext_validation \<Rightarrow> string \<Rightarrow> node_event list \<Rightarrow> env \<Rightarrow> handlers \<Rightarrow> store \<Rightarrow> IPAMParameters \<Rightarrow> AllocationInfo \<Rightarrow> bool" where
  "hands_out ev nodeName es env h m params info \<longleftrightarrow> node_service ev nodeName es env h m \<and>
     (\<exists>infos m'. Handlers_Allocate env h (Some params) m = Some (Inr infos, m') \<and> info \<in> set infos)"

lemma node_service_pools:
  assumes sv: "node_service ev nodeName es env h m" and name: "CHR ''/'' \<notin> set name"
  shows "last_ippool name es = Some g \<Longrightarrow> GetPoolByKey (GetPoolKey name PoolTypeIPPool) (hdPools h) = ippool_wanted nodeName g"
    "last_cidrpool name es = Some g' \<Longrightarrow> GetPoolByKey (GetPoolKey name PoolTypeCIDRPool) (hdPools h) = cidrpool_wanted ev nodeName g'"
proof -
  have es: "\<forall>e \<in> set es. CHR ''/'' \<notin> set (event_name e)" "node_run ev nodeName es NewManager = Some (hdPools h)"
    using sv by (simp_all add: node_service_def list_all_iff)
  note l = node_config_law [OF es(1) name, of ev nodeName, unfolded es(2)]
  show "last_ippool name es = Some g \<Longrightarrow> GetPoolByKey (GetPoolKey name PoolTypeIPPool) (hdPools h) = ippool_wanted nodeName g"
    "last_cidrpool name es = Some g' \<Longrightarrow> GetPoolByKey (GetPoolKey name PoolTypeCIDRPool) (hdPools h) = cidrpool_wanted ev nodeName g'"
    using l by auto
qed

lemma sorted_wrt_apart:
  assumes "sorted_wrt P xs" "x \<in> set xs" "y \<in> set xs" "x \<noteq> y"
  shows "P x y \<or> P y x"
  using assms by (induction xs) auto

lemma hands_out_info:
  assumes "hands_out ev nodeName es env h m params info"
  obtains d d' where "info_ok h params d d' info" "\<forall>key cfg. GetPoolByKey key (hdPools h) = Some cfg \<longrightarrow> pool_plain (evFuel env) cfg"
proof -
  obtain d infos m' where d: "store_ready m d" "\<forall>r. evMarshal env r \<noteq> None"
    "\<forall>key cfg. GetPoolByKey key (hdPools h) = Some cfg \<longrightarrow> pool_plain (evFuel env) cfg"
    and al: "Handlers_Allocate env h (Some params) m = Some (Inr infos, m')" "info \<in> set infos"
    using assms unfolding hands_out_def node_service_def by (elim exE conjE) (rule that; assumption)
  obtain d' where "list_all (info_ok h params d d') infos"
    using Handlers_Allocate_law [OF d, of "Some params"] unfolding al(1) by auto
  then have "info_ok h params d d' info" using al(2) by (simp add: list_all_iff)
  then show ?thesis using d(3) by (rule that)
qed

lemma hands_outD:
  assumes "hands_out ev nodeName es env h m params info" "GetPoolByKey (pkey params (aiPool info)) (hdPools h) = Some cfg"
  obtains ip n x where "ParseCIDR (plSubnet cfg) = Some (ip, n)" "wf_net n" "IPNet_Contains n x"
    "ParseCIDR (aiIp info) = Some (To16 (NormalizeIP x), n)" "wants_any params \<Longrightarrow> pmRequestedIps params = [] \<Longrightarrow> pool_offers cfg x"
proof -
  obtain d d' where d: "info_ok h params d d' info" "\<forall>key cfg. GetPoolByKey key (hdPools h) = Some cfg \<longrightarrow> pool_plain (evFuel env) cfg"
    using hands_out_info [OF assms(1)] by blast
  from d(1) obtain c ip n and r :: Reservation where c: "cfg = c" "ParseCIDR (plSubnet c) = Some (ip, n)" "aiIp info = IPNet_String \<lparr>ipnIP = rsIPAddress r, ipnMask = ipnMask n\<rparr>"
    "IPNet_Contains n (rsIPAddress r)" "wants_any params \<and> pmRequestedIps params = [] \<longrightarrow> pool_offers c (rsIPAddress r)"
    unfolding info_ok_def assms(2) option.inject by (elim exE conjE) (rule that; assumption)
  note i = c(2-5) [folded c(1)]
  have "pool_plain (evFuel env) cfg" using d(2) assms(2) by blast
  then have n: "wf_net n" using i(1) by (simp add: pool_plain_def)
  show ?thesis by (rule that [OF i(1) n i(3)]) (use ParseCIDR_host [OF n i(3)] i(2,4) in auto)
qed

lemma hands_out_config:
  assumes "hands_out ev nodeName es env h m params info"
  shows "\<exists>cfg. GetPoolByKey (pkey params (aiPool info)) (hdPools h) = Some cfg"
  by (rule hands_out_info [OF assms]) (auto simp: info_ok_def)

subsection \<open>IPPool\<close>

lemma ippool_wantedD:
  assumes "ippool_wanted nodeName (Got p) = Some cfg"
  shows "\<exists>a \<in> set (ipAllocations (ipStatus p)). alNodeName a = nodeName \<and> cfg = ippool_node_pool p a"
proof -
  obtain a where "find (\<lambda>alloc. alNodeName alloc = nodeName) (ipAllocations (ipStatus p)) = Some a" "cfg = ippool_node_pool p a"
    using assms by (auto simp: ippool_wanted_def)
  with find_found [OF this(1)] show ?thesis by blast
qed

lemma ippool_hands_out:
  assumes "hands_out ev nodeName es env h m params info" "pmPoolType params \<noteq> POOL_TYPE_CIDRPOOL"
    "CHR ''/'' \<notin> set (aiPool info)" "last_ippool (aiPool info) es = Some (Got p)"
  shows "\<exists>a \<in> set (ipAllocations (ipStatus p)). alNodeName a = nodeName \<and>
    GetPoolByKey (pkey params (aiPool info)) (hdPools h) = Some (ippool_node_pool p a)"
proof -
  have "pkey params (aiPool info) = GetPoolKey (aiPool info) PoolTypeIPPool" using assms(2) by (simp add: poolTypeAsString_def)
  then have w: "GetPoolByKey (pkey params (aiPool info)) (hdPools h) = ippool_wanted nodeName (Got p)"
    using node_service_pools(1) [OF _ assms(3,4), of ev nodeName env h m] assms(1) by (simp add: hands_out_def)
  then obtain cfg where cfg: "ippool_wanted nodeName (Got p) = Some cfg" using hands_out_config [OF assms(1)] by metis
  show ?thesis using ippool_wantedD [OF cfg] unfolding w cfg by blast
qed

lemma contains_len:
  assumes "wf_net n" "IPNet_Contains n x"
  shows "ip_len x = length (ipnIP n)" "ipnIP n \<noteq> []"
  using host_masked(2) [OF assms] wf_netD(1) [OF assms(1)] by (auto simp: ip_len_def)

lemma offers_in_block:
  assumes "pool_offers (ippool_node_pool p a) x" "IPNet_Contains n (ParseIP (alStartIP a))" "IPNet_Contains n (ParseIP (alEndIP a))"
    "IPNet_Contains n x" "wf_net n"
  shows "range_has (parsed_range a) x"
proof -
  have "ip_val (ParseIP (alStartIP a)) \<le> ip_val x" "ip_val x \<le> ip_val (ParseIP (alEndIP a))"
    using assms(1) by (simp_all add: pool_offers_def ippool_node_pool_def Let_def)
  then show ?thesis using assms(2-5) by (simp add: range_has_def parsed_range_def Cmp_iffs contains_len)
qed

lemma shown_same:
  assumes "wf_net n" "IPNet_Contains n x" "IPNet_Contains n y" "To16 (NormalizeIP x) = To16 (NormalizeIP y)"
  shows "ip_val x = ip_val y" "ip_len x = ip_len y"
proof -
  have "length (NormalizeIP x) = length (NormalizeIP y)" "length (NormalizeIP y) = 4 \<or> length (NormalizeIP y) = 16"
    using host_masked(2) [OF assms(1,2)] host_masked(2) [OF assms(1,3)] wf_netD(1) [OF assms(1)] by auto
  then have "NormalizeIP x = NormalizeIP y" using assms(4) by (auto simp: To16_def)
  then show "ip_val x = ip_val y" "ip_len x = ip_len y" by (simp_all add: ip_val_def ip_len_def)
qed


subsection \<open>CIDRPool\<close>

lemma cidrpool_wantedD:
  assumes "cidrpool_wanted ev nodeName (Got p) = Some cfg"
  shows "\<exists>a \<in> set (cpAllocations (cpStatus p)). caNodeName a = nodeName \<and> plSubnet cfg = caPrefix a"
proof -
  obtain a where f: "find (\<lambda>alloc. caNodeName alloc = nodeName) (cpAllocations (cpStatus p)) = Some a"
    using assms by (cases "find (\<lambda>alloc. caNodeName alloc = nodeName) (cpAllocations (cpStatus p))") (simp_all add: cidrpool_wanted_def)
  have "plSubnet cfg = caPrefix a"
    using assms by (auto simp: cidrpool_wanted_def f cidrpool_node_pool_def Let_def split: if_splits)
  with find_found [OF f] show ?thesis by blast
qed

lemma cidrpool_hands_out:
  assumes "hands_out ev nodeName es env h m params info" "pmPoolType params = POOL_TYPE_CIDRPOOL"
    "CHR ''/'' \<notin> set (aiPool info)" "last_cidrpool (aiPool info) es = Some (Got p)"
  obtains a x where "a \<in> set (cpAllocations (cpStatus p))" "caNodeName a = nodeName" "wf_net (alloc_net a)" "IPNet_Contains (alloc_net a) x"
    "ParseCIDR (aiIp info) = Some (To16 (NormalizeIP x), alloc_net a)"
proof -
  have "pkey params (aiPool info) = GetPoolKey (aiPool info) PoolTypeCIDRPool" using assms(2) by (simp add: poolTypeAsString_def)
  then have w: "GetPoolByKey (pkey params (aiPool info)) (hdPools h) = cidrpool_wanted ev nodeName (Got p)"
    using node_service_pools(2) [OF _ assms(3,4), of ev nodeName env h m] assms(1) by (simp add: hands_out_def)
  then obtain cfg where cfg: "cidrpool_wanted ev nodeName (Got p) = Some cfg" using hands_out_config [OF assms(1)] by metis
  obtain a where a: "a \<in> set (cpAllocations (cpStatus p))" "caNodeName a = nodeName" "plSubnet cfg = caPrefix a"
    using cidrpool_wantedD [OF cfg] by blast
  obtain ip n x where x: "ParseCIDR (plSubnet cfg) = Some (ip, n)" "wf_net n" "IPNet_Contains n x" "ParseCIDR (aiIp info) = Some (To16 (NormalizeIP x), n)"
    using hands_outD [OF assms(1) w [unfolded cfg]] by metis
  have "n = alloc_net a" using x(1) by (simp add: alloc_net_def a(3))
  then show ?thesis using that [OF a(1,2)] x(2-4) by blast
qed


subsection \<open>A run of the whole system\<close>

text \<open>The controller reconciles a pool, two nodes read the result and answer a request each.\<close>

definition run_pool :: IPPool where
  "run_pool = set_allocations demo_pool
     [\<lparr>alNodeName = ''a'', alStartIP = ''10.0.0.5'', alEndIP = ''10.0.0.8''\<rparr>, \<lparr>alNodeName = ''b'', alStartIP = ''10.0.0.9'', alEndIP = ''10.0.0.12''\<rparr>]"

definition run_cidr :: CIDRPool where
  "run_cidr = set_cidr_allocations demo_cidr
     [\<lparr>caNodeName = ''a'', caGateway = ''192.168.0.1'', caPrefix = ''192.168.0.0/30''\<rparr>,
      \<lparr>caNodeName = ''b'', caGateway = ''192.168.0.10'', caPrefix = ''192.168.0.8/30''\<rparr>]"

lemma run_reconciled:
  "\<exists>effs. IPPool_Reconcile demo_ev demo_cluster 17 (\<lambda>_ _. None) (''kube-system'', ''pool1'') = Some (None, effs) \<and>
     run_pool = set_allocations demo_pool (status_after demo_pool effs)"
  "\<exists>effs. CIDRPool_Reconcile demo_ev demo_cidr_cluster 17 (\<lambda>_ _. None) (''kube-system'', ''pool2'') = Some (None, effs) \<and>
     run_cidr = set_cidr_allocations demo_cidr (cidr_status_after demo_cidr effs)"
proof -
  have "map_option (\<lambda>(err, effs). (err = None, set_allocations demo_pool (status_after demo_pool effs)))
      (IPPool_Reconcile demo_ev demo_cluster 17 (\<lambda>_ _. None) (''kube-system'', ''pool1'')) = Some (True, run_pool)" by code_simp
  then show "\<exists>effs. IPPool_Reconcile demo_ev demo_cluster 17 (\<lambda>_ _. None) (''kube-system'', ''pool1'') = Some (None, effs) \<and>
     run_pool = set_allocations demo_pool (status_after demo_pool effs)" by auto
  have "map_option (\<lambda>(err, effs). (err = None, set_cidr_allocations demo_cidr (cidr_status_after demo_cidr effs)))
      (CIDRPool_Reconcile demo_ev demo_cidr_cluster 17 (\<lambda>_ _. None) (''kube-system'', ''pool2'')) = Some (True, run_cidr)" by code_simp
  then show "\<exists>effs. CIDRPool_Reconcile demo_ev demo_cidr_cluster 17 (\<lambda>_ _. None) (''kube-system'', ''pool2'') = Some (None, effs) \<and>
     run_cidr = set_cidr_allocations demo_cidr (cidr_status_after demo_cidr effs)" by auto
qed

definition run_events :: "node_event list" where
  "run_events = [IPPoolEvent (Got run_pool) (''kube-system'', ''pool1''), CIDRPoolEvent (Got run_cidr) (''kube-system'', ''pool2'')]"

definition run_block :: "string \<Rightarrow> Pool" where
  "run_block nodeName =
     (if nodeName = ''a'' then \<lparr>plName = ''pool1'', plSubnet = ''10.0.0.0/28'', plStartIP = ''10.0.0.5'', plEndIP = ''10.0.0.8'', plGateway = ''10.0.0.14'',
        plExclusions = [\<lparr>exStartIP = ''10.0.0.1'', exEndIP = ''10.0.0.4''\<rparr>, \<lparr>exStartIP = ''10.0.0.5'', exEndIP = ''10.0.0.6''\<rparr>], plRoutes = [], plDefaultGateway = False\<rparr>
      else \<lparr>plName = ''pool1'', plSubnet = ''10.0.0.0/28'', plStartIP = ''10.0.0.9'', plEndIP = ''10.0.0.12'', plGateway = ''10.0.0.14'',
        plExclusions = [\<lparr>exStartIP = ''10.0.0.1'', exEndIP = ''10.0.0.4''\<rparr>, \<lparr>exStartIP = ''10.0.0.9'', exEndIP = ''10.0.0.10''\<rparr>], plRoutes = [], plDefaultGateway = False\<rparr>)"

definition run_prefix :: "string \<Rightarrow> Pool" where
  "run_prefix nodeName =
     (if nodeName = ''a'' then \<lparr>plName = ''pool2'', plSubnet = ''192.168.0.0/30'', plStartIP = ''192.168.0.1'', plEndIP = ''192.168.0.2'', plGateway = ''192.168.0.1'',
        plExclusions = [\<lparr>exStartIP = ''192.168.0.0'', exEndIP = ''192.168.0.0''\<rparr>], plRoutes = [\<lparr>plDst = ''10.1.0.0/16''\<rparr>], plDefaultGateway = True\<rparr>
      else \<lparr>plName = ''pool2'', plSubnet = ''192.168.0.8/30'', plStartIP = ''192.168.0.9'', plEndIP = ''192.168.0.10'', plGateway = ''192.168.0.10'',
        plExclusions = [\<lparr>exStartIP = ''192.168.0.8'', exEndIP = ''192.168.0.8''\<rparr>], plRoutes = [\<lparr>plDst = ''10.1.0.0/16''\<rparr>], plDefaultGateway = True\<rparr>)"

definition run_handlers :: "string \<Rightarrow> handlers" where
  "run_handlers nodeName = \<lparr>hdPools = [''pool1'' \<mapsto> run_block nodeName, ''cidrpool/pool2'' \<mapsto> run_prefix nodeName], hdReleaseCooldown = 0\<rparr>"

definition run_params :: "string \<Rightarrow> PoolType \<Rightarrow> IPAMParameters" where
  "run_params name pt = ex_params\<lparr>pmPools := [name], pmPoolType := pt\<rparr>"

abbreviation run_answer :: "string \<Rightarrow> string \<Rightarrow> PoolType \<Rightarrow> AllocationInfo list" where
  "run_answer nodeName name pt \<equiv>
     (case Handlers_Allocate ex_env (run_handlers nodeName) (Some (run_params name pt)) ex_store of Some (Inr infos, _) \<Rightarrow> infos | _ \<Rightarrow> [])"

lemma run_block_wanted:
  "ippool_wanted ''a'' (Got run_pool) = Some (run_block ''a'')" "ippool_wanted ''b'' (Got run_pool) = Some (run_block ''b'')"
  by code_simp+

lemma run_prefix_wanted_a:  "cidrpool_wanted demo_ev ''a'' (Got run_cidr) = Some (run_prefix ''a'')" 
  by code_simp

lemma run_prefix_wanted_b: "cidrpool_wanted demo_ev ''b'' (Got run_cidr) = Some (run_prefix ''b'')"
  by code_simp

lemma run_plain: "pool_plain 20 (run_block ''a'')" "pool_plain 20 (run_block ''b'')" "pool_plain 20 (run_prefix ''a'')" "pool_plain 20 (run_prefix ''b'')"
  by code_simp+

lemma run_answers_ippool:
  "map aiIp (run_answer ''a'' ''pool1'' POOL_TYPE_IPPOOL) = [''10.0.0.7/28'']" "map aiIp (run_answer ''b'' ''pool1'' POOL_TYPE_IPPOOL) = [''10.0.0.11/28'']"
  by code_simp+
lemma run_answers_cidrpool:
  "map aiIp (run_answer ''a'' ''pool2'' POOL_TYPE_CIDRPOOL) = [''192.168.0.2/30'']" "map aiIp (run_answer ''b'' ''pool2'' POOL_TYPE_CIDRPOOL) = [''192.168.0.9/30'']"
  by code_simp+

lemma run_service:
  assumes "nodeName \<in> {''a'', ''b''}"
  shows "node_service demo_ev nodeName run_events ex_env (run_handlers nodeName) ex_store"
proof -
  have w: "ippool_wanted nodeName (Got run_pool) = Some (run_block nodeName)" "cidrpool_wanted demo_ev nodeName (Got run_cidr) = Some (run_prefix nodeName)"
    "pool_plain 20 (run_block nodeName)" "pool_plain 20 (run_prefix nodeName)"
    using assms run_block_wanted run_prefix_wanted_a run_prefix_wanted_b run_plain by (elim insertE emptyE; simp only:)+
  have "node_run demo_ev nodeName run_events NewManager = Some (hdPools (run_handlers nodeName))"
    by (simp add: node_run_conv run_events_def read_failed_def node_config.put_def w(1,2) run_handlers_def Manager_UpdatePool_def
        NewManager_def GetPoolKey_def PoolTypeIPPool_def PoolTypeCIDRPool_def)
  moreover have "\<forall>key cfg. GetPoolByKey key (hdPools (run_handlers nodeName)) = Some cfg \<longrightarrow> pool_plain (evFuel ex_env) cfg"
    using w(3,4) by (simp add: run_handlers_def GetPoolByKey_def ex_env_def)
  ultimately show ?thesis using ex_ready ex_marshal_total unfolding node_service_def by (auto simp: run_events_def)
qed

text \<open>The answers of the two nodes.\<close>

lemma run_hands_out:
  assumes "nodeName \<in> {''a'', ''b''}" "map aiIp (run_answer nodeName name pt) = [ip]"
  obtains info where "hands_out demo_ev nodeName run_events ex_env (run_handlers nodeName) ex_store (run_params name pt) info" "aiPool info = name" "aiIp info = ip"
proof -
  obtain infos m' where r: "Handlers_Allocate ex_env (run_handlers nodeName) (Some (run_params name pt)) ex_store = Some (Inr infos, m')" "map aiIp infos = [ip]"
    using assms(2) by (auto split: option.splits sum.splits prod.splits)
  have sv: "node_service demo_ev nodeName run_events ex_env (run_handlers nodeName) ex_store" by (rule run_service [OF assms(1)])
  then have p: "\<forall>key cfg. GetPoolByKey key (hdPools (run_handlers nodeName)) = Some cfg \<longrightarrow> pool_plain (evFuel ex_env) cfg"
    by (simp add: node_service_def)
  have "map aiPool infos = [name]"
    using Handlers_Allocate_law [OF ex_ready ex_marshal_total p, of "Some (run_params name pt)"] r(1) by (auto simp: run_params_def)
  then show ?thesis using r sv that unfolding hands_out_def by force
qed



end
